(* ===== verification/Prelude.thy ===== *)
theory Prelude
  imports Main "HOL-Library.Word" "HOL-Library.List_Lexorder" "HOL-Library.Sublist" "HOL-Library.Multiset"
begin

text \<open>
  The prelude of the AkwaDB development: the types every component shares, the pieces of
  the Go standard library the sources use on byte slices (\<open>encoding/binary\<close>'s big-endian
  readers and writers, \<open>bytes.Compare\<close>, slicing), and the generic lemmas on lists and words
  that carry the component proofs.

  A Go \<open>[]byte\<close> and a Go \<open>string\<close> are both byte lists here.  \<open>uint64\<close> and \<open>int64\<close> are
  both \<^typ>\<open>64 word\<close>; a signed value is read with \<^const>\<open>sint\<close>.  The named collections
  \<open>codec\<close> (encoders and decoders) and \<open>codec_len\<close> (the lengths of encodings) are
  extended by the components.
\<close>

unbundle bit_operations_syntax

named_theorems codec "definitions of encoders and decoders"
named_theorems codec_len "lengths of encodings"

type_synonym byte = "8 word"
type_synonym bytes = "byte list"
type_synonym u16 = "16 word"
type_synonym u32 = "32 word"
type_synonym u64 = "64 word"
type_synonym i64 = "64 word"

section \<open>Big-endian integers (\<open>encoding/binary\<close>)\<close>

definition put_u16 :: "u16 \<Rightarrow> bytes" where
  "put_u16 w = [ucast (drop_bit 8 w), ucast w]"

definition put_u32 :: "u32 \<Rightarrow> bytes" where
  "put_u32 w = [ucast (drop_bit 24 w), ucast (drop_bit 16 w), ucast (drop_bit 8 w), ucast w]"

definition put_u64 :: "u64 \<Rightarrow> bytes" where
  "put_u64 w = [ucast (drop_bit 56 w), ucast (drop_bit 48 w), ucast (drop_bit 40 w),
                ucast (drop_bit 32 w), ucast (drop_bit 24 w), ucast (drop_bit 16 w),
                ucast (drop_bit 8 w), ucast w]"

text \<open>The readers take the leading bytes of the slice; every caller checks the length first.\<close>

definition be_read :: "bytes \<Rightarrow> 'a::len word" where
  "be_read bs = foldl (\<lambda>acc b. push_bit 8 acc OR ucast b) 0 bs"

definition get_u16 :: "bytes \<Rightarrow> u16" where
  "get_u16 bs = be_read (take 2 bs)"

definition get_u32 :: "bytes \<Rightarrow> u32" where
  "get_u32 bs = be_read (take 4 bs)"

definition get_u64 :: "bytes \<Rightarrow> u64" where
  "get_u64 bs = be_read (take 8 bs)"

lemma length_put_u16 [simp, codec_len]: "length (put_u16 w) = 2"
  by (simp add: put_u16_def)

lemma length_put_u32 [simp, codec_len]: "length (put_u32 w) = 4"
  by (simp add: put_u32_def)

lemma length_put_u64 [simp, codec_len]: "length (put_u64 w) = 8"
  by (simp add: put_u64_def)

text \<open>One step of a reader on the byte a writer put there shifts it back in.\<close>

lemma be_step:
  "push_bit 8 (drop_bit (m + 8) w) OR ucast (ucast (drop_bit m w) :: byte) = drop_bit m w"
proof (rule bit_word_eqI)
  fix n
  show "bit (push_bit 8 (drop_bit (m + 8) w) OR ucast (ucast (drop_bit m w) :: byte)) n
    \<longleftrightarrow> bit (drop_bit m w) n" if "n < LENGTH('a)"
    using that by (cases "n < 8") (auto simp: bit_simps not_less)
qed

lemma be_step_top:
  "LENGTH('a) \<le> m + 8 \<Longrightarrow> ucast (ucast (drop_bit m w) :: byte) = drop_bit m (w :: 'a::len word)"
  by (rule bit_word_eqI) (auto simp: bit_simps dest: bit_imp_le_length)

lemmas be_steps = be_step_top [of 8] be_step_top [of 24] be_step_top [of 56]
  be_step [of 0, simplified] be_step [of 8, simplified] be_step [of 16, simplified]
  be_step [of 24, simplified] be_step [of 32, simplified] be_step [of 40, simplified]
  be_step [of 48, simplified]

lemma get_put_u16 [simp]: "get_u16 (put_u16 w @ r) = w"
  by (simp add: get_u16_def put_u16_def be_read_def be_steps)

lemma get_put_u32 [simp]: "get_u32 (put_u32 w @ r) = w"
  by (simp add: get_u32_def put_u32_def be_read_def be_steps)

lemma get_put_u64 [simp]: "get_u64 (put_u64 w @ r) = w"
  by (simp add: get_u64_def put_u64_def be_read_def be_steps)

lemmas get_put_u16_nil [simp] = get_put_u16 [of _ "[]", simplified]
lemmas get_put_u32_nil [simp] = get_put_u32 [of _ "[]", simplified]
lemmas get_put_u64_nil [simp] = get_put_u64 [of _ "[]", simplified]

section \<open>Comparison of byte slices (\<open>bytes.Compare\<close>)\<close>

fun bytes_compare :: "bytes \<Rightarrow> bytes \<Rightarrow> int" where
  "bytes_compare [] [] = 0"
| "bytes_compare [] (b # bs) = -1"
| "bytes_compare (a # as) [] = 1"
| "bytes_compare (a # as) (b # bs) =
     (if a < b then -1 else if b < a then 1 else bytes_compare as bs)"

lemma bytes_compare_less [simp]: "bytes_compare a b < 0 \<longleftrightarrow> a < b"
  by (induction a b rule: bytes_compare.induct) auto

lemma bytes_compare_greater [simp]: "0 < bytes_compare a b \<longleftrightarrow> b < a"
  by (induction a b rule: bytes_compare.induct) auto

lemma bytes_compare_eq [simp]: "bytes_compare a b = 0 \<longleftrightarrow> a = b"
  by (induction a b rule: bytes_compare.induct) auto

lemma bytes_compare_le [simp]: "bytes_compare a b \<le> 0 \<longleftrightarrow> a \<le> b"
  using bytes_compare_greater [of a b] by (simp add: not_less [symmetric])

lemma bytes_compare_ge [simp]: "0 \<le> bytes_compare a b \<longleftrightarrow> b \<le> a"
  using bytes_compare_less [of a b] by (simp add: not_less [symmetric])

section \<open>Slices\<close>

text \<open>\<open>b[lo:hi]\<close>, for \<open>lo <= hi <= len(b)\<close>; the sources check the bounds.\<close>

definition bslice :: "nat \<Rightarrow> nat \<Rightarrow> 'a list \<Rightarrow> 'a list" where
  "bslice lo hi xs = take (hi - lo) (drop lo xs)"

lemma length_bslice [simp]: "length (bslice lo hi xs) = min (hi - lo) (length xs - lo)"
  by (simp add: bslice_def min.commute)

lemma bslice_zero [simp]: "bslice 0 n xs = take n xs"
  by (simp add: bslice_def)

lemma bslice_append_right:
  "length a \<le> lo \<Longrightarrow> bslice lo hi (a @ b) = bslice (lo - length a) (hi - length a) b"
  by (simp add: bslice_def)

lemma bslice_append_exact: "bslice (length a) (length a + length b) (a @ b @ c) = b"
  by (simp add: bslice_def)

lemma bslice_full [simp]: "bslice 0 (length xs) xs = xs"
  by simp

section \<open>Lists\<close>

lemma sorted_wrt_append_less:
  "sorted_wrt P (xs @ ys) \<Longrightarrow> x \<in> set xs \<Longrightarrow> y \<in> set ys \<Longrightarrow> P x y"
  by (simp add: sorted_wrt_append)

lemma prefix_less_or_prefix:
  fixes p k :: "'a::linorder list"
  assumes "prefix p k" shows "p \<le> k"
  using assms by (induction p arbitrary: k) (auto simp: prefix_def)

lemma takeWhile_append_stop:
  "\<forall>x \<in> set xs. P x \<Longrightarrow> (ys = [] \<or> \<not> P (hd ys)) \<Longrightarrow> takeWhile P (xs @ ys) = xs"
  by (cases ys) auto

lemma dropWhile_append_stop:
  "\<forall>x \<in> set xs. P x \<Longrightarrow> (ys = [] \<or> \<not> P (hd ys)) \<Longrightarrow> dropWhile P (xs @ ys) = ys"
  by (cases ys) auto

section \<open>Sorting (\<open>sort.Slice\<close>)\<close>

text \<open>
  \<open>sort.Slice\<close> is not stable, so the order of elements that compare equal is not fixed by
  the sources.  The sorting routine is therefore an argument \<open>srt\<close> of the definitions that
  sort, and what the library documents of it is \<open>slice_sort\<close>: a permutation in which no
  later element is less than an earlier one.  \<open>insort_by\<close> is one such routine.
\<close>

definition slice_sort :: "('a \<Rightarrow> 'a \<Rightarrow> bool) \<Rightarrow> ('a list \<Rightarrow> 'a list) \<Rightarrow> bool" where
  "slice_sort lt srt \<longleftrightarrow>
     (\<forall>xs. mset (srt xs) = mset xs \<and> sorted_wrt (\<lambda>a b. \<not> lt b a) (srt xs))"

fun insort_one :: "('a \<Rightarrow> 'a \<Rightarrow> bool) \<Rightarrow> 'a \<Rightarrow> 'a list \<Rightarrow> 'a list" where
  "insort_one lt x [] = [x]"
| "insort_one lt x (y # ys) = (if lt y x then y # insort_one lt x ys else x # y # ys)"

definition insort_by :: "('a \<Rightarrow> 'a \<Rightarrow> bool) \<Rightarrow> 'a list \<Rightarrow> 'a list" where
  "insort_by lt xs = foldr (insort_one lt) xs []"

lemma mset_insort_one [simp]: "mset (insort_one lt x ys) = add_mset x (mset ys)"
  by (induction ys) auto

lemma mset_insort_by [simp]: "mset (insort_by lt xs) = mset xs"
  by (induction xs) (auto simp: insort_by_def)

lemma set_insort_one [simp]: "set (insort_one lt x ys) = insert x (set ys)"
  by (induction ys) auto

lemma sorted_insort_one:
  assumes "\<And>a b. lt a b \<Longrightarrow> \<not> lt b a" "\<And>a b c. \<not> lt b a \<Longrightarrow> \<not> lt c b \<Longrightarrow> \<not> lt c a"
  shows "sorted_wrt (\<lambda>a b. \<not> lt b a) ys \<Longrightarrow> sorted_wrt (\<lambda>a b. \<not> lt b a) (insort_one lt x ys)"
proof (induction ys)
  case (Cons y ys)
  show ?case
  proof (cases "lt y x")
    case True
    with Cons assms(1) [of y x] show ?thesis by simp
  next
    case False
    with Cons.prems assms(2) [of y x] show ?thesis by auto
  qed
qed simp

lemma slice_sort_insort_by:
  assumes "\<And>a b. lt a b \<Longrightarrow> \<not> lt b a" "\<And>a b c. \<not> lt b a \<Longrightarrow> \<not> lt c b \<Longrightarrow> \<not> lt c a"
  shows "slice_sort lt (insort_by lt)"
proof -
  have "sorted_wrt (\<lambda>a b. \<not> lt b a) (insort_by lt xs)" for xs
    by (induction xs) (simp_all add: insort_by_def sorted_insort_one [OF assms])
  then show ?thesis by (simp add: slice_sort_def)
qed

lemma slice_sortD:
  "slice_sort lt srt \<Longrightarrow> mset (srt xs) = mset xs"
  "slice_sort lt srt \<Longrightarrow> sorted_wrt (\<lambda>a b. \<not> lt b a) (srt xs)"
  "slice_sort lt srt \<Longrightarrow> set (srt xs) = set xs"
  by (auto simp: slice_sort_def dest: mset_eq_setD)

section \<open>Positional encodings sort like the numbers they encode\<close>

definition pos_val :: "nat \<Rightarrow> (byte \<Rightarrow> nat) \<Rightarrow> bytes \<Rightarrow> nat" where
  "pos_val B f xs = foldl (\<lambda>a x. a * B + f x) 0 xs"

lemma foldl_pos: "foldl (\<lambda>a x. a * B + f x) a xs = a * B ^ length xs + pos_val B f xs"
proof (induction xs arbitrary: a)
  case (Cons x xs)
  show ?case
    using Cons.IH [of "a * B + f x"] Cons.IH [of "f x"]
    by (simp add: pos_val_def algebra_simps)
qed (simp add: pos_val_def)

lemma pos_val_Nil [simp]: "pos_val B f [] = 0"
  by (simp add: pos_val_def)

lemma pos_val_Cons: "pos_val B f (x # xs) = f x * B ^ length xs + pos_val B f xs"
  using foldl_pos [of B f "f x" xs] by (simp add: pos_val_def)

lemma pos_val_snoc: "pos_val B f (xs @ [x]) = pos_val B f xs * B + f x"
  by (simp add: pos_val_def)

lemma pos_val_less: "\<forall>x \<in> set xs. f x < B \<Longrightarrow> pos_val B f xs < B ^ length xs"
proof (induction xs)
  case (Cons x xs)
  then have "f x * B ^ length xs + pos_val B f xs < Suc (f x) * B ^ length xs" by simp
  also have "\<dots> \<le> B * B ^ length xs" using Cons.prems by (intro mult_right_mono) auto
  finally show ?case by (simp add: pos_val_Cons)
qed simp

lemma pos_val_lex:
  assumes "length xs = length ys" "\<forall>x \<in> set (xs @ ys). f x < B"
    and "\<And>x y. x \<in> set (xs @ ys) \<Longrightarrow> y \<in> set (xs @ ys) \<Longrightarrow> x < y \<longleftrightarrow> f x < f y"
  shows "xs < ys \<longleftrightarrow> pos_val B f xs < pos_val B f ys"
  using assms
proof (induction xs ys rule: list_induct2)
  case (Cons x xs y ys)
  let ?n = "length ys"
  have lt: "pos_val B f xs < B ^ ?n" "pos_val B f ys < B ^ ?n"
    using pos_val_less [of xs f B] pos_val_less [of ys f B] Cons.prems(1) Cons.hyps by auto
  have IH: "xs < ys \<longleftrightarrow> pos_val B f xs < pos_val B f ys"
    using Cons.IH Cons.prems by auto
  have xy: "x < y \<longleftrightarrow> f x < f y" "y < x \<longleftrightarrow> f y < f x" using Cons.prems(2) by auto
  have step: "a * B ^ ?n + p < b * B ^ ?n + q" if "a < b" "p < B ^ ?n" for a b p q :: nat
  proof -
    have "a * B ^ ?n + p < Suc a * B ^ ?n" using that(2) by simp
    also have "\<dots> \<le> b * B ^ ?n" using that(1) by (intro mult_right_mono) auto
    finally show ?thesis by simp
  qed
  consider "x < y" | "y < x" | "x = y" by fastforce
  then show ?case
  proof cases
    case 1
    then show ?thesis using step [of "f x" "f y"] lt xy Cons.hyps by (simp add: pos_val_Cons)
  next
    case 2
    then show ?thesis using step [of "f y" "f x" "pos_val B f ys" "pos_val B f xs"] lt xy Cons.hyps
      by (auto simp: pos_val_Cons)
  next
    case 3
    then show ?thesis using IH Cons.hyps by (simp add: pos_val_Cons)
  qed
qed simp

lemma be_read_pos_val: "be_read bs = (of_nat (pos_val 256 unat bs) :: 'a::len word)"
proof (induction bs rule: rev_induct)
  case (snoc b bs)
  have "push_bit 8 w OR ucast b = w * 256 + of_nat (unat b)" for w :: "'a word"
  proof -
    have "push_bit 8 w AND ucast b = 0"
      by (rule bit_word_eqI) (auto simp: bit_simps dest: bit_imp_le_length)
    then have "push_bit 8 w OR ucast b = push_bit 8 w + ucast b"
      by (simp add: disjunctive_add_eq_or)
    then show ?thesis by (simp add: push_bit_eq_mult)
  qed
  with snoc show ?case by (simp add: be_read_def pos_val_snoc)
qed (simp add: be_read_def)

lemma pos_val_put_u64: "pos_val 256 unat (put_u64 w) = unat w"
proof -
  have "pos_val 256 unat (put_u64 w) < 256 ^ 8"
    using pos_val_less [of "put_u64 w" unat 256] unsigned_less [where 'b = 8] by fastforce
  moreover have "w = of_nat (pos_val 256 unat (put_u64 w))"
    using get_put_u64_nil [of w] by (simp add: get_u64_def be_read_pos_val)
  ultimately show ?thesis using unat_of_nat [of "pos_val 256 unat (put_u64 w)", where 'a = 64] by simp
qed

lemma put_u64_less_iff [simp]: "put_u64 a < put_u64 b \<longleftrightarrow> a < b"
proof -
  have "\<forall>x \<in> set (put_u64 a @ put_u64 b). unat x < 256"
    using unsigned_less [where 'b = 8] by fastforce
  then show ?thesis
    using pos_val_lex [of "put_u64 a" "put_u64 b" unat 256]
    by (simp add: pos_val_put_u64 word_less_nat_alt)
qed

lemma put_u64_inject [simp]: "put_u64 a = put_u64 b \<longleftrightarrow> a = b"
  by (metis get_put_u64_nil)

lemma put_u32_inject [simp]: "put_u32 a = put_u32 b \<longleftrightarrow> a = b"
  by (metis get_put_u32_nil)

lemma pos_val_append: "pos_val B f (xs @ ys) = pos_val B f xs * B ^ length ys + pos_val B f ys"
  by (induction xs) (simp_all add: pos_val_Cons power_add algebra_simps)

lemma unat_of_nat_small: "n < 2 ^ LENGTH('a) \<Longrightarrow> unat (of_nat n :: 'a::len word) = n"
  by (simp add: unat_of_nat)

lemma be_read_inject:
  assumes "length xs = length ys" "8 * length xs \<le> LENGTH('a)" "be_read xs = (be_read ys :: 'a::len word)"
  shows "xs = ys"
proof -
  have bd: "\<forall>x \<in> set (us @ vs). unat x < 256" for us vs :: bytes using unsigned_less [where 'b = 8] by fastforce
  have "pos_val 256 unat us < 2 ^ LENGTH('a)" if "length us = length xs" for us
  proof -
    have "pos_val 256 unat us < 256 ^ length us" using pos_val_less [of us unat 256] bd [of us "[]"] by simp
    also have "\<dots> = 2 ^ (8 * length xs)" using that by (simp add: power_mult)
    also have "\<dots> \<le> 2 ^ LENGTH('a)" using assms(2) by (intro power_increasing) auto
    finally show ?thesis .
  qed
  then have "pos_val 256 unat xs = pos_val 256 unat ys"
    using assms(1,3) unat_of_nat_small [where 'a = 'a] by (metis be_read_pos_val)
  moreover have "us < vs \<longleftrightarrow> pos_val 256 unat us < pos_val 256 unat vs" if "length us = length vs" for us vs
    using pos_val_lex [OF that bd] by (simp add: word_less_nat_alt)
  ultimately show ?thesis using assms(1) by (metis less_irrefl linorder_neqE)
qed

lemma put_get_u64: "length xs = 8 \<Longrightarrow> put_u64 (get_u64 xs) = xs"
  by (rule be_read_inject [where 'a = 64]) (use get_put_u64_nil [of "get_u64 xs"] in \<open>simp_all add: get_u64_def\<close>)

lemma put_get_u32: "length xs = 4 \<Longrightarrow> put_u32 (get_u32 xs) = xs"
  by (rule be_read_inject [where 'a = 32]) (use get_put_u32_nil [of "get_u32 xs"] in \<open>simp_all add: get_u32_def\<close>)

section \<open>CRC-32 (\<open>hash/crc32\<close>, IEEE polynomial)\<close>

definition crc_bit :: "u32 \<Rightarrow> u32" where
  "crc_bit c = (if bit c 0 then drop_bit 1 c XOR 0xEDB88320 else drop_bit 1 c)"

definition crc_byte :: "u32 \<Rightarrow> byte \<Rightarrow> u32" where
  "crc_byte c b = (crc_bit ^^ 8) (c XOR ucast b)"

definition crc32 :: "bytes \<Rightarrow> u32" where
  "crc32 bs = NOT (foldl crc_byte (NOT 0) bs)"

end
