(* ===== verification/Mvcc.thy ===== *)
theory Mvcc
  imports Prelude "HOL-Library.Multiset"
begin

text \<open>
  Multi-version entries and what a read of them means.  \<open>memtable.Entry\<close>,
  \<open>memtable.VersionEntry\<close>, \<open>iterator.VersionEntry\<close> and \<open>compactionVersion\<close> have the same
  five fields and are one record here.  Every read path of the engine (the skip list, the
  SSTable block scans) runs the same loop: walk the versions of one key and keep the first
  one whose version is strictly greater than the best so far.  \<open>best_of\<close> is that loop,
  \<open>snapshot_entry\<close> the specification a reader at timestamp \<open>ts\<close> relies on, and the lemmas
  here say when two version sets answer every reader alike.
\<close>

record entry =
  e_key :: bytes
  e_value :: bytes
  e_deleted :: bool
  e_expiresAt :: i64
  e_version :: u64

text \<open>A lookup result \<open>(value, found, deleted, expiresAt)\<close>.\<close>

type_synonym lookup = "bytes \<times> bool \<times> bool \<times> i64"

text \<open>\<open>expiresAt > 0 \<and> now >= expiresAt\<close>, on signed 64-bit seconds.\<close>

definition expired :: "i64 \<Rightarrow> i64 \<Rightarrow> bool" where
  "expired now exp \<longleftrightarrow> 0 < sint exp \<and> sint exp \<le> sint now"

definition better :: "entry option \<Rightarrow> entry \<Rightarrow> entry option" where
  "better best e =
     (case best of None \<Rightarrow> Some e | Some b \<Rightarrow> if e_version b < e_version e then Some e else Some b)"

definition best_of :: "entry list \<Rightarrow> entry option" where
  "best_of es = foldl better None es"

text \<open>What a reader at snapshot \<open>ts\<close> sees of key \<open>k\<close> in a collection of versions.\<close>

definition snapshot_entry :: "entry list \<Rightarrow> bytes \<Rightarrow> u64 \<Rightarrow> entry option" where
  "snapshot_entry es k ts = best_of (filter (\<lambda>e. e_key e = k \<and> e_version e \<le> ts) es)"

definition latest_entry :: "entry list \<Rightarrow> bytes \<Rightarrow> entry option" where
  "latest_entry es k = best_of (filter (\<lambda>e. e_key e = k) es)"

text \<open>The four-tuple the read functions build from the chosen version.\<close>

definition visible :: "i64 \<Rightarrow> entry option \<Rightarrow> lookup" where
  "visible now best =
     (case best of
        None \<Rightarrow> ([], False, False, 0)
      | Some e \<Rightarrow> if e_deleted e then ([], True, True, 0)
                 else if expired now (e_expiresAt e) then ([], True, True, 0)
                 else (e_value e, True, False, e_expiresAt e))"

section \<open>Characterisation of the scan loop\<close>

lemma foldl_better_Some:
  "\<exists>b'. foldl better (Some b) es = Some b' \<and> b' \<in> insert b (set es) \<and>
        e_version b \<le> e_version b' \<and> (\<forall>e \<in> set es. e_version e \<le> e_version b')"
proof (induction es arbitrary: b)
  case (Cons e es)
  show ?case
  proof (cases "e_version b < e_version e")
    case True
    then show ?thesis using Cons.IH [of e] by (fastforce simp: better_def)
  next
    case False
    then show ?thesis using Cons.IH [of b] by (fastforce simp: better_def)
  qed
qed simp

lemma best_of_Nil [simp]: "best_of [] = None"
  by (simp add: best_of_def)

lemma best_of_Cons: "best_of (e # es) = foldl better (Some e) es"
  by (simp add: best_of_def better_def)

lemma best_of_None_iff [simp]: "best_of es = None \<longleftrightarrow> es = []"
proof (cases es)
  case (Cons y ys)
  then show ?thesis using foldl_better_Some [of y ys] by (auto simp: best_of_Cons)
qed simp

lemma best_of_SomeD:
  assumes "best_of es = Some e"
  shows "e \<in> set es" and "\<And>x. x \<in> set es \<Longrightarrow> e_version x \<le> e_version e"
proof -
  from assms obtain y ys where es: "es = y # ys"
    by (cases es) auto
  with assms foldl_better_Some [of y ys]
  show "e \<in> set es" and "\<And>x. x \<in> set es \<Longrightarrow> e_version x \<le> e_version e"
    by (auto simp: best_of_Cons)
qed

lemma best_of_append:
  "best_of (xs @ ys) =
     (case best_of xs of None \<Rightarrow> best_of ys | Some b \<Rightarrow> foldl better (Some b) ys)"
  by (cases "best_of xs") (auto simp: best_of_def)

lemma foldl_better_keep:
  "\<forall>e \<in> set es. e_version e \<le> e_version b \<Longrightarrow> foldl better (Some b) es = Some b"
  by (induction es) (auto simp: better_def)

text \<open>Where the versions of the candidates are pairwise different, order does not matter.\<close>

lemma best_of_unique:
  assumes "e \<in> set es" "\<And>x. x \<in> set es \<Longrightarrow> x \<noteq> e \<Longrightarrow> e_version x < e_version e"
  shows "best_of es = Some e"
proof -
  from assms(1) obtain b where b: "best_of es = Some b"
    by (cases "best_of es") auto
  have "b = e"
  proof (rule ccontr)
    assume "b \<noteq> e"
    with assms(2) best_of_SomeD(1) [OF b] have "e_version b < e_version e" by blast
    with best_of_SomeD(2) [OF b assms(1)] show False by simp
  qed
  with b show ?thesis by simp
qed

lemma best_of_set_cong:
  assumes "set xs = set ys" "inj_on e_version (set xs)"
  shows "best_of xs = best_of ys"
proof (cases "best_of xs")
  case None
  with assms(1) have "xs = []" "ys = []" by auto
  then show ?thesis by simp
next
  case (Some e)
  note eD = best_of_SomeD [OF Some]
  have "best_of ys = Some e"
  proof (rule best_of_unique)
    show "e \<in> set ys" using eD(1) assms(1) by simp
  next
    fix x assume "x \<in> set ys" "x \<noteq> e"
    with assms(1) eD have "x \<in> set xs" "e_version x \<le> e_version e" by auto
    moreover have "e_version x \<noteq> e_version e"
      using inj_onD [OF assms(2)] \<open>x \<in> set xs\<close> eD(1) \<open>x \<noteq> e\<close> by blast
    ultimately show "e_version x < e_version e" by simp
  qed
  with Some show ?thesis by simp
qed

section \<open>Snapshots\<close>

lemma snapshot_entry_SomeD:
  assumes "snapshot_entry es k ts = Some e"
  shows "e \<in> set es" "e_key e = k" "e_version e \<le> ts"
    "\<And>x. x \<in> set es \<Longrightarrow> e_key x = k \<Longrightarrow> e_version x \<le> ts \<Longrightarrow> e_version x \<le> e_version e"
  using best_of_SomeD [OF assms [unfolded snapshot_entry_def]] by auto

lemma snapshot_entry_None_iff:
  "snapshot_entry es k ts = None \<longleftrightarrow> (\<forall>e \<in> set es. e_key e = k \<longrightarrow> \<not> e_version e \<le> ts)"
  by (auto simp: snapshot_entry_def filter_empty_conv)

lemma snapshot_entry_filter_key:
  "snapshot_entry (filter (\<lambda>e. e_key e = k) es) k ts = snapshot_entry es k ts"
  by (simp add: snapshot_entry_def conj_commute)

lemma snapshot_entry_skip:
  "\<forall>e \<in> set xs. e_key e \<noteq> k \<Longrightarrow> snapshot_entry (xs @ ys) k ts = snapshot_entry ys k ts"
  "\<forall>e \<in> set ys. e_key e \<noteq> k \<Longrightarrow> snapshot_entry (xs @ ys) k ts = snapshot_entry xs k ts"
  by (auto simp: snapshot_entry_def filter_empty_conv intro!: arg_cong [of _ _ best_of])

text \<open>A version collection in which no key has one version twice.\<close>

definition version_unique :: "entry list \<Rightarrow> bool" where
  "version_unique es \<longleftrightarrow> distinct (map (\<lambda>e. (e_key e, e_version e)) es)"

lemma version_uniqueD:
  "version_unique es \<Longrightarrow> x \<in> set es \<Longrightarrow> y \<in> set es \<Longrightarrow> e_key x = e_key y \<Longrightarrow>
   e_version x = e_version y \<Longrightarrow> x = y"
  by (auto simp: version_unique_def distinct_map inj_on_def)

lemma snapshot_entry_perm:
  assumes "mset xs = mset ys" "version_unique xs"
  shows "snapshot_entry xs k ts = snapshot_entry ys k ts"
  unfolding snapshot_entry_def
proof (rule best_of_set_cong)
  from assms(1) have "set xs = set ys" by (rule mset_eq_setD)
  then show "set (filter (\<lambda>e. e_key e = k \<and> e_version e \<le> ts) xs) =
      set (filter (\<lambda>e. e_key e = k \<and> e_version e \<le> ts) ys)" by auto
  show "inj_on e_version (set (filter (\<lambda>e. e_key e = k \<and> e_version e \<le> ts) xs))"
    using assms(2) by (auto intro!: inj_onI dest: version_uniqueD)
qed

lemma version_unique_perm: "mset xs = mset ys \<Longrightarrow> version_unique xs \<longleftrightarrow> version_unique ys"
  unfolding version_unique_def by (rule mset_eq_imp_distinct_iff) simp

section \<open>The interface of a versioned table\<close>

text \<open>
  What the engine relies on from the table it writes to: a write adds one version, and a read
  at a timestamp returns what the specification picks among the versions written.
\<close>

locale version_table =
  fixes inv :: "'s \<Rightarrow> bool"
    and contents :: "'s \<Rightarrow> entry list"
    and writable :: "entry \<Rightarrow> bool"
    and put :: "'s \<Rightarrow> entry \<Rightarrow> 's option"
    and get_at :: "i64 \<Rightarrow> 's \<Rightarrow> bytes \<Rightarrow> u64 \<Rightarrow> lookup option"
  assumes put_ok: "\<lbrakk>inv s; writable e\<rbrakk> \<Longrightarrow> \<exists>s'. put s e = Some s' \<and> inv s' \<and>
      (\<forall>k. filter (\<lambda>x. e_key x = k) (contents s') =
         (if e_key e = k then e # filter (\<lambda>x. e_key x = k) (contents s)
          else filter (\<lambda>x. e_key x = k) (contents s)))"
    and get_ok: "inv s \<Longrightarrow> get_at now s k ts = Some (visible now (snapshot_entry (contents s) k ts))"
begin

lemma put_snapshot:
  assumes "inv s" "writable e"
  obtains s' where "put s e = Some s'" "inv s'"
    "\<And>k ts. snapshot_entry (contents s') k ts =
       (if e_key e = k \<and> e_version e \<le> ts then best_of (e # filter (\<lambda>x. e_key x = k \<and> e_version x \<le> ts) (contents s))
        else snapshot_entry (contents s) k ts)"
proof -
  obtain s' where s': "put s e = Some s'" "inv s'"
    "\<And>k. filter (\<lambda>x. e_key x = k) (contents s') =
         (if e_key e = k then e # filter (\<lambda>x. e_key x = k) (contents s)
          else filter (\<lambda>x. e_key x = k) (contents s))"
    using put_ok [OF assms] by blast
  have flt: "filter (\<lambda>x. e_key x = k \<and> e_version x \<le> ts) es =
      filter (\<lambda>x. e_version x \<le> ts) (filter (\<lambda>x. e_key x = k) es)" for k ts es
    by (simp add: conj_commute)
  show thesis
    by (rule that [OF s'(1,2)]) (simp add: snapshot_entry_def flt s'(3) del: filter_filter)
qed

text \<open>A write is invisible to every snapshot older than its version, and to other keys.\<close>

lemma put_invisible:
  assumes "inv s" "writable e" "ts < e_version e \<or> k \<noteq> e_key e"
  shows "\<exists>s'. put s e = Some s' \<and> inv s' \<and> get_at now s' k ts = get_at now s k ts"
proof -
  from assms(3) have "\<not> (e_key e = k \<and> e_version e \<le> ts)" by auto
  then obtain s' where s': "put s e = Some s'" "inv s'"
    "snapshot_entry (contents s') k ts = snapshot_entry (contents s) k ts"
    using put_snapshot [OF assms(1,2)] by (metis (full_types))
  then show ?thesis by (simp add: get_ok assms(1))
qed

text \<open>A write newer than what the table holds of its key is what later snapshots read.\<close>

lemma put_visible:
  assumes "inv s" "writable e" "e_version e \<le> ts"
    and newest: "\<And>x. x \<in> set (contents s) \<Longrightarrow> e_key x = e_key e \<Longrightarrow> e_version x \<le> ts \<Longrightarrow>
      e_version x \<le> e_version e"
  shows "\<exists>s'. put s e = Some s' \<and> inv s' \<and> get_at now s' (e_key e) ts = Some (visible now (Some e))"
proof -
  obtain s' where s': "put s e = Some s'" "inv s'"
    "snapshot_entry (contents s') (e_key e) ts =
       best_of (e # filter (\<lambda>x. e_key x = e_key e \<and> e_version x \<le> ts) (contents s))"
    by (rule put_snapshot [OF assms(1,2)]) (use assms(3) in auto)
  have "snapshot_entry (contents s') (e_key e) ts = Some e"
    unfolding s'(3) best_of_Cons by (rule foldl_better_keep) (use newest in auto)
  with s'(1,2) show ?thesis by (simp add: get_ok)
qed

end

end
