(* ===== verification/Skiplist.thy ===== *)
theory Skiplist
  imports Mvcc
begin

text \<open>
  The memtable, \<open>src/memtable/skiplist.go\<close>.  The linked nodes live in an explicit store: a
  node's address is its position in \<open>sl_nodes\<close>, the head is address 0 and a nil forward
  pointer is \<open>None\<close>.  The inner \<open>for next != nil\<close> walks follow pointers, so they run on
  fuel and give \<open>None\<close> when it is used up; \<open>sl_wf\<close> is the structural invariant under
  which the fuel the operations pass (one unit per node of the store) is enough.

  Writers hold \<open>writeMu\<close>, so one insertion is one step; the CAS loops on the version counter
  and the random seed are their sequential effect.
\<close>

section \<open>State\<close>

record node =
  n_key :: bytes
  n_value :: bytes
  n_deleted :: bool
  n_expiresAt :: i64
  n_version :: u64
  n_fwd :: "nat option list"

record skiplist =
  sl_nodes :: "node list"
  sl_level :: nat
  sl_sizeBytes :: int
  sl_randSeed :: u64
  sl_versionCounter :: u64

definition maxLevel :: nat where
  "maxLevel = 16"

definition inlineTower :: "nat option list" where
  "inlineTower = replicate maxLevel None"

definition NewSkipList :: "u64 \<Rightarrow> skiplist" where
  "NewSkipList seed =
     \<lparr>sl_nodes = [\<lparr>n_key = [], n_value = [], n_deleted = False, n_expiresAt = 0, n_version = 0,
                   n_fwd = inlineTower\<rparr>],
      sl_level = 1, sl_sizeBytes = 0, sl_randSeed = seed OR 1, sl_versionCounter = 0\<rparr>"

section \<open>Random levels\<close>

definition fastrand :: "skiplist \<Rightarrow> u64 \<times> skiplist" where
  "fastrand s =
     (let x = sl_randSeed s;
          y1 = x XOR push_bit 13 x;
          y2 = y1 XOR drop_bit 7 y1;
          y3 = y2 XOR push_bit 17 y2
      in (y3, s\<lparr>sl_randSeed := y3\<rparr>))"

text \<open>\<open>for lvl < maxLevel && fastrand()&0xFFFF < 0x8000 { lvl++ }\<close>, by the levels still open.\<close>

fun randomLevel_from :: "nat \<Rightarrow> skiplist \<Rightarrow> nat \<times> skiplist" where
  "randomLevel_from 0 s = (0, s)"
| "randomLevel_from (Suc n) s =
     (let (y, s') = fastrand s
      in if y AND 0xFFFF < 0x8000
         then (let (l, s'') = randomLevel_from n s' in (Suc l, s''))
         else (0, s'))"

definition randomLevel :: "skiplist \<Rightarrow> nat \<times> skiplist" where
  "randomLevel s = (let (l, s') = randomLevel_from (maxLevel - 1) s in (1 + l, s'))"

section \<open>Walking the towers\<close>

definition loadForward :: "node list \<Rightarrow> nat \<Rightarrow> nat \<Rightarrow> nat option" where
  "loadForward ns n i = n_fwd (ns ! n) ! i"

text \<open>The inner loop at one level: advance while the next key is smaller.\<close>

fun walkLevel :: "nat \<Rightarrow> node list \<Rightarrow> bytes \<Rightarrow> nat \<Rightarrow> nat \<Rightarrow> nat option" where
  "walkLevel 0 ns key i cur = None"
| "walkLevel (Suc fuel) ns key i cur =
     (case loadForward ns cur i of
        None \<Rightarrow> Some cur
      | Some next \<Rightarrow> if bytes_compare (n_key (ns ! next)) key < 0
                    then walkLevel fuel ns key i next else Some cur)"

text \<open>The outer loop from level \<open>level - 1\<close> down to 0; \<open>update[i]\<close> records each stop.\<close>

fun findSplice :: "nat \<Rightarrow> node list \<Rightarrow> bytes \<Rightarrow> nat \<Rightarrow> nat option list \<Rightarrow> nat
    \<Rightarrow> (nat \<times> nat option list) option" where
  "findSplice fuel ns key cur update 0 = Some (cur, update)"
| "findSplice fuel ns key cur update (Suc i) =
     (case walkLevel fuel ns key i cur of
        None \<Rightarrow> None
      | Some c \<Rightarrow> findSplice fuel ns key c (update[i := Some c]) i)"

definition noUpdate :: "nat option list" where
  "noUpdate = replicate maxLevel None"

definition sl_splice :: "skiplist \<Rightarrow> bytes \<Rightarrow> (nat \<times> nat option list) option" where
  "sl_splice s key = findSplice (Suc (length (sl_nodes s))) (sl_nodes s) key 0 noUpdate (sl_level s)"

section \<open>Insertion\<close>

text \<open>\<open>version == 0\<close> draws the next counter value; any other version raises the counter.\<close>

definition drawVersion :: "skiplist \<Rightarrow> u64 \<Rightarrow> u64 \<times> skiplist" where
  "drawVersion s version =
     (if version = 0
      then (let v = sl_versionCounter s + 1 in (v, s\<lparr>sl_versionCounter := v\<rparr>))
      else if version \<le> sl_versionCounter s then (version, s)
      else (version, s\<lparr>sl_versionCounter := version\<rparr>))"

text \<open>\<open>for i := curLevel; i < lvl; i++ { update[i] = s.head }\<close>\<close>

definition raiseLevel :: "nat \<Rightarrow> nat option list \<Rightarrow> skiplist \<Rightarrow> nat option list \<times> skiplist" where
  "raiseLevel lvl update s =
     (let curLevel = sl_level s
      in if curLevel < lvl
         then (foldl (\<lambda>u i. u[i := Some 0]) update [curLevel..<lvl], s\<lparr>sl_level := lvl\<rparr>)
         else (update, s))"

definition setFwd :: "node list \<Rightarrow> nat \<Rightarrow> nat \<Rightarrow> nat option \<Rightarrow> node list" where
  "setFwd ns n i p = ns[n := (ns ! n)\<lparr>n_fwd := (n_fwd (ns ! n))[i := p]\<rparr>]"

text \<open>One turn of the linking loop; an unset \<open>update[i]\<close> would be a nil dereference.\<close>

definition linkLevel :: "nat \<Rightarrow> nat option list \<Rightarrow> node list option \<Rightarrow> nat \<Rightarrow> node list option" where
  "linkLevel new update acc i =
     (case acc of None \<Rightarrow> None
      | Some ns \<Rightarrow> (case update ! i of None \<Rightarrow> None
        | Some p \<Rightarrow> Some (setFwd (setFwd ns new i (loadForward ns p i)) p i (Some new))))"

text \<open>\<open>unsafe.Sizeof(Node\<open>{}\<close>)\<close> on a 64-bit target: two slices, flag, two words, sixteen pointers.\<close>

definition nodeOverhead :: int where
  "nodeOverhead = 24 + 24 + 8 + 8 + 8 + 16 * 8"

text \<open>The body shared by \<open>PutVersion\<close> and \<open>DeleteVersion\<close>: find the splice, draw a level, link.\<close>

definition insertNode :: "skiplist \<Rightarrow> bytes \<Rightarrow> node \<Rightarrow> skiplist option" where
  "insertNode s key nd =
     (case sl_splice s key of
        None \<Rightarrow> None
      | Some (cur, update) \<Rightarrow>
          (let (lvl, s1) = randomLevel s;
               (update', s2) = raiseLevel lvl update s1;
               new = length (sl_nodes s2)
           in case foldl (linkLevel new update') (Some (sl_nodes s2 @ [nd])) [0..<lvl] of
                None \<Rightarrow> None
              | Some ns \<Rightarrow> Some (s2\<lparr>sl_nodes := ns\<rparr>)))"

definition PutVersion :: "skiplist \<Rightarrow> bytes \<Rightarrow> bytes \<Rightarrow> i64 \<Rightarrow> u64 \<Rightarrow> skiplist option" where
  "PutVersion s key val expiresAt version =
     (let (v, s1) = drawVersion s version;
          nd = \<lparr>n_key = key, n_value = val, n_deleted = False, n_expiresAt = expiresAt,
                n_version = v, n_fwd = inlineTower\<rparr>
      in case insertNode s1 key nd of
           None \<Rightarrow> None
         | Some s2 \<Rightarrow> Some (s2\<lparr>sl_sizeBytes := sl_sizeBytes s2 + int (length key) + int (length val)
                                 + nodeOverhead\<rparr>))"

definition Put :: "skiplist \<Rightarrow> bytes \<Rightarrow> bytes \<Rightarrow> i64 \<Rightarrow> skiplist option" where
  "Put s key val expiresAt = PutVersion s key val expiresAt 0"

definition DeleteVersion :: "skiplist \<Rightarrow> bytes \<Rightarrow> u64 \<Rightarrow> skiplist option" where
  "DeleteVersion s key version =
     (let (v, s1) = drawVersion s version;
          nd = \<lparr>n_key = key, n_value = [], n_deleted = True, n_expiresAt = 0,
                n_version = v, n_fwd = inlineTower\<rparr>
      in case insertNode s1 key nd of
           None \<Rightarrow> None
         | Some s2 \<Rightarrow> Some (s2\<lparr>sl_sizeBytes := sl_sizeBytes s2 + nodeOverhead\<rparr>))"

definition sl_Delete :: "skiplist \<Rightarrow> bytes \<Rightarrow> skiplist option" where
  "sl_Delete s key = DeleteVersion s key 0"

definition SeedVersion :: "skiplist \<Rightarrow> u64 \<Rightarrow> skiplist" where
  "SeedVersion s v = (if v \<le> sl_versionCounter s then s else s\<lparr>sl_versionCounter := v\<rparr>)"

definition CurrentVersion :: "skiplist \<Rightarrow> u64" where
  "CurrentVersion s = sl_versionCounter s"

definition SizeInBytes :: "skiplist \<Rightarrow> int" where
  "SizeInBytes s = sl_sizeBytes s"

section \<open>Lookups\<close>

definition node_entry :: "node \<Rightarrow> entry" where
  "node_entry n = \<lparr>e_key = n_key n, e_value = n_value n, e_deleted = n_deleted n,
                   e_expiresAt = n_expiresAt n, e_version = n_version n\<rparr>"

text \<open>Along the bottom level while the key is equal, keeping the best version up to \<open>max\<close>.\<close>

fun scanKey :: "nat \<Rightarrow> node list \<Rightarrow> bytes \<Rightarrow> (u64 \<Rightarrow> bool) \<Rightarrow> nat option \<Rightarrow> entry option
    \<Rightarrow> entry option option" where
  "scanKey 0 ns key ok p best = None"
| "scanKey (Suc fuel) ns key ok p best =
     (case p of
        None \<Rightarrow> Some best
      | Some n \<Rightarrow>
          if n_key (ns ! n) = key
          then scanKey fuel ns key ok (loadForward ns n 0)
                 (if ok (n_version (ns ! n)) then better best (node_entry (ns ! n)) else best)
          else Some best)"

definition lookupKey :: "skiplist \<Rightarrow> bytes \<Rightarrow> (u64 \<Rightarrow> bool) \<Rightarrow> entry option option" where
  "lookupKey s key ok =
     (case sl_splice s key of
        None \<Rightarrow> None
      | Some (cur, _) \<Rightarrow>
          scanKey (Suc (length (sl_nodes s))) (sl_nodes s) key ok
            (loadForward (sl_nodes s) cur 0) None)"

definition sl_Get :: "i64 \<Rightarrow> skiplist \<Rightarrow> bytes \<Rightarrow> lookup option" where
  "sl_Get now s key = map_option (visible now) (lookupKey s key (\<lambda>_. True))"

definition sl_GetWithVersion :: "i64 \<Rightarrow> skiplist \<Rightarrow> bytes \<Rightarrow> (lookup \<times> u64) option" where
  "sl_GetWithVersion now s key =
     map_option (\<lambda>best. (visible now best, case best of None \<Rightarrow> 0 | Some e \<Rightarrow> e_version e))
       (lookupKey s key (\<lambda>_. True))"

definition sl_GetByVersion :: "i64 \<Rightarrow> skiplist \<Rightarrow> bytes \<Rightarrow> u64 \<Rightarrow> lookup option" where
  "sl_GetByVersion now s key maxVersion =
     map_option (visible now) (lookupKey s key (\<lambda>v. v \<le> maxVersion))"

section \<open>Whole-table walks\<close>

text \<open>The bottom-level walk of \<open>AllVersions\<close> and \<open>AllVersionsAt\<close>, before the sort.\<close>

fun collectFrom :: "nat \<Rightarrow> node list \<Rightarrow> (u64 \<Rightarrow> bool) \<Rightarrow> nat option \<Rightarrow> entry list option" where
  "collectFrom 0 ns ok p = None"
| "collectFrom (Suc fuel) ns ok p =
     (case p of
        None \<Rightarrow> Some []
      | Some n \<Rightarrow>
          map_option (\<lambda>es. if ok (n_version (ns ! n)) then node_entry (ns ! n) # es else es)
            (collectFrom fuel ns ok (loadForward ns n 0)))"

definition collect_all :: "skiplist \<Rightarrow> (u64 \<Rightarrow> bool) \<Rightarrow> entry list option" where
  "collect_all s ok =
     collectFrom (Suc (length (sl_nodes s))) (sl_nodes s) ok (loadForward (sl_nodes s) 0 0)"

text \<open>The order of \<open>sort.Slice\<close> in both: key ascending, version descending.\<close>

definition version_less :: "entry \<Rightarrow> entry \<Rightarrow> bool" where
  "version_less a b =
     (let cmp = bytes_compare (e_key a) (e_key b)
      in if cmp \<noteq> 0 then cmp < 0 else e_version a > e_version b)"

definition AllVersions :: "(entry list \<Rightarrow> entry list) \<Rightarrow> skiplist \<Rightarrow> entry list option" where
  "AllVersions srt s = map_option srt (collect_all s (\<lambda>_. True))"

definition AllVersionsAt :: "(entry list \<Rightarrow> entry list) \<Rightarrow> skiplist \<Rightarrow> u64 \<Rightarrow> entry list option" where
  "AllVersionsAt srt s maxVersion = map_option srt (collect_all s (\<lambda>v. v \<le> maxVersion))"

text \<open>The inner loop of \<open>All\<close>: the best node among the run of equal keys, and where it stops.\<close>

fun bestOfRun :: "nat \<Rightarrow> node list \<Rightarrow> bytes \<Rightarrow> nat option \<Rightarrow> entry \<Rightarrow> (entry \<times> nat option) option" where
  "bestOfRun 0 ns key p best = None"
| "bestOfRun (Suc fuel) ns key p best =
     (case p of
        None \<Rightarrow> Some (best, None)
      | Some n \<Rightarrow>
          if n_key (ns ! n) = key
          then bestOfRun fuel ns key (loadForward ns n 0)
                 (if n_version (ns ! n) > e_version best then node_entry (ns ! n) else best)
          else Some (best, Some n))"

text \<open>What \<open>All\<close> appends for the best version of a key: live, tombstone, or nothing.\<close>

definition liveEntry :: "i64 \<Rightarrow> entry \<Rightarrow> entry list" where
  "liveEntry now best =
     (if \<not> e_deleted best
      then (if e_expiresAt best = 0 \<or> sint now < sint (e_expiresAt best) then [best] else [])
      else [\<lparr>e_key = e_key best, e_value = [], e_deleted = True, e_expiresAt = 0,
             e_version = e_version best\<rparr>])"

fun allFrom :: "nat \<Rightarrow> i64 \<Rightarrow> node list \<Rightarrow> nat option \<Rightarrow> entry list option" where
  "allFrom 0 now ns p = None"
| "allFrom (Suc fuel) now ns p =
     (case p of
        None \<Rightarrow> Some []
      | Some n \<Rightarrow>
          (case bestOfRun (Suc fuel) ns (n_key (ns ! n)) (loadForward ns n 0) (node_entry (ns ! n)) of
             None \<Rightarrow> None
           | Some (best, rest) \<Rightarrow>
               map_option (\<lambda>es. liveEntry now best @ es) (allFrom fuel now ns rest)))"

definition sl_All :: "i64 \<Rightarrow> skiplist \<Rightarrow> entry list option" where
  "sl_All now s =
     allFrom (Suc (length (sl_nodes s))) now (sl_nodes s) (loadForward (sl_nodes s) 0 0)"

section \<open>The iterator\<close>

text \<open>\<open>SkipListIterator\<close>: the current node, over the store it was opened on.\<close>

definition NewIterator :: "skiplist \<Rightarrow> nat option" where
  "NewIterator s = loadForward (sl_nodes s) 0 0"

fun skipBelow :: "nat \<Rightarrow> node list \<Rightarrow> bytes \<Rightarrow> nat option \<Rightarrow> nat option option" where
  "skipBelow 0 ns key p = None"
| "skipBelow (Suc fuel) ns key p =
     (case p of
        None \<Rightarrow> Some None
      | Some n \<Rightarrow> if bytes_compare (n_key (ns ! n)) key < 0
                 then skipBelow fuel ns key (loadForward ns n 0) else Some (Some n))"

definition Seek :: "skiplist \<Rightarrow> bytes \<Rightarrow> nat option option" where
  "Seek s key =
     (case sl_splice s key of
        None \<Rightarrow> None
      | Some (cur, _) \<Rightarrow>
          skipBelow (Suc (length (sl_nodes s))) (sl_nodes s) key (loadForward (sl_nodes s) cur 0))"

definition iter_Next :: "skiplist \<Rightarrow> nat option \<Rightarrow> nat option" where
  "iter_Next s p = (case p of None \<Rightarrow> None | Some n \<Rightarrow> loadForward (sl_nodes s) n 0)"

end
