(* ===== verification/Skiplist_Correct.thy ===== *)
theory Skiplist_Correct
  imports Skiplist
begin

text \<open>
  Correctness of the memtable.  \<open>sl_chains s L\<close> says that the forward pointers at level
  \<open>i\<close> spell the address list \<open>L i\<close>: sorted by key, without repetition, each level within the
  one below, and the bottom one holding every node.  Every operation terminates on such a
  store and refines an operation on the plain entry list that \<open>sl_entries\<close> reads off the
  bottom level.
\<close>

section \<open>Pointer paths\<close>

fun fwd_path :: "node list \<Rightarrow> nat \<Rightarrow> nat option \<Rightarrow> nat list \<Rightarrow> nat option \<Rightarrow> bool" where
  "fwd_path ns i p [] q \<longleftrightarrow> p = q"
| "fwd_path ns i p (x # xs) q \<longleftrightarrow> p = Some x \<and> fwd_path ns i (loadForward ns x i) xs q"

lemma fwd_path_append:
  "fwd_path ns i p (xs @ ys) q \<longleftrightarrow> (\<exists>r. fwd_path ns i p xs r \<and> fwd_path ns i r ys q)"
  by (induction xs arbitrary: p) auto

lemma fwd_path_cong:
  "(\<And>x. x \<in> set xs \<Longrightarrow> loadForward ns' x i = loadForward ns x i) \<Longrightarrow>
   fwd_path ns' i p xs q = fwd_path ns i p xs q"
  by (induction xs arbitrary: p) auto

text \<open>Redirecting the last node of a path.\<close>

lemma fwd_path_redirect:
  assumes "fwd_path ns i p (xs @ [a]) q" "a \<notin> set xs"
    and "\<And>x. x \<in> set xs \<Longrightarrow> loadForward ns' x i = loadForward ns x i"
    and "loadForward ns' a i = q'"
  shows "fwd_path ns' i p (xs @ [a]) q'"
  using assms by (auto simp: fwd_path_append fwd_path_cong [of xs ns' i ns])

section \<open>The structural invariant\<close>

definition sl_key :: "skiplist \<Rightarrow> nat \<Rightarrow> bytes" where
  "sl_key s n = n_key (sl_nodes s ! n)"

definition sl_chains :: "skiplist \<Rightarrow> (nat \<Rightarrow> nat list) \<Rightarrow> bool" where
  "sl_chains s L \<longleftrightarrow>
     sl_nodes s \<noteq> [] \<and> 1 \<le> sl_level s \<and> sl_level s \<le> maxLevel \<and>
     (\<forall>n \<in> set (sl_nodes s). length (n_fwd n) = maxLevel) \<and>
     (\<forall>i < maxLevel. fwd_path (sl_nodes s) i (Some 0) (0 # L i) None \<and> distinct (0 # L i) \<and>
        sorted_wrt (\<lambda>a b. sl_key s a \<le> sl_key s b) (L i) \<and> (sl_level s \<le> i \<longrightarrow> L i = []) \<and>
        (Suc i < maxLevel \<longrightarrow> set (L (Suc i)) \<subseteq> set (L i))) \<and>
     set (L 0) = {1..<length (sl_nodes s)}"

definition sl_wf :: "skiplist \<Rightarrow> bool" where
  "sl_wf s \<longleftrightarrow> (\<exists>L. sl_chains s L)"

text \<open>The contents: the entries along the bottom level.\<close>

definition sl_entries :: "skiplist \<Rightarrow> entry list" where
  "sl_entries s = (case collect_all s (\<lambda>_. True) of None \<Rightarrow> [] | Some es \<Rightarrow> es)"

lemma maxLevel_pos [simp]: "0 < maxLevel"
  by (simp add: maxLevel_def)

lemma sl_chainsD:
  assumes "sl_chains s L"
  shows "0 < length (sl_nodes s)" "1 \<le> sl_level s" "sl_level s \<le> maxLevel"
    "\<And>n. n < length (sl_nodes s) \<Longrightarrow> length (n_fwd (sl_nodes s ! n)) = maxLevel"
    "\<And>i. i < maxLevel \<Longrightarrow> fwd_path (sl_nodes s) i (loadForward (sl_nodes s) 0 i) (L i) None"
    "\<And>i. i < maxLevel \<Longrightarrow> distinct (0 # L i)"
    "\<And>i. i < maxLevel \<Longrightarrow> sorted_wrt (\<lambda>a b. sl_key s a \<le> sl_key s b) (L i)"
    "\<And>i. i < maxLevel \<Longrightarrow> sl_level s \<le> i \<Longrightarrow> L i = []"
    "\<And>i. Suc i < maxLevel \<Longrightarrow> set (L (Suc i)) \<subseteq> set (L i)"
    "set (L 0) = {1..<length (sl_nodes s)}"
  using assms by (auto simp: sl_chains_def)

lemma sl_chainsI:
  assumes "0 < length (sl_nodes s)" "1 \<le> sl_level s" "sl_level s \<le> maxLevel"
    "\<And>n. n < length (sl_nodes s) \<Longrightarrow> length (n_fwd (sl_nodes s ! n)) = maxLevel"
    "\<And>i. i < maxLevel \<Longrightarrow> fwd_path (sl_nodes s) i (Some 0) (0 # L i) None"
    "\<And>i. i < maxLevel \<Longrightarrow> distinct (0 # L i)"
    "\<And>i. i < maxLevel \<Longrightarrow> sorted_wrt (\<lambda>a b. sl_key s a \<le> sl_key s b) (L i)"
    "\<And>i. i < maxLevel \<Longrightarrow> sl_level s \<le> i \<Longrightarrow> L i = []"
    "\<And>i. Suc i < maxLevel \<Longrightarrow> set (L (Suc i)) \<subseteq> set (L i)"
    "set (L 0) = {1..<length (sl_nodes s)}"
  shows "sl_chains s L"
  unfolding sl_chains_def using assms by (metis in_set_conv_nth length_greater_0_conv)

lemma sl_chains_set:
  assumes "sl_chains s L" "i < maxLevel"
  shows "set (L i) \<subseteq> {1..<length (sl_nodes s)}"
  using assms(2)
proof (induction i)
  case 0
  then show ?case using sl_chainsD(10) [OF assms(1)] by simp
next
  case (Suc i)
  then show ?case using sl_chainsD(9) [OF assms(1)] by force
qed

lemma sl_chains_length:
  assumes "sl_chains s L" "i < maxLevel"
  shows "length (L i) < length (sl_nodes s)"
proof -
  have "length (L i) = card (set (L i))"
    using sl_chainsD(6) [OF assms] by (simp add: distinct_card)
  also have "\<dots> \<le> card {1..<length (sl_nodes s)}"
    by (rule card_mono) (use sl_chains_set [OF assms] in auto)
  also have "\<dots> < length (sl_nodes s)"
    using sl_chainsD(1) [OF assms(1)] by simp
  finally show ?thesis .
qed

section \<open>The search\<close>

text \<open>The last node below \<open>key\<close> at a level, the head when there is none.\<close>

definition predAt :: "skiplist \<Rightarrow> (nat \<Rightarrow> nat list) \<Rightarrow> bytes \<Rightarrow> nat \<Rightarrow> nat" where
  "predAt s L key i = last (0 # takeWhile (\<lambda>n. sl_key s n < key) (L i))"

lemma walkLevel_path:
  "fwd_path ns i (loadForward ns cur i) xs None \<Longrightarrow> length xs < fuel \<Longrightarrow>
   walkLevel fuel ns key i cur = Some (last (cur # takeWhile (\<lambda>n. n_key (ns ! n) < key) xs))"
proof (induction xs arbitrary: cur fuel)
  case Nil
  then show ?case by (cases fuel) auto
next
  case (Cons x xs)
  then show ?case by (cases fuel) auto
qed

lemma walkLevel_pred:
  assumes ch: "sl_chains s L" and i: "i < maxLevel" and fuel: "length (sl_nodes s) \<le> fuel"
    and cur: "cur = 0 \<or> cur \<in> set (L i) \<and> sl_key s cur < key"
  shows "walkLevel fuel (sl_nodes s) key i cur = Some (predAt s L key i)"
proof -
  note len = sl_chains_length [OF ch i]
  show ?thesis
  proof (cases "cur = 0")
    case True
    with walkLevel_path [OF sl_chainsD(5) [OF ch i]] len fuel show ?thesis
      by (simp add: predAt_def sl_key_def)
  next
    case False
    with cur obtain us vs where L: "L i = us @ cur # vs" and lt: "sl_key s cur < key"
      using split_list by fastforce
    have path: "fwd_path (sl_nodes s) i (loadForward (sl_nodes s) cur i) vs None"
      using sl_chainsD(5) [OF ch i] by (auto simp: L fwd_path_append)
    have "\<forall>n \<in> set us. sl_key s n < key"
      using sl_chainsD(7) [OF ch i] lt by (auto simp: L sorted_wrt_append)
    then have "takeWhile (\<lambda>n. sl_key s n < key) (L i) =
        us @ cur # takeWhile (\<lambda>n. sl_key s n < key) vs"
      using lt by (simp add: L)
    with walkLevel_path [OF path, of fuel key] len fuel show ?thesis
      by (simp add: predAt_def sl_key_def L)
  qed
qed

lemma predAt_cases:
  "predAt s L key i = 0 \<or> predAt s L key i \<in> set (L i) \<and> sl_key s (predAt s L key i) < key"
proof (cases "takeWhile (\<lambda>n. sl_key s n < key) (L i) = []")
  case False
  then have "predAt s L key i \<in> set (takeWhile (\<lambda>n. sl_key s n < key) (L i))"
    by (simp add: predAt_def del: takeWhile_eq_Nil_iff)
  then show ?thesis using set_takeWhileD by fastforce
qed (simp add: predAt_def del: takeWhile_eq_Nil_iff)

lemma predAt_bound:
  "sl_chains s L \<Longrightarrow> i < maxLevel \<Longrightarrow> predAt s L key i < length (sl_nodes s)"
  using predAt_cases [of s L key i] sl_chains_set [of s L i] sl_chainsD(1) [of s L] by auto

lemma findSplice_pred:
  assumes ch: "sl_chains s L" and "n \<le> maxLevel" "length update = maxLevel"
    and "cur = 0 \<or> n < maxLevel \<and> cur \<in> set (L n) \<and> sl_key s cur < key"
    and "length (sl_nodes s) \<le> fuel"
  shows "\<exists>c u. findSplice fuel (sl_nodes s) key cur update n = Some (c, u) \<and> length u = maxLevel \<and>
     (\<forall>i < n. u ! i = Some (predAt s L key i)) \<and> (\<forall>i. n \<le> i \<longrightarrow> u ! i = update ! i) \<and>
     (0 < n \<longrightarrow> c = predAt s L key 0) \<and> (n = 0 \<longrightarrow> c = cur)"
  using assms(2-)
proof (induction n arbitrary: cur update)
  case (Suc n)
  have n: "n < maxLevel" using Suc.prems(1) by simp
  have walk: "walkLevel fuel (sl_nodes s) key n cur = Some (predAt s L key n)"
    by (rule walkLevel_pred [OF ch n]) (use Suc.prems sl_chainsD(9) [OF ch] in auto)
  obtain c u where cu:
    "findSplice fuel (sl_nodes s) key (predAt s L key n) (update[n := Some (predAt s L key n)]) n
       = Some (c, u)" "length u = maxLevel"
    "\<forall>i < n. u ! i = Some (predAt s L key i)"
    "\<forall>i. n \<le> i \<longrightarrow> u ! i = update[n := Some (predAt s L key n)] ! i"
    "0 < n \<longrightarrow> c = predAt s L key 0" "n = 0 \<longrightarrow> c = predAt s L key n"
    using Suc.IH [of "update[n := Some (predAt s L key n)]" "predAt s L key n"]
      Suc.prems n predAt_cases [of s L key n] by auto
  show ?case
    by (rule exI [of _ c], rule exI [of _ u])
       (use cu walk n Suc.prems in \<open>auto simp: less_Suc_eq nth_list_update\<close>)
qed auto

lemma sl_splice_pred:
  assumes ch: "sl_chains s L"
  obtains u where "sl_splice s key = Some (predAt s L key 0, u)" "length u = maxLevel"
    "\<And>i. i < sl_level s \<Longrightarrow> u ! i = Some (predAt s L key i)"
proof -
  have "1 \<le> sl_level s" "sl_level s \<le> maxLevel" using sl_chainsD(2,3) [OF ch] .
  with findSplice_pred [OF ch, of "sl_level s" noUpdate 0 key "Suc (length (sl_nodes s))"] that
  show thesis by (auto simp: sl_splice_def noUpdate_def)
qed

section \<open>Linking a node\<close>

lemma length_setFwd [simp]: "length (setFwd ns n i p) = length ns"
  by (simp add: setFwd_def)

lemma loadForward_setFwd:
  "n < length ns \<Longrightarrow> i < length (n_fwd (ns ! n)) \<Longrightarrow>
   loadForward (setFwd ns n i p) x j = (if x = n \<and> j = i then p else loadForward ns x j)"
  by (auto simp: setFwd_def loadForward_def nth_list_update)

lemma length_fwd_setFwd [simp]: "length (n_fwd (setFwd ns n i p ! x)) = length (n_fwd (ns ! x))"
  by (cases "n < length ns") (auto simp: setFwd_def nth_list_update list_update_beyond)

lemma node_entry_setFwd [simp]: "node_entry (setFwd ns n i p ! x) = node_entry (ns ! x)"
  by (cases "n < length ns") (auto simp: setFwd_def nth_list_update list_update_beyond node_entry_def)

lemma linkLevel_fold:
  assumes "\<And>i. i < l \<Longrightarrow> update ! i = Some (P i)" "\<And>i. i < l \<Longrightarrow> P i < new"
    and "length ns = Suc new" "\<And>x. x < length ns \<Longrightarrow> length (n_fwd (ns ! x)) = maxLevel"
    and "l \<le> maxLevel"
  shows "\<exists>ns'. foldl (linkLevel new update) (Some ns) [0..<l] = Some ns' \<and>
    length ns' = length ns \<and> (\<forall>x. length (n_fwd (ns' ! x)) = length (n_fwd (ns ! x))) \<and>
    (\<forall>x. node_entry (ns' ! x) = node_entry (ns ! x)) \<and>
    (\<forall>x j. loadForward ns' x j =
       (if j < l \<and> x = new then loadForward ns (P j) j
        else if j < l \<and> x = P j then Some new else loadForward ns x j))"
  using assms
proof (induction l)
  case (Suc l)
  then obtain ns1 where ns1:
    "foldl (linkLevel new update) (Some ns) [0..<l] = Some ns1" "length ns1 = length ns"
    "\<forall>x. length (n_fwd (ns1 ! x)) = length (n_fwd (ns ! x))"
    "\<forall>x. node_entry (ns1 ! x) = node_entry (ns ! x)"
    "\<forall>x j. loadForward ns1 x j =
       (if j < l \<and> x = new then loadForward ns (P j) j
        else if j < l \<and> x = P j then Some new else loadForward ns x j)"
    by fastforce
  have P: "update ! l = Some (P l)" "P l < new" "l < maxLevel" using Suc.prems by auto
  define ns2 where "ns2 = setFwd (setFwd ns1 new l (loadForward ns1 (P l) l)) (P l) l (Some new)"
  have link: "foldl (linkLevel new update) (Some ns) [0..<Suc l] = Some ns2"
    using P ns1(1) by (simp add: ns2_def) (simp add: linkLevel_def)
  have fwd: "loadForward ns2 x j =
      (if x = P l \<and> j = l then Some new else if x = new \<and> j = l then loadForward ns1 (P l) l
       else loadForward ns1 x j)" for x j
    using P Suc.prems(3,4) ns1(2,3) by (simp add: ns2_def loadForward_setFwd)
  have "loadForward ns2 x j =
      (if j < Suc l \<and> x = new then loadForward ns (P j) j
       else if j < Suc l \<and> x = P j then Some new else loadForward ns x j)" for x j
    using P(2) ns1(5) by (auto simp: fwd less_Suc_eq)
  then show ?case
    using link ns1(2-4) by (intro exI [of _ ns2]) (simp add: ns2_def)
qed auto

lemma randomLevel_from_spec:
  "randomLevel_from n s = (l, s') \<Longrightarrow> l \<le> n \<and> (\<exists>r. s' = s\<lparr>sl_randSeed := r\<rparr>)"
proof (induction n arbitrary: s l s')
  case 0
  then show ?case by (auto intro!: exI [of _ "sl_randSeed s"])
next
  case (Suc n)
  obtain y r1 where fr: "fastrand s = (y, s\<lparr>sl_randSeed := r1\<rparr>)"
    by (simp add: fastrand_def Let_def)
  obtain l2 s2 where r2: "randomLevel_from n (s\<lparr>sl_randSeed := r1\<rparr>) = (l2, s2)"
    by fastforce
  from Suc.prems Suc.IH [OF r2] show ?case
    by (auto simp: fr r2 split: if_splits)
qed

lemma randomLevel_spec:
  assumes "randomLevel s = (lvl, s')"
  obtains r where "1 \<le> lvl" "lvl \<le> maxLevel" "s' = s\<lparr>sl_randSeed := r\<rparr>"
proof -
  obtain l s2 where r: "randomLevel_from (maxLevel - 1) s = (l, s2)" by fastforce
  then have "l \<le> maxLevel - 1" "\<exists>r. s2 = s\<lparr>sl_randSeed := r\<rparr>" "lvl = 1 + l" "s' = s2"
    using randomLevel_from_spec [OF r] assms by (auto simp: randomLevel_def)
  with that show thesis by (auto simp: maxLevel_def)
qed

lemma foldl_set_head:
  "hi \<le> length u \<Longrightarrow>
   length (foldl (\<lambda>u i. u[i := Some (0::nat)]) u [lo..<hi]) = length u \<and>
   (\<forall>j. foldl (\<lambda>u i. u[i := Some 0]) u [lo..<hi] ! j = (if lo \<le> j \<and> j < hi then Some 0 else u ! j))"
  by (induction hi) (auto simp: nth_list_update less_Suc_eq)

text \<open>After the insertion, level \<open>i\<close> below the drawn height has the node right after the
  predecessor the search recorded.\<close>

definition newChain :: "skiplist \<Rightarrow> (nat \<Rightarrow> nat list) \<Rightarrow> bytes \<Rightarrow> nat \<Rightarrow> nat \<Rightarrow> nat list" where
  "newChain s L key lvl i =
     (if i < lvl then takeWhile (\<lambda>n. sl_key s n < key) (L i) @ length (sl_nodes s) #
        dropWhile (\<lambda>n. sl_key s n < key) (L i)
      else L i)"

text \<open>What \<open>insertNode\<close> leaves behind, before any reading of it.\<close>

lemma insertNode_raw:
  assumes ch: "sl_chains s L" and nd: "n_fwd nd = inlineTower"
  obtains s' lvl r where "insertNode s key nd = Some s'" "1 \<le> lvl" "lvl \<le> maxLevel"
    "s' = s\<lparr>sl_nodes := sl_nodes s', sl_level := max (sl_level s) lvl, sl_randSeed := r\<rparr>"
    "length (sl_nodes s') = Suc (length (sl_nodes s))"
    "\<And>x. x < length (sl_nodes s') \<Longrightarrow> length (n_fwd (sl_nodes s' ! x)) = maxLevel"
    "\<And>x. node_entry (sl_nodes s' ! x) = node_entry ((sl_nodes s @ [nd]) ! x)"
    "\<And>x j. j < maxLevel \<Longrightarrow> loadForward (sl_nodes s') x j =
       (if j < lvl \<and> x = length (sl_nodes s) then loadForward (sl_nodes s) (predAt s L key j) j
        else if j < lvl \<and> x = predAt s L key j then Some (length (sl_nodes s))
        else loadForward (sl_nodes s @ [nd]) x j)"
proof -
  define ns where "ns = sl_nodes s @ [nd]"
  define new where "new = length (sl_nodes s)"
  obtain u where u: "sl_splice s key = Some (predAt s L key 0, u)" "length u = maxLevel"
    "\<And>i. i < sl_level s \<Longrightarrow> u ! i = Some (predAt s L key i)"
    using sl_splice_pred [OF ch] by blast
  obtain lvl s1 where lvl: "randomLevel s = (lvl, s1)" by fastforce
  obtain r where r: "1 \<le> lvl" "lvl \<le> maxLevel" "s1 = s\<lparr>sl_randSeed := r\<rparr>"
    using randomLevel_spec [OF lvl] by blast
  obtain u' s2 where rl: "raiseLevel lvl u s1 = (u', s2)" by fastforce
  have s2: "s2 = s\<lparr>sl_level := max (sl_level s) lvl, sl_randSeed := r\<rparr>"
    using rl r(3) by (auto simp: raiseLevel_def Let_def max_def split: if_splits)
  have high: "predAt s L key i = 0" if "sl_level s \<le> i" "i < lvl" for i
    using that sl_chainsD(8) [OF ch, of i] r(2) by (simp add: predAt_def)
  have u'_eq: "u' = (if sl_level s < lvl
      then foldl (\<lambda>u i. u[i := Some 0]) u [sl_level s..<lvl] else u)"
    using rl r(3) by (simp add: raiseLevel_def Let_def split: if_splits)
  have u': "u' ! i = Some (predAt s L key i)" if "i < lvl" for i
  proof (cases "sl_level s \<le> i")
    case True
    then show ?thesis
      using that high foldl_set_head [of lvl u "sl_level s"] u(2) r(2) by (simp add: u'_eq)
  next
    case False
    then show ?thesis
      using foldl_set_head [of lvl u "sl_level s"] u(2) u(3) [of i] r(2) by (simp add: u'_eq)
  qed
  have len: "length (n_fwd (ns ! x)) = maxLevel" if "x < length ns" for x
    using that sl_chainsD(4) [OF ch, of x] nd
    by (auto simp: ns_def nth_append inlineTower_def less_Suc_eq)
  have P: "predAt s L key i < new" if "i < lvl" for i
    using predAt_bound [OF ch] that r(2) by (simp add: new_def)
  obtain ns' where ns': "foldl (linkLevel new u') (Some ns) [0..<lvl] = Some ns'"
    "length ns' = length ns" "\<forall>x. length (n_fwd (ns' ! x)) = length (n_fwd (ns ! x))"
    "\<forall>x. node_entry (ns' ! x) = node_entry (ns ! x)"
    "\<forall>x j. loadForward ns' x j = (if j < lvl \<and> x = new then loadForward ns (predAt s L key j) j
        else if j < lvl \<and> x = predAt s L key j then Some new else loadForward ns x j)"
    using linkLevel_fold [of lvl u' "predAt s L key" new ns] u' P len r(2)
    by (auto simp: ns_def new_def)
  have fwd: "loadForward ns' x j =
       (if j < lvl \<and> x = new then loadForward (sl_nodes s) (predAt s L key j) j
        else if j < lvl \<and> x = predAt s L key j then Some new else loadForward ns x j)" for x j
    using ns'(5) P [of j] by (simp add: ns_def new_def loadForward_def nth_append)
  show thesis
  proof (rule that [of "s2\<lparr>sl_nodes := ns'\<rparr>" lvl r])
    show "insertNode s key nd = Some (s2\<lparr>sl_nodes := ns'\<rparr>)"
      using u(1) lvl rl ns'(1) by (simp add: insertNode_def s2 ns_def new_def)
    show "length (n_fwd (sl_nodes (s2\<lparr>sl_nodes := ns'\<rparr>) ! x)) = maxLevel"
      if "x < length (sl_nodes (s2\<lparr>sl_nodes := ns'\<rparr>))" for x
      using that len [of x] ns'(2,3) by simp
  qed (use r(1,2) ns'(2,4) fwd in \<open>simp_all add: s2 ns_def new_def\<close>)
qed

lemma fwd_path_insert:
  assumes path: "fwd_path ns i p (xs @ ys) None" and xs: "xs \<noteq> []" and dist: "distinct (xs @ ys)"
    and new: "new \<notin> set (xs @ ys)"
    and fwd: "\<And>x. x \<in> set (new # xs @ ys) \<Longrightarrow> loadForward ns' x i =
        (if x = new then loadForward ns (last xs) i
         else if x = last xs then Some new else loadForward ns x i)"
  shows "fwd_path ns' i p (xs @ new # ys) None"
proof -
  from xs obtain zs a where zs: "xs = zs @ [a]" by (cases xs rule: rev_cases) auto
  from path obtain r where r: "fwd_path ns i p (zs @ [a]) r" "fwd_path ns i r ys None"
    by (auto simp: zs fwd_path_append)
  have ra: "r = loadForward ns a i" using r(1) by (auto simp: fwd_path_append)
  have "fwd_path ns' i p (zs @ [a]) (Some new)"
    by (rule fwd_path_redirect [OF r(1)]) (use dist new in \<open>auto simp: zs fwd\<close>)
  moreover have "fwd_path ns' i r ys None = fwd_path ns i r ys None"
    by (rule fwd_path_cong) (use dist new in \<open>auto simp: zs fwd\<close>)
  ultimately show ?thesis
    using r(2) by (auto simp: zs fwd_path_append fwd ra)
qed

lemma last_takeWhile_predAt: "last (0 # takeWhile (\<lambda>n. sl_key s n < key) (L i)) = predAt s L key i"
  by (simp add: predAt_def)

lemma set_newChain:
  "set (newChain s L key lvl i) =
     (if i < lvl then insert (length (sl_nodes s)) (set (L i)) else set (L i))"
proof -
  have "set (takeWhile P xs) \<union> set (dropWhile P xs) = set xs" for P and xs :: "nat list"
    by (metis set_append takeWhile_dropWhile_id)
  then show ?thesis by (auto simp: newChain_def)
qed

lemma distinct_takeWhile_mid:
  "distinct xs \<Longrightarrow> y \<notin> set xs \<Longrightarrow> distinct (takeWhile P xs @ y # dropWhile P xs)"
  by (metis distinct.simps(2) distinct_append distinct_takeWhile takeWhile_dropWhile_id
      set_append Un_iff disjoint_insert(2) list.simps(15))

text \<open>What remains after \<open>takeWhile\<close> on a key-sorted list is not below the key.\<close>

lemma sorted_dropWhile_ge:
  fixes f :: "'a \<Rightarrow> bytes"
  assumes "sorted_wrt (\<lambda>a b. f a \<le> f b) xs" "x \<in> set (dropWhile (\<lambda>n. f n < key) xs)"
  shows "key \<le> f x"
  using assms by (induction xs) (auto split: if_splits intro: order_trans)

lemma sorted_takeWhile_mid:
  fixes f :: "'a \<Rightarrow> bytes"
  assumes "sorted_wrt (\<lambda>a b. f a \<le> f b) xs" "f y = key"
  shows "sorted_wrt (\<lambda>a b. f a \<le> f b) (takeWhile (\<lambda>n. f n < key) xs @ y # dropWhile (\<lambda>n. f n < key) xs)"
proof -
  have "sorted_wrt (\<lambda>a b. f a \<le> f b) (takeWhile (\<lambda>n. f n < key) xs @ dropWhile (\<lambda>n. f n < key) xs)"
    using assms(1) by simp
  then show ?thesis
    using assms(2) sorted_dropWhile_ge [OF assms(1), of _ key]
    by (auto simp: sorted_wrt_append simp del: takeWhile_dropWhile_id
        dest: set_takeWhileD intro: less_imp_le)
qed

lemma e_key_node_entry: "e_key (node_entry n) = n_key n"
  by (simp add: node_entry_def)

lemma n_key_node_entry: "node_entry a = node_entry b \<Longrightarrow> n_key a = n_key b"
  by (simp add: node_entry_def)

lemma insertNode_chains:
  assumes ch: "sl_chains s L" and nd: "n_fwd nd = inlineTower" "n_key nd = key"
  obtains s' lvl r where "insertNode s key nd = Some s'" "1 \<le> lvl"
    "s' = s\<lparr>sl_nodes := sl_nodes s', sl_level := max (sl_level s) lvl, sl_randSeed := r\<rparr>"
    "sl_chains s' (newChain s L key lvl)"
    "\<And>x. node_entry (sl_nodes s' ! x) = node_entry ((sl_nodes s @ [nd]) ! x)"
proof -
  obtain s' lvl r where ins: "insertNode s key nd = Some s'" and lvl: "1 \<le> lvl" "lvl \<le> maxLevel"
    and s': "s' = s\<lparr>sl_nodes := sl_nodes s', sl_level := max (sl_level s) lvl, sl_randSeed := r\<rparr>"
    and len: "length (sl_nodes s') = Suc (length (sl_nodes s))"
    and len_fwd: "\<And>x. x < length (sl_nodes s') \<Longrightarrow> length (n_fwd (sl_nodes s' ! x)) = maxLevel"
    and entry: "\<And>x. node_entry (sl_nodes s' ! x) = node_entry ((sl_nodes s @ [nd]) ! x)"
    and fwd: "\<And>x j. j < maxLevel \<Longrightarrow> loadForward (sl_nodes s') x j =
       (if j < lvl \<and> x = length (sl_nodes s) then loadForward (sl_nodes s) (predAt s L key j) j
        else if j < lvl \<and> x = predAt s L key j then Some (length (sl_nodes s))
        else loadForward (sl_nodes s @ [nd]) x j)"
    using insertNode_raw [OF ch nd(1)] by metis
  let ?new = "length (sl_nodes s)" and ?N = "newChain s L key lvl"
  have key_old: "sl_key s' x = sl_key s x" if "x < ?new" for x
    using n_key_node_entry [OF entry [of x]] that by (simp add: sl_key_def nth_append)
  have key_new: "sl_key s' ?new = key"
    using n_key_node_entry [OF entry [of ?new]] nd(2) by (simp add: sl_key_def)
  have below: "x < ?new" if "x \<in> set (0 # L i)" "i < maxLevel" for x i
    using that sl_chains_set [OF ch, of i] sl_chainsD(1) [OF ch] by auto
  have old_fwd: "loadForward (sl_nodes s @ [nd]) x j = loadForward (sl_nodes s) x j" if "x < ?new" for x j
    using that by (simp add: loadForward_def nth_append)
  have path: "fwd_path (sl_nodes s') i (Some 0) (0 # ?N i) None" if i: "i < maxLevel" for i
  proof (cases "i < lvl")
    case True
    have "fwd_path (sl_nodes s') i (Some 0)
        ((0 # takeWhile (\<lambda>n. sl_key s n < key) (L i)) @ ?new # dropWhile (\<lambda>n. sl_key s n < key) (L i)) None"
      by (rule fwd_path_insert [where ns = "sl_nodes s"])
         (use sl_chainsD(5,6) [OF ch i] below [OF _ i] True
          in \<open>auto simp: fwd [OF i] old_fwd last_takeWhile_predAt simp del: last.simps dest: set_takeWhileD\<close>)
    then show ?thesis using True by (simp add: newChain_def)
  next
    case False
    have "fwd_path (sl_nodes s') i (Some 0) (0 # L i) None = fwd_path (sl_nodes s) i (Some 0) (0 # L i) None"
      by (rule fwd_path_cong) (use below [OF _ i] False in \<open>auto simp: fwd [OF i] old_fwd\<close>)
    then show ?thesis using False sl_chainsD(5) [OF ch i] by (simp add: newChain_def)
  qed
  have dist: "distinct (0 # ?N i)" if i: "i < maxLevel" for i
    using sl_chainsD(1) [OF ch] sl_chainsD(6) [OF ch i] below [OF _ i]
      distinct_takeWhile_mid [of "L i" ?new "\<lambda>n. sl_key s n < key"]
    by (auto simp: set_newChain) (auto simp: newChain_def)
  have sorted: "sorted_wrt (\<lambda>a b. sl_key s' a \<le> sl_key s' b) (?N i)" if i: "i < maxLevel" for i
  proof -
    have tw: "takeWhile (\<lambda>n. sl_key s' n < key) (L i) = takeWhile (\<lambda>n. sl_key s n < key) (L i)"
      "dropWhile (\<lambda>n. sl_key s' n < key) (L i) = dropWhile (\<lambda>n. sl_key s n < key) (L i)"
      using below [OF _ i] by (auto simp: key_old intro!: takeWhile_cong dropWhile_cong)
    have "sorted_wrt (\<lambda>a b. sl_key s' a \<le> sl_key s' b) (L i)"
      using sl_chainsD(7) [OF ch i] below [OF _ i]
      by (auto simp: key_old elim!: sorted_wrt_mono_rel [rotated])
    from this sorted_takeWhile_mid [OF this key_new] show ?thesis
      by (simp add: newChain_def tw)
  qed
  have "sl_level s' = max (sl_level s) lvl" using s' by (metis skiplist.select_convs(2)
        skiplist.surjective skiplist.update_convs(2,4))
  note level = this
  have "sl_chains s' ?N"
  proof (rule sl_chainsI [OF _ _ _ len_fwd path dist sorted])
    show "0 < length (sl_nodes s')" "1 \<le> sl_level s'" "sl_level s' \<le> maxLevel"
      using len level lvl sl_chainsD(2,3) [OF ch] by auto
    show "?N i = []" if "i < maxLevel" "sl_level s' \<le> i" for i
      using that level sl_chainsD(8) [OF ch] by (simp add: newChain_def)
    show "set (?N (Suc i)) \<subseteq> set (?N i)" if "Suc i < maxLevel" for i
      using sl_chainsD(9) [OF ch that] by (auto simp: set_newChain)
    show "set (?N 0) = {1..<length (sl_nodes s')}"
      using sl_chainsD(10) [OF ch] sl_chainsD(1) [OF ch] lvl(1) len
      by (auto simp: set_newChain Suc_le_eq)
  qed
  with that [OF ins lvl(1) s'] entry show thesis by blast
qed

section \<open>Refinement of the entry list\<close>

lemma takeWhile_eq_filter:
  fixes f :: "'a \<Rightarrow> bytes"
  assumes "sorted_wrt (\<lambda>a b. f a \<le> f b) xs"
  shows "takeWhile (\<lambda>x. f x < key) xs = filter (\<lambda>x. f x < key) xs"
    and "dropWhile (\<lambda>x. f x < key) xs = filter (\<lambda>x. \<not> f x < key) xs"
proof -
  have "takeWhile (\<lambda>x. f x < key) xs = filter (\<lambda>x. f x < key) xs \<and>
        dropWhile (\<lambda>x. f x < key) xs = filter (\<lambda>x. \<not> f x < key) xs"
    using assms
  proof (induction xs)
    case (Cons a xs)
    then have "\<forall>x \<in> set xs. \<not> f x < key" if "\<not> f a < key"
      using that by (auto simp: not_less intro: order_trans)
    with Cons show ?case by (simp add: filter_empty_conv)
  qed simp
  then show "takeWhile (\<lambda>x. f x < key) xs = filter (\<lambda>x. f x < key) xs"
    and "dropWhile (\<lambda>x. f x < key) xs = filter (\<lambda>x. \<not> f x < key) xs" by auto
qed

lemma collectFrom_path:
  "fwd_path ns 0 p xs None \<Longrightarrow> length xs < fuel \<Longrightarrow>
   collectFrom fuel ns ok p = Some (filter (\<lambda>e. ok (e_version e)) (map (\<lambda>n. node_entry (ns ! n)) xs))"
proof (induction xs arbitrary: p fuel)
  case Nil
  then show ?case by (cases fuel) auto
next
  case (Cons x xs)
  then show ?case by (cases fuel) (auto simp: node_entry_def)
qed

lemma collect_all_chains:
  assumes "sl_chains s L"
  shows "collect_all s ok = Some (filter (\<lambda>e. ok (e_version e)) (map (\<lambda>n. node_entry (sl_nodes s ! n)) (L 0)))"
  unfolding collect_all_def
  by (rule collectFrom_path [OF sl_chainsD(5) [OF assms maxLevel_pos]])
     (use sl_chains_length [OF assms maxLevel_pos] in simp)

lemma sl_entries_chains:
  "sl_chains s L \<Longrightarrow> sl_entries s = map (\<lambda>n. node_entry (sl_nodes s ! n)) (L 0)"
  by (simp add: sl_entries_def collect_all_chains)

lemma collect_all_entries:
  "sl_wf s \<Longrightarrow> collect_all s ok = Some (filter (\<lambda>e. ok (e_version e)) (sl_entries s))"
  by (auto simp: sl_wf_def collect_all_chains sl_entries_chains)

text \<open>An insertion puts the entry in front of the first entry whose key is not smaller.\<close>

definition mt_insert :: "entry list \<Rightarrow> entry \<Rightarrow> entry list" where
  "mt_insert es e = filter (\<lambda>x. e_key x < e_key e) es @ e # filter (\<lambda>x. \<not> e_key x < e_key e) es"

lemma mset_mt_insert [simp]: "mset (mt_insert es e) = add_mset e (mset es)"
  by (simp add: mt_insert_def)

lemma set_mt_insert [simp]: "set (mt_insert es e) = insert e (set es)"
  by (auto simp: mt_insert_def)

lemma insertNode_refines:
  assumes "sl_wf s" and nd: "n_fwd nd = inlineTower" "n_key nd = key"
  obtains s' where "insertNode s key nd = Some s'" "sl_wf s'"
    "sl_entries s' = mt_insert (sl_entries s) (node_entry nd)"
    "sl_sizeBytes s' = sl_sizeBytes s" "sl_versionCounter s' = sl_versionCounter s"
proof -
  from assms(1) obtain L where ch: "sl_chains s L" by (auto simp: sl_wf_def)
  obtain s' lvl r where ins: "insertNode s key nd = Some s'" "1 \<le> lvl"
    and s': "s' = s\<lparr>sl_nodes := sl_nodes s', sl_level := max (sl_level s) lvl, sl_randSeed := r\<rparr>"
    and ch': "sl_chains s' (newChain s L key lvl)"
    and entry: "\<And>x. node_entry (sl_nodes s' ! x) = node_entry ((sl_nodes s @ [nd]) ! x)"
    using insertNode_chains [OF ch nd] by metis
  have old: "map (\<lambda>n. node_entry (sl_nodes s' ! n)) xs = map (\<lambda>n. node_entry (sl_nodes s ! n)) xs"
    if "set xs \<subseteq> set (L 0)" for xs
    using that sl_chains_set [OF ch maxLevel_pos] by (force simp: entry nth_append)
  have nk: "e_key (node_entry nd) = key" "\<And>n. e_key (node_entry (sl_nodes s ! n)) = sl_key s n"
    using nd(2) by (simp_all add: node_entry_def sl_key_def)
  have new: "node_entry (sl_nodes s' ! length (sl_nodes s)) = node_entry nd"
    by (simp add: entry)
  have "sl_entries s' = map (\<lambda>n. node_entry (sl_nodes s ! n)) (filter (\<lambda>n. sl_key s n < key) (L 0)) @
      node_entry nd # map (\<lambda>n. node_entry (sl_nodes s ! n)) (filter (\<lambda>n. \<not> sl_key s n < key) (L 0))"
    using ins(2) old [of "filter _ (L 0)"] new
    by (simp add: sl_entries_chains [OF ch'] newChain_def subset_iff
        takeWhile_eq_filter [OF sl_chainsD(7) [OF ch maxLevel_pos], of key])
  also have "\<dots> = mt_insert (sl_entries s) (node_entry nd)"
    by (simp add: sl_entries_chains [OF ch] mt_insert_def filter_map comp_def nk)
  finally have "sl_entries s' = mt_insert (sl_entries s) (node_entry nd)" .
  moreover have "sl_sizeBytes s' = sl_sizeBytes s" "sl_versionCounter s' = sl_versionCounter s"
    by (subst s', simp)+
  ultimately show thesis using that [OF ins(1)] ch' by (auto simp: sl_wf_def)
qed

section \<open>Lookups\<close>

lemma fwd_path_last:
  "xs \<noteq> [] \<Longrightarrow> fwd_path ns i p (xs @ ys) None \<Longrightarrow> fwd_path ns i (loadForward ns (last xs) i) ys None"
  by (cases xs rule: rev_cases) (auto simp: fwd_path_append)

lemma fwd_path_from_pred:
  assumes "sl_chains s L"
  shows "fwd_path (sl_nodes s) 0 (loadForward (sl_nodes s) (predAt s L key 0) 0)
           (filter (\<lambda>n. \<not> sl_key s n < key) (L 0)) None"
proof -
  let ?tw = "takeWhile (\<lambda>n. sl_key s n < key) (L 0)" and ?dw = "dropWhile (\<lambda>n. sl_key s n < key) (L 0)"
  have "fwd_path (sl_nodes s) 0 (Some 0) ((0 # ?tw) @ ?dw) None"
    using sl_chainsD(5) [OF assms maxLevel_pos] by simp
  from fwd_path_last [OF _ this] show ?thesis
    by (simp add: predAt_def takeWhile_eq_filter(2) [OF sl_chainsD(7) [OF assms maxLevel_pos]])
qed

lemma scanKey_path:
  "fwd_path ns 0 p xs None \<Longrightarrow> length xs < fuel \<Longrightarrow>
   scanKey fuel ns key ok p best = Some (foldl better best
     (filter (\<lambda>e. ok (e_version e)) (takeWhile (\<lambda>e. e_key e = key) (map (\<lambda>n. node_entry (ns ! n)) xs))))"
proof (induction xs arbitrary: p fuel best)
  case Nil
  then show ?case by (cases fuel) auto
next
  case (Cons x xs)
  then show ?case by (cases fuel) (auto simp: node_entry_def)
qed

lemma sorted_takeWhile_eq_key:
  assumes "sorted_wrt (\<lambda>a b. e_key a \<le> e_key b) es" "\<forall>e \<in> set es. key \<le> e_key e"
  shows "takeWhile (\<lambda>e. e_key e = key) es = filter (\<lambda>e. e_key e = key) es \<and>
         dropWhile (\<lambda>e. e_key e = key) es = filter (\<lambda>e. e_key e \<noteq> key) es"
  using assms
proof (induction es)
  case (Cons a es)
  then have "key \<le> e_key a" "\<forall>x \<in> set es. e_key a \<le> e_key x" by auto
  then have "\<forall>x \<in> set es. e_key x \<noteq> key" if "e_key a \<noteq> key"
    using that by (metis order.antisym)
  with Cons show ?case by (simp add: filter_empty_conv)
qed simp

lemma sl_entries_sorted:
  assumes "sl_wf s"
  shows "sorted_wrt (\<lambda>a b. e_key a \<le> e_key b) (sl_entries s)"
proof -
  from assms obtain L where ch: "sl_chains s L" by (auto simp: sl_wf_def)
  from sl_chainsD(7) [OF this maxLevel_pos] show ?thesis
    by (simp add: sl_entries_chains [OF ch] sorted_wrt_map sl_key_def node_entry_def)
qed

lemma lookupKey_refines:
  assumes "sl_wf s"
  shows "lookupKey s key ok =
    Some (best_of (filter (\<lambda>e. e_key e = key \<and> ok (e_version e)) (sl_entries s)))"
proof -
  from assms obtain L where ch: "sl_chains s L" by (auto simp: sl_wf_def)
  obtain u where u: "sl_splice s key = Some (predAt s L key 0, u)"
    using sl_splice_pred [OF ch] by blast
  let ?xs = "filter (\<lambda>n. \<not> sl_key s n < key) (L 0)"
  let ?ge = "filter (\<lambda>e. \<not> e_key e < key) (sl_entries s)"
  have ge: "map (\<lambda>n. node_entry (sl_nodes s ! n)) ?xs = ?ge"
    by (simp add: sl_entries_chains [OF ch] filter_map comp_def sl_key_def node_entry_def)
  have "length ?xs < Suc (length (sl_nodes s))"
    using sl_chains_length [OF ch maxLevel_pos] length_filter_le [of _ "L 0"] by (meson le_less_trans less_SucI)
  with scanKey_path [OF fwd_path_from_pred [OF ch], of key _ key ok None] u
  have "lookupKey s key ok = Some (best_of
      (filter (\<lambda>e. ok (e_version e)) (takeWhile (\<lambda>e. e_key e = key) ?ge)))"
    by (simp add: lookupKey_def best_of_def ge del: scanKey.simps)
  also have "takeWhile (\<lambda>e. e_key e = key) ?ge = filter (\<lambda>e. e_key e = key) ?ge"
    by (rule sorted_takeWhile_eq_key [THEN conjunct1])
       (use sl_entries_sorted [OF assms] in \<open>auto intro: sorted_wrt_filter\<close>)
  also have "\<dots> = filter (\<lambda>e. e_key e = key) (sl_entries s)"
    by (auto intro!: filter_cong)
  finally show ?thesis by (simp add: conj_commute)
qed

section \<open>The operations of the memtable\<close>

definition mt_entry :: "bytes \<Rightarrow> bytes \<Rightarrow> bool \<Rightarrow> i64 \<Rightarrow> u64 \<Rightarrow> entry" where
  "mt_entry k v d x ver = \<lparr>e_key = k, e_value = v, e_deleted = d, e_expiresAt = x, e_version = ver\<rparr>"

lemma NewSkipList_chains: "sl_chains (NewSkipList seed) (\<lambda>_. [])"
  by (rule sl_chainsI) (auto simp: NewSkipList_def inlineTower_def loadForward_def maxLevel_def)

lemma NewSkipList_wf [simp]: "sl_wf (NewSkipList seed)" and NewSkipList_entries [simp]: "sl_entries (NewSkipList seed) = []"
  using NewSkipList_chains [of seed] sl_entries_chains [OF NewSkipList_chains] by (auto simp: sl_wf_def)

lemma sl_wf_cong:
  assumes "sl_nodes s' = sl_nodes s" "sl_level s' = sl_level s"
  shows "sl_wf s' = sl_wf s" "sl_entries s' = sl_entries s"
  using assms by (simp_all add: sl_wf_def sl_chains_def sl_key_def sl_entries_def collect_all_def)

lemma drawVersion_same:
  "drawVersion s version =
     (let v = (if version = 0 then sl_versionCounter s + 1 else version)
      in (v, s\<lparr>sl_versionCounter := if version = 0 then v else max v (sl_versionCounter s)\<rparr>))"
  by (simp add: drawVersion_def Let_def max_def)

lemma PutVersion_spec:
  assumes "sl_wf s"
  obtains s' where "PutVersion s key val exp version = Some s'" "sl_wf s'"
    "sl_entries s' = mt_insert (sl_entries s)
       (mt_entry key val False exp (if version = 0 then sl_versionCounter s + 1 else version))"
    "sl_versionCounter s' = (if version = 0 then sl_versionCounter s + 1
        else max version (sl_versionCounter s))"
    "sl_sizeBytes s' = sl_sizeBytes s + int (length key) + int (length val) + nodeOverhead"
proof -
  obtain v s1 where dv: "drawVersion s version = (v, s1)" by fastforce
  have v: "v = (if version = 0 then sl_versionCounter s + 1 else version)"
    and s1: "sl_wf s1" "sl_entries s1 = sl_entries s" "sl_sizeBytes s1 = sl_sizeBytes s"
      "sl_versionCounter s1 = (if version = 0 then sl_versionCounter s + 1
        else max version (sl_versionCounter s))"
    using dv assms sl_wf_cong [of s1 s] by (auto simp: drawVersion_same Let_def)
  let ?nd = "\<lparr>n_key = key, n_value = val, n_deleted = False, n_expiresAt = exp, n_version = v,
    n_fwd = inlineTower\<rparr>"
  obtain s2 where "insertNode s1 key ?nd = Some s2" "sl_wf s2"
    "sl_entries s2 = mt_insert (sl_entries s1) (node_entry ?nd)"
    "sl_sizeBytes s2 = sl_sizeBytes s1" "sl_versionCounter s2 = sl_versionCounter s1"
    by (rule insertNode_refines [OF s1(1), of ?nd key]) auto
  with that show thesis
    using dv s1 v sl_wf_cong [of "s2\<lparr>sl_sizeBytes := _\<rparr>" s2]
    by (simp add: PutVersion_def mt_entry_def node_entry_def)
qed

lemma DeleteVersion_spec:
  assumes "sl_wf s"
  obtains s' where "DeleteVersion s key version = Some s'" "sl_wf s'"
    "sl_entries s' = mt_insert (sl_entries s)
       (mt_entry key [] True 0 (if version = 0 then sl_versionCounter s + 1 else version))"
    "sl_versionCounter s' = (if version = 0 then sl_versionCounter s + 1
        else max version (sl_versionCounter s))"
    "sl_sizeBytes s' = sl_sizeBytes s + nodeOverhead"
proof -
  obtain v s1 where dv: "drawVersion s version = (v, s1)" by fastforce
  have v: "v = (if version = 0 then sl_versionCounter s + 1 else version)"
    and s1: "sl_wf s1" "sl_entries s1 = sl_entries s" "sl_sizeBytes s1 = sl_sizeBytes s"
      "sl_versionCounter s1 = (if version = 0 then sl_versionCounter s + 1
        else max version (sl_versionCounter s))"
    using dv assms sl_wf_cong [of s1 s] by (auto simp: drawVersion_same Let_def)
  let ?nd = "\<lparr>n_key = key, n_value = [], n_deleted = True, n_expiresAt = 0, n_version = v,
    n_fwd = inlineTower\<rparr>"
  obtain s2 where "insertNode s1 key ?nd = Some s2" "sl_wf s2"
    "sl_entries s2 = mt_insert (sl_entries s1) (node_entry ?nd)"
    "sl_sizeBytes s2 = sl_sizeBytes s1" "sl_versionCounter s2 = sl_versionCounter s1"
    by (rule insertNode_refines [OF s1(1), of ?nd key]) auto
  with that show thesis
    using dv s1 v sl_wf_cong [of "s2\<lparr>sl_sizeBytes := _\<rparr>" s2]
    by (simp add: DeleteVersion_def mt_entry_def node_entry_def)
qed

section \<open>The best version of every key\<close>

lemma foldl_better_the:
  "(if e_version b < e_version e then e else b) = the (better (Some b) e)"
  "foldl better (Some b) es = Some (the (foldl better (Some b) es))"
  using foldl_better_Some [of b es] by (auto simp: better_def)

lemma bestOfRun_path:
  "fwd_path ns 0 p xs None \<Longrightarrow> length xs < fuel \<Longrightarrow>
   \<exists>q. bestOfRun fuel ns key p best = Some (the (foldl better (Some best)
       (map (\<lambda>n. node_entry (ns ! n)) (takeWhile (\<lambda>n. n_key (ns ! n) = key) xs))), q) \<and>
     fwd_path ns 0 q (dropWhile (\<lambda>n. n_key (ns ! n) = key) xs) None"
proof (induction xs arbitrary: p fuel best)
  case Nil
  then show ?case by (cases fuel) auto
next
  case (Cons x xs)
  have "e_version (node_entry (ns ! x)) = n_version (ns ! x)" by (simp add: node_entry_def)
  with Cons show ?case by (cases fuel) (auto simp: better_def)
qed

text \<open>The best versions of the runs of equal keys of an entry list, in order.\<close>

function bestRuns :: "entry list \<Rightarrow> entry list" where
  "bestRuns [] = []"
| "bestRuns (e # es) =
     the (foldl better (Some e) (takeWhile (\<lambda>x. e_key x = e_key e) es)) #
     bestRuns (dropWhile (\<lambda>x. e_key x = e_key e) es)"
  by pat_completeness auto
termination
  by (relation "measure length") (auto simp: less_Suc_eq_le length_dropWhile_le)

lemma allFrom_path:
  "fwd_path ns 0 p xs None \<Longrightarrow> length xs < fuel \<Longrightarrow>
   allFrom fuel now ns p =
     Some (concat (map (liveEntry now) (bestRuns (map (\<lambda>n. node_entry (ns ! n)) xs))))"
proof (induction fuel arbitrary: p xs)
  case (Suc fuel)
  show ?case
  proof (cases xs)
    case (Cons x ys)
    with Suc.prems have p: "p = Some x" and path: "fwd_path ns 0 (loadForward ns x 0) ys None"
      and len: "length ys < Suc fuel" by auto
    obtain q where q: "bestOfRun (Suc fuel) ns (n_key (ns ! x)) (loadForward ns x 0) (node_entry (ns ! x)) =
        Some (the (foldl better (Some (node_entry (ns ! x))) (map (\<lambda>n. node_entry (ns ! n))
          (takeWhile (\<lambda>n. n_key (ns ! n) = n_key (ns ! x)) ys))), q)"
      "fwd_path ns 0 q (dropWhile (\<lambda>n. n_key (ns ! n) = n_key (ns ! x)) ys) None"
      using bestOfRun_path [OF path len] by blast
    have "length (dropWhile (\<lambda>n. n_key (ns ! n) = n_key (ns ! x)) ys) < fuel"
      using Suc.prems(2) Cons length_dropWhile_le [of _ ys] by (auto intro: le_less_trans)
    from Suc.IH [OF q(2) this] show ?thesis
      by (simp add: p q(1) Cons takeWhile_map dropWhile_map comp_def e_key_node_entry
          del: bestOfRun.simps)
  qed (use Suc.prems in simp)
qed simp

lemma bestRuns_sorted:
  assumes "sorted_wrt (\<lambda>a b. e_key a \<le> e_key b) es"
  shows "bestRuns es = map (\<lambda>k. the (latest_entry es k)) (remdups_adj (map e_key es))"
  using assms
proof (induction es rule: bestRuns.induct)
  case (2 e es)
  have tw: "takeWhile (\<lambda>x. e_key x = e_key e) es = filter (\<lambda>x. e_key x = e_key e) es"
    and dw: "dropWhile (\<lambda>x. e_key x = e_key e) es = filter (\<lambda>x. e_key x \<noteq> e_key e) es"
    using sorted_takeWhile_eq_key [of es "e_key e"] 2(2) by auto
  have rest: "latest_entry (filter (\<lambda>x. e_key x \<noteq> e_key e) es) k = latest_entry (e # es) k"
    if "k \<noteq> e_key e" for k
    using that by (auto simp: latest_entry_def intro!: arg_cong [of _ _ best_of] filter_cong)
  have keys: "remdups_adj (map e_key (e # es)) =
      e_key e # remdups_adj (map e_key (filter (\<lambda>x. e_key x \<noteq> e_key e) es))"
    by (simp add: remdups_adj_Cons' dropWhile_map comp_def dw [symmetric] del: remdups_adj.simps)
  have "sorted_wrt (\<lambda>a b. e_key a \<le> e_key b) (filter (\<lambda>x. e_key x \<noteq> e_key e) es)"
    using 2(2) by (simp add: sorted_wrt_filter)
  note IH = 2(1) [unfolded dw, OF this]
  have "map (\<lambda>k. the (latest_entry (filter (\<lambda>x. e_key x \<noteq> e_key e) es) k))
      (remdups_adj (map e_key (filter (\<lambda>x. e_key x \<noteq> e_key e) es))) =
    map (\<lambda>k. the (latest_entry (e # es) k))
      (remdups_adj (map e_key (filter (\<lambda>x. e_key x \<noteq> e_key e) es)))"
    by (auto simp: rest)
  then show ?case
    unfolding bestRuns.simps keys tw dw IH by (simp add: latest_entry_def best_of_Cons)
qed simp

lemma sl_All_refines:
  assumes "sl_wf s"
  shows "sl_All now s = Some (concat (map (\<lambda>k. liveEntry now (the (latest_entry (sl_entries s) k)))
           (remdups_adj (map e_key (sl_entries s)))))"
proof -
  from assms obtain L where ch: "sl_chains s L" by (auto simp: sl_wf_def)
  have "sl_All now s = Some (concat (map (liveEntry now) (bestRuns (sl_entries s))))"
    unfolding sl_All_def sl_entries_chains [OF ch]
    by (rule allFrom_path [OF sl_chainsD(5) [OF ch maxLevel_pos]])
       (use sl_chains_length [OF ch maxLevel_pos] in simp)
  then show ?thesis
    by (simp add: bestRuns_sorted [OF sl_entries_sorted [OF assms]] comp_def)
qed

section \<open>Iteration\<close>

text \<open>The entries an iterator positioned at \<open>p\<close> will still yield.\<close>

definition iter_rest :: "skiplist \<Rightarrow> nat option \<Rightarrow> entry list option" where
  "iter_rest s p = collectFrom (Suc (length (sl_nodes s))) (sl_nodes s) (\<lambda>_. True) p"

lemma skipBelow_path:
  "fwd_path ns 0 p xs None \<Longrightarrow> length xs < fuel \<Longrightarrow> \<forall>n \<in> set xs. \<not> n_key (ns ! n) < key \<Longrightarrow>
   skipBelow fuel ns key p = Some p"
  by (cases xs; cases fuel) auto

lemma Seek_refines:
  assumes "sl_wf s"
  obtains p where "Seek s key = Some p"
    "iter_rest s p = Some (filter (\<lambda>e. \<not> e_key e < key) (sl_entries s))"
proof -
  from assms obtain L where ch: "sl_chains s L" by (auto simp: sl_wf_def)
  obtain u where u: "sl_splice s key = Some (predAt s L key 0, u)"
    using sl_splice_pred [OF ch] by blast
  let ?xs = "filter (\<lambda>n. \<not> sl_key s n < key) (L 0)"
  have len: "length ?xs < Suc (length (sl_nodes s))"
    using sl_chains_length [OF ch maxLevel_pos] length_filter_le [of _ "L 0"] by (meson le_less_trans less_SucI)
  let ?p = "loadForward (sl_nodes s) (predAt s L key 0) 0"
  note path = fwd_path_from_pred [OF ch, of key]
  have "Seek s key = Some ?p"
    using u skipBelow_path [OF path len, of key]
    by (simp add: Seek_def sl_key_def del: skipBelow.simps)
  moreover have "iter_rest s ?p = Some (filter (\<lambda>e. \<not> e_key e < key) (sl_entries s))"
    unfolding iter_rest_def collectFrom_path [OF path len]
    by (simp add: sl_entries_chains [OF ch] filter_map comp_def sl_key_def node_entry_def)
  ultimately show thesis by (rule that)
qed

section \<open>Runs of the memtable\<close>

text \<open>A run is the sequence of writes applied to a fresh table.\<close>

datatype mt_op = MtPut bytes bytes i64 u64 | MtDelete bytes u64 | MtSeed u64

fun mt_step :: "skiplist \<Rightarrow> mt_op \<Rightarrow> skiplist option" where
  "mt_step s (MtPut k v x ver) = PutVersion s k v x ver"
| "mt_step s (MtDelete k ver) = DeleteVersion s k ver"
| "mt_step s (MtSeed v) = Some (SeedVersion s v)"

fun mt_run :: "skiplist \<Rightarrow> mt_op list \<Rightarrow> skiplist option" where
  "mt_run s [] = Some s"
| "mt_run s (a # as) = (case mt_step s a of None \<Rightarrow> None | Some s' \<Rightarrow> mt_run s' as)"

text \<open>The specification: a log of the writes, newest first, and the version counter.\<close>

fun mt_log_step :: "entry list \<times> u64 \<Rightarrow> mt_op \<Rightarrow> entry list \<times> u64" where
  "mt_log_step (es, c) (MtPut k v x ver) =
     (if ver = 0 then (mt_entry k v False x (c + 1) # es, c + 1)
      else (mt_entry k v False x ver # es, max ver c))"
| "mt_log_step (es, c) (MtDelete k ver) =
     (if ver = 0 then (mt_entry k [] True 0 (c + 1) # es, c + 1)
      else (mt_entry k [] True 0 ver # es, max ver c))"
| "mt_log_step (es, c) (MtSeed v) = (es, max v c)"

definition mt_log :: "mt_op list \<Rightarrow> entry list" where
  "mt_log ops = fst (foldl mt_log_step ([], 0) ops)"

definition mt_sim :: "skiplist \<Rightarrow> entry list \<times> u64 \<Rightarrow> bool" where
  "mt_sim s a \<longleftrightarrow> sl_wf s \<and> sl_versionCounter s = snd a \<and> mset (sl_entries s) = mset (fst a) \<and>
     (\<forall>k. filter (\<lambda>e. e_key e = k) (sl_entries s) = filter (\<lambda>e. e_key e = k) (fst a))"

lemma filter_mt_insert:
  "filter (\<lambda>x. e_key x = k) (mt_insert es e) =
     (if e_key e = k then e # filter (\<lambda>x. e_key x = k) es else filter (\<lambda>x. e_key x = k) es)"
proof -
  have "filter (\<lambda>x. e_key x = k) (filter (\<lambda>x. e_key x < e_key e) es) =
      (if k < e_key e then filter (\<lambda>x. e_key x = k) es else [])"
    "filter (\<lambda>x. e_key x = k) (filter (\<lambda>x. \<not> e_key x < e_key e) es) =
      (if k < e_key e then [] else filter (\<lambda>x. e_key x = k) es)"
    by (auto simp: filter_empty_conv intro!: filter_cong)
  then show ?thesis by (auto simp: mt_insert_def simp del: filter_filter)
qed

lemma mt_sim_insert:
  assumes "mt_sim s (es, c)" "sl_wf s'" "sl_versionCounter s' = c'"
    "sl_entries s' = mt_insert (sl_entries s) e"
  shows "mt_sim s' (e # es, c')"
  using assms by (auto simp: mt_sim_def filter_mt_insert)

lemma mt_step_sim:
  assumes "mt_sim s a"
  shows "\<exists>s'. mt_step s op = Some s' \<and> mt_sim s' (mt_log_step a op)"
proof -
  obtain es c where a: "a = (es, c)" by fastforce
  have wf: "sl_wf s" and c: "sl_versionCounter s = c" using assms by (auto simp: mt_sim_def a)
  show ?thesis
  proof (cases op)
    case (MtPut k v x ver)
    obtain s' where "PutVersion s k v x ver = Some s'" "sl_wf s'"
      "sl_entries s' = mt_insert (sl_entries s) (mt_entry k v False x (if ver = 0 then c + 1 else ver))"
      "sl_versionCounter s' = (if ver = 0 then c + 1 else max ver c)"
      using PutVersion_spec [OF wf] c by metis
    then show ?thesis using mt_sim_insert [OF assms [unfolded a]] by (auto simp: MtPut a)
  next
    case (MtDelete k ver)
    obtain s' where "DeleteVersion s k ver = Some s'" "sl_wf s'"
      "sl_entries s' = mt_insert (sl_entries s) (mt_entry k [] True 0 (if ver = 0 then c + 1 else ver))"
      "sl_versionCounter s' = (if ver = 0 then c + 1 else max ver c)"
      using DeleteVersion_spec [OF wf] c by metis
    then show ?thesis using mt_sim_insert [OF assms [unfolded a]] by (auto simp: MtDelete a)
  next
    case (MtSeed v)
    then show ?thesis
      using assms sl_wf_cong [of "SeedVersion s v" s]
      by (auto simp: a mt_sim_def SeedVersion_def max_def)
  qed
qed

lemma mt_run_sim:
  "mt_sim s a \<Longrightarrow> \<exists>s'. mt_run s ops = Some s' \<and> mt_sim s' (foldl mt_log_step a ops)"
proof (induction ops arbitrary: s a)
  case (Cons op ops)
  obtain s' where "mt_step s op = Some s'" "mt_sim s' (mt_log_step a op)"
    using mt_step_sim [OF Cons.prems] by blast
  with Cons.IH show ?case by simp
qed simp

lemma mt_run_log:
  obtains s c where "mt_run (NewSkipList seed) ops = Some s" "mt_sim s (mt_log ops, c)"
proof -
  have "mt_sim (NewSkipList seed) ([], 0)" by (simp add: mt_sim_def) (simp add: NewSkipList_def)
  from mt_run_sim [OF this, of ops] that show thesis
    by (metis mt_log_def prod.collapse)
qed

lemma mt_sim_snapshot:
  assumes "mt_sim s (es, c)"
  shows "filter (\<lambda>e. e_key e = k \<and> P e) (sl_entries s) = filter (\<lambda>e. e_key e = k \<and> P e) es"
proof -
  have "filter P (filter (\<lambda>e. e_key e = k) (sl_entries s)) = filter P (filter (\<lambda>e. e_key e = k) es)"
    using assms by (simp add: mt_sim_def)
  then show ?thesis by (simp add: conj_commute)
qed

section \<open>The skip list as a versioned table\<close>

text \<open>A write with an explicit version, as the write queue issues it; tombstones carry no value.\<close>

definition mt_writable :: "entry \<Rightarrow> bool" where
  "mt_writable e \<longleftrightarrow> e_version e \<noteq> 0 \<and> (e_deleted e \<longrightarrow> e_value e = [] \<and> e_expiresAt e = 0)"

definition mt_write :: "skiplist \<Rightarrow> entry \<Rightarrow> skiplist option" where
  "mt_write s e =
     (if e_deleted e then DeleteVersion s (e_key e) (e_version e)
      else PutVersion s (e_key e) (e_value e) (e_expiresAt e) (e_version e))"

lemma mt_write_spec:
  assumes "sl_wf s" "mt_writable e"
  obtains s' where "mt_write s e = Some s'" "sl_wf s'" "sl_entries s' = mt_insert (sl_entries s) e"
proof (cases "e_deleted e")
  case True
  obtain s' where "DeleteVersion s (e_key e) (e_version e) = Some s'" "sl_wf s'"
    "sl_entries s' = mt_insert (sl_entries s) (mt_entry (e_key e) [] True 0 (e_version e))"
    by (rule DeleteVersion_spec [OF assms(1), of "e_key e" "e_version e"])
       (use assms(2) in \<open>simp add: mt_writable_def\<close>)
  moreover have "mt_entry (e_key e) [] True 0 (e_version e) = e"
    using True assms(2) by (cases e) (simp add: mt_entry_def mt_writable_def)
  ultimately show thesis using True that by (simp add: mt_write_def)
next
  case False
  obtain s' where "PutVersion s (e_key e) (e_value e) (e_expiresAt e) (e_version e) = Some s'" "sl_wf s'"
    "sl_entries s' = mt_insert (sl_entries s)
       (mt_entry (e_key e) (e_value e) False (e_expiresAt e) (e_version e))"
    by (rule PutVersion_spec [OF assms(1), of "e_key e" "e_value e" "e_expiresAt e" "e_version e"])
       (use assms(2) in \<open>simp add: mt_writable_def\<close>)
  moreover have "mt_entry (e_key e) (e_value e) False (e_expiresAt e) (e_version e) = e"
    using False by (cases e) (simp add: mt_entry_def)
  ultimately show thesis using False that by (simp add: mt_write_def)
qed

lemma sl_GetByVersion_refines:
  "sl_wf s \<Longrightarrow> sl_GetByVersion now s k ts = Some (visible now (snapshot_entry (sl_entries s) k ts))"
  by (simp add: sl_GetByVersion_def lookupKey_refines snapshot_entry_def)

interpretation memtable: version_table sl_wf sl_entries mt_writable mt_write sl_GetByVersion
proof unfold_locales
  show "\<exists>s'. mt_write s e = Some s' \<and> sl_wf s' \<and>
      (\<forall>k. filter (\<lambda>x. e_key x = k) (sl_entries s') =
         (if e_key e = k then e # filter (\<lambda>x. e_key x = k) (sl_entries s)
          else filter (\<lambda>x. e_key x = k) (sl_entries s)))" if wf: "sl_wf s" and w: "mt_writable e" for s e
  proof -
    obtain s' where "mt_write s e = Some s'" "sl_wf s'" "sl_entries s' = mt_insert (sl_entries s) e"
      by (rule mt_write_spec [OF wf w])
    then show ?thesis by (simp add: filter_mt_insert)
  qed
qed (rule sl_GetByVersion_refines)

lemma version_less_iff:
  "version_less a b \<longleftrightarrow> e_key a < e_key b \<or> e_key a = e_key b \<and> e_version b < e_version a"
  by (cases "e_key a = e_key b") (auto simp: version_less_def Let_def)

lemma not_version_less_iff:
  "\<not> version_less b a \<longleftrightarrow> e_key a < e_key b \<or> e_key a = e_key b \<and> e_version b \<le> e_version a"
  by (cases "e_key a" "e_key b" rule: linorder_cases) (auto simp: version_less_iff)

lemma slice_sort_version_less: "slice_sort version_less (insort_by version_less)"
proof (rule slice_sort_insort_by)
  show "\<not> version_less b a" if "version_less a b" for a b
    using that unfolding version_less_iff by (metis order_less_asym order_less_irrefl)
  show "\<not> version_less c a" if "\<not> version_less b a" "\<not> version_less c b" for a b c
    using that unfolding not_version_less_iff by (elim disjE conjE) (auto intro: less_trans order_trans)
qed

section \<open>Properties\<close>

text \<open>C4: For every seed and every sequence of writes, the skip list operations return (no walk runs
  away, no unset pointer is followed) and afterwards every snapshot read returns exactly what
  the log of writes, newest first, determines: the greatest version up to the timestamp, with
  tombstones and expired values reported as deleted.\<close>
theorem memtable_snapshot_reads:
  "\<exists>s. mt_run (NewSkipList seed) ops = Some s \<and>
     (\<forall>now k ts. sl_GetByVersion now s k ts = Some (visible now (snapshot_entry (mt_log ops) k ts))) \<and>
     (\<forall>now k. sl_Get now s k = Some (visible now (latest_entry (mt_log ops) k)))"
proof -
  obtain s c where run: "mt_run (NewSkipList seed) ops = Some s" and sim: "mt_sim s (mt_log ops, c)"
    by (rule mt_run_log)
  have wf: "sl_wf s" using sim by (simp add: mt_sim_def)
  have "filter (\<lambda>e. e_key e = k) (sl_entries s) = filter (\<lambda>e. e_key e = k) (mt_log ops)" for k
    using sim by (simp add: mt_sim_def)
  with run show ?thesis
    by (simp add: sl_GetByVersion_refines [OF wf] sl_Get_def lookupKey_refines [OF wf]
        snapshot_entry_def latest_entry_def mt_sim_snapshot [OF sim])
qed

text \<open>C15: Snapshot isolation of the memtable: a write is not seen by any reader whose timestamp is below
  the version written, nor by readers of other keys.\<close>
theorem memtable_write_invisible:
  assumes "sl_wf s" "mt_writable e" "ts < e_version e \<or> k \<noteq> e_key e"
  shows "\<exists>s'. mt_write s e = Some s' \<and> sl_wf s' \<and> sl_GetByVersion now s' k ts = sl_GetByVersion now s k ts"
  using assms by (rule memtable.put_invisible)

theorem memtable_write_invisible_witness:
  "\<exists>s'. mt_write (NewSkipList 7) (mt_entry [1] [2] False 0 5) = Some s' \<and> sl_wf s' \<and>
     sl_GetByVersion 0 s' [1] 4 = sl_GetByVersion 0 (NewSkipList 7) [1] 4"
  using memtable_write_invisible [of "NewSkipList 7" "mt_entry [1] [2] False 0 5" 4 "[1]" 0]
  by (simp add: mt_writable_def mt_entry_def)

text \<open>C16: \<open>AllVersions\<close> and \<open>AllVersionsAt\<close> return every version written (up to the timestamp),
  none twice and none invented, ordered by key and then by descending version, whatever
  sorting algorithm \<open>sort.Slice\<close> uses; \<open>Seek\<close> leaves the iterator in front of exactly the
  entries at or after the key.\<close>
theorem memtable_all_versions:
  assumes "slice_sort version_less srt"
  shows "\<exists>s. mt_run (NewSkipList seed) ops = Some s \<and>
     (\<exists>es. AllVersionsAt srt s ts = Some es \<and>
        mset es = mset (filter (\<lambda>e. e_version e \<le> ts) (mt_log ops)) \<and>
        sorted_wrt (\<lambda>a b. \<not> version_less b a) es) \<and>
     (\<exists>p. Seek s k = Some p \<and>
        map_option mset (iter_rest s p) = Some (mset (filter (\<lambda>e. k \<le> e_key e) (mt_log ops))))"
proof -
  obtain s c where run: "mt_run (NewSkipList seed) ops = Some s" and sim: "mt_sim s (mt_log ops, c)"
    by (rule mt_run_log)
  have wf: "sl_wf s" and ms: "mset (sl_entries s) = mset (mt_log ops)" using sim by (auto simp: mt_sim_def)
  have ms_filter: "mset (filter P (sl_entries s)) = mset (filter P (mt_log ops))" for P
    using ms by simp
  obtain p where "Seek s k = Some p" "iter_rest s p = Some (filter (\<lambda>e. \<not> e_key e < k) (sl_entries s))"
    by (rule Seek_refines [OF wf])
  with run assms show ?thesis
    by (simp add: AllVersionsAt_def collect_all_entries [OF wf] slice_sort_def ms_filter not_less
        del: mset_filter)
qed

theorem memtable_all_versions_witness:
  "\<exists>s. mt_run (NewSkipList 1) [MtPut [2] [9] 0 3, MtDelete [1] 0] = Some s \<and>
     (\<exists>es. AllVersionsAt (insort_by version_less) s 10 = Some es \<and>
        mset es = mset (filter (\<lambda>e. e_version e \<le> 10) (mt_log [MtPut [2] [9] 0 3, MtDelete [1] 0])) \<and>
        sorted_wrt (\<lambda>a b. \<not> version_less b a) es) \<and>
     (\<exists>p. Seek s [2] = Some p \<and> map_option mset (iter_rest s p) =
        Some (mset (filter (\<lambda>e. [2] \<le> e_key e) (mt_log [MtPut [2] [9] 0 3, MtDelete [1] 0]))))"
  by (rule memtable_all_versions, rule slice_sort_version_less)

end
