(* ===== verification/Bloom.thy ===== *)
theory Bloom
  imports Prelude
begin

text \<open>
  The Bloom filter of an SSTable, \<open>src/bloom/bloom.go\<close>.  The hash \<open>xxhash.Sum64\<close> is the
  parameter \<open>hash\<close>; nothing is assumed of it.  An index outside the bitmap would panic in Go
  and is \<open>None\<close> here; \<open>filter_wf\<close> is the invariant that excludes it.
\<close>

section \<open>The filter\<close>

record filter =
  f_data :: bytes
  f_bits :: u32
  f_k :: byte

text \<open>\<open>uint8(float64(bitsPerKey) * math.Ln2)\<close>: \<open>math.Ln2\<close> is the float64
  \<open>6243314768165359 / 2^53\<close>, and the conversion truncates.\<close>

definition ln2_mant :: int where
  "ln2_mant = 6243314768165359"

definition probes :: "int \<Rightarrow> byte" where
  "probes bitsPerKey =
     (let k = word_of_int ((bitsPerKey * ln2_mant) div 2 ^ 53) :: byte
      in if k < 1 then 1 else if k > 30 then 30 else k)"

definition NewFilterSized :: "nat \<Rightarrow> int \<Rightarrow> filter" where
  "NewFilterSized n0 bitsPerKey0 =
     (let bitsPerKey = (if bitsPerKey0 < 1 then 10 else bitsPerKey0);
          n = (if n0 = 0 then 1 else n0);
          raw = word_of_int (int n * bitsPerKey) :: u32;
          rawBits = (if raw < 64 then 64 else raw);
          byteLen = (rawBits + 7) div 8;
          numBits = byteLen * 8
      in \<lparr>f_data = replicate (unat byteLen) 0, f_bits = numBits, f_k = probes bitsPerKey\<rparr>)"

definition NewFilterFromBytes :: "bytes \<Rightarrow> u32 \<Rightarrow> byte \<Rightarrow> filter" where
  "NewFilterFromBytes bitmap bits k = \<lparr>f_data = bitmap, f_bits = bits, f_k = k\<rparr>"

text \<open>The two halves of the hash and the \<open>i\<close>-th probe, all in \<open>uint32\<close> arithmetic.\<close>

definition bloom_h1 :: "u64 \<Rightarrow> u32" where
  "bloom_h1 h = ucast h"

definition bloom_h2 :: "u64 \<Rightarrow> u32" where
  "bloom_h2 h = ucast (drop_bit 32 h) OR 1"

definition probe :: "u64 \<Rightarrow> u32 \<Rightarrow> u32 \<Rightarrow> u32" where
  "probe h bits i = (bloom_h1 h + i * bloom_h2 h) mod bits"

definition setBit :: "bytes \<Rightarrow> u32 \<Rightarrow> bytes option" where
  "setBit d idx =
     (let j = unat (drop_bit 3 idx)
      in if j < length d then Some (d[j := d ! j OR push_bit (unat (idx AND 7)) 1]) else None)"

definition testBit :: "bytes \<Rightarrow> u32 \<Rightarrow> bool option" where
  "testBit d idx =
     (let j = unat (drop_bit 3 idx)
      in if j < length d then Some (d ! j AND push_bit (unat (idx AND 7)) 1 \<noteq> 0) else None)"

fun addProbes :: "u64 \<Rightarrow> u32 \<Rightarrow> nat list \<Rightarrow> bytes \<Rightarrow> bytes option" where
  "addProbes h bits [] d = Some d"
| "addProbes h bits (i # is) d =
     (case setBit d (probe h bits (of_nat i)) of None \<Rightarrow> None | Some d' \<Rightarrow> addProbes h bits is d')"

definition Add :: "(bytes \<Rightarrow> u64) \<Rightarrow> filter \<Rightarrow> bytes \<Rightarrow> filter option" where
  "Add hash f key =
     (if f_bits f = 0 \<or> f_data f = [] then Some f
      else map_option (\<lambda>d. f\<lparr>f_data := d\<rparr>) (addProbes (hash key) (f_bits f) [0..<unat (f_k f)] (f_data f)))"

fun testProbes :: "u64 \<Rightarrow> u32 \<Rightarrow> nat list \<Rightarrow> bytes \<Rightarrow> bool option" where
  "testProbes h bits [] d = Some True"
| "testProbes h bits (i # is) d =
     (case testBit d (probe h bits (of_nat i)) of
        None \<Rightarrow> None
      | Some False \<Rightarrow> Some False
      | Some True \<Rightarrow> testProbes h bits is d)"

text \<open>A nil filter answers true, as a filter with no bitmap does.\<close>

definition MayContain :: "(bytes \<Rightarrow> u64) \<Rightarrow> filter option \<Rightarrow> bytes \<Rightarrow> bool option" where
  "MayContain hash fo key =
     (case fo of
        None \<Rightarrow> Some True
      | Some f \<Rightarrow>
          if f_data f = [] \<or> f_bits f = 0 then Some True
          else testProbes (hash key) (f_bits f) [0..<unat (f_k f)] (f_data f))"

fun addAll :: "(bytes \<Rightarrow> u64) \<Rightarrow> filter \<Rightarrow> bytes list \<Rightarrow> filter option" where
  "addAll hash f [] = Some f"
| "addAll hash f (k # ks) = (case Add hash f k of None \<Rightarrow> None | Some f' \<Rightarrow> addAll hash f' ks)"

definition NewFilter :: "(bytes \<Rightarrow> u64) \<Rightarrow> bytes list \<Rightarrow> int \<Rightarrow> filter option" where
  "NewFilter hash keys bitsPerKey = addAll hash (NewFilterSized (length keys) bitsPerKey) keys"

section \<open>The bitmap is never indexed out of range\<close>

definition filter_wf :: "filter \<Rightarrow> bool" where
  "filter_wf f \<longleftrightarrow> unat (f_bits f) \<le> 8 * length (f_data f)"

lemma NewFilterSized_wf: "filter_wf (NewFilterSized n b)"
proof -
  have "unat (w div 8 * 8) \<le> 8 * unat (w div 8)" for w :: u32
  proof -
    have "unat (w div 8) * 8 \<le> unat w" by (simp add: unat_div)
    also have "\<dots> < 2 ^ 32" using unsigned_less [of w] by simp
    finally show ?thesis by (simp add: unat_mult_lem [THEN iffD1])
  qed
  then show ?thesis by (simp add: filter_wf_def NewFilterSized_def Let_def)
qed

lemma probe_in_range:
  assumes "filter_wf f" "f_bits f \<noteq> 0"
  shows "unat (drop_bit 3 (probe h (f_bits f) i)) < length (f_data f)"
proof -
  have "unat (probe h (f_bits f) i) < unat (f_bits f)"
    unfolding probe_def using assms(2)
    by (simp add: unat_mod_distrib unat_gt_0)
  moreover have "unat (drop_bit 3 w) = unat w div 8" for w :: u32
    by (simp add: drop_bit_eq_div unat_div)
  ultimately show ?thesis using assms(1) by (simp add: filter_wf_def)
qed

text \<open>Bit \<open>idx\<close> of the bitmap, and bitmaps ordered by their set bits.\<close>

definition bitmap_bit :: "bytes \<Rightarrow> u32 \<Rightarrow> bool" where
  "bitmap_bit d idx \<longleftrightarrow> bit (d ! unat (drop_bit 3 idx)) (unat (idx AND 7))"

lemma idx_and_7: "unat (idx AND 7 :: u32) < 8"
proof -
  have "idx AND 7 = take_bit 3 idx" by (simp add: take_bit_eq_mask mask_eq_exp_minus_1)
  then have "unat (idx AND 7) = take_bit 3 (unat idx)" by (simp add: unsigned_take_bit_eq)
  then show ?thesis using take_bit_nat_less_exp [of 3 "unat idx"] by simp
qed

lemma testBit_bitmap:
  "unat (drop_bit 3 idx) < length d \<Longrightarrow> testBit d idx = Some (bitmap_bit d idx)"
  unfolding testBit_def bitmap_bit_def Let_def
  by (simp add: bit_iff_and_push_bit_not_eq_0)

lemma setBit_bitmap:
  assumes "unat (drop_bit 3 idx) < length d"
  obtains d' where "setBit d idx = Some d'" "length d' = length d" "bitmap_bit d' idx"
    "\<And>j. bitmap_bit d j \<Longrightarrow> bitmap_bit d' j"
proof -
  let ?n = "unat (idx AND 7)" and ?j = "unat (drop_bit 3 idx)"
  let ?d = "d[?j := d ! ?j OR push_bit ?n 1]"
  show thesis
  proof (rule that [of ?d])
    show "bitmap_bit ?d idx"
      using assms idx_and_7 [of idx] by (simp add: bitmap_bit_def bit_simps)
    show "bitmap_bit ?d j" if "bitmap_bit d j" for j
      using that assms by (auto simp: bitmap_bit_def nth_list_update bit_simps)
  qed (use assms in \<open>simp_all add: setBit_def Let_def\<close>)
qed

lemma addProbes_sets:
  assumes "\<And>i. unat (drop_bit 3 (probe h bits i)) < length d"
  obtains d' where "addProbes h bits is d = Some d'" "length d' = length d"
    "\<And>i. i \<in> set is \<Longrightarrow> bitmap_bit d' (probe h bits (of_nat i))"
    "\<And>j. bitmap_bit d j \<Longrightarrow> bitmap_bit d' j"
  using assms
proof (induction "is" arbitrary: d thesis)
  case (Cons i "is")
  obtain d1 where d1: "setBit d (probe h bits (of_nat i)) = Some d1" "length d1 = length d"
    "bitmap_bit d1 (probe h bits (of_nat i))" "\<And>j. bitmap_bit d j \<Longrightarrow> bitmap_bit d1 j"
    using setBit_bitmap [OF Cons.prems(2)] by metis
  obtain d2 where "addProbes h bits is d1 = Some d2" "length d2 = length d1"
    "\<And>i. i \<in> set is \<Longrightarrow> bitmap_bit d2 (probe h bits (of_nat i))"
    "\<And>j. bitmap_bit d1 j \<Longrightarrow> bitmap_bit d2 j"
    using Cons.IH [of d1] Cons.prems(2) d1(2) by metis
  with d1 show ?case by (intro Cons.prems(1) [of d2]) auto
qed auto

lemma testProbes_bitmap:
  "(\<And>i. unat (drop_bit 3 (probe h bits i)) < length d) \<Longrightarrow>
   testProbes h bits is d = Some (\<forall>i \<in> set is. bitmap_bit d (probe h bits (of_nat i)))"
  by (induction "is") (auto simp: testBit_bitmap split: bool.splits)

text \<open>Adding a key keeps the invariant and every earlier answer, and makes the key present.\<close>

lemma Add_spec:
  assumes "filter_wf f"
  obtains f' where "Add hash f key = Some f'" "filter_wf f'"
    "MayContain hash (Some f') key = Some True"
    "\<And>k. MayContain hash (Some f) k = Some True \<Longrightarrow> MayContain hash (Some f') k = Some True"
proof (cases "f_bits f = 0 \<or> f_data f = []")
  case True
  then show thesis using that [of f] assms by (auto simp: Add_def MayContain_def)
next
  case False
  then have range: "unat (drop_bit 3 (probe h (f_bits f) i)) < length (f_data f)" for h i
    using probe_in_range [OF assms] by blast
  obtain d where d: "addProbes (hash key) (f_bits f) [0..<unat (f_k f)] (f_data f) = Some d"
    "length d = length (f_data f)"
    "\<And>i. i \<in> set [0..<unat (f_k f)] \<Longrightarrow> bitmap_bit d (probe (hash key) (f_bits f) (of_nat i))"
    "\<And>j. bitmap_bit (f_data f) j \<Longrightarrow> bitmap_bit d j"
    using addProbes_sets [OF range] by metis
  have range': "unat (drop_bit 3 (probe h (f_bits f) i)) < length d" for h i
    using range d(2) by simp
  show thesis
    by (rule that [of "f\<lparr>f_data := d\<rparr>"])
       (use False assms d in \<open>auto simp: Add_def MayContain_def filter_wf_def
          testProbes_bitmap [OF range] testProbes_bitmap [OF range']\<close>)
qed

lemma addAll_spec:
  "filter_wf f \<Longrightarrow> \<exists>f'. addAll hash f keys = Some f' \<and> filter_wf f' \<and>
     (\<forall>k. k \<in> set keys \<or> MayContain hash (Some f) k = Some True \<longrightarrow> MayContain hash (Some f') k = Some True)"
proof (induction keys arbitrary: f)
  case (Cons key keys)
  obtain f1 where f1: "Add hash f key = Some f1" "filter_wf f1"
    "MayContain hash (Some f1) key = Some True"
    "\<And>k. MayContain hash (Some f) k = Some True \<Longrightarrow> MayContain hash (Some f1) k = Some True"
    using Add_spec [OF Cons.prems, of hash key] by blast
  from Cons.IH [OF f1(2)] f1 show ?case by auto
qed simp

lemma NewFilterFromBytes_stored [simp]: "NewFilterFromBytes (f_data f) (f_bits f) (f_k f) = f"
  by (cases f) (simp add: NewFilterFromBytes_def)

text \<open>C9: The filter built over a key set, stored and loaded again, has no false negatives: whatever the
  hash function, the parameters and the wrap-around of the 32-bit sizes, building it never
  indexes outside the bitmap and every key added is reported as possibly present.\<close>
theorem bloom_no_false_negatives:
  "\<exists>f. NewFilter hash keys bitsPerKey = Some f \<and>
     (\<forall>key \<in> set keys. MayContain hash (Some (NewFilterFromBytes (f_data f) (f_bits f) (f_k f))) key = Some True)"
  using addAll_spec [OF NewFilterSized_wf, of hash "length keys" bitsPerKey keys]
  by (auto simp: NewFilter_def)

theorem bloom_no_false_negatives_witness:
  "\<exists>f. NewFilter (\<lambda>k. of_nat (length k)) [[1], [2, 3]] 10 = Some f \<and>
     (\<forall>key \<in> set [[1], [2, 3]].
        MayContain (\<lambda>k. of_nat (length k)) (Some (NewFilterFromBytes (f_data f) (f_bits f) (f_k f))) key = Some True)"
  by (rule bloom_no_false_negatives)

end
