(* ===== verification/Encoding.thy ===== *)
theory Encoding
  imports Prelude
begin

text \<open>
  How keys and scores are laid out in the flat key space: \<open>src/internal/encoding\<close> and the key
  builders of \<open>engine_collections.go\<close>, \<open>engine_read.go\<close> and \<open>server.go\<close>.  A float64 is its bit
  pattern; the IEEE order of two patterns that are not NaN is the order of \<open>f_val\<close>, sign and
  magnitude, with both zeros equal.
\<close>

section \<open>Sorted-set scores\<close>

definition f_isNaN :: "u64 \<Rightarrow> bool" where
  "f_isNaN b \<longleftrightarrow> 0x7FF0000000000000 < take_bit 63 b"

definition f_val :: "u64 \<Rightarrow> int" where
  "f_val b = (if bit b 63 then - int (unat (take_bit 63 b)) else int (unat (take_bit 63 b)))"

definition f_eq :: "u64 \<Rightarrow> u64 \<Rightarrow> bool" where
  "f_eq a b \<longleftrightarrow> \<not> f_isNaN a \<and> \<not> f_isNaN b \<and> f_val a = f_val b"

definition f_ge :: "u64 \<Rightarrow> u64 \<Rightarrow> bool" where
  "f_ge a b \<longleftrightarrow> \<not> f_isNaN a \<and> \<not> f_isNaN b \<and> f_val b \<le> f_val a"

definition scoreBits :: "u64 \<Rightarrow> u64" where
  "scoreBits score0 =
     (let score = (if f_eq score0 0 then 0 else score0)
      in if f_ge score 0 then score XOR push_bit 63 1 else NOT score)"

definition EncodeScore :: "u64 \<Rightarrow> bytes" where
  "EncodeScore score = put_u64 (scoreBits score)"

definition DecodeScore :: "bytes \<Rightarrow> u64" where
  "DecodeScore b =
     (let bits = get_u64 b
      in if bits AND push_bit 63 1 \<noteq> 0 then bits XOR push_bit 63 1 else NOT bits)"

section \<open>Key layouts\<close>

definition NUL :: byte where
  "NUL = 0"

definition strKey :: "bytes \<Rightarrow> bytes" where
  "strKey k = [0x73, 0] @ k"

definition hashPrefix :: "bytes \<Rightarrow> bytes" where
  "hashPrefix h = [0x68, 0] @ h @ [0]"

definition hashFieldKey :: "bytes \<Rightarrow> bytes \<Rightarrow> bytes" where
  "hashFieldKey h field = hashPrefix h @ field"

definition setPrefix :: "bytes \<Rightarrow> bytes" where
  "setPrefix key = [0x74, 0] @ key @ [0]"

definition setMemberKey :: "bytes \<Rightarrow> bytes \<Rightarrow> bytes" where
  "setMemberKey key member = setPrefix key @ member"

definition bitmapPrefix :: "bytes \<Rightarrow> bytes" where
  "bitmapPrefix key = [0x62, 0] @ key @ [0]"

definition bitmapPageKey :: "bytes \<Rightarrow> i64 \<Rightarrow> bytes" where
  "bitmapPageKey key page = bitmapPrefix key @ put_u64 page"

definition ZValKey :: "bytes \<Rightarrow> bytes \<Rightarrow> bytes" where
  "ZValKey key member = [0x7A, 0] @ key @ [0, 0x76, 0] @ member"

definition ZScorePrefix :: "bytes \<Rightarrow> bytes" where
  "ZScorePrefix key = [0x7A, 0] @ key @ [0, 0x73, 0]"

definition ZScoreKey :: "bytes \<Rightarrow> u64 \<Rightarrow> bytes \<Rightarrow> bytes" where
  "ZScoreKey key score member = ([0x7A, 0] @ key @ [0, 0x73, 0]) @ EncodeScore score @ [0] @ member"

text \<open>\<open>%d\<close> of a natural number, and \<open>%020d\<close> of an \<open>int64\<close> (the sign counts in the width).\<close>

fun dec_digits :: "nat \<Rightarrow> bytes" where
  "dec_digits n = (if n < 10 then [of_nat (48 + n)] else dec_digits (n div 10) @ [of_nat (48 + n mod 10)])"

declare dec_digits.simps [simp del]

definition zero_pad :: "nat \<Rightarrow> bytes \<Rightarrow> bytes" where
  "zero_pad w ds = replicate (w - length ds) 0x30 @ ds"

definition fmt_020d :: "i64 \<Rightarrow> bytes" where
  "fmt_020d x =
     (if 0 \<le> sint x then zero_pad 20 (dec_digits (nat (sint x)))
      else 0x2D # zero_pad 19 (dec_digits (nat (- sint x))))"

definition listElemKey :: "bytes \<Rightarrow> i64 \<Rightarrow> bytes" where
  "listElemKey key index = [0x6C, 0] @ key @ [0] @ fmt_020d (index + push_bit 62 1)"

definition listMetaKey :: "bytes \<Rightarrow> bytes" where
  "listMetaKey key = [0x6C, 0] @ key @ [0, 0x6D, 0x65, 0x74, 0x61]"

section \<open>Prefix filters and logical names\<close>

text \<open>\<open>bytes.SplitN(key, []byte\<open>{0}\<close>, n)\<close> and \<open>bytes.Join(parts, []byte\<open>{0}\<close>)\<close>.\<close>

fun splitN :: "nat \<Rightarrow> bytes \<Rightarrow> bytes list" where
  "splitN 0 xs = []"
| "splitN (Suc 0) xs = [xs]"
| "splitN (Suc (Suc n)) xs =
     (let a = takeWhile (\<lambda>b. b \<noteq> 0) xs
      in if length a < length xs then a # splitN (Suc n) (drop (Suc (length a)) xs) else [xs])"

fun joinNul :: "bytes list \<Rightarrow> bytes" where
  "joinNul [] = []"
| "joinNul [p] = p"
| "joinNul (p # q # ps) = p @ [0] @ joinNul (q # ps)"

definition ExtractPrefix :: "bytes \<Rightarrow> bytes" where
  "ExtractPrefix key =
     (let parts = splitN 3 key in if 2 \<le> length parts then joinNul (take 2 parts) else key)"

text \<open>\<open>None\<close> is the nil slice: no prefix filter applies.\<close>

definition prefixFilterKey :: "bytes \<Rightarrow> bytes option" where
  "prefixFilterKey pre =
     (let p = ExtractPrefix pre
      in if length p < length pre \<and> pre ! length p = 0 then Some p else None)"

definition indexNul :: "bytes \<Rightarrow> nat option" where
  "indexNul xs =
     (let i = length (takeWhile (\<lambda>b. b \<noteq> 0) xs) in if i < length xs then Some i else None)"

definition logicalKey :: "bytes \<Rightarrow> bytes" where
  "logicalKey k =
     (if length k < 2 \<or> k ! 1 \<noteq> 0 then k
      else if k ! 0 = 0x73 then drop 2 k
      else if k ! 0 \<in> {0x68, 0x74, 0x6C, 0x7A, 0x62}
      then (case indexNul (drop 2 k) of Some i \<Rightarrow> take i (drop 2 k) | None \<Rightarrow> [])
      else [])"

definition collectionResumeKey :: "bytes \<Rightarrow> bytes" where
  "collectionResumeKey k =
     (case indexNul (drop 2 k) of None \<Rightarrow> k | Some i \<Rightarrow> take (i + 3) k @ [0xFF])"

section \<open>Scores: order and round trip\<close>

lemma half_div_mod:
  fixes n M :: int
  assumes "0 \<le> n" "n < 2 * M"
  shows "n div M = (if M \<le> n then 1 else 0)" "n mod M = (if M \<le> n then n - M else n)"
proof -
  have "n div M = 1 \<and> n mod M = n - M" if "M \<le> n"
  proof
    show "n div M = 1" using that assms by (simp add: div_pos_geq div_pos_pos_trivial)
    have "n mod M = (n - M) mod M" by (rule mod_pos_geq) (use that assms in auto)
    also have "\<dots> = n - M" by (rule mod_pos_pos_trivial) (use that assms in auto)
    finally show "n mod M = n - M" .
  qed
  then show "n div M = (if M \<le> n then 1 else 0)" "n mod M = (if M \<le> n then n - M else n)"
    using assms by (auto simp: div_pos_pos_trivial mod_pos_pos_trivial)
qed

lemma uint_half: "0 \<le> uint (b :: u64)" "uint (b :: u64) < 2 * 2 ^ 63"
  using uint_lt2p [of b] by simp_all

lemma bit_63_iff: "bit (b :: u64) 63 \<longleftrightarrow> 2 ^ 63 \<le> uint b"
proof -
  have "bit b 63 \<longleftrightarrow> odd (uint b div 2 ^ 63)"
    using bit_unsigned_iff [of b 63, where 'a = int] by (simp add: bit_iff_odd)
  then show ?thesis unfolding half_div_mod [OF uint_half] by simp
qed

lemma f_val_uint: "f_val b = (if 2 ^ 63 \<le> uint b then 2 ^ 63 - uint b else uint b)"
proof -
  have "uint (take_bit 63 b) = uint b mod 2 ^ 63"
    unfolding unsigned_take_bit_eq by (rule take_bit_eq_mod)
  then show ?thesis unfolding f_val_def bit_63_iff by (simp add: half_div_mod [OF uint_half, simplified])
qed

lemma uint_not: "uint (NOT (b :: u64)) = 2 ^ 64 - 1 - uint b"
proof -
  have "NOT b = -1 - b" by (simp add: not_eq_complement)
  moreover have m1: "uint (-1 :: u64) = 2 ^ 64 - 1"
    by (simp add: unsigned_minus_1_eq_mask mask_eq_exp_minus_1)
  moreover have "uint (-1 - b) = uint (-1 :: u64) - uint b"
    by (rule uint_sub_lem [THEN iffD1]) (use uint_half(2) [of b] m1 in simp)
  ultimately show ?thesis by simp
qed

lemma uint_xor_top: "\<not> bit (b :: u64) 63 \<Longrightarrow> uint (b XOR push_bit 63 1) = uint b + 2 ^ 63"
proof -
  assume b: "\<not> bit b 63"
  have "b AND push_bit 63 1 = 0"
    using b by (simp add: bit_iff_and_push_bit_not_eq_0)
  then have "b XOR push_bit 63 1 = b + push_bit 63 1"
    by (simp add: disjunctive_add_eq_xor)
  moreover have "uint b < 2 ^ 63" using b by (simp add: bit_63_iff)
  ultimately show ?thesis by (simp add: uint_word_ariths)
qed

text \<open>The bit pattern the score is stored as, as a number.\<close>

definition score_rank :: "int \<Rightarrow> int" where
  "score_rank v = (if 0 \<le> v then v + 2 ^ 63 else v + 2 ^ 63 - 1)"

lemma score_rank_mono: "score_rank a < score_rank b \<longleftrightarrow> a < b"
  by (auto simp: score_rank_def)

lemma scoreBits_rank:
  assumes "\<not> f_isNaN b"
  shows "uint (scoreBits b) = score_rank (f_val b)"
proof -
  have zero: "\<not> f_isNaN 0" "f_val 0 = 0" by (simp_all add: f_isNaN_def f_val_def)
  consider "f_val b = 0" | "0 < f_val b" | "f_val b < 0" by linarith
  then show ?thesis
  proof cases
    case 1
    then show ?thesis using assms zero by (simp add: scoreBits_def f_eq_def f_ge_def score_rank_def)
  next
    case 2
    then have b: "\<not> bit b 63" "uint b = f_val b" by (auto simp: f_val_uint bit_63_iff split: if_splits)
    have "scoreBits b = b XOR push_bit 63 1"
      using 2 assms zero by (simp add: scoreBits_def f_eq_def f_ge_def)
    with b 2 show ?thesis by (simp add: score_rank_def uint_xor_top del: push_bit_of_1)
  next
    case 3
    then have b: "uint b = 2 ^ 63 - f_val b" using uint_half [of b] by (auto simp: f_val_uint split: if_splits)
    have "scoreBits b = NOT b"
      using 3 assms zero by (simp add: scoreBits_def f_eq_def f_ge_def)
    with b 3 show ?thesis by (simp add: score_rank_def uint_not)
  qed
qed

text \<open>C17: The stored form of a sorted-set score sorts bytewise exactly as the scores do numerically,
  negatives and both zeros included, and two scores share a stored form exactly when they are
  numerically equal.\<close>
theorem EncodeScore_order:
  assumes "\<not> f_isNaN a" "\<not> f_isNaN b"
  shows "(EncodeScore a < EncodeScore b \<longleftrightarrow> f_val a < f_val b) \<and>
         (EncodeScore a = EncodeScore b \<longleftrightarrow> f_eq a b)"
proof -
  have "scoreBits a < scoreBits b \<longleftrightarrow> f_val a < f_val b"
    using scoreBits_rank [OF assms(1)] scoreBits_rank [OF assms(2)]
    by (simp add: word_less_def score_rank_mono)
  moreover have "scoreBits a = scoreBits b \<longleftrightarrow> score_rank (f_val a) = score_rank (f_val b)"
    using scoreBits_rank [OF assms(1)] scoreBits_rank [OF assms(2)]
    by (simp add: word_uint_eq_iff)
  moreover have "score_rank (f_val a) = score_rank (f_val b) \<longleftrightarrow> f_val a = f_val b"
    using score_rank_mono by (metis linorder_neq_iff)
  ultimately show ?thesis using assms by (simp add: EncodeScore_def f_eq_def)
qed

theorem EncodeScore_order_witness:
  "(EncodeScore 0xBFF0000000000000 < EncodeScore 0x3FF0000000000000 \<longleftrightarrow>
      f_val 0xBFF0000000000000 < f_val 0x3FF0000000000000) \<and>
   (EncodeScore 0xBFF0000000000000 = EncodeScore 0x3FF0000000000000 \<longleftrightarrow>
      f_eq 0xBFF0000000000000 0x3FF0000000000000)"
  by (rule EncodeScore_order) (simp_all add: f_isNaN_def)

lemma xor_top_top: "(b XOR push_bit 63 1) XOR push_bit 63 1 = (b :: u64)"
  by (simp add: xor.assoc)

text \<open>C18: Reading a stored score back gives the score written, with negative zero normalised to zero, for
  every score that is not a NaN.\<close>
theorem DecodeScore_EncodeScore:
  assumes "\<not> f_isNaN b"
  shows "DecodeScore (EncodeScore b @ rest) = (if f_eq b 0 then 0 else b)"
proof -
  define s where "s = (if f_eq b 0 then 0 else b)"
  have s: "\<not> f_isNaN s" using assms by (simp add: s_def f_isNaN_def)
  have ge: "f_ge s 0 \<longleftrightarrow> \<not> bit s 63"
  proof -
    have "\<not> (bit s 63 \<and> f_val s = 0)"
      using assms by (auto simp: s_def f_eq_def f_isNaN_def f_val_def split: if_splits)
    then show ?thesis using s
      by (auto simp: f_ge_def f_val_uint bit_63_iff f_isNaN_def split: if_splits)
  qed
  have "scoreBits b = (if \<not> bit s 63 then s XOR push_bit 63 1 else NOT s)"
    by (simp add: scoreBits_def s_def [symmetric] ge)
  moreover have "bit (s XOR push_bit 63 1) 63 \<longleftrightarrow> \<not> bit s 63" "bit (NOT s) 63 \<longleftrightarrow> \<not> bit s 63"
    by (simp_all add: bit_simps)
  ultimately have "DecodeScore (put_u64 (scoreBits b) @ rest) = s"
    by (auto simp: DecodeScore_def Let_def bit_iff_and_push_bit_not_eq_0 [symmetric] xor_top_top
        simp del: push_bit_of_1)
  then show ?thesis by (simp add: EncodeScore_def s_def)
qed

theorem DecodeScore_EncodeScore_witness:
  "DecodeScore (EncodeScore 0x4008000000000000 @ [0, 1]) =
     (if f_eq 0x4008000000000000 0 then 0 else 0x4008000000000000)"
  by (rule DecodeScore_EncodeScore) (simp add: f_isNaN_def)

section \<open>List indices\<close>

lemma append_less_iff [simp]: "(pre :: bytes) @ xs < pre @ ys \<longleftrightarrow> xs < ys"
  by (induction pre) auto


definition digit_val :: "byte \<Rightarrow> nat" where
  "digit_val b = unat b - 48"

definition is_digit :: "byte \<Rightarrow> bool" where
  "is_digit b \<longleftrightarrow> 48 \<le> unat b \<and> unat b < 58"

lemma is_digit_val: "is_digit x \<Longrightarrow> digit_val x < 10"
  and is_digit_less: "is_digit x \<Longrightarrow> is_digit y \<Longrightarrow> x < y \<longleftrightarrow> digit_val x < digit_val y"
  by (auto simp: is_digit_def digit_val_def word_less_nat_alt)

lemma digit_of_nat: "d < 10 \<Longrightarrow> is_digit (of_nat (48 + d)) \<and> digit_val (of_nat (48 + d)) = d"
proof -
  assume "d < 10"
  then have "unat (of_nat (48 + d) :: byte) = 48 + d"
    unfolding unat_of_nat by simp
  with \<open>d < 10\<close> show ?thesis by (simp add: is_digit_def digit_val_def del: of_nat_add)
qed

lemma dec_digits_spec:
  "(\<forall>b \<in> set (dec_digits n). is_digit b) \<and> pos_val 10 digit_val (dec_digits n) = n"
proof (induction n rule: dec_digits.induct)
  case (1 n)
  then show ?case
    using digit_of_nat [of n] digit_of_nat [of "n mod 10"]
    by (subst (1 2) dec_digits.simps) (auto simp: pos_val_snoc pos_val_Cons simp del: of_nat_add)
qed

lemma length_dec_digits: "n < 10 ^ w \<Longrightarrow> 0 < w \<Longrightarrow> length (dec_digits n) \<le> w"
proof (induction n arbitrary: w rule: dec_digits.induct)
  case (1 n)
  show ?case
  proof (cases "n < 10")
    case True
    then show ?thesis using 1(3) by (subst dec_digits.simps) simp
  next
    case False
    with 1(2) have w: "1 < w" by (cases w; cases "w - 1") auto
    then have "n div 10 < 10 ^ (w - 1)"
      using 1(2) by (cases w) (auto simp: div_less_iff_less_mult mult.commute)
    then have "length (dec_digits (n div 10)) \<le> w - 1"
      using 1(1) [OF False] w by simp
    then show ?thesis using False w by (subst dec_digits.simps) simp
  qed
qed

lemma pos_val_zero_pad: "pos_val 10 digit_val (zero_pad w ds) = pos_val 10 digit_val ds"
proof -
  have "pos_val 10 digit_val (replicate m 0x30 @ ds) = pos_val 10 digit_val ds" for m
    by (induction m) (simp_all add: pos_val_Cons digit_val_def)
  then show ?thesis by (simp add: zero_pad_def)
qed

text \<open>Padded to one width, decimal numbers sort as text the way they sort as numbers.\<close>

lemma zero_pad_order:
  assumes "m < 10 ^ w" "n < 10 ^ w" "0 < w"
  shows "zero_pad w (dec_digits m) < zero_pad w (dec_digits n) \<longleftrightarrow> m < n"
    and "length (zero_pad w (dec_digits m)) = w"
proof -
  have len: "length (zero_pad w (dec_digits m)) = w" "length (zero_pad w (dec_digits n)) = w"
    using length_dec_digits assms by (auto simp: zero_pad_def)
  have dig: "\<forall>b \<in> set (zero_pad w (dec_digits m) @ zero_pad w (dec_digits n)). is_digit b"
    using dec_digits_spec by (auto simp: zero_pad_def is_digit_def)
  have "zero_pad w (dec_digits m) < zero_pad w (dec_digits n) \<longleftrightarrow>
      pos_val 10 digit_val (zero_pad w (dec_digits m)) < pos_val 10 digit_val (zero_pad w (dec_digits n))"
    by (rule pos_val_lex) (use len dig in \<open>auto simp: is_digit_val is_digit_less\<close>)
  then show "zero_pad w (dec_digits m) < zero_pad w (dec_digits n) \<longleftrightarrow> m < n"
    by (simp add: pos_val_zero_pad dec_digits_spec)
  show "length (zero_pad w (dec_digits m)) = w" by (rule len(1))
qed

definition list_index_ok :: "i64 \<Rightarrow> bool" where
  "list_index_ok i \<longleftrightarrow> - (2 ^ 62) \<le> sint i \<and> sint i < 2 ^ 62"

lemma fmt_biased:
  assumes "list_index_ok i"
  shows "fmt_020d (i + push_bit 62 1) = zero_pad 20 (dec_digits (nat (sint i + 2 ^ 62)))"
    and "nat (sint i + 2 ^ 62) < 10 ^ 20"
proof -
  have "sint (i + push_bit 62 1) = signed_take_bit 63 (sint i + sint (push_bit 62 1 :: i64))"
    by (simp add: sint_word_ariths)
  also have "sint (push_bit 62 1 :: i64) = 2 ^ 62" by simp
  also have "signed_take_bit 63 (sint i + 2 ^ 62) = sint i + 2 ^ 62"
    by (rule signed_take_bit_int_eq_self) (use assms in \<open>auto simp: list_index_ok_def\<close>)
  finally show "fmt_020d (i + push_bit 62 1) = zero_pad 20 (dec_digits (nat (sint i + 2 ^ 62)))"
    using assms by (simp add: fmt_020d_def list_index_ok_def)
  show "nat (sint i + 2 ^ 62) < 10 ^ 20" using assms by (auto simp: list_index_ok_def nat_less_iff)
qed

text \<open>C19: The keys of the elements of a list sort in index order, negative indices (left of the first
  element ever pushed) included, as long as the index stays within 62 bits.\<close>
theorem listElemKey_order:
  assumes "list_index_ok i" "list_index_ok j"
  shows "listElemKey key i < listElemKey key j \<longleftrightarrow> sint i < sint j"
proof -
  have "zero_pad 20 (dec_digits (nat (sint i + 2 ^ 62))) < zero_pad 20 (dec_digits (nat (sint j + 2 ^ 62)))
      \<longleftrightarrow> nat (sint i + 2 ^ 62) < nat (sint j + 2 ^ 62)"
    by (rule zero_pad_order(1)) (use fmt_biased(2) assms in auto)
  also have "\<dots> \<longleftrightarrow> sint i < sint j"
    using assms by (auto simp: list_index_ok_def nat_less_eq_zless)
  finally have "fmt_020d (i + push_bit 62 1) < fmt_020d (j + push_bit 62 1) \<longleftrightarrow> sint i < sint j"
    unfolding fmt_biased(1) [OF assms(1)] fmt_biased(1) [OF assms(2)] .
  then show ?thesis
    unfolding listElemKey_def by (simp add: append_less_iff del: push_bit_of_1)
qed

theorem listElemKey_order_witness:
  "listElemKey [0x61] (-1) < listElemKey [0x61] 10 \<longleftrightarrow> sint (-1 :: i64) < sint (10 :: i64)"
  by (rule listElemKey_order) (simp_all add: list_index_ok_def)

section \<open>Prefix filters\<close>

lemma takeWhile_nul: "0 \<notin> set a \<Longrightarrow> takeWhile (\<lambda>b. b \<noteq> 0) (a @ 0 # r) = (a :: bytes)"
  by (induction a) auto

lemma split_at_nul:
  assumes "length (takeWhile (\<lambda>b. b \<noteq> 0) xs) < length (xs :: bytes)"
  obtains a r where "xs = a @ 0 # r" "0 \<notin> set a"
proof -
  have "0 \<in> set xs"
  proof (rule ccontr)
    assume "0 \<notin> set xs"
    then have "takeWhile (\<lambda>b. b \<noteq> 0) xs = xs" by (simp add: takeWhile_eq_all_conv) metis
    with assms show False by simp
  qed
  from split_list_first [OF this] that show thesis by blast
qed

lemma ExtractPrefix_two:
  "0 \<notin> set a \<Longrightarrow> 0 \<notin> set b \<Longrightarrow> ExtractPrefix (a @ 0 # b @ 0 # r) = a @ 0 # b"
  by (simp add: ExtractPrefix_def Let_def numeral_3_eq_3 takeWhile_nul)

lemma prefixFilterKey_SomeD:
  assumes "prefixFilterKey pre = Some p"
  obtains a b r where "pre = a @ 0 # b @ 0 # r" "0 \<notin> set a" "0 \<notin> set b" "p = a @ 0 # b"
proof -
  have lt: "length (ExtractPrefix pre) < length pre"
    using assms by (auto simp: prefixFilterKey_def Let_def split: if_splits)
  then have "length (takeWhile (\<lambda>b. b \<noteq> 0) pre) < length pre"
    by (auto simp: ExtractPrefix_def Let_def numeral_3_eq_3 split: if_splits)
  then obtain a r1 where a: "pre = a @ 0 # r1" "0 \<notin> set a" by (rule split_at_nul)
  with lt have "length (takeWhile (\<lambda>b. b \<noteq> 0) r1) < length r1"
    by (auto simp: ExtractPrefix_def Let_def numeral_3_eq_3 takeWhile_nul split: if_splits)
  then obtain b r where b: "r1 = b @ 0 # r" "0 \<notin> set b" by (rule split_at_nul)
  have "p = a @ 0 # b"
    using assms a b by (auto simp: prefixFilterKey_def ExtractPrefix_two Let_def split: if_splits)
  with a b that show thesis by blast
qed

text \<open>C20: The prefix filter never hides a key: whenever a scan prefix is turned into a filter probe, every
  key with that scan prefix was added to its table's prefix filter under exactly that probe.\<close>
theorem prefix_filter_sound:
  assumes "prefixFilterKey pre = Some p" "prefix pre key"
  shows "ExtractPrefix key = p"
proof -
  obtain a b r where pre: "pre = a @ 0 # b @ 0 # r" "0 \<notin> set a" "0 \<notin> set b" "p = a @ 0 # b"
    using prefixFilterKey_SomeD [OF assms(1)] by blast
  obtain z where "key = pre @ z" using assms(2) by (auto simp: prefix_def)
  with pre ExtractPrefix_two [of a b "r @ z"] show ?thesis by simp
qed

theorem prefix_filter_sound_witness: "ExtractPrefix (hashFieldKey [0x61, 0x62] [0x66]) = [0x68, 0, 0x61, 0x62]"
  by (rule prefix_filter_sound [of "hashPrefix [0x61, 0x62]"])
     (simp_all add: prefixFilterKey_def ExtractPrefix_def hashPrefix_def hashFieldKey_def Let_def
        numeral_3_eq_3)

section \<open>The key space\<close>

text \<open>What the engine stores, one constructor per key builder.\<close>

datatype skey =
    SStr bytes
  | SHash bytes bytes
  | SSet bytes bytes
  | SListMeta bytes
  | SListElem bytes i64
  | SZVal bytes bytes
  | SZScore bytes u64 bytes
  | SBitPage bytes i64

fun skey_bytes :: "skey \<Rightarrow> bytes" where
  "skey_bytes (SStr k) = strKey k"
| "skey_bytes (SHash n f) = hashFieldKey n f"
| "skey_bytes (SSet n m) = setMemberKey n m"
| "skey_bytes (SListMeta n) = listMetaKey n"
| "skey_bytes (SListElem n i) = listElemKey n i"
| "skey_bytes (SZVal n m) = ZValKey n m"
| "skey_bytes (SZScore n sc m) = ZScoreKey n sc m"
| "skey_bytes (SBitPage n p) = bitmapPageKey n p"

fun skey_name :: "skey \<Rightarrow> bytes" where
  "skey_name (SStr k) = k"
| "skey_name (SHash n f) = n"
| "skey_name (SSet n m) = n"
| "skey_name (SListMeta n) = n"
| "skey_name (SListElem n i) = n"
| "skey_name (SZVal n m) = n"
| "skey_name (SZScore n sc m) = n"
| "skey_name (SBitPage n p) = n"

text \<open>Names without a NUL byte, indices within 62 bits, scores neither NaN nor negative zero.\<close>

fun skey_ok :: "skey \<Rightarrow> bool" where
  "skey_ok (SStr k) = True"
| "skey_ok (SHash n f) = (0 \<notin> set n)"
| "skey_ok (SSet n m) = (0 \<notin> set n)"
| "skey_ok (SListMeta n) = (0 \<notin> set n)"
| "skey_ok (SListElem n i) = (0 \<notin> set n \<and> list_index_ok i)"
| "skey_ok (SZVal n m) = (0 \<notin> set n)"
| "skey_ok (SZScore n sc m) = (0 \<notin> set n \<and> \<not> f_isNaN sc \<and> sc \<noteq> 0x8000000000000000)"
| "skey_ok (SBitPage n p) = (0 \<notin> set n)"

lemma append_nul_inject:
  "0 \<notin> set a \<Longrightarrow> 0 \<notin> set b \<Longrightarrow> a @ (0 :: byte) # x = b @ 0 # y \<longleftrightarrow> a = b \<and> x = y"
  by (induction a arbitrary: b; case_tac b) auto

lemmas skey_defs = strKey_def hashFieldKey_def hashPrefix_def setMemberKey_def setPrefix_def
  listMetaKey_def ZValKey_def ZScoreKey_def bitmapPageKey_def bitmapPrefix_def

lemma fmt_biased_inject:
  assumes "list_index_ok i" "list_index_ok j" "fmt_020d (i + push_bit 62 1) = fmt_020d (j + push_bit 62 1)"
  shows "i = j"
proof -
  have "nat (sint i + 2 ^ 62) = nat (sint j + 2 ^ 62)"
    using assms(3) unfolding fmt_biased(1) [OF assms(1)] fmt_biased(1) [OF assms(2)]
    by (metis pos_val_zero_pad dec_digits_spec)
  then have "sint i = sint j" using assms(1,2) by (auto simp: list_index_ok_def)
  then show ?thesis by (simp add: signed_word_eqI)
qed

lemma fmt_biased_no_meta:
  assumes "list_index_ok i"
  shows "fmt_020d (i + push_bit 62 1) \<noteq> [0x6D, 0x65, 0x74, 0x61]"
proof
  assume "fmt_020d (i + push_bit 62 1) = [0x6D, 0x65, 0x74, 0x61]"
  then have "length (zero_pad 20 (dec_digits (nat (sint i + 2 ^ 62)))) = 4"
    unfolding fmt_biased(1) [OF assms] by (drule_tac arg_cong [of _ _ length]) simp
  with zero_pad_order(2) [OF fmt_biased(2) [OF assms] fmt_biased(2) [OF assms]] show False by simp
qed

lemma EncodeScore_inject:
  assumes "\<not> f_isNaN a" "\<not> f_isNaN b" "a \<noteq> 0x8000000000000000" "b \<noteq> 0x8000000000000000"
    and "scoreBits a = scoreBits b"
  shows "a = b"
proof -
  have "score_rank (f_val a) = score_rank (f_val b)"
    using assms(5) scoreBits_rank [OF assms(1)] scoreBits_rank [OF assms(2)] by simp
  then have "f_val a = f_val b" using score_rank_mono by (metis linorder_neq_iff)
  moreover have "uint a \<noteq> 2 ^ 63" "uint b \<noteq> 2 ^ 63"
    using assms(3,4) by (auto simp: word_uint_eq_iff)
  ultimately have "uint a = uint b"
    using uint_half [of a] uint_half [of b] unfolding f_val_uint
    by (cases "2 ^ 63 \<le> uint a"; cases "2 ^ 63 \<le> uint b"; simp only: if_True if_False; linarith)
  then show ?thesis by (simp add: word_uint_eq_iff)
qed

text \<open>C21: No two things the engine stores share a key: the builders of string, hash, set, list, sorted set
  and bitmap keys are jointly injective on names without a NUL byte.\<close>
theorem storage_keys_injective:
  assumes "skey_ok x" "skey_ok y"
  shows "skey_bytes x = skey_bytes y \<longleftrightarrow> x = y"
  using assms
  by (cases x; cases y)
     (auto simp: skey_defs listElemKey_def append_nul_inject EncodeScore_def
       simp del: push_bit_of_1 dest: fmt_biased_inject fmt_biased_no_meta
       fmt_biased_no_meta [THEN not_sym] EncodeScore_inject)

theorem storage_keys_injective_witness:
  "skey_bytes (SListMeta [0x61]) \<noteq> skey_bytes (SListElem [0x61] 3)"
  using storage_keys_injective [of "SListMeta [0x61]" "SListElem [0x61] 3"]
  by (simp add: list_index_ok_def)

text \<open>The delimiter alone does not keep names apart: with a NUL byte in the name two different hash
  fields have the same key.\<close>

lemma hash_keys_collide:
  "hashFieldKey [0x61] [0x62, 0, 0x63] = hashFieldKey [0x61, 0, 0x62] [0x63] \<and>
   ([0x61] :: bytes, [0x62, 0, 0x63] :: bytes) \<noteq> ([0x61, 0, 0x62], [0x63])"
  by (simp add: hashFieldKey_def hashPrefix_def)



text \<open>The resume key of a SCAN page passes every member of the collection except those that start with
  byte 0xFF: such a member's key sorts after the key the next page starts from.\<close>

lemma collectionResumeKey_set:
  "0 \<notin> set n \<Longrightarrow> collectionResumeKey (setMemberKey n m) = setMemberKey n [0xFF]"
  by (simp add: collectionResumeKey_def setMemberKey_def setPrefix_def indexNul_def takeWhile_nul Let_def
      numeral_3_eq_3)

lemma collectionResumeKey_not_past:
  "0 \<notin> set n \<Longrightarrow> collectionResumeKey (setMemberKey n m) < setMemberKey n (0xFF # x # xs)"
  by (simp add: collectionResumeKey_set) (simp add: setMemberKey_def setPrefix_def)

end
