(* ===== verification/Oracle.thy ===== *)
theory Oracle
  imports Prelude
begin

text \<open>
  The timestamp oracle, \<open>src/oracle.go\<close>: the watermark of active readers, commit timestamps,
  the applied frontier, and the history against which serializable transactions are checked.
  Every method runs under its mutexes and is one function on the state.

  Timestamps are natural numbers (a \<open>uint64\<close> counter wraps after \<open>2^64\<close> commits).  A map from
  timestamps to positive counts is a multiset, a map to \<open>struct\<open>{}\<close>\<close> a set, and an absent entry of
  \<open>historyIndex\<close> is the empty list, which is how the code reads it.  Key fingerprints are the
  \<open>xxhash\<close> values the code stores.
\<close>

section \<open>The watermark\<close>

record watermark =
  w_active :: "nat multiset"
  w_minTs :: nat

definition newWaterMark :: watermark where
  "newWaterMark = \<lparr>w_active = {#}, w_minTs = 0\<rparr>"

definition wm_Begin :: "nat \<Rightarrow> watermark \<Rightarrow> watermark" where
  "wm_Begin readTs w =
     (let active = add_mset readTs (w_active w)
      in if card (set_mset active) = 1 \<or> readTs < w_minTs w
         then \<lparr>w_active = active, w_minTs = readTs\<rparr>
         else w\<lparr>w_active := active\<rparr>)"

definition wm_Done :: "nat \<Rightarrow> nat \<Rightarrow> watermark \<Rightarrow> watermark" where
  "wm_Done readTs currentNextTs w =
     (let active = w_active w - {#readTs#}
      in if active = {#} then \<lparr>w_active = active, w_minTs = currentNextTs\<rparr>
         else \<lparr>w_active = active, w_minTs = Min (set_mset active)\<rparr>)"

definition wm_MinReadTs :: "nat \<Rightarrow> watermark \<Rightarrow> nat" where
  "wm_MinReadTs defaultTs w = (if w_active w = {#} then defaultTs else w_minTs w)"

section \<open>The oracle\<close>

type_synonym fprint = "u64"

record committedTxn =
  c_commitTs :: nat
  c_writes :: "fprint set"

record ostate =
  o_nextTs :: nat
  o_appliedTs :: nat
  o_awaiting :: "nat set"
  o_history :: "committedTxn list"
  o_historyIndex :: "fprint \<Rightarrow> nat list"
  o_watermark :: watermark
  o_readSeqs :: "nat multiset"

definition newOracle :: ostate where
  "newOracle = \<lparr>o_nextTs = 1, o_appliedTs = 1, o_awaiting = {}, o_history = [],
     o_historyIndex = (\<lambda>_. []), o_watermark = newWaterMark, o_readSeqs = {#}\<rparr>"

definition assignTs :: "ostate \<Rightarrow> nat \<times> ostate" where
  "assignTs s =
     (let ts = o_nextTs s + 1 in (ts, s\<lparr>o_nextTs := ts, o_awaiting := insert ts (o_awaiting s)\<rparr>))"

definition ReserveVersion :: "nat \<Rightarrow> ostate \<Rightarrow> ostate" where
  "ReserveVersion ts s =
     (let s1 = (if o_nextTs s < ts then s\<lparr>o_nextTs := ts\<rparr> else s)
      in if o_appliedTs s1 < ts then s1\<lparr>o_awaiting := insert ts (o_awaiting s1)\<rparr> else s1)"

definition NewReadTs :: "ostate \<Rightarrow> nat \<times> ostate" where
  "NewReadTs s =
     (let readTs = (if o_appliedTs s = 0 then 1 else o_appliedTs s)
      in (readTs, s\<lparr>o_watermark := wm_Begin readTs (o_watermark s)\<rparr>))"

definition NewCommitTs :: "ostate \<Rightarrow> nat \<times> ostate" where
  "NewCommitTs s = assignTs s"

function advance :: "nat \<Rightarrow> nat \<Rightarrow> nat set \<Rightarrow> nat" where
  "advance applied next awaiting =
     (if next < applied + 1 then applied
      else if applied + 1 \<in> awaiting then applied
      else advance (applied + 1) next awaiting)"
  by pat_completeness auto
termination
  by (relation "measure (\<lambda>(applied, next, _). next - applied)") auto

declare advance.simps [simp del]

definition advanceApplied :: "ostate \<Rightarrow> ostate" where
  "advanceApplied s = s\<lparr>o_appliedTs := advance (o_appliedTs s) (o_nextTs s) (o_awaiting s)\<rparr>"

definition MarkApplied :: "nat \<Rightarrow> ostate \<Rightarrow> ostate" where
  "MarkApplied ts s =
     (if ts \<le> o_appliedTs s then s else advanceApplied (s\<lparr>o_awaiting := o_awaiting s - {ts}\<rparr>))"

definition Bump :: "nat \<Rightarrow> ostate \<Rightarrow> ostate" where
  "Bump minTs s =
     s\<lparr>o_nextTs := max (o_nextTs s) minTs, o_appliedTs := max (o_appliedTs s) minTs,
       o_readSeqs := filter_mset (\<lambda>ts. \<not> ts < minTs) (o_readSeqs s)\<rparr>"

definition Done :: "nat \<Rightarrow> ostate \<Rightarrow> ostate" where
  "Done readTs s = s\<lparr>o_watermark := wm_Done readTs (o_appliedTs s) (o_watermark s)\<rparr>"

definition MinReadTs :: "ostate \<Rightarrow> nat" where
  "MinReadTs s = wm_MinReadTs (o_appliedTs s) (o_watermark s)"

definition BeginRead :: "ostate \<Rightarrow> nat \<times> ostate" where
  "BeginRead s = (o_nextTs s, s\<lparr>o_readSeqs := add_mset (o_nextTs s) (o_readSeqs s)\<rparr>)"

definition DoneRead :: "nat \<Rightarrow> ostate \<Rightarrow> ostate" where
  "DoneRead ts s = advanceApplied (s\<lparr>o_readSeqs := o_readSeqs s - {#ts#}\<rparr>)"

definition NextTs :: "ostate \<Rightarrow> nat" where
  "NextTs s = o_nextTs s"

section \<open>Conflict detection\<close>

definition indexWrites :: "nat \<Rightarrow> fprint set \<Rightarrow> ostate \<Rightarrow> ostate" where
  "indexWrites commitTs ws s =
     s\<lparr>o_historyIndex := (\<lambda>fp. if fp \<in> ws then o_historyIndex s fp @ [commitTs] else o_historyIndex s fp)\<rparr>"

definition latestWrite :: "ostate \<Rightarrow> fprint \<Rightarrow> nat" where
  "latestWrite s fp = foldl (\<lambda>m ts. if m < ts then ts else m) 0 (o_historyIndex s fp)"

text \<open>\<open>for fp := range writes { removeWriteVersionLocked(fp, commitTs) }\<close>: the first occurrence
  goes.\<close>

definition removeWriteVersions :: "fprint set \<Rightarrow> nat \<Rightarrow> (fprint \<Rightarrow> nat list) \<Rightarrow> fprint \<Rightarrow> nat list" where
  "removeWriteVersions ws commitTs idx = (\<lambda>fp. if fp \<in> ws then remove1 commitTs (idx fp) else idx fp)"

definition trimHistory :: "nat \<Rightarrow> ostate \<Rightarrow> ostate" where
  "trimHistory minActiveTs s =
     (let old = takeWhile (\<lambda>t. c_commitTs t < minActiveTs) (o_history s)
      in s\<lparr>o_historyIndex := foldl (\<lambda>idx t. removeWriteVersions (c_writes t) (c_commitTs t) idx)
               (o_historyIndex s) old,
           o_history := drop (length old) (o_history s)\<rparr>)"

datatype txn_error = ErrTxnClosed | ErrTxnReadOnly | ErrTxnConflict | ErrKeyNotFound

definition checkAndCommitInternal ::
  "nat \<Rightarrow> fprint set \<Rightarrow> fprint set \<Rightarrow> ostate \<Rightarrow> (txn_error + nat) \<times> ostate" where
  "checkAndCommitInternal readTs readFps writeFps s =
     (if \<exists>fp \<in> readFps. readTs < latestWrite s fp then (Inl ErrTxnConflict, s)
      else if \<exists>fp \<in> writeFps. readTs < latestWrite s fp then (Inl ErrTxnConflict, s)
      else (let (commitTs, s1) = assignTs s;
                s2 = s1\<lparr>o_history := o_history s1 @ [\<lparr>c_commitTs = commitTs, c_writes = writeFps\<rparr>]\<rparr>;
                s3 = indexWrites commitTs writeFps s2
            in (Inr commitTs, trimHistory (wm_MinReadTs (o_appliedTs s3) (o_watermark s3)) s3)))"

definition CheckAndCommit ::
  "(bytes \<Rightarrow> fprint) \<Rightarrow> nat \<Rightarrow> bytes set \<Rightarrow> bytes set \<Rightarrow> ostate \<Rightarrow> (txn_error + nat) \<times> ostate" where
  "CheckAndCommit hash readTs readSet writeKeys s =
     checkAndCommitInternal readTs (hash ` readSet) (hash ` writeKeys) s"

fun remove_first :: "nat \<Rightarrow> committedTxn list \<Rightarrow> committedTxn list" where
  "remove_first ts [] = []"
| "remove_first ts (t # h) = (if c_commitTs t = ts then h else t # remove_first ts h)"

definition AbortCommit :: "nat \<Rightarrow> ostate \<Rightarrow> ostate" where
  "AbortCommit commitTs s0 =
     (let s = s0\<lparr>o_awaiting := o_awaiting s0 - {commitTs}\<rparr>
      in case find (\<lambda>t. c_commitTs t = commitTs) (o_history s) of
           None \<Rightarrow> advanceApplied s
         | Some t \<Rightarrow>
             advanceApplied (s\<lparr>o_history := remove_first commitTs (o_history s),
               o_historyIndex := removeWriteVersions (c_writes t) commitTs (o_historyIndex s)\<rparr>))"

definition RecordCommitted :: "nat \<Rightarrow> fprint set \<Rightarrow> ostate \<Rightarrow> ostate" where
  "RecordCommitted commitTs ws s0 =
     (if ws = {} then s0
      else (let s = s0\<lparr>o_history := o_history s0 @ [\<lparr>c_commitTs = commitTs, c_writes = ws\<rparr>]\<rparr>;
                s' = indexWrites commitTs ws s
            in trimHistory (wm_MinReadTs (o_appliedTs s') (o_watermark s')) s'))"

end
