(* ===== verification/Oracle_Correct.thy ===== *)
theory Oracle_Correct
  imports Oracle
begin

text \<open>
  Correctness of the oracle over all interleavings of its methods.  \<open>o_step\<close> is one method
  call; a ghost log \<open>g\<close> collects every transaction that committed and was not aborted, which
  the oracle itself forgets when it trims its history.  The results: the applied frontier
  never passes a commit that is still being applied, and trimming never changes the answer of
  a conflict check.
\<close>

section \<open>The applied frontier\<close>

lemma advance_spec:
  "applied \<le> advance applied next aw \<and>
   (\<forall>t. applied < t \<longrightarrow> t \<le> advance applied next aw \<longrightarrow> t \<notin> aw) \<and>
   (applied \<le> next \<longrightarrow> advance applied next aw \<le> next \<and>
      (advance applied next aw = next \<or> Suc (advance applied next aw) \<in> aw))"
proof (induction applied "next" aw rule: advance.induct)
  case (1 applied "next" aw)
  show ?case
  proof (cases "next < applied + 1 \<or> applied + 1 \<in> aw")
    case True
    then show ?thesis by (subst advance.simps) (auto simp: advance.simps [of applied])
  next
    case False
    then have "advance applied next aw = advance (applied + 1) next aw"
      by (subst advance.simps) auto
    with 1 False show ?thesis by (auto simp: Suc_le_eq le_Suc_eq not_less intro: Suc_lessI)
  qed
qed

lemmas advance_ge = advance_spec [THEN conjunct1]
lemmas advance_clear = advance_spec [THEN conjunct2, THEN conjunct1, rule_format]
lemmas advance_le = advance_spec [THEN conjunct2, THEN conjunct2, rule_format, THEN conjunct1]
lemmas advance_stop = advance_spec [THEN conjunct2, THEN conjunct2, rule_format, THEN conjunct2]

lemma advanceApplied_simps [simp]:
  "o_nextTs (advanceApplied s) = o_nextTs s" "o_awaiting (advanceApplied s) = o_awaiting s"
  "o_history (advanceApplied s) = o_history s" "o_historyIndex (advanceApplied s) = o_historyIndex s"
  "o_watermark (advanceApplied s) = o_watermark s" "o_readSeqs (advanceApplied s) = o_readSeqs s"
  "o_appliedTs (advanceApplied s) = advance (o_appliedTs s) (o_nextTs s) (o_awaiting s)"
  by (simp_all add: advanceApplied_def)

section \<open>Invariants\<close>

definition wm_inv :: "watermark \<Rightarrow> bool" where
  "wm_inv w \<longleftrightarrow> (w_active w \<noteq> {#} \<longrightarrow> w_minTs w = Min (set_mset (w_active w)))"

lemma wm_inv_Begin: "wm_inv w \<Longrightarrow> wm_inv (wm_Begin ts w)"
proof -
  assume w: "wm_inv w"
  show ?thesis
  proof (cases "w_active w = {#}")
    case True
    then show ?thesis by (simp add: wm_inv_def wm_Begin_def)
  next
    case False
    then have min: "w_minTs w = Min (set_mset (w_active w))" using w by (simp add: wm_inv_def)
    have ins: "Min (insert ts (set_mset (w_active w))) = min ts (w_minTs w)"
      using False by (simp add: min)
    show ?thesis
    proof (cases "card (insert ts (set_mset (w_active w))) = 1")
      case True
      then have "insert ts (set_mset (w_active w)) = {ts}" by (metis card_1_singletonE insertI1 singletonD)
      then have "Min (insert ts (set_mset (w_active w))) = ts" by (metis Min_singleton)
      with True show ?thesis by (simp add: wm_inv_def wm_Begin_def Let_def)
    next
      case False
      then show ?thesis using ins by (auto simp: wm_inv_def wm_Begin_def Let_def min_def)
    qed
  qed
qed

lemma wm_inv_Done: "wm_inv (wm_Done ts d w)"
  by (simp add: wm_inv_def wm_Done_def Let_def)

lemma wm_active_simps [simp]:
  "w_active (wm_Begin ts w) = add_mset ts (w_active w)" "w_active (wm_Done ts d w) = w_active w - {#ts#}"
  by (simp_all add: wm_Begin_def wm_Done_def Let_def)

text \<open>The index holds, per fingerprint, the commit timestamps of the history that wrote it, in order.\<close>

definition index_of :: "committedTxn list \<Rightarrow> fprint \<Rightarrow> nat list" where
  "index_of h fp = map c_commitTs (filter (\<lambda>t. fp \<in> c_writes t) h)"

definition idx_inv :: "ostate \<Rightarrow> bool" where
  "idx_inv s \<longleftrightarrow> o_historyIndex s = index_of (o_history s)"

lemma index_of_snoc:
  "index_of (h @ [\<lparr>c_commitTs = c, c_writes = ws\<rparr>]) = (\<lambda>fp. if fp \<in> ws then index_of h fp @ [c] else index_of h fp)"
  by (rule ext) (simp add: index_of_def)

lemma index_of_remove_first:
  assumes "find (\<lambda>t. c_commitTs t = c) h = Some t"
  shows "removeWriteVersions (c_writes t) c (index_of h) = index_of (remove_first c h)"
proof
  show "removeWriteVersions (c_writes t) c (index_of h) fp = index_of (remove_first c h) fp" for fp
    using assms
    by (induction h) (auto simp: removeWriteVersions_def index_of_def split: if_splits)
qed

lemma remove_first_id: "find (\<lambda>t. c_commitTs t = c) h = None \<Longrightarrow> remove_first c h = h"
  by (induction h) (auto split: if_splits)

lemma index_of_drop:
  "foldl (\<lambda>idx t. removeWriteVersions (c_writes t) (c_commitTs t) idx) (index_of (xs @ ys)) xs = index_of ys"
proof (induction xs)
  case (Cons t xs)
  have "removeWriteVersions (c_writes t) (c_commitTs t) (index_of (t # xs @ ys)) = index_of (xs @ ys)"
    by (rule ext) (simp add: removeWriteVersions_def index_of_def)
  with Cons show ?case by simp
qed simp

lemma trimHistory_spec:
  assumes "idx_inv s"
  obtains old where "o_history s = old @ o_history (trimHistory m s)"
    "\<forall>t \<in> set old. c_commitTs t < m" "idx_inv (trimHistory m s)"
proof -
  let ?old = "takeWhile (\<lambda>t. c_commitTs t < m) (o_history s)"
  let ?rest = "drop (length ?old) (o_history s)"
  have split: "o_history s = ?old @ ?rest"
    by (metis append_take_drop_id takeWhile_eq_take)
  have "o_historyIndex (trimHistory m s) = index_of ?rest"
    using index_of_drop [of ?old ?rest] assms split
    by (simp add: trimHistory_def Let_def idx_inv_def)
  then have "idx_inv (trimHistory m s)" by (simp add: idx_inv_def trimHistory_def Let_def)
  moreover have "o_history (trimHistory m s) = ?rest" by (simp add: trimHistory_def Let_def)
  ultimately show thesis using that [of ?old] split by (auto dest: set_takeWhileD)
qed

lemma trimHistory_simps [simp]:
  "o_nextTs (trimHistory m s) = o_nextTs s" "o_awaiting (trimHistory m s) = o_awaiting s"
  "o_watermark (trimHistory m s) = o_watermark s" "o_appliedTs (trimHistory m s) = o_appliedTs s"
  by (simp_all add: trimHistory_def Let_def)

lemma indexWrites_simps [simp]:
  "o_nextTs (indexWrites c ws s) = o_nextTs s" "o_awaiting (indexWrites c ws s) = o_awaiting s"
  "o_watermark (indexWrites c ws s) = o_watermark s" "o_appliedTs (indexWrites c ws s) = o_appliedTs s"
  "o_history (indexWrites c ws s) = o_history s"
  by (simp_all add: indexWrites_def)

lemma foldl_max_gr:
  "r < foldl (\<lambda>m ts. if m < ts then ts else m) a (xs :: nat list) \<longleftrightarrow> r < a \<or> (\<exists>t \<in> set xs. r < t)"
  by (induction xs arbitrary: a) auto

lemma latestWrite_iff:
  assumes "idx_inv s"
  shows "r < latestWrite s fp \<longleftrightarrow> (\<exists>t \<in> set (o_history s). fp \<in> c_writes t \<and> r < c_commitTs t)"
  using assms by (auto simp: latestWrite_def foldl_max_gr idx_inv_def index_of_def)

section \<open>Runs\<close>

text \<open>One method call.  \<open>d @ o_history s\<close> is the ghost log, \<open>d\<close> its trimmed part.  The flag admits
  the two methods of distributed commits, which take timestamps from outside.\<close>

inductive o_step :: "bool \<Rightarrow> ostate \<times> committedTxn list \<Rightarrow> ostate \<times> committedTxn list \<Rightarrow> bool" for ext where
  st_read: "NewReadTs s = (r, s') \<Longrightarrow> o_step ext (s, g) (s', g)"
| st_done: "r \<in># w_active (o_watermark s) \<Longrightarrow> o_step ext (s, g) (Done r s, g)"
| st_commit: "r \<in># w_active (o_watermark s) \<Longrightarrow> checkAndCommitInternal r R W s = (Inr c, s') \<Longrightarrow>
    o_step ext (s, g) (s', g @ [\<lparr>c_commitTs = c, c_writes = W\<rparr>])"
| st_conflict: "checkAndCommitInternal r R W s = (Inl e, s') \<Longrightarrow> o_step ext (s, g) (s', g)"
| st_assign: "NewCommitTs s = (c, s') \<Longrightarrow> o_step ext (s, g) (s', g)"
| st_reserve: "o_step ext (s, g) (ReserveVersion c s, g)"
| st_applied: "o_step ext (s, g) (MarkApplied c s, g)"
| st_abort: "g = d @ o_history s \<Longrightarrow> o_step ext (s, g) (AbortCommit c s, d @ remove_first c (o_history s))"
| st_beginread: "BeginRead s = (r, s') \<Longrightarrow> o_step ext (s, g) (s', g)"
| st_doneread: "o_step ext (s, g) (DoneRead r s, g)"
| st_bump: "ext \<Longrightarrow> o_step ext (s, g) (Bump c s, g)"
| st_record: "ext \<Longrightarrow> W \<noteq> {} \<Longrightarrow>
    o_step ext (s, g) (RecordCommitted c W s, g @ [\<lparr>c_commitTs = c, c_writes = W\<rparr>])"

definition o_reach :: "bool \<Rightarrow> ostate \<times> committedTxn list \<Rightarrow> bool" where
  "o_reach ext = (o_step ext)\<^sup>*\<^sup>* (newOracle, [])"

definition o_inv :: "ostate \<times> committedTxn list \<Rightarrow> bool" where
  "o_inv sg \<longleftrightarrow> (let (s, g) = sg in
     wm_inv (o_watermark s) \<and> idx_inv s \<and> 1 \<le> o_appliedTs s \<and> o_appliedTs s \<le> o_nextTs s \<and>
     (\<forall>r \<in># w_active (o_watermark s). r \<le> o_appliedTs s) \<and>
     (\<exists>d. g = d @ o_history s \<and>
        (\<forall>t \<in> set d. c_commitTs t < o_appliedTs s \<and> (\<forall>r \<in># w_active (o_watermark s). c_commitTs t < r))))"

lemma o_invI:
  assumes "wm_inv (o_watermark s)" "idx_inv s" "1 \<le> o_appliedTs s" "o_appliedTs s \<le> o_nextTs s"
    "\<And>r. r \<in># w_active (o_watermark s) \<Longrightarrow> r \<le> o_appliedTs s" "g = d @ o_history s"
    "\<And>t. t \<in> set d \<Longrightarrow> c_commitTs t < o_appliedTs s"
    "\<And>t r. t \<in> set d \<Longrightarrow> r \<in># w_active (o_watermark s) \<Longrightarrow> c_commitTs t < r"
  shows "o_inv (s, g)"
  using assms unfolding o_inv_def by auto

lemma o_invD:
  assumes "o_inv (s, g)"
  shows "wm_inv (o_watermark s)" "idx_inv s" "1 \<le> o_appliedTs s" "o_appliedTs s \<le> o_nextTs s"
    "\<And>r. r \<in># w_active (o_watermark s) \<Longrightarrow> r \<le> o_appliedTs s"
    "\<exists>d. g = d @ o_history s \<and> (\<forall>t \<in> set d. c_commitTs t < o_appliedTs s \<and>
        (\<forall>r \<in># w_active (o_watermark s). c_commitTs t < r))"
  using assms unfolding o_inv_def by auto

lemma wm_MinReadTs_le:
  assumes "wm_inv w" "\<And>r. r \<in># w_active w \<Longrightarrow> r \<le> a"
  shows "wm_MinReadTs a w \<le> a" "r \<in># w_active w \<Longrightarrow> wm_MinReadTs a w \<le> r"
proof -
  show "wm_MinReadTs a w \<le> r" if "r \<in># w_active w" for r
    using that assms(1) by (auto simp: wm_MinReadTs_def wm_inv_def)
  with assms(2) show "wm_MinReadTs a w \<le> a"
    by (cases "w_active w") (auto simp: wm_MinReadTs_def intro: order_trans)
qed

text \<open>Appending a transaction to history and index, then trimming: the common tail of a commit and of a
  recorded distributed commit.\<close>

lemma o_inv_append_trim:
  assumes inv: "o_inv (s, g)" and s': "o_historyIndex s' = o_historyIndex s" "o_history s' = o_history s @ [t]"
    "o_watermark s' = o_watermark s" "o_appliedTs s' = o_appliedTs s" "o_nextTs s \<le> o_nextTs s'"
    and t: "t = \<lparr>c_commitTs = c, c_writes = W\<rparr>"
  shows "o_inv (trimHistory (wm_MinReadTs (o_appliedTs s) (o_watermark s)) (indexWrites c W s'), g @ [t])"
proof -
  note inv = o_invD [OF inv]
  let ?s = "indexWrites c W s'" and ?m = "wm_MinReadTs (o_appliedTs s) (o_watermark s)"
  have "idx_inv ?s"
    using inv(2) unfolding idx_inv_def by (simp add: indexWrites_def s'(1,2) t index_of_snoc cong: if_cong)
  from trimHistory_spec [OF this, of ?m] obtain old where
    old: "o_history ?s = old @ o_history (trimHistory ?m ?s)" "\<forall>t \<in> set old. c_commitTs t < ?m"
    "idx_inv (trimHistory ?m ?s)" by blast
  from inv(6) obtain d where d: "g = d @ o_history s"
    "\<forall>t \<in> set d. c_commitTs t < o_appliedTs s \<and> (\<forall>r \<in># w_active (o_watermark s). c_commitTs t < r)" by blast
  have m: "?m \<le> o_appliedTs s" "\<And>r. r \<in># w_active (o_watermark s) \<Longrightarrow> ?m \<le> r"
    using wm_MinReadTs_le [OF inv(1), of "o_appliedTs s"] inv(5) by auto
  show ?thesis
  proof (rule o_invI [where d = "d @ old"])
    show "g @ [t] = (d @ old) @ o_history (trimHistory ?m ?s)"
      using d(1) old(1) by (simp add: s')
  qed (use inv old d m s' in \<open>auto intro: less_le_trans order_trans\<close>)
qed

lemma o_inv_advance:
  assumes inv: "o_inv (s, g)" and s': "o_watermark s' = o_watermark s" "idx_inv s'" "o_nextTs s' = o_nextTs s"
    "o_appliedTs s' = o_appliedTs s" and g: "g = d @ o_history s" "g' = d @ o_history s'"
  shows "o_inv (advanceApplied s', g')"
proof -
  note inv = o_invD [OF inv]
  note adv = advance_ge [of "o_appliedTs s" "o_nextTs s" "o_awaiting s'"] advance_le [OF inv(4), of "o_awaiting s'"]
  show ?thesis
    by (rule o_invI [where d = d])
       (use inv g adv s' in \<open>auto simp: idx_inv_def intro: less_le_trans order_trans\<close>)
qed

lemma o_inv_same:
  assumes "o_inv (s, g)" "o_watermark s' = o_watermark s" "o_history s' = o_history s"
    "o_historyIndex s' = o_historyIndex s" "o_appliedTs s \<le> o_appliedTs s'" "o_appliedTs s' \<le> o_nextTs s'"
  shows "o_inv (s', g)"
proof -
  note inv = o_invD [OF assms(1)]
  obtain d where "g = d @ o_history s" "\<forall>t \<in> set d. c_commitTs t < o_appliedTs s \<and>
      (\<forall>r \<in># w_active (o_watermark s). c_commitTs t < r)" using inv(6) by blast
  then show ?thesis
    by (intro o_invI [where d = d])
       (use inv assms(2-) in \<open>auto simp: idx_inv_def intro: less_le_trans order_trans\<close>)
qed

lemma o_step_inv:
  assumes "o_step ext sg sg'" "o_inv sg"
  shows "o_inv sg'"
  using assms
proof (induction rule: o_step.induct)
  case (st_read s r s' g)
  note inv = o_invD [OF st_read(2)]
  have "r = o_appliedTs s" "s' = s\<lparr>o_watermark := wm_Begin r (o_watermark s)\<rparr>"
    using st_read(1) inv(3) by (auto simp: NewReadTs_def Let_def)
  with inv show ?case by (auto simp: o_inv_def idx_inv_def wm_inv_Begin)
next
  case (st_done r s g)
  note inv = o_invD [OF st_done(2)]
  obtain d where "g = d @ o_history s" "\<forall>t \<in> set d. c_commitTs t < o_appliedTs s \<and>
      (\<forall>r \<in># w_active (o_watermark s). c_commitTs t < r)" using inv(6) by blast
  then show ?case
    by (intro o_invI [where d = d])
       (use inv in \<open>auto simp: idx_inv_def wm_inv_Done Done_def dest!: in_diffD\<close>)
next
  case (st_commit r s R W c s' g)
  let ?s = "(snd (assignTs s))\<lparr>o_history := o_history s @ [\<lparr>c_commitTs = c, c_writes = W\<rparr>]\<rparr>"
  have "s' = trimHistory (wm_MinReadTs (o_appliedTs s) (o_watermark s)) (indexWrites c W ?s)"
    using st_commit(2) by (auto simp: checkAndCommitInternal_def assignTs_def Let_def split: if_splits)
  then show ?case
    using o_inv_append_trim [OF st_commit(3), of ?s] by (simp add: assignTs_def Let_def)
next
  case (st_conflict r R W s e s' g)
  then show ?case by (auto simp: checkAndCommitInternal_def Let_def split: if_splits prod.splits)
next
  case (st_assign s c s' g)
  then show ?case by (auto simp: NewCommitTs_def assignTs_def Let_def o_invD(4) intro!: o_inv_same [OF st_assign(2)] dest: o_invD(4))
next
  case (st_reserve s g c)
  then show ?case using o_invD(4) [OF st_reserve]
    by (auto simp: ReserveVersion_def Let_def intro!: o_inv_same [OF st_reserve])
next
  case (st_applied s g c)
  obtain d where "g = d @ o_history s" using o_invD(6) [OF st_applied] by blast
  then show ?case using st_applied o_invD(2) [OF st_applied]
    by (auto simp: MarkApplied_def idx_inv_def intro!: o_inv_advance [OF st_applied])
next
  case (st_abort g d s c)
  have idx: "o_historyIndex s = index_of (o_history s)" using o_invD(2) [OF st_abort(2)] by (simp add: idx_inv_def)
  show ?case
  proof (cases "find (\<lambda>t. c_commitTs t = c) (o_history s)")
    case None
    then show ?thesis unfolding AbortCommit_def Let_def
      using st_abort(1) idx
      by (simp add: remove_first_id) (rule o_inv_advance [OF st_abort(2)], auto simp: idx_inv_def)
  next
    case (Some t)
    then show ?thesis unfolding AbortCommit_def Let_def
      using st_abort(1) idx
      by simp (rule o_inv_advance [OF st_abort(2)], auto simp: idx_inv_def index_of_remove_first)
  qed
next
  case (st_beginread s r s' g)
  then show ?case using o_invD(4) [OF st_beginread(2)]
    by (auto simp: BeginRead_def intro!: o_inv_same [OF st_beginread(2)])
next
  case (st_doneread s g r)
  obtain d where "g = d @ o_history s" using o_invD(6) [OF st_doneread] by blast
  then show ?case using o_invD(2) [OF st_doneread]
    by (auto simp: DoneRead_def idx_inv_def intro!: o_inv_advance [OF st_doneread])
next
  case (st_bump s g c)
  then show ?case using o_invD(4) [OF st_bump(2)]
    by (auto simp: Bump_def intro!: o_inv_same [OF st_bump(2)])
next
  case (st_record W s g c)
  let ?s = "s\<lparr>o_history := o_history s @ [\<lparr>c_commitTs = c, c_writes = W\<rparr>]\<rparr>"
  show ?case using st_record(2) o_inv_append_trim [OF st_record(3), of ?s]
    by (simp add: RecordCommitted_def Let_def)
qed

lemma o_reach_inv: "o_reach ext sg \<Longrightarrow> o_inv sg"
  unfolding o_reach_def
proof (induction rule: rtranclp_induct)
  case base
  show ?case by (simp add: o_inv_def newOracle_def newWaterMark_def wm_inv_def idx_inv_def index_of_def fun_eq_iff)
qed (rule o_step_inv)

section \<open>The frontier of local runs\<close>

definition f_inv :: "ostate \<times> committedTxn list \<Rightarrow> bool" where
  "f_inv sg \<longleftrightarrow> (let (s, g) = sg in
     (\<forall>c \<in> o_awaiting s. o_appliedTs s < c) \<and> (\<forall>t \<in> set g. c_commitTs t \<le> o_nextTs s) \<and>
     sorted_wrt (<) (map c_commitTs g))"

lemma set_remove_first: "set (remove_first c h) \<subseteq> set h"
  by (induction h) auto

lemma sorted_remove_first:
  "sorted_wrt (<) (map c_commitTs h) \<Longrightarrow> sorted_wrt (<) (map c_commitTs (remove_first c h))"
  using set_remove_first by (induction h) fastforce+

lemma advance_frontier:
  assumes "\<forall>c \<in> aw. a < c"
  shows "\<forall>c \<in> aw. advance a n aw < c"
proof
  fix c assume "c \<in> aw"
  with assms advance_clear [of a c n aw] show "advance a n aw < c" by (metis not_less)
qed

lemma o_step_frontier:
  assumes "o_step False sg sg'" "o_inv sg" "f_inv sg"
  shows "f_inv sg'"
  using assms
proof (induction rule: o_step.induct)
  case (st_commit r s R W c s' g)
  have "c = Suc (o_nextTs s)" "o_nextTs s' = c" "o_awaiting s' = insert c (o_awaiting s)" "o_appliedTs s' = o_appliedTs s"
    using st_commit(2) by (auto simp: checkAndCommitInternal_def assignTs_def Let_def split: if_splits)
  with st_commit(4) o_invD(4) [OF st_commit(3)] show ?case
    by (auto simp: f_inv_def sorted_wrt_append le_Suc_eq less_Suc_eq_le)
next
  case (st_abort g d s c)
  have "sorted_wrt (<) (map c_commitTs (d @ remove_first c (o_history s)))"
    using st_abort(1,3) set_remove_first [of c "o_history s"]
    by (auto simp: f_inv_def sorted_wrt_append sorted_remove_first)
  then show ?case
    using st_abort(1,3) set_remove_first [of c "o_history s"]
      advance_frontier [of "o_awaiting s - {c}" "o_appliedTs s" "o_nextTs s"]
    by (auto simp: f_inv_def AbortCommit_def Let_def split: option.splits)
next
  case (st_applied s g c)
  then show ?case using advance_frontier [of "o_awaiting s - {c}" "o_appliedTs s" "o_nextTs s"]
    by (auto simp: f_inv_def MarkApplied_def)
next
  case (st_doneread s g r)
  then show ?case using advance_frontier [of "o_awaiting s" "o_appliedTs s" "o_nextTs s"]
    by (auto simp: f_inv_def DoneRead_def)
next
  case (st_conflict r R W s e s' g)
  then show ?case by (auto simp: checkAndCommitInternal_def Let_def split: if_splits prod.splits)
next
  case (st_assign s c s' g)
  with o_invD(4) [OF st_assign(2)] show ?case by (auto simp: f_inv_def NewCommitTs_def assignTs_def Let_def)
next
  case (st_reserve s g c)
  then show ?case by (auto simp: f_inv_def ReserveVersion_def Let_def)
qed (auto simp: f_inv_def NewReadTs_def Done_def BeginRead_def Let_def)

lemma o_reach_frontier: "o_reach False sg \<Longrightarrow> f_inv sg"
proof -
  assume r: "o_reach False sg"
  have "o_inv sg \<and> f_inv sg"
    using r unfolding o_reach_def
  proof (induction rule: rtranclp_induct)
    case base
    have "o_reach False (newOracle, [])" by (simp add: o_reach_def)
    from o_reach_inv [OF this] show ?case by (simp add: f_inv_def newOracle_def)
  qed (blast intro: o_step_inv o_step_frontier)
  then show ?thesis ..
qed

text \<open>The check sees exactly the conflicts of the ghost log.\<close>

lemma conflict_iff:
  assumes "o_inv (s, g)" "readTs \<in># w_active (o_watermark s)"
  shows "fst (checkAndCommitInternal readTs R W s) = Inl ErrTxnConflict \<longleftrightarrow>
    (\<exists>t \<in> set g. readTs < c_commitTs t \<and> c_writes t \<inter> (R \<union> W) \<noteq> {})"
proof -
  note inv = o_invD [OF assms(1)]
  obtain d where d: "g = d @ o_history s" "\<forall>t \<in> set d. \<forall>r \<in># w_active (o_watermark s). c_commitTs t < r"
    using inv(6) by blast
  have "(\<exists>t \<in> set g. readTs < c_commitTs t \<and> c_writes t \<inter> (R \<union> W) \<noteq> {}) \<longleftrightarrow>
      (\<exists>t \<in> set (o_history s). readTs < c_commitTs t \<and> c_writes t \<inter> (R \<union> W) \<noteq> {})"
    using d assms(2) by (auto dest: less_asym)
  also have "\<dots> \<longleftrightarrow> (\<exists>fp \<in> R \<union> W. readTs < latestWrite s fp)"
    by (auto simp: latestWrite_iff [OF inv(2)])
  also have "\<dots> \<longleftrightarrow> fst (checkAndCommitInternal readTs R W s) = Inl ErrTxnConflict"
    by (auto simp: checkAndCommitInternal_def Let_def split: prod.splits)
  finally show ?thesis by simp
qed

lemma commit_no_conflict:
  assumes "o_inv (s, g)" "r \<in># w_active (o_watermark s)" "checkAndCommitInternal r R W s = (Inr c, s')"
    "t \<in> set g" "r < c_commitTs t"
  shows "c_writes t \<inter> (R \<union> W) = {}"
proof (rule ccontr)
  assume "\<not> ?thesis"
  with assms(4,5) have "\<exists>t \<in> set g. r < c_commitTs t \<and> c_writes t \<inter> (R \<union> W) \<noteq> {}" by blast
  with conflict_iff [OF assms(1,2)] have "fst (checkAndCommitInternal r R W s) = Inl ErrTxnConflict" by simp
  with assms(3) show False by simp
qed

section \<open>Properties\<close>





text \<open>With \<open>Bump\<close>, as \<open>CommitAt\<close> calls it before its batch is applied, the frontier passes commits that
  are still pending: here a reader gets timestamp 5 while commit 2 is awaiting.\<close>

lemma bump_exposes_pending:
  "let s = Bump 5 (snd (NewCommitTs newOracle)) in 2 \<in> o_awaiting s \<and> fst (NewReadTs s) = 5"
  by (simp add: NewCommitTs_def assignTs_def newOracle_def Bump_def NewReadTs_def Let_def)

end
