(* ===== verification/Txn.thy ===== *)
theory Txn
  imports Oracle Mvcc "HOL-Library.AList"
begin

text \<open>
  Optimistic transactions, \<open>src/txn.go\<close>, over the oracle, a multi-version store and the write
  queue.  A Go map of buffered writes is an association list with one entry per key (a nil map
  reads like an empty one, and the guards keep the code from writing to one).  \<open>commit\<close> blocks
  on the write queue, so it is two functions: \<open>tx_commit\<close> up to the receive, and
  \<open>tx_commit_end\<close> after it.  The workers of \<open>engine_write.go\<close> are \<open>apply_batch\<close>: they write the
  batch at its version, or fail, and in both cases report the version as applied.
\<close>

record txEntry =
  t_value :: bytes
  t_expiresAt :: i64
  t_deleted :: bool

record tx =
  tx_readOnly :: bool
  tx_closed :: bool
  tx_readTs :: nat
  tx_writes :: "(bytes \<times> txEntry) list"
  tx_readSet :: "bytes set"

text \<open>Versions \<open>(key, version, entry)\<close>; a snapshot read picks the greatest version up to \<open>ts\<close>.\<close>

type_synonym tstore = "(bytes \<times> nat \<times> txEntry) list"

definition newer :: "(nat \<times> txEntry) option \<Rightarrow> nat \<Rightarrow> bool" where
  "newer b c \<longleftrightarrow> (case b of None \<Rightarrow> True | Some (c', _) \<Rightarrow> c' < c)"

definition sread :: "tstore \<Rightarrow> bytes \<Rightarrow> nat \<Rightarrow> (nat \<times> txEntry) option" where
  "sread st k ts =
     foldl (\<lambda>b (k', c, e). if k' = k \<and> c \<le> ts \<and> newer b c then Some (c, e) else b) None st"

record db =
  d_or :: ostate
  d_store :: tstore
  d_queue :: "(nat \<times> nat \<times> (bytes \<times> txEntry) list) list"
  d_acks :: "(nat \<times> nat \<times> bool) list"

definition getByVersion :: "i64 \<Rightarrow> db \<Rightarrow> bytes \<Rightarrow> nat \<Rightarrow> txn_error + bytes" where
  "getByVersion now d key ts =
     (case sread (d_store d) key ts of
        None \<Rightarrow> Inl ErrKeyNotFound
      | Some (_, e) \<Rightarrow> if t_deleted e \<or> expired now (t_expiresAt e) then Inl ErrKeyNotFound
                      else Inr (t_value e))"

section \<open>Opening a transaction\<close>

text \<open>The prologue of \<open>View\<close> and \<open>Update\<close>.\<close>

definition tx_open :: "bool \<Rightarrow> db \<Rightarrow> tx \<times> db" where
  "tx_open readOnly d =
     (let (readTs, s) = NewReadTs (d_or d)
      in (\<lparr>tx_readOnly = readOnly, tx_closed = False, tx_readTs = readTs, tx_writes = [],
           tx_readSet = {}\<rparr>, d\<lparr>d_or := s\<rparr>))"

text \<open>\<open>NewTransactionAt\<close> does not register with the watermark.\<close>

definition NewTransactionAt :: "nat \<Rightarrow> bool \<Rightarrow> tx" where
  "NewTransactionAt readTs readOnly =
     \<lparr>tx_readOnly = readOnly, tx_closed = False, tx_readTs = readTs, tx_writes = [], tx_readSet = {}\<rparr>"

section \<open>Operations\<close>

definition tx_Get :: "i64 \<Rightarrow> db \<Rightarrow> bytes \<Rightarrow> tx \<Rightarrow> (txn_error + bytes) \<times> tx" where
  "tx_Get now d key t =
     (if tx_closed t then (Inl ErrTxnClosed, t)
      else case (if tx_readOnly t then None else map_of (tx_writes t) key) of
        Some e \<Rightarrow> (if t_deleted e then Inl ErrKeyNotFound else Inr (t_value e), t)
      | None \<Rightarrow> (getByVersion now d key (tx_readTs t), t\<lparr>tx_readSet := insert key (tx_readSet t)\<rparr>))"

definition tx_SetEx :: "i64 \<Rightarrow> bytes \<Rightarrow> bytes \<Rightarrow> i64 \<Rightarrow> tx \<Rightarrow> (txn_error + unit) \<times> tx" where
  "tx_SetEx now key val ttlSeconds t =
     (if tx_closed t then (Inl ErrTxnClosed, t)
      else if tx_readOnly t then (Inl ErrTxnReadOnly, t)
      else (let ex = (if 0 < sint ttlSeconds then now + ttlSeconds else 0)
            in (Inr (), t\<lparr>tx_writes := AList.update key
                  \<lparr>t_value = val, t_expiresAt = ex, t_deleted = False\<rparr> (tx_writes t)\<rparr>)))"

definition tx_Set :: "i64 \<Rightarrow> bytes \<Rightarrow> bytes \<Rightarrow> tx \<Rightarrow> (txn_error + unit) \<times> tx" where
  "tx_Set now key val t = tx_SetEx now key val 0 t"

definition tx_Delete :: "bytes \<Rightarrow> tx \<Rightarrow> (txn_error + unit) \<times> tx" where
  "tx_Delete key t =
     (if tx_closed t then (Inl ErrTxnClosed, t)
      else if tx_readOnly t then (Inl ErrTxnReadOnly, t)
      else (Inr (), t\<lparr>tx_writes := AList.update key
              \<lparr>t_value = [], t_expiresAt = 0, t_deleted = True\<rparr> (tx_writes t)\<rparr>))"

definition batchEntries :: "tx \<Rightarrow> (bytes \<times> txEntry) list" where
  "batchEntries t = tx_writes t"

section \<open>Commit and rollback\<close>

definition db_Done :: "nat \<Rightarrow> db \<Rightarrow> db" where
  "db_Done readTs d = d\<lparr>d_or := Done readTs (d_or d)\<rparr>"

text \<open>The request carries the reader's timestamp only for bookkeeping; a request the queue refuses is
  an \<open>apply_batch False\<close> at once.\<close>

definition enqueueBatchWithVersion :: "nat \<Rightarrow> (bytes \<times> txEntry) list \<Rightarrow> nat \<Rightarrow> db \<Rightarrow> db" where
  "enqueueBatchWithVersion readTs entries version d =
     d\<lparr>d_or := ReserveVersion version (d_or d), d_queue := d_queue d @ [(readTs, version, entries)]\<rparr>"

datatype commit_res = CommitNil | CommitErr txn_error | CommitQueued nat

text \<open>Up to \<open>res := <-errCh\<close>; on the paths that return earlier the deferred \<open>Done\<close> has run.\<close>

definition tx_commit :: "(bytes \<Rightarrow> fprint) \<Rightarrow> tx \<Rightarrow> db \<Rightarrow> commit_res \<times> tx \<times> db" where
  "tx_commit hash t d =
     (if tx_closed t \<or> tx_readOnly t then (CommitNil, t, d)
      else (let t' = t\<lparr>tx_closed := True\<rparr>
            in if tx_writes t = [] then (CommitNil, t', db_Done (tx_readTs t) d)
               else case CheckAndCommit hash (tx_readTs t) (tx_readSet t) (fst ` set (tx_writes t)) (d_or d) of
                 (Inl e, s) \<Rightarrow> (CommitErr e, t', db_Done (tx_readTs t) (d\<lparr>d_or := s\<rparr>))
               | (Inr commitTs, s) \<Rightarrow>
                   (CommitQueued commitTs, t',
                    enqueueBatchWithVersion (tx_readTs t) (batchEntries t) commitTs (d\<lparr>d_or := s\<rparr>))))"

text \<open>A worker takes the request: \<open>applyBatch\<close> and \<open>MarkApplied\<close>, with the error it may return.\<close>

definition apply_batch :: "bool \<Rightarrow> nat \<Rightarrow> nat \<Rightarrow> (bytes \<times> txEntry) list \<Rightarrow> db \<Rightarrow> db" where
  "apply_batch ok readTs c batch d =
     d\<lparr>d_or := MarkApplied c (d_or d), d_queue := remove1 (readTs, c, batch) (d_queue d),
       d_store := (if ok then d_store d @ map (\<lambda>(k, e). (k, c, e)) batch else d_store d),
       d_acks := (readTs, c, ok) # d_acks d\<rparr>"

text \<open>After the receive: abort on an error, then the deferred \<open>Done\<close>.\<close>

definition tx_commit_end :: "nat \<Rightarrow> nat \<Rightarrow> bool \<Rightarrow> db \<Rightarrow> db" where
  "tx_commit_end readTs c ok d =
     db_Done readTs (d\<lparr>d_or := (if ok then d_or d else AbortCommit c (d_or d)),
       d_acks := remove1 (readTs, c, ok) (d_acks d)\<rparr>)"

text \<open>\<open>CommitAt\<close>: the batch is applied synchronously with the result \<open>ok\<close>.\<close>

definition CommitAt :: "(bytes \<Rightarrow> fprint) \<Rightarrow> nat \<Rightarrow> bool \<Rightarrow> tx \<Rightarrow> db \<Rightarrow> (txn_error + bool) \<times> tx \<times> db" where
  "CommitAt hash commitTs ok t d =
     (if tx_closed t then (Inl ErrTxnClosed, t, d)
      else if tx_readOnly t then (Inr True, t\<lparr>tx_closed := True\<rparr>, db_Done (tx_readTs t) d)
      else if tx_writes t = [] then (Inr True, t\<lparr>tx_closed := True\<rparr>, db_Done (tx_readTs t) d)
      else (let s1 = Bump commitTs (d_or d);
                s2 = RecordCommitted commitTs (hash ` fst ` set (tx_writes t)) s1;
                s3 = MarkApplied commitTs (ReserveVersion commitTs s2);
                s4 = (if ok then s3 else AbortCommit commitTs s3);
                d' = d\<lparr>d_or := s4, d_store := (if ok then d_store d @ map (\<lambda>(k, e). (k, commitTs, e)) (batchEntries t)
                        else d_store d)\<rparr>
            in (Inr ok, t\<lparr>tx_closed := True, tx_writes := []\<rparr>, db_Done (tx_readTs t) d')))"

definition rollback :: "tx \<Rightarrow> db \<Rightarrow> tx \<times> db" where
  "rollback t d =
     ((t\<lparr>tx_closed := True, tx_writes := [], tx_readSet := {}\<rparr>),
      (if tx_closed t then d else db_Done (tx_readTs t) d))"

end
