(* ===== verification/Txn_Correct.thy ===== *)
theory Txn_Correct
  imports Txn Oracle_Correct
begin

text \<open>
  Serializability of the transactions of \<open>txn.go\<close> over every interleaving of their operations,
  of the write workers and of the failures of the write queue.  The ghost component records,
  for every transaction, what it read from the store, and for every committed one its place in
  the commit order; replaying the committed transactions one after the other in that order
  explains every read that any of them made.
\<close>

section \<open>Snapshot reads of the store\<close>

text \<open>No key has one version twice.\<close>

definition store_ok :: "tstore \<Rightarrow> bool" where
  "store_ok st \<longleftrightarrow> (\<forall>k c e e'. (k, c, e) \<in> set st \<longrightarrow> (k, c, e') \<in> set st \<longrightarrow> e = e')"

definition is_latest :: "tstore \<Rightarrow> bytes \<Rightarrow> nat \<Rightarrow> (nat \<times> txEntry) option \<Rightarrow> bool" where
  "is_latest st k ts r \<longleftrightarrow>
     (case r of
        None \<Rightarrow> \<forall>c e. (k, c, e) \<in> set st \<longrightarrow> ts < c
      | Some (c, e) \<Rightarrow> (k, c, e) \<in> set st \<and> c \<le> ts \<and> (\<forall>c' e'. (k, c', e') \<in> set st \<longrightarrow> c' \<le> ts \<longrightarrow> c' \<le> c))"

lemma sread_is_latest: "is_latest st k ts (sread st k ts)"
proof (induction st rule: rev_induct)
  case Nil
  show ?case by (simp add: sread_def is_latest_def)
next
  case (snoc x st)
  obtain k' c e where x: "x = (k', c, e)" by (cases x) auto
  have step: "sread (st @ [x]) k ts =
      (if k' = k \<and> c \<le> ts \<and> newer (sread st k ts) c then Some (c, e) else sread st k ts)"
    by (simp add: sread_def x)
  show ?case
    using snoc unfolding step
    by (auto simp: is_latest_def x newer_def not_less split: option.splits if_splits dest: order_trans)
qed

lemma is_latest_unique:
  assumes "store_ok st" "is_latest st k ts r" "is_latest st k ts r'"
  shows "r = r'"
proof (cases r)
  case None
  with assms show ?thesis by (cases r') (auto simp: is_latest_def)
next
  case (Some p)
  obtain c e where p: "p = (c, e)" by fastforce
  from Some assms(2,3) obtain c' e' where r': "r' = Some (c', e')"
    by (cases r') (auto simp: is_latest_def p)
  have "c \<le> c'" "c' \<le> c" using assms(2,3) by (auto simp: is_latest_def Some p r')
  then have "c = c'" by simp
  with assms show ?thesis by (auto simp: is_latest_def store_ok_def Some p r')
qed

lemma sread_eqI: "store_ok st \<Longrightarrow> is_latest st k ts r \<Longrightarrow> sread st k ts = r"
  using is_latest_unique sread_is_latest by blast

lemma sread_cong:
  assumes "store_ok st" "\<And>c e. c \<le> ts \<Longrightarrow> (k, c, e) \<in> set st \<longleftrightarrow> (k, c, e) \<in> set st'"
  shows "sread st k ts = sread st' k ts"
proof (rule sread_eqI [OF assms(1)])
  show "is_latest st k ts (sread st' k ts)"
    using sread_is_latest [of st' k ts] assms(2)
    by (auto simp: is_latest_def not_le [symmetric] split: option.splits)
qed

section \<open>The committed transactions\<close>

record ctx =
  x_readTs :: nat
  x_commitTs :: nat
  x_writes :: "(bytes \<times> txEntry) list"
  x_reads :: "(bytes \<times> txEntry option) list"

definition entries_of :: "ctx \<Rightarrow> tstore" where
  "entries_of t = map (\<lambda>(k, e). (k, x_commitTs t, e)) (x_writes t)"

definition log_store :: "ctx list \<Rightarrow> tstore" where
  "log_store log = concat (map entries_of log)"

definition log_read :: "ctx list \<Rightarrow> bytes \<Rightarrow> nat \<Rightarrow> txEntry option" where
  "log_read log k ts = map_option snd (sread (log_store log) k ts)"

text \<open>The state after running the transactions of a log one after the other.\<close>

definition serial_state :: "ctx list \<Rightarrow> bytes \<rightharpoonup> txEntry" where
  "serial_state log = foldl (\<lambda>m t. m ++ map_of (x_writes t)) Map.empty log"

definition log_ok :: "ctx list \<Rightarrow> bool" where
  "log_ok log \<longleftrightarrow> sorted_wrt (<) (map x_commitTs log) \<and> (\<forall>t \<in> set log. distinct (map fst (x_writes t)))"

lemma mem_log_store:
  "(k, c, e) \<in> set (log_store log) \<longleftrightarrow> (\<exists>t \<in> set log. x_commitTs t = c \<and> (k, e) \<in> set (x_writes t))"
  by (force simp: log_store_def entries_of_def)

lemma log_ok_unique:
  "log_ok log \<Longrightarrow> t \<in> set log \<Longrightarrow> t' \<in> set log \<Longrightarrow> x_commitTs t = x_commitTs t' \<Longrightarrow> t = t'"
proof -
  assume a: "log_ok log" "t \<in> set log" "t' \<in> set log" "x_commitTs t = x_commitTs t'"
  have "distinct (map x_commitTs log)"
    using a(1) by (auto simp: log_ok_def strict_sorted_iff)
  with a show "t = t'" by (auto simp: distinct_map inj_on_def)
qed

lemma log_store_ok: "log_ok log \<Longrightarrow> store_ok (log_store log)"
proof -
  assume ok: "log_ok log"
  show ?thesis unfolding store_ok_def mem_log_store
    using log_ok_unique [OF ok] ok by (auto simp: log_ok_def dest: eq_key_imp_eq_value)
qed

lemma log_read_cong:
  assumes "log_ok log" "\<And>t. x_commitTs t \<le> ts \<Longrightarrow> k \<in> fst ` set (x_writes t) \<Longrightarrow> t \<in> set log \<longleftrightarrow> t \<in> set log'"
  shows "log_read log k ts = log_read log' k ts"
  unfolding log_read_def
  by (rule arg_cong [OF sread_cong [OF log_store_ok [OF assms(1)]]])
     (use assms(2) in \<open>force simp: mem_log_store\<close>)

lemma log_read_skip:
  assumes "log_ok log" "ts \<le> ts'"
    "\<And>t. t \<in> set log \<Longrightarrow> ts < x_commitTs t \<Longrightarrow> x_commitTs t \<le> ts' \<Longrightarrow> k \<notin> fst ` set (x_writes t)"
  shows "log_read log k ts = log_read log k ts'"
proof -
  have old: "c \<le> ts" if "(k, c, e) \<in> set (log_store log)" "c \<le> ts'" for c e
    using that assms(3) by (force simp: mem_log_store not_le [symmetric])
  have "is_latest (log_store log) k ts (sread (log_store log) k ts')"
  proof (cases "sread (log_store log) k ts'")
    case None
    then show ?thesis
      using sread_is_latest [of "log_store log" k ts'] assms(2) by (auto simp: is_latest_def)
  next
    case (Some p)
    obtain c e where p: "p = (c, e)" by fastforce
    have "(k, c, e) \<in> set (log_store log)" "c \<le> ts'"
      "\<And>c' e'. (k, c', e') \<in> set (log_store log) \<Longrightarrow> c' \<le> ts' \<Longrightarrow> c' \<le> c"
      using sread_is_latest [of "log_store log" k ts'] by (auto simp: is_latest_def Some p)
    with old assms(2) show ?thesis by (auto simp: is_latest_def Some p intro: order_trans)
  qed
  from sread_eqI [OF log_store_ok [OF assms(1)] this] show ?thesis by (simp add: log_read_def)
qed

lemma log_ok_append: "log_ok (xs @ ys) \<longleftrightarrow> log_ok xs \<and> log_ok ys \<and>
    (\<forall>a \<in> set xs. \<forall>b \<in> set ys. x_commitTs a < x_commitTs b)"
  by (auto simp: log_ok_def sorted_wrt_append)

lemma log_read_serial:
  assumes "log_ok log" "\<forall>t \<in> set log. x_commitTs t \<le> ts"
  shows "log_read log k ts = serial_state log k"
  using assms
proof (induction log rule: rev_induct)
  case Nil
  show ?case by (simp add: log_read_def log_store_def sread_def serial_state_def)
next
  case (snoc t log)
  have ok: "log_ok log" "distinct (map fst (x_writes t))" and lt: "\<forall>a \<in> set log. x_commitTs a < x_commitTs t"
    using snoc.prems(1) by (auto simp: log_ok_append) (auto simp: log_ok_def)
  show ?case
  proof (cases "map_of (x_writes t) k")
    case None
    then have "k \<notin> fst ` set (x_writes t)" by (simp add: map_of_eq_None_iff)
    then have "log_read (log @ [t]) k ts = log_read log k ts"
      by (intro log_read_cong [OF snoc.prems(1)]) auto
    with snoc.IH ok snoc.prems(2) None show ?thesis by (simp add: serial_state_def map_add_def)
  next
    case (Some e)
    then have mem: "(k, e) \<in> set (x_writes t)" by (rule map_of_SomeD)
    have "is_latest (log_store (log @ [t])) k ts (Some (x_commitTs t, e))"
      using mem lt snoc.prems(2) by (fastforce simp: is_latest_def mem_log_store)
    from sread_eqI [OF log_store_ok [OF snoc.prems(1)] this] Some show ?thesis
      by (simp add: log_read_def serial_state_def)
  qed
qed

section \<open>Runs\<close>

text \<open>A state is the database, the open transactions with what they read from the store, the log of
  committed transactions and the oracle's ghost log.\<close>

type_synonym reads = "(bytes \<times> txEntry option) list"
type_synonym tsys = "db \<times> (tx \<times> reads) list \<times> ctx list \<times> committedTxn list"

definition fp_of :: "(bytes \<Rightarrow> fprint) \<Rightarrow> ctx \<Rightarrow> committedTxn" where
  "fp_of hash t = \<lparr>c_commitTs = x_commitTs t, c_writes = hash ` fst ` set (x_writes t)\<rparr>"

definition own_write :: "tx \<Rightarrow> bytes \<Rightarrow> bool" where
  "own_write t k \<longleftrightarrow> \<not> tx_readOnly t \<and> map_of (tx_writes t) k \<noteq> None"

inductive t_step :: "(bytes \<Rightarrow> fprint) \<Rightarrow> tsys \<Rightarrow> tsys \<Rightarrow> bool" for hash where
  t_begin: "tx_open ro d = (t, d') \<Longrightarrow> t_step hash (d, op, log, g) (d', op @ [(t, [])], log, g)"
| t_get: "tx_Get now d k t = (res, t') \<Longrightarrow>
    rs' = (if own_write t k then rs else (k, map_option snd (sread (d_store d) k (tx_readTs t))) # rs) \<Longrightarrow>
    t_step hash (d, xs @ (t, rs) # ys, log, g) (d, xs @ (t', rs') # ys, log, g)"
| t_set: "tx_SetEx now k v ttl t = (res, t') \<Longrightarrow>
    t_step hash (d, xs @ (t, rs) # ys, log, g) (d, xs @ (t', rs) # ys, log, g)"
| t_del: "tx_Delete k t = (res, t') \<Longrightarrow>
    t_step hash (d, xs @ (t, rs) # ys, log, g) (d, xs @ (t', rs) # ys, log, g)"
| t_commit_nil: "\<not> tx_readOnly t \<Longrightarrow> tx_commit hash t d = (CommitNil, t', d') \<Longrightarrow>
    t_step hash (d, xs @ (t, rs) # ys, log, g) (d', xs @ ys, log, g)"
| t_commit_err: "tx_commit hash t d = (CommitErr e, t', d') \<Longrightarrow>
    t_step hash (d, xs @ (t, rs) # ys, log, g) (d', xs @ ys, log, g)"
| t_commit: "tx_commit hash t d = (CommitQueued c, t', d') \<Longrightarrow>
    x = \<lparr>x_readTs = tx_readTs t, x_commitTs = c, x_writes = batchEntries t, x_reads = rs\<rparr> \<Longrightarrow>
    t_step hash (d, xs @ (t, rs) # ys, log, g) (d', xs @ ys, log @ [x], g @ [fp_of hash x])"
| t_apply: "(r, c, b) \<in> set (d_queue d) \<Longrightarrow>
    t_step hash (d, op, log, g) (apply_batch True r c b d, op, log, g)"
| t_fail: "(r, c, b) \<in> set (d_queue d) \<Longrightarrow>
    t_step hash (d, op, log, g) (apply_batch False r c b d, op, filter (\<lambda>t. x_commitTs t \<noteq> c) log, g)"
| t_ack_ok: "(r, c, True) \<in> set (d_acks d) \<Longrightarrow>
    t_step hash (d, op, log, g) (tx_commit_end r c True d, op, log, g)"
| t_ack_err: "(r, c, False) \<in> set (d_acks d) \<Longrightarrow> g = g0 @ o_history (d_or d) \<Longrightarrow>
    t_step hash (d, op, log, g) (tx_commit_end r c False d, op, log, g0 @ remove_first c (o_history (d_or d)))"
| t_rollback: "rollback t d = (t', d') \<Longrightarrow> t_step hash (d, xs @ (t, rs) # ys, log, g) (d', xs @ ys, log, g)"

definition db_init :: db where
  "db_init = \<lparr>d_or = newOracle, d_store = [], d_queue = [], d_acks = []\<rparr>"

definition t_reach :: "(bytes \<Rightarrow> fprint) \<Rightarrow> tsys \<Rightarrow> bool" where
  "t_reach hash = (t_step hash)\<^sup>*\<^sup>* (db_init, [], [], [])"

section \<open>Invariants\<close>

definition or_ok :: "tsys \<Rightarrow> bool" where
  "or_ok = (\<lambda>(d, op, log, g). o_inv (d_or d, g) \<and> f_inv (d_or d, g) \<and>
     w_active (o_watermark (d_or d)) =
       mset (map (tx_readTs \<circ> fst) op) + mset (map fst (d_queue d)) + mset (map fst (d_acks d)))"

definition reads_ok :: "ctx list \<Rightarrow> nat \<Rightarrow> reads \<Rightarrow> bool" where
  "reads_ok log r rs \<longleftrightarrow> (\<forall>(k, res) \<in> set rs. res = log_read log k r)"

definition op_ok :: "ctx list \<Rightarrow> (tx \<times> reads) list \<Rightarrow> bool" where
  "op_ok log op \<longleftrightarrow> (\<forall>t rs. (t, rs) \<in> set op \<longrightarrow> \<not> tx_closed t \<and> distinct (map fst (tx_writes t)) \<and>
     fst ` set rs \<subseteq> tx_readSet t \<and> reads_ok log (tx_readTs t) rs)"

text \<open>First committer wins: nothing a transaction read was overwritten between its snapshot and its
  commit.\<close>

definition fcw :: "ctx list \<Rightarrow> ctx \<Rightarrow> bool" where
  "fcw log t \<longleftrightarrow> (\<forall>t' \<in> set log. x_readTs t < x_commitTs t' \<longrightarrow> x_commitTs t' < x_commitTs t \<longrightarrow>
     fst ` set (x_writes t') \<inter> fst ` set (x_reads t) = {})"

definition hist_ok :: "(bytes \<Rightarrow> fprint) \<Rightarrow> nat \<Rightarrow> ctx list \<Rightarrow> committedTxn list \<Rightarrow> nat list \<Rightarrow> bool" where
  "hist_ok hash a log g bad \<longleftrightarrow> log_ok log \<and>
     (\<forall>t \<in> set log. fp_of hash t \<in> set g \<and> x_commitTs t \<notin> set bad \<and> x_readTs t \<le> a \<and>
        x_readTs t < x_commitTs t \<and> reads_ok log (x_readTs t) (x_reads t) \<and> fcw log t)"

definition pending :: "(nat \<times> nat \<times> (bytes \<times> txEntry) list) list \<Rightarrow> nat set" where
  "pending q = (fst \<circ> snd) ` set q"

lemma pending_simps [simp]:
  "pending [] = {}" "pending ((r, c, b) # q) = insert c (pending q)" "pending (q @ q') = pending q \<union> pending q'"
  by (auto simp: pending_def)

lemma pendingI: "(r, c, b) \<in> set q \<Longrightarrow> c \<in> pending q"
  by (force simp: pending_def)

lemma pendingE: "c \<in> pending q \<Longrightarrow> (\<And>r b. (r, c, b) \<in> set q \<Longrightarrow> P) \<Longrightarrow> P"
  by (auto simp: pending_def)

definition queue_ok :: "ctx list \<Rightarrow> db \<Rightarrow> bool" where
  "queue_ok log d \<longleftrightarrow> distinct (map (fst \<circ> snd) (d_queue d)) \<and>
     (\<forall>r c b. (r, c, b) \<in> set (d_queue d) \<longrightarrow> c \<in> o_awaiting (d_or d) \<and>
        (\<exists>t \<in> set log. x_commitTs t = c \<and> x_writes t = b)) \<and>
     (\<forall>k c e. (k, c, e) \<in> set (d_store d) \<longleftrightarrow> (k, c, e) \<in> set (log_store log) \<and> c \<notin> pending (d_queue d))"

definition failed_acks :: "db \<Rightarrow> nat list" where
  "failed_acks d = map (fst \<circ> snd) (filter (\<lambda>(r, c, ok). \<not> ok) (d_acks d))"

definition t_inv :: "(bytes \<Rightarrow> fprint) \<Rightarrow> tsys \<Rightarrow> bool" where
  "t_inv hash = (\<lambda>(d, op, log, g). or_ok (d, op, log, g) \<and> op_ok log op \<and>
     hist_ok hash (o_appliedTs (d_or d)) log g (failed_acks d) \<and> queue_ok log d \<and>
     (\<forall>(r, c, ok) \<in> set (d_acks d). c \<le> o_nextTs (d_or d)))"

lemma reads_ok_stable:
  assumes "reads_ok log r rs" "log_ok log" "r \<le> a"
    "\<And>t. x_commitTs t \<le> a \<Longrightarrow> t \<in> set log \<longleftrightarrow> t \<in> set log'"
  shows "reads_ok log' r rs"
proof -
  have "log_read log k r = log_read log' k r" for k
    by (rule log_read_cong [OF assms(2)]) (use assms(3,4) in auto)
  then show ?thesis using assms(1) by (simp add: reads_ok_def)
qed

lemma op_okD:
  assumes "op_ok log op" "(t, rs) \<in> set op"
  shows "\<not> tx_closed t" "distinct (map fst (tx_writes t))" "fst ` set rs \<subseteq> tx_readSet t"
    "reads_ok log (tx_readTs t) rs"
  using assms unfolding op_ok_def by blast+

lemma op_ok_stable:
  assumes "op_ok log op" "log_ok log" "\<And>t rs. (t, rs) \<in> set op \<Longrightarrow> tx_readTs t \<le> a"
    "\<And>t. x_commitTs t \<le> a \<Longrightarrow> t \<in> set log \<longleftrightarrow> t \<in> set log'"
  shows "op_ok log' op"
proof -
  have "reads_ok log' (tx_readTs t) rs" if "(t, rs) \<in> set op" for t rs
    by (rule reads_ok_stable [OF _ assms(2) assms(3) [OF that] assms(4)])
       (use assms(1) that in \<open>auto simp: op_ok_def\<close>)
  with assms(1) show ?thesis unfolding op_ok_def by blast
qed

lemma hist_ok_mono:
  "hist_ok hash a log g bad \<Longrightarrow> a \<le> a' \<Longrightarrow> set bad' \<subseteq> set bad \<Longrightarrow>
   (\<And>t. t \<in> set g \<Longrightarrow> c_commitTs t \<notin> set bad \<Longrightarrow> t \<in> set g') \<Longrightarrow> hist_ok hash a' log g' bad'"
  unfolding hist_ok_def by (auto intro: order_trans) (simp_all add: fp_of_def subset_iff)

lemma hist_ok_snoc:
  assumes h: "hist_ok hash a log g bad" and "\<And>t. t \<in> set log \<Longrightarrow> x_commitTs t < x_commitTs x" "a < x_commitTs x"
    "x_readTs x \<le> a" "reads_ok log (x_readTs x) (x_reads x)" "fcw log x" "distinct (map fst (x_writes x))"
    "x_commitTs x \<notin> set bad"
  shows "hist_ok hash a (log @ [x]) (g @ [fp_of hash x]) bad"
proof -
  have ok: "log_ok log" using h by (simp add: hist_ok_def)
  have ok': "log_ok (log @ [x])" using ok assms(2,7) by (auto simp: log_ok_append) (simp add: log_ok_def)
  have same: "t \<in> set log \<longleftrightarrow> t \<in> set (log @ [x])" if "x_commitTs t \<le> a" for t
    using that assms(3) by auto
  have reads: "reads_ok (log @ [x]) r rs" if "reads_ok log r rs" "r \<le> a" for r rs
    by (rule reads_ok_stable [OF that(1) ok that(2) same])
  have fcw: "fcw (log @ [x]) t" if "t \<in> set log" for t
    using h that assms(2) [OF that] by (auto simp: hist_ok_def fcw_def)
  have "fcw (log @ [x]) x" using assms(6) by (auto simp: fcw_def)
  then show ?thesis
    using h ok' reads fcw assms unfolding hist_ok_def by (auto intro: le_less_trans)
qed

lemma hist_ok_filter:
  assumes h: "hist_ok hash a log g bad" and "a < c" "a \<le> a'"
  shows "hist_ok hash a' (filter (\<lambda>t. x_commitTs t \<noteq> c) log) g (c # bad)"
proof -
  let ?log = "filter (\<lambda>t. x_commitTs t \<noteq> c) log"
  have ok: "log_ok log" using h by (simp add: hist_ok_def)
  have ok': "log_ok ?log" using ok by (auto simp: log_ok_def sorted_wrt_map sorted_wrt_filter)
  have same: "t \<in> set log \<longleftrightarrow> t \<in> set ?log" if "x_commitTs t \<le> a" for t
    using that assms(2) by auto
  have reads: "reads_ok ?log r rs" if "reads_ok log r rs" "r \<le> a" for r rs
    by (rule reads_ok_stable [OF that(1) ok that(2) same])
  show ?thesis
    using h ok' reads assms(3) unfolding hist_ok_def fcw_def by auto
qed

lemma store_read_log:
  assumes "queue_ok log d" "log_ok log" "\<forall>c \<in> o_awaiting (d_or d). ts < c"
  shows "map_option snd (sread (d_store d) k ts) = log_read log k ts"
proof -
  have "sread (log_store log) k ts = sread (d_store d) k ts"
  proof (rule sread_cong [OF log_store_ok [OF assms(2)]])
    fix c e assume "c \<le> ts"
    then have "c \<notin> pending (d_queue d)"
      using assms(1,3) by (fastforce simp: queue_ok_def elim: pendingE)
    then show "(k, c, e) \<in> set (log_store log) \<longleftrightarrow> (k, c, e) \<in> set (d_store d)"
      using assms(1) by (simp add: queue_ok_def)
  qed
  then show ?thesis by (simp add: log_read_def)
qed

section \<open>Preservation\<close>

lemma t_invD:
  assumes "t_inv hash (d, op, log, g)"
  shows "o_inv (d_or d, g)" "f_inv (d_or d, g)"
    "w_active (o_watermark (d_or d)) =
       mset (map (tx_readTs \<circ> fst) op) + mset (map fst (d_queue d)) + mset (map fst (d_acks d))"
    "op_ok log op" "hist_ok hash (o_appliedTs (d_or d)) log g (failed_acks d)" "queue_ok log d"
    "\<And>r c ok. (r, c, ok) \<in> set (d_acks d) \<Longrightarrow> c \<le> o_nextTs (d_or d)" "log_ok log"
    "\<And>t rs. (t, rs) \<in> set op \<Longrightarrow> tx_readTs t \<in># w_active (o_watermark (d_or d))"
    "\<And>t rs. (t, rs) \<in> set op \<Longrightarrow> tx_readTs t \<le> o_appliedTs (d_or d)"
    "\<forall>c \<in> o_awaiting (d_or d). o_appliedTs (d_or d) < c"
proof -
  show *: "o_inv (d_or d, g)" "f_inv (d_or d, g)"
    "w_active (o_watermark (d_or d)) =
       mset (map (tx_readTs \<circ> fst) op) + mset (map fst (d_queue d)) + mset (map fst (d_acks d))"
    "op_ok log op" "hist_ok hash (o_appliedTs (d_or d)) log g (failed_acks d)" "queue_ok log d"
    "\<And>r c ok. (r, c, ok) \<in> set (d_acks d) \<Longrightarrow> c \<le> o_nextTs (d_or d)"
    using assms by (auto simp: t_inv_def or_ok_def)
  show "log_ok log" using *(5) by (simp add: hist_ok_def)
  show "tx_readTs t \<in># w_active (o_watermark (d_or d))" if "(t, rs) \<in> set op" for t rs
    using that *(3) by force
  then show "tx_readTs t \<le> o_appliedTs (d_or d)" if "(t, rs) \<in> set op" for t rs
    using that o_invD(5) [OF *(1)] by blast
  show "\<forall>c \<in> o_awaiting (d_or d). o_appliedTs (d_or d) < c" using *(2) by (simp add: f_inv_def)
qed

lemma t_invI:
  assumes "o_inv (d_or d, g)" "f_inv (d_or d, g)"
    "w_active (o_watermark (d_or d)) =
       mset (map (tx_readTs \<circ> fst) op) + mset (map fst (d_queue d)) + mset (map fst (d_acks d))"
    "op_ok log op" "hist_ok hash (o_appliedTs (d_or d)) log g (failed_acks d)" "queue_ok log d"
    "\<And>r c ok. (r, c, ok) \<in> set (d_acks d) \<Longrightarrow> c \<le> o_nextTs (d_or d)"
  shows "t_inv hash (d, op, log, g)"
  using assms by (auto simp: t_inv_def or_ok_def)

text \<open>Oracle calls of the local methods keep both oracle invariants.\<close>

lemma o_step_both:
  "o_step False (s, g) (s', g') \<Longrightarrow> o_inv (s, g) \<Longrightarrow> f_inv (s, g) \<Longrightarrow> o_inv (s', g') \<and> f_inv (s', g')"
  using o_step_inv o_step_frontier by blast

lemma MarkApplied_simps [simp]:
  "o_watermark (MarkApplied c s) = o_watermark s" "o_nextTs (MarkApplied c s) = o_nextTs s"
  "o_appliedTs s \<le> o_appliedTs (MarkApplied c s)" "o_history (MarkApplied c s) = o_history s"
  using advance_ge by (auto simp: MarkApplied_def)

lemma AbortCommit_simps [simp]:
  "o_watermark (AbortCommit c s) = o_watermark s" "o_nextTs (AbortCommit c s) = o_nextTs s"
  "o_appliedTs s \<le> o_appliedTs (AbortCommit c s)" "o_awaiting (AbortCommit c s) = o_awaiting s - {c}"
  using advance_ge by (auto simp: AbortCommit_def Let_def split: option.splits)

lemma Done_simps [simp]:
  "o_nextTs (Done r s) = o_nextTs s" "o_appliedTs (Done r s) = o_appliedTs s"
  "o_awaiting (Done r s) = o_awaiting s" "o_history (Done r s) = o_history s"
  "w_active (o_watermark (Done r s)) = w_active (o_watermark s) - {#r#}"
  by (simp_all add: Done_def)

lemma db_Done_simps [simp]:
  "d_or (db_Done r d) = Done r (d_or d)" "d_store (db_Done r d) = d_store d"
  "d_queue (db_Done r d) = d_queue d" "d_acks (db_Done r d) = d_acks d"
  by (simp_all add: db_Done_def)

lemma queue_ok_cong:
  "queue_ok log d \<Longrightarrow> o_awaiting (d_or d') = o_awaiting (d_or d) \<Longrightarrow> d_store d' = d_store d \<Longrightarrow>
   d_queue d' = d_queue d \<Longrightarrow> queue_ok log d'"
  by (simp add: queue_ok_def)

text \<open>Dropping an open transaction and deregistering its snapshot.\<close>

lemma t_inv_close:
  assumes inv: "t_inv hash (d, xs @ (t, rs) # ys, log, g)"
  shows "t_inv hash (db_Done (tx_readTs t) d, xs @ ys, log, g)"
proof -
  note inv = t_invD [OF inv]
  have act: "tx_readTs t \<in># w_active (o_watermark (d_or d))" using inv(9) by auto
  have "o_step False (d_or d, g) (Done (tx_readTs t) (d_or d), g)" using act by (rule st_done)
  from o_step_both [OF this inv(1,2)] show ?thesis
    by (intro t_invI)
       (use inv in \<open>auto simp: op_ok_def failed_acks_def intro: queue_ok_cong [OF inv(6)]\<close>)
qed

text \<open>Changing the write buffer of an open transaction.\<close>

lemma t_inv_replace:
  assumes inv: "t_inv hash (d, xs @ (t, rs) # ys, log, g)"
    and t': "tx_readTs t' = tx_readTs t" "\<not> tx_closed t'" "distinct (map fst (tx_writes t'))"
      "fst ` set rs' \<subseteq> tx_readSet t'" "reads_ok log (tx_readTs t) rs'"
  shows "t_inv hash (d, xs @ (t', rs') # ys, log, g)"
proof -
  note inv = t_invD [OF inv]
  have "op_ok log (xs @ (t', rs') # ys)"
    using inv(4) t' unfolding op_ok_def by auto
  with inv t'(1) show ?thesis by (intro t_invI) auto
qed

lemma queue_split:
  assumes "queue_ok log d" "(r, c, b) \<in> set (d_queue d)"
  obtains q1 q2 where "d_queue d = q1 @ (r, c, b) # q2" "remove1 (r, c, b) (d_queue d) = q1 @ q2"
    "c \<notin> pending (q1 @ q2)"
proof -
  obtain q1 q2 where q: "d_queue d = q1 @ (r, c, b) # q2" "(r, c, b) \<notin> set q1"
    using split_list_first [OF assms(2)] by blast
  moreover have "c \<notin> pending (q1 @ q2)"
    using assms(1) by (auto simp: queue_ok_def pending_def q)
  ultimately show thesis using that by (simp add: remove1_append)
qed

lemma apply_batch_simps [simp]:
  "d_or (apply_batch ok r c b d) = MarkApplied c (d_or d)"
  "d_queue (apply_batch ok r c b d) = remove1 (r, c, b) (d_queue d)"
  "d_acks (apply_batch ok r c b d) = (r, c, ok) # d_acks d"
  "d_store (apply_batch ok r c b d) = (if ok then d_store d @ map (\<lambda>(k, e). (k, c, e)) b else d_store d)"
  by (simp_all add: apply_batch_def)

lemma queue_ok_apply:
  assumes ok: "queue_ok log d" "log_ok log" and q: "(r, c, b) \<in> set (d_queue d)"
    and aw: "o_appliedTs (d_or d) < c"
  shows "queue_ok log (apply_batch True r c b d)"
    "queue_ok (filter (\<lambda>t. x_commitTs t \<noteq> c) log) (apply_batch False r c b d)"
proof -
  obtain q1 q2 where q': "d_queue d = q1 @ (r, c, b) # q2" "remove1 (r, c, b) (d_queue d) = q1 @ q2"
    "c \<notin> pending (q1 @ q2)" by (rule queue_split [OF ok(1) q])
  have aw': "o_awaiting (MarkApplied c (d_or d)) = o_awaiting (d_or d) - {c}"
    using aw by (simp add: MarkApplied_def)
  obtain t where t: "t \<in> set log" "x_commitTs t = c" "x_writes t = b"
    using ok(1) q unfolding queue_ok_def by blast
  have b: "(k, c, e) \<in> set (log_store log) \<longleftrightarrow> (k, e) \<in> set b" for k e
    unfolding mem_log_store using t by (metis log_ok_unique [OF ok(2)])
  have st: "(k, c', e) \<in> set (d_store d) \<longleftrightarrow>
      (k, c', e) \<in> set (log_store log) \<and> c' \<noteq> c \<and> c' \<notin> pending (q1 @ q2)" for k c' e
    using ok(1) unfolding queue_ok_def q' by simp
  have dist: "distinct (map (fst \<circ> snd) (q1 @ q2))" using ok(1) by (simp add: queue_ok_def q')
  have qaw: "c' \<in> o_awaiting (d_or d) - {c}" "\<exists>t \<in> set log. x_commitTs t = c' \<and> x_writes t = b'" "c' \<noteq> c"
    if "(r', c', b') \<in> set (q1 @ q2)" for r' c' b'
  proof -
    show "c' \<noteq> c" using pendingI [OF that] q'(3) by auto
    moreover have "(r', c', b') \<in> set (d_queue d)" using that by (auto simp: q')
    ultimately show "c' \<in> o_awaiting (d_or d) - {c}" "\<exists>t \<in> set log. x_commitTs t = c' \<and> x_writes t = b'"
      using ok(1) unfolding queue_ok_def by blast+
  qed
  have "(k, c', e) \<in> set (d_store d @ map (\<lambda>(k, e). (k, c, e)) b) \<longleftrightarrow>
      (k, c', e) \<in> set (log_store log) \<and> c' \<notin> pending (q1 @ q2)" for k c' e
    using st [of k c' e] b [of k e] q'(3) by (cases "c' = c") auto
  then show "queue_ok log (apply_batch True r c b d)"
    unfolding queue_ok_def apply_batch_simps q'(2) aw' using dist qaw by (simp add: if_True)
  have "(k, c', e) \<in> set (d_store d) \<longleftrightarrow>
      (k, c', e) \<in> set (log_store (filter (\<lambda>t. x_commitTs t \<noteq> c) log)) \<and> c' \<notin> pending (q1 @ q2)" for k c' e
    unfolding st mem_log_store by auto
  moreover have "\<exists>t \<in> set (filter (\<lambda>t. x_commitTs t \<noteq> c) log). x_commitTs t = c' \<and> x_writes t = b'"
    if "(r', c', b') \<in> set (q1 @ q2)" for r' c' b'
    using qaw(2,3) [OF that] by auto
  ultimately show "queue_ok (filter (\<lambda>t. x_commitTs t \<noteq> c) log) (apply_batch False r c b d)"
    unfolding queue_ok_def apply_batch_simps q'(2) aw' using dist qaw(1) by (simp add: if_False)
qed

lemma t_inv_apply:
  assumes inv: "t_inv hash (d, op, log, g)" and q: "(r, c, b) \<in> set (d_queue d)"
  shows "t_inv hash (apply_batch True r c b d, op, log, g)"
    "t_inv hash (apply_batch False r c b d, op, filter (\<lambda>t. x_commitTs t \<noteq> c) log, g)"
proof -
  note inv = t_invD [OF inv]
  have aw: "o_appliedTs (d_or d) < c" "c \<le> o_nextTs (d_or d)"
    using inv(6,11) q inv(2) inv(5) by (fastforce simp: queue_ok_def f_inv_def hist_ok_def fp_of_def)+
  obtain q1 q2 where q': "d_queue d = q1 @ (r, c, b) # q2" "remove1 (r, c, b) (d_queue d) = q1 @ q2"
    by (rule queue_split [OF inv(6) q])
  have or: "o_inv (MarkApplied c (d_or d), g) \<and> f_inv (MarkApplied c (d_or d), g)"
    by (rule o_step_both [OF st_applied inv(1,2)])
  have op: "op_ok (filter (\<lambda>t. x_commitTs t \<noteq> c) log) op"
    by (rule op_ok_stable [OF inv(4,8) inv(10)]) (use aw in auto)
  show "t_inv hash (apply_batch True r c b d, op, log, g)"
    using or inv aw queue_ok_apply(1) [OF inv(6,8) q aw(1)]
    by (intro t_invI) (auto simp: q' failed_acks_def intro: hist_ok_mono)
  show "t_inv hash (apply_batch False r c b d, op, filter (\<lambda>t. x_commitTs t \<noteq> c) log, g)"
    using or inv aw op queue_ok_apply(2) [OF inv(6,8) q aw(1)] hist_ok_filter [OF inv(5) aw(1)]
    by (intro t_invI) (auto simp: q' failed_acks_def)
qed

lemma mset_map_remove1: "x \<in> set l \<Longrightarrow> mset (map f l) = add_mset (f x) (mset (map f (remove1 x l)))"
  by (induction l) auto

lemma remove_first_mem: "t \<in> set h \<Longrightarrow> c_commitTs t \<noteq> c \<Longrightarrow> t \<in> set (remove_first c h)"
  by (induction h) auto

lemma set_failed_acks: "set (failed_acks d) = {c. \<exists>r. (r, c, False) \<in> set (d_acks d)}"
  by (force simp: failed_acks_def)

lemma t_inv_ack:
  assumes inv: "t_inv hash (d, op, log, g)" and a: "(r, c, ok) \<in> set (d_acks d)"
    and g': "if ok then g' = g else \<exists>g0. g = g0 @ o_history (d_or d) \<and> g' = g0 @ remove_first c (o_history (d_or d))"
  shows "t_inv hash (tx_commit_end r c ok d, op, log, g')"
proof -
  note inv = t_invD [OF inv]
  define s where "s = (if ok then d_or d else AbortCommit c (d_or d))"
  have s_same: "o_watermark s = o_watermark (d_or d)" "o_nextTs s = o_nextTs (d_or d)"
    "o_appliedTs (d_or d) \<le> o_appliedTs s" by (simp_all add: s_def)
  have act: "r \<in># w_active (o_watermark s)" using inv(3) a s_same by force
  have "o_inv (s, g') \<and> f_inv (s, g')"
    using inv(1,2) g' o_step_both [OF st_abort inv(1,2)] by (auto simp: s_def split: if_splits)
  with o_step_both [OF st_done [OF act]] have or: "o_inv (Done r s, g')" "f_inv (Done r s, g')" by auto
  have bad: "set (failed_acks (tx_commit_end r c ok d)) \<subseteq> set (failed_acks d)"
    using set_remove1_subset [of "(r, c, ok)" "d_acks d"] by (auto simp: set_failed_acks tx_commit_end_def)
  have gmem: "t \<in> set g'" if "t \<in> set g" "c_commitTs t \<notin> set (failed_acks d)" for t
  proof (cases ok)
    case False
    with a have "c \<in> set (failed_acks d)" by (auto simp: set_failed_acks)
    with that have "c_commitTs t \<noteq> c" by auto
    with that(1) g' False show ?thesis by (auto dest: remove_first_mem)
  qed (use that g' in simp)
  have "queue_ok log (tx_commit_end r c ok d)"
  proof (cases ok)
    case True
    then show ?thesis using inv(6) by (simp add: queue_ok_def tx_commit_end_def)
  next
    case False
    with a have "c \<in> set (failed_acks d)" by (auto simp: set_failed_acks)
    then have "c \<notin> pending (d_queue d)"
      using inv(5,6) by (fastforce simp: queue_ok_def hist_ok_def elim: pendingE)
    then have "c' \<noteq> c" if "(r', c', b') \<in> set (d_queue d)" for r' c' b'
      using pendingI [OF that] by auto
    then show ?thesis using inv(6) False unfolding queue_ok_def by (simp add: tx_commit_end_def)
  qed
  with or inv bad gmem s_same show ?thesis
    using mset_map_remove1 [OF a, of fst] set_remove1_subset [of "(r, c, ok)" "d_acks d"]
    by (intro t_invI) (auto simp: tx_commit_end_def s_def [symmetric] intro: hist_ok_mono)
qed

lemma tx_commit_queuedD:
  assumes "tx_commit hash t d = (CommitQueued c, t', d')"
  obtains s where "\<not> tx_readOnly t" "\<not> tx_closed t"
    "checkAndCommitInternal (tx_readTs t) (hash ` tx_readSet t) (hash ` fst ` set (tx_writes t)) (d_or d) = (Inr c, s)"
    "d' = d\<lparr>d_or := ReserveVersion c s, d_queue := d_queue d @ [(tx_readTs t, c, tx_writes t)]\<rparr>"
  using assms
  by (auto simp: tx_commit_def CheckAndCommit_def enqueueBatchWithVersion_def batchEntries_def Let_def
      split: if_splits prod.splits sum.splits)

lemma checkAndCommit_commitD:
  assumes "checkAndCommitInternal r R W s = (Inr c, s')"
  shows "c = Suc (o_nextTs s)" "o_nextTs s' = c" "o_awaiting s' = insert c (o_awaiting s)"
    "o_appliedTs s' = o_appliedTs s" "o_watermark s' = o_watermark s"
    "fst (checkAndCommitInternal r R W s) \<noteq> Inl ErrTxnConflict"
  using assms by (auto simp: checkAndCommitInternal_def assignTs_def Let_def split: if_splits)

lemma t_inv_commit:
  assumes inv: "t_inv hash (d, xs @ (t, rs) # ys, log, g)" and c: "tx_commit hash t d = (CommitQueued c, t', d')"
    and x: "x = \<lparr>x_readTs = tx_readTs t, x_commitTs = c, x_writes = batchEntries t, x_reads = rs\<rparr>"
  shows "t_inv hash (d', xs @ ys, log @ [x], g @ [fp_of hash x])"
proof -
  note inv = t_invD [OF inv]
  obtain s where s: "checkAndCommitInternal (tx_readTs t) (hash ` tx_readSet t) (hash ` fst ` set (tx_writes t)) (d_or d) = (Inr c, s)"
    "d' = d\<lparr>d_or := ReserveVersion c s, d_queue := d_queue d @ [(tx_readTs t, c, tx_writes t)]\<rparr>"
    by (rule tx_commit_queuedD [OF c])
  note sD = checkAndCommit_commitD [OF s(1)]
  have act: "tx_readTs t \<in># w_active (o_watermark (d_or d))" and rle: "tx_readTs t \<le> o_appliedTs (d_or d)"
    using inv(9,10) by auto
  have ale: "o_appliedTs (d_or d) \<le> o_nextTs (d_or d)" by (rule o_invD(4) [OF inv(1)])
  have fp: "fp_of hash x = \<lparr>c_commitTs = c, c_writes = hash ` fst ` set (tx_writes t)\<rparr>"
    by (simp add: fp_of_def x batchEntries_def)
  have "o_inv (s, g @ [fp_of hash x]) \<and> f_inv (s, g @ [fp_of hash x])"
    unfolding fp by (rule o_step_both [OF st_commit [OF act s(1)] inv(1,2)])
  with o_step_both [OF st_reserve] have or: "o_inv (ReserveVersion c s, g @ [fp_of hash x])"
    "f_inv (ReserveVersion c s, g @ [fp_of hash x])" by blast+
  have res: "ReserveVersion c s = s"
    using sD(1,2,3,4) ale by (simp add: ReserveVersion_def Let_def insert_absorb)
  have d': "d_or d' = s" "d_queue d' = d_queue d @ [(tx_readTs t, c, tx_writes t)]" "d_store d' = d_store d"
    "d_acks d' = d_acks d" by (simp_all add: s(2) res)
  have logc: "x_commitTs t' \<le> o_nextTs (d_or d)" if "t' \<in> set log" for t'
    using that inv(2,5) by (fastforce simp: f_inv_def hist_ok_def fp_of_def)
  have op: "\<not> tx_closed t" "distinct (map fst (tx_writes t))" "fst ` set rs \<subseteq> tx_readSet t" "reads_ok log (tx_readTs t) rs"
    using op_okD [OF inv(4), of t rs] by simp_all
  have "fcw log x"
    unfolding fcw_def
  proof (intro ballI impI)
    fix t' assume t': "t' \<in> set log" "x_readTs x < x_commitTs t'"
    then have "fp_of hash t' \<in> set g" using inv(5) by (simp add: hist_ok_def)
    moreover have "tx_readTs t < c_commitTs (fp_of hash t')" using t'(2) by (simp add: x fp_of_def)
    ultimately have "c_writes (fp_of hash t') \<inter> (hash ` tx_readSet t \<union> hash ` fst ` set (tx_writes t)) = {}"
      by (rule commit_no_conflict [OF inv(1) act s(1)])
    then have "c_writes (fp_of hash t') \<inter> hash ` tx_readSet t = {}" by blast
    then show "fst ` set (x_writes t') \<inter> fst ` set (x_reads x) = {}"
      using op(3) by (auto simp: fp_of_def x)
  qed
  moreover have "c \<notin> set (failed_acks d)" unfolding set_failed_acks using inv(7) sD(1) by fastforce
  ultimately have hist: "hist_ok hash (o_appliedTs (d_or d)) (log @ [x]) (g @ [fp_of hash x]) (failed_acks d)"
    using logc op rle ale sD(1)
    by (intro hist_ok_snoc [OF inv(5)]) (auto simp: x batchEntries_def less_Suc_eq_le)
  have "op_ok (log @ [x]) (xs @ (t, rs) # ys)"
    by (rule op_ok_stable [OF inv(4,8,10)]) (use sD(1) ale in \<open>auto simp: x\<close>)
  then have "op_ok (log @ [x]) (xs @ ys)" by (auto simp: op_ok_def)
  moreover have "queue_ok (log @ [x]) d'"
  proof -
    have new: "c \<notin> pending (d_queue d)"
      using inv(6) logc sD(1) by (fastforce simp: queue_ok_def elim: pendingE)
    have "(k, c', e) \<in> set (d_store d) \<longleftrightarrow>
        (k, c', e) \<in> set (log_store (log @ [x])) \<and> c' \<notin> pending (d_queue d @ [(tx_readTs t, c, tx_writes t)])" for k c' e
    proof -
      have "(k, c', e) \<in> set (d_store d) \<longleftrightarrow> (k, c', e) \<in> set (log_store log) \<and> c' \<notin> pending (d_queue d)"
        using inv(6) unfolding queue_ok_def by blast
      moreover have "(k, c, e) \<notin> set (log_store log)" using logc sD(1) by (fastforce simp: mem_log_store)
      ultimately show ?thesis by (auto simp: mem_log_store x)
    qed
    moreover have "distinct (map (fst \<circ> snd) (d_queue d @ [(tx_readTs t, c, tx_writes t)]))"
      using inv(6) new by (simp add: queue_ok_def pending_def)
    moreover have "c' \<in> o_awaiting s \<and> (\<exists>t \<in> set (log @ [x]). x_commitTs t = c' \<and> x_writes t = b')"
      if "(r', c', b') \<in> set (d_queue d @ [(tx_readTs t, c, tx_writes t)])" for r' c' b'
    proof (cases "(r', c', b') \<in> set (d_queue d)")
      case True
      then show ?thesis using inv(6) unfolding queue_ok_def sD(3) by auto
    next
      case False
      with that show ?thesis by (simp add: sD(3) x batchEntries_def)
    qed
    ultimately show ?thesis unfolding queue_ok_def d' by blast
  qed
  ultimately show ?thesis
    using or inv hist by (intro t_invI) (auto simp: d' res sD(4,5) failed_acks_def sD(2) [unfolded sD(1)] le_SucI)
qed

lemma t_inv_begin:
  assumes inv: "t_inv hash (d, op, log, g)" and t: "tx_open ro d = (t, d')"
  shows "t_inv hash (d', op @ [(t, [])], log, g)"
proof -
  note inv = t_invD [OF inv]
  obtain r s where rs: "NewReadTs (d_or d) = (r, s)" by fastforce
  have t': "t = \<lparr>tx_readOnly = ro, tx_closed = False, tx_readTs = r, tx_writes = [], tx_readSet = {}\<rparr>"
    "d' = d\<lparr>d_or := s\<rparr>" using t rs by (auto simp: tx_open_def)
  have s: "s = (d_or d)\<lparr>o_watermark := wm_Begin r (o_watermark (d_or d))\<rparr>"
    using rs by (auto simp: NewReadTs_def Let_def)
  have "o_inv (s, g) \<and> f_inv (s, g)" by (rule o_step_both [OF st_read [OF rs] inv(1,2)])
  moreover have "op_ok log (op @ [(t, [])])"
    using inv(4) by (auto simp: op_ok_def t' reads_ok_def)
  ultimately show ?thesis
    using inv by (intro t_invI) (auto simp: t' s failed_acks_def intro: queue_ok_cong [OF inv(6)])
qed

lemma t_step_inv:
  assumes "t_step hash sy sy'" "t_inv hash sy"
  shows "t_inv hash sy'"
  using assms
proof (induction rule: t_step.induct)
  case (t_begin ro d t d' op log g)
  then show ?case by (rule t_inv_begin [rotated])
next
  case (t_get now d k t res t' rs' rs xs ys log g)
  note inv = t_invD [OF t_get(3)]
  note op = op_okD [OF inv(4), of t rs, simplified]
  have le: "tx_readTs t \<le> o_appliedTs (d_or d)" using inv(10) [of t rs] by simp
  have aw: "\<forall>c \<in> o_awaiting (d_or d). tx_readTs t < c" using inv(11) le by fastforce
  have read: "map_option snd (sread (d_store d) k (tx_readTs t)) = log_read log k (tx_readTs t)"
    by (rule store_read_log [OF inv(6,8) aw])
  show ?case
    by (rule t_inv_replace [OF t_get(3)])
       (use t_get(1,2) op read in \<open>auto simp: tx_Get_def own_write_def reads_ok_def split: if_splits option.splits\<close>)
next
  case (t_set now k v ttl t res t' d xs rs ys log g)
  note op = op_okD [OF t_invD(4) [OF t_set(2)], of t rs, simplified]
  show ?case
    by (rule t_inv_replace [OF t_set(2)])
       (use t_set(1) op in \<open>auto simp: tx_SetEx_def Let_def distinct_update split: if_splits\<close>)
next
  case (t_del k t res t' d xs rs ys log g)
  note op = op_okD [OF t_invD(4) [OF t_del(2)], of t rs, simplified]
  show ?case
    by (rule t_inv_replace [OF t_del(2)])
       (use t_del(1) op in \<open>auto simp: tx_Delete_def Let_def distinct_update split: if_splits\<close>)
next
  case (t_commit_nil t d t' d' xs rs ys log g)
  have "\<not> tx_closed t" using op_okD(1) [OF t_invD(4) [OF t_commit_nil(3)], of t rs] by simp
  then have "d' = db_Done (tx_readTs t) d"
    using t_commit_nil(1,2) by (auto simp: tx_commit_def Let_def split: if_splits prod.splits sum.splits)
  then show ?case using t_inv_close [OF t_commit_nil(3)] by simp
next
  case (t_commit_err t d e t' d' xs rs ys log g)
  have "d' = db_Done (tx_readTs t) d"
    using t_commit_err(1)
    by (auto simp: tx_commit_def CheckAndCommit_def checkAndCommitInternal_def Let_def
        split: if_splits prod.splits sum.splits)
  then show ?case using t_inv_close [OF t_commit_err(2)] by simp
next
  case (t_commit t d c t' d' x rs xs ys log g)
  then show ?case by (intro t_inv_commit)
next
  case (t_apply r c b d op log g)
  then show ?case by (intro t_inv_apply)
next
  case (t_fail r c b d op log g)
  then show ?case by (intro t_inv_apply)
next
  case (t_ack_ok r c d op log g)
  then show ?case by (intro t_inv_ack) auto
next
  case (t_ack_err r c d g g0 op log)
  then show ?case by (intro t_inv_ack) auto
next
  case (t_rollback t d t' d' xs rs ys log g)
  have "\<not> tx_closed t" using op_okD(1) [OF t_invD(4) [OF t_rollback(2)], of t rs] by simp
  then have "d' = db_Done (tx_readTs t) d" using t_rollback(1) by (simp add: rollback_def)
  then show ?case using t_inv_close [OF t_rollback(2)] by simp
qed

lemma t_reach_inv: "t_reach hash sy \<Longrightarrow> t_inv hash sy"
  unfolding t_reach_def
proof (induction rule: rtranclp_induct)
  case base
  have "o_reach False (newOracle, [])" by (simp add: o_reach_def)
  note o_reach_inv [OF this] o_reach_frontier [OF this]
  then show ?case
    by (simp add: t_inv_def or_ok_def db_init_def op_ok_def hist_ok_def log_ok_def queue_ok_def log_store_def)
       (simp add: newOracle_def newWaterMark_def)
qed (rule t_step_inv)

section \<open>Properties\<close>



end
