(* ===== verification/GoHeap.thy ===== *)
theory GoHeap
  imports Prelude
begin

text \<open>
  \<open>container/heap\<close> of the Go standard library, which the merging iterators and the expiry
  tracker run on: the array operations \<open>up\<close> and \<open>down\<close>, and \<open>Init\<close>, \<open>Push\<close> and \<open>Pop\<close> built
  from them.  The order a client defines by its \<open>Less\<close> method is the parameter \<open>lt\<close>; the
  locale \<open>go_heap\<close> holds what \<open>container/heap\<close> asks of it, a strict weak order, and what the
  heap then guarantees.
\<close>

definition swap :: "'a list \<Rightarrow> nat \<Rightarrow> nat \<Rightarrow> 'a list" where
  "swap xs i j = xs[i := xs ! j, j := xs ! i]"

function heap_up :: "('a \<Rightarrow> 'a \<Rightarrow> bool) \<Rightarrow> 'a list \<Rightarrow> nat \<Rightarrow> 'a list" where
  "heap_up lt xs j =
     (let i = (j - 1) div 2
      in if i = j \<or> \<not> lt (xs ! j) (xs ! i) then xs else heap_up lt (swap xs i j) i)"
  by pat_completeness auto
termination
  by (relation "measure (\<lambda>(_, _, j). j)") auto

text \<open>The child to sift towards: the right one when it is smaller than the left.\<close>

definition heap_child :: "('a \<Rightarrow> 'a \<Rightarrow> bool) \<Rightarrow> 'a list \<Rightarrow> nat \<Rightarrow> nat \<Rightarrow> nat" where
  "heap_child lt xs i n =
     (let j1 = 2 * i + 1 in if j1 + 1 < n \<and> lt (xs ! (j1 + 1)) (xs ! j1) then j1 + 1 else j1)"

lemma heap_child_range: "2 * i + 1 < n \<Longrightarrow> i < heap_child lt xs i n \<and> heap_child lt xs i n < n"
  by (simp add: heap_child_def Let_def)

lemma heap_child_decreases: "\<not> n \<le> 2 * i + 1 \<Longrightarrow> n - heap_child lt xs i n < n - i"
  using heap_child_range [of i n lt xs] by auto

function heap_down :: "('a \<Rightarrow> 'a \<Rightarrow> bool) \<Rightarrow> 'a list \<Rightarrow> nat \<Rightarrow> nat \<Rightarrow> 'a list" where
  "heap_down lt xs i n =
     (if n \<le> 2 * i + 1 then xs
      else (let j = heap_child lt xs i n
            in if \<not> lt (xs ! j) (xs ! i) then xs else heap_down lt (swap xs i j) j n))"
  by pat_completeness auto
termination
  by (relation "measure (\<lambda>(_, _, i, n). n - i)") (use heap_child_decreases in auto)

declare heap_up.simps [simp del] heap_down.simps [simp del]

text \<open>\<open>for i := n/2 - 1; i >= 0; i-- { down(h, i, n) }\<close>\<close>

definition heap_Init :: "('a \<Rightarrow> 'a \<Rightarrow> bool) \<Rightarrow> 'a list \<Rightarrow> 'a list" where
  "heap_Init lt xs = foldl (\<lambda>ys i. heap_down lt ys i (length xs)) xs (rev [0..<length xs div 2])"

definition heap_Push :: "('a \<Rightarrow> 'a \<Rightarrow> bool) \<Rightarrow> 'a list \<Rightarrow> 'a \<Rightarrow> 'a list" where
  "heap_Push lt xs x = heap_up lt (xs @ [x]) (length xs)"

definition heap_Pop :: "('a \<Rightarrow> 'a \<Rightarrow> bool) \<Rightarrow> 'a list \<Rightarrow> 'a \<times> 'a list" where
  "heap_Pop lt xs =
     (let n = length xs - 1; ys = heap_down lt (swap xs 0 n) 0 n in (ys ! n, take n ys))"

section \<open>Contents are only permuted\<close>

lemma length_swap [simp]: "length (swap xs i j) = length xs"
  by (simp add: swap_def)

lemma mset_swap_eq: "i < length xs \<Longrightarrow> j < length xs \<Longrightarrow> mset (swap xs i j) = mset xs"
  by (simp add: swap_def mset_swap)

lemma swap_nth: "i < length xs \<Longrightarrow> j < length xs \<Longrightarrow> k < length xs \<Longrightarrow>
  swap xs i j ! k = (if k = j then xs ! i else if k = i then xs ! j else xs ! k)"
  by (simp add: swap_def nth_list_update)

lemma heap_up_mset: "j < length xs \<Longrightarrow> mset (heap_up lt xs j) = mset xs \<and> length (heap_up lt xs j) = length xs"
proof (induction lt xs j rule: heap_up.induct)
  case (1 lt xs j)
  show ?case
  proof (cases "(j - 1) div 2 = j \<or> \<not> lt (xs ! j) (xs ! ((j - 1) div 2))")
    case True
    then show ?thesis by (subst (1 2) heap_up.simps) (simp add: Let_def)
  next
    case False
    then have i: "(j - 1) div 2 < length xs" using 1(2) by linarith
    with 1(1) [OF refl] False 1(2) show ?thesis
      by (subst (1 2) heap_up.simps) (simp add: Let_def mset_swap_eq)
  qed
qed

lemma heap_down_mset:
  "i < n \<Longrightarrow> n \<le> length xs \<Longrightarrow>
   mset (heap_down lt xs i n) = mset xs \<and> length (heap_down lt xs i n) = length xs \<and>
   (\<forall>k. n \<le> k \<longrightarrow> k < length xs \<longrightarrow> heap_down lt xs i n ! k = xs ! k)"
proof (induction lt xs i n rule: heap_down.induct)
  case (1 lt xs i n)
  show ?case
  proof (cases "n \<le> 2 * i + 1 \<or> \<not> lt (xs ! heap_child lt xs i n) (xs ! i)")
    case True
    then show ?thesis by (subst (1 2 3) heap_down.simps) (auto simp: Let_def)
  next
    case False
    then have c: "i < heap_child lt xs i n" "heap_child lt xs i n < n"
      using heap_child_range [of i n lt xs] by auto
    let ?ys = "swap xs i (heap_child lt xs i n)"
    have step: "heap_down lt xs i n = heap_down lt ?ys (heap_child lt xs i n) n"
      using False by (subst heap_down.simps) (simp add: Let_def)
    have "mset (heap_down lt ?ys (heap_child lt xs i n) n) = mset ?ys \<and>
        length (heap_down lt ?ys (heap_child lt xs i n) n) = length ?ys \<and>
        (\<forall>k. n \<le> k \<longrightarrow> k < length ?ys \<longrightarrow> heap_down lt ?ys (heap_child lt xs i n) n ! k = ?ys ! k)"
      using 1(1) [OF _ refl] False c 1(3) by simp
    then show ?thesis
      unfolding step using c 1(2,3) by (auto simp: mset_swap_eq swap_nth)
  qed
qed

section \<open>The heap order\<close>

definition parent :: "nat \<Rightarrow> nat" where
  "parent j = (j - 1) div 2"

lemma parent_less: "0 < j \<Longrightarrow> parent j < j"
  by (simp add: parent_def)

lemma parent_eq: "0 < j \<Longrightarrow> parent j = i \<longleftrightarrow> j = 2 * i + 1 \<or> j = 2 * i + 2"
  unfolding parent_def by linarith

text \<open>Below \<open>n\<close>, every node whose parent is at or after \<open>k\<close> is not smaller than its parent.\<close>

definition heap_from :: "('a \<Rightarrow> 'a \<Rightarrow> bool) \<Rightarrow> nat \<Rightarrow> nat \<Rightarrow> 'a list \<Rightarrow> bool" where
  "heap_from lt k n xs \<longleftrightarrow> (\<forall>j. 0 < j \<longrightarrow> j < n \<longrightarrow> k \<le> parent j \<longrightarrow> \<not> lt (xs ! j) (xs ! parent j))"

abbreviation is_heap :: "('a \<Rightarrow> 'a \<Rightarrow> bool) \<Rightarrow> 'a list \<Rightarrow> bool" where
  "is_heap lt xs \<equiv> heap_from lt 0 (length xs) xs"

locale go_heap =
  fixes lt :: "'a \<Rightarrow> 'a \<Rightarrow> bool"
  assumes lt_asym: "lt a b \<Longrightarrow> \<not> lt b a"
    and not_lt_trans: "\<not> lt b a \<Longrightarrow> \<not> lt c b \<Longrightarrow> \<not> lt c a"
begin

lemma heap_child_least:
  assumes "0 < j" "parent j = i" "j < n"
  shows "\<not> lt (xs ! j) (xs ! heap_child lt xs i n)"
proof -
  have irrefl: "\<not> lt a a" for a using lt_asym by blast
  from assms(2) consider "j = 2 * i + 1" | "j = 2 * i + 2" unfolding parent_eq [OF assms(1)] by blast
  then show ?thesis
  proof cases
    case 1
    then show ?thesis using lt_asym irrefl by (simp add: heap_child_def Let_def)
  next
    case 2
    then show ?thesis using assms(3) irrefl by (simp add: heap_child_def Let_def)
  qed
qed

lemma heap_down_order:
  assumes "i < n" "n \<le> length xs" "k \<le> i"
    and "\<And>j. 0 < j \<Longrightarrow> j < n \<Longrightarrow> k \<le> parent j \<Longrightarrow> parent j \<noteq> i \<Longrightarrow> \<not> lt (xs ! j) (xs ! parent j)"
    and "\<And>j. 0 < j \<Longrightarrow> j < n \<Longrightarrow> parent j = i \<Longrightarrow> 0 < i \<Longrightarrow> k \<le> parent i \<Longrightarrow> \<not> lt (xs ! j) (xs ! parent i)"
  shows "heap_from lt k n (heap_down lt xs i n)"
  using assms
proof (induction "n - i" arbitrary: xs i rule: less_induct)
  case less
  let ?c = "heap_child lt xs i n"
  show ?case
  proof (cases "n \<le> 2 * i + 1 \<or> \<not> lt (xs ! ?c) (xs ! i)")
    case True
    then have stop: "heap_down lt xs i n = xs" by (subst heap_down.simps) (auto simp: Let_def)
    have "\<not> lt (xs ! j) (xs ! i)" if j: "0 < j" "j < n" "parent j = i" for j
    proof (cases "n \<le> 2 * i + 1")
      case False
      with True have "\<not> lt (xs ! ?c) (xs ! i)" by simp
      with heap_child_least [OF j(1,3,2)] show ?thesis using not_lt_trans by blast
    qed (use parent_eq [OF j(1), of i] j in auto)
    with less.prems(4) show ?thesis unfolding stop heap_from_def by metis
  next
    case False
    then have c: "i < ?c" "?c < n" "parent ?c = i" and lt: "lt (xs ! ?c) (xs ! i)"
      using heap_child_range [of i n lt xs] by (auto simp: parent_def heap_child_def Let_def)
    have step: "heap_down lt xs i n = heap_down lt (swap xs i ?c) ?c n"
      using False by (subst heap_down.simps) (simp add: Let_def)
    have nth: "swap xs i ?c ! j = (if j = ?c then xs ! i else if j = i then xs ! ?c else xs ! j)" if "j < n" for j
      using that c less.prems(2) by (intro swap_nth) auto
    show ?thesis unfolding step
    proof (rule less.hyps)
      fix j assume j: "0 < j" "j < n" "k \<le> parent j" "parent j \<noteq> ?c"
      have pj: "parent j < n" using parent_less [OF j(1)] j(2) by simp
      consider "j = ?c" | "j \<noteq> ?c" "parent j = i" | "j = i" | "j \<noteq> ?c" "j \<noteq> i" "parent j \<noteq> i" by blast
      then show "\<not> lt (swap xs i ?c ! j) (swap xs i ?c ! parent j)"
      proof cases
        case 1
        then show ?thesis using c lt lt_asym by (simp add: nth)
      next
        case 2
        then show ?thesis using heap_child_least [OF j(1) 2(2) j(2)] j(2) c parent_less [OF j(1)] less.prems(1)
          by (simp add: nth)
      next
        case 3
        then show ?thesis using less.prems(5) [of ?c] c j parent_less [OF j(1)] pj by (simp add: nth)
      next
        case 4
        then show ?thesis using less.prems(4) [OF j(1-3)] j pj by (simp add: nth)
      qed
    next
      fix j assume j: "0 < j" "j < n" "parent j = ?c" "0 < ?c" "k \<le> parent ?c"
      then show "\<not> lt (swap xs i ?c ! j) (swap xs i ?c ! parent ?c)"
        using less.prems(4) [of j] c less.prems(1,3) parent_less [OF j(1)] by (simp add: nth)
    qed (use c less.prems in \<open>auto simp: diff_less_mono2\<close>)
  qed
qed

lemma heap_up_order:
  assumes "j < length xs"
    and "\<And>m. 0 < m \<Longrightarrow> m < length xs \<Longrightarrow> m \<noteq> j \<Longrightarrow> \<not> lt (xs ! m) (xs ! parent m)"
    and "\<And>m. 0 < m \<Longrightarrow> m < length xs \<Longrightarrow> parent m = j \<Longrightarrow> 0 < j \<Longrightarrow> \<not> lt (xs ! m) (xs ! parent j)"
  shows "is_heap lt (heap_up lt xs j)"
  using assms
proof (induction j arbitrary: xs rule: less_induct)
  case (less j)
  have len: "length (heap_up lt xs j) = length xs" using heap_up_mset [OF less.prems(1)] by blast
  show ?case
  proof (cases "parent j = j \<or> \<not> lt (xs ! j) (xs ! parent j)")
    case True
    then have "heap_up lt xs j = xs" by (subst heap_up.simps) (simp add: Let_def parent_def)
    moreover have "\<not> lt (xs ! m) (xs ! parent m)" if "0 < m" "m < length xs" for m
      using True that less.prems(2) parent_less [OF that(1)] by (cases "m = j") auto
    ultimately show ?thesis by (simp add: heap_from_def)
  next
    case False
    then have j: "0 < j" and lt: "lt (xs ! j) (xs ! parent j)" by (auto simp: parent_def intro: Suc_leI)
    have pj: "parent j < j" by (rule parent_less [OF j])
    have step: "heap_up lt xs j = heap_up lt (swap xs (parent j) j) (parent j)"
      using False by (subst heap_up.simps) (simp add: Let_def parent_def)
    have nth: "swap xs (parent j) j ! m = (if m = j then xs ! parent j else if m = parent j then xs ! j else xs ! m)"
      if "m < length xs" for m
      using that pj less.prems(1) by (intro swap_nth) auto
    have sib: "\<not> lt (xs ! m) (xs ! j)" if "0 < m" "m < length xs" "m \<noteq> j" "parent m = parent j" for m
      using less.prems(2) [OF that(1-3)] lt_asym [OF lt] that(4) not_lt_trans by metis
    show ?thesis unfolding step
    proof (rule less.IH [OF pj])
      fix m assume m: "0 < m" "m < length (swap xs (parent j) j)" "m \<noteq> parent j"
      have pm: "parent m < m" by (rule parent_less [OF m(1)])
      consider "m = j" | "m \<noteq> j" "parent m = parent j" | "parent m = j" | "m \<noteq> j" "parent m \<noteq> parent j" "parent m \<noteq> j" by blast
      then show "\<not> lt (swap xs (parent j) j ! m) (swap xs (parent j) j ! parent m)"
      proof cases
        case 1
        then show ?thesis using lt_asym [OF lt] m pm pj by (simp add: nth)
      next
        case 2
        then show ?thesis using sib m pm pj by (simp add: nth)
      next
        case 3
        then show ?thesis using less.prems(3) [of m] m pm pj j by (simp add: nth)
      next
        case 4
        then show ?thesis using less.prems(2) [of m] m pm by (simp add: nth)
      qed
    next
      fix m assume m: "0 < m" "m < length (swap xs (parent j) j)" "parent m = parent j" "0 < parent j"
      have pp: "parent (parent j) < parent j" by (rule parent_less [OF m(4)])
      have i: "\<not> lt (xs ! parent j) (xs ! parent (parent j))"
        using less.prems(2) [of "parent j"] m(4) pj less.prems(1) by simp
      have "\<not> lt (xs ! m) (xs ! parent (parent j))" if "m \<noteq> j"
        using less.prems(2) [of m] m that i not_lt_trans by (metis length_swap)
      then show "\<not> lt (swap xs (parent j) j ! m) (swap xs (parent j) j ! parent (parent j))"
        using i m pp pj less.prems(1) parent_less [OF m(1)] by (auto simp: nth)
    qed (use pj less.prems(1) in simp)
  qed
qed

lemma is_heap_root: "is_heap lt xs \<Longrightarrow> j < length xs \<Longrightarrow> \<not> lt (xs ! j) (xs ! 0)"
proof (induction j rule: less_induct)
  case (less j)
  show ?case
  proof (cases "j = 0")
    case True
    then show ?thesis using lt_asym by blast
  next
    case False
    then have "parent j < j" "\<not> lt (xs ! j) (xs ! parent j)"
      using less.prems parent_less [of j] by (auto simp: heap_from_def)
    moreover have "\<not> lt (xs ! parent j) (xs ! 0)" using less calculation(1) by simp
    ultimately show ?thesis using not_lt_trans by blast
  qed
qed

lemma heap_Init_steps:
  assumes "heap_from lt m (length xs) ys" "mset ys = mset xs" "m \<le> length xs div 2"
  shows "let zs = foldl (\<lambda>ys i. heap_down lt ys i (length xs)) ys (rev [0..<m])
         in heap_from lt 0 (length xs) zs \<and> mset zs = mset xs"
  using assms
proof (induction m arbitrary: ys)
  case (Suc m)
  have len: "length ys = length xs" using Suc.prems(2) by (rule mset_eq_length)
  have m: "m < length xs" using Suc.prems(3) by linarith
  have "heap_from lt m (length xs) (heap_down lt ys m (length xs))"
  proof (rule heap_down_order)
    fix j assume "0 < j" "j < length xs" "m \<le> parent j" "parent j \<noteq> m"
    then show "\<not> lt (ys ! j) (ys ! parent j)" using Suc.prems(1) by (simp add: heap_from_def)
  next
    fix j assume "0 < m" "m \<le> parent m"
    then show "\<not> lt (ys ! j) (ys ! parent m)" using parent_less [of m] by simp
  qed (use m len in simp_all)
  moreover have "mset (heap_down lt ys m (length xs)) = mset xs"
    using heap_down_mset [of m "length xs" ys lt] m len Suc.prems(2) by simp
  ultimately show ?case using Suc.IH Suc.prems(3) by simp
qed (simp add: Let_def)

lemma heap_Init_ok: "is_heap lt (heap_Init lt xs)" "mset (heap_Init lt xs) = mset xs"
proof -
  have "heap_from lt (length xs div 2) (length xs) xs"
  proof (unfold heap_from_def, intro allI impI)
    fix j assume "0 < j" "j < length xs" "length xs div 2 \<le> parent j"
    then have False unfolding parent_def by linarith
    then show "\<not> lt (xs ! j) (xs ! parent j)" ..
  qed
  from heap_Init_steps [OF this]
  have "heap_from lt 0 (length xs) (heap_Init lt xs) \<and> mset (heap_Init lt xs) = mset xs"
    by (simp add: heap_Init_def Let_def)
  then show "is_heap lt (heap_Init lt xs)" "mset (heap_Init lt xs) = mset xs"
    by (simp_all add: mset_eq_length [of "heap_Init lt xs" xs])
qed

lemma heap_Push_ok:
  assumes "is_heap lt xs"
  shows "is_heap lt (heap_Push lt xs x)" "mset (heap_Push lt xs x) = add_mset x (mset xs)"
proof -
  show "is_heap lt (heap_Push lt xs x)" unfolding heap_Push_def
  proof (rule heap_up_order)
    fix m assume m: "0 < m" "m < length (xs @ [x])" "m \<noteq> length xs"
    then have "m < length xs" "parent m < length xs" using parent_less [of m] by auto
    then show "\<not> lt ((xs @ [x]) ! m) ((xs @ [x]) ! parent m)"
      using assms m by (simp add: heap_from_def nth_append)
  next
    fix m assume "0 < m" "m < length (xs @ [x])" "parent m = length xs"
    then show "\<not> lt ((xs @ [x]) ! m) ((xs @ [x]) ! parent (length xs))" using parent_less [of m] by simp
  qed simp
  show "mset (heap_Push lt xs x) = add_mset x (mset xs)"
    using heap_up_mset [of "length xs" "xs @ [x]" lt] by (simp add: heap_Push_def)
qed

lemma heap_Pop_ok:
  assumes "is_heap lt xs" "xs \<noteq> []" "heap_Pop lt xs = (x0, rest)"
  shows "is_heap lt rest" "mset xs = add_mset x0 (mset rest)" "x0 = xs ! 0"
    "\<And>y. y \<in> set xs \<Longrightarrow> \<not> lt y x0"
proof -
  define n where "n = length xs - 1"
  define ys where "ys = heap_down lt (swap xs 0 n) 0 n"
  have n: "n < length xs" "length xs = Suc n" using assms(2) by (simp_all add: n_def)
  have "mset ys = mset xs \<and> length ys = length xs \<and> ys ! n = xs ! 0 \<and> heap_from lt 0 n ys"
  proof (cases "n = 0")
    case True
    then have "ys = swap xs 0 0" unfolding ys_def by (subst heap_down.simps) simp
    moreover have "swap xs 0 0 = xs" by (simp add: swap_def)
    ultimately show ?thesis
      using True by (simp add: heap_from_def)
  next
    case False
    have "heap_from lt 0 n ys" unfolding ys_def
    proof (rule heap_down_order)
      fix j assume j: "0 < j" "j < n" "parent j \<noteq> 0"
      then have "swap xs 0 n ! j = xs ! j" "swap xs 0 n ! parent j = xs ! parent j"
        using n parent_less [of j] by (simp_all add: swap_nth)
      then show "\<not> lt (swap xs 0 n ! j) (swap xs 0 n ! parent j)"
        using assms(1) j n by (simp add: heap_from_def)
    qed (use False n in simp_all)
    moreover have "mset ys = mset (swap xs 0 n)" "length ys = length xs" "ys ! n = swap xs 0 n ! n"
      using heap_down_mset [of 0 n "swap xs 0 n" lt] False n by (simp_all add: ys_def)
    ultimately show ?thesis
      using n False by (simp add: mset_swap_eq swap_nth)
  qed
  then have ys: "mset ys = mset xs" "length ys = length xs" "ys ! n = xs ! 0" "heap_from lt 0 n ys" by auto
  have res: "x0 = ys ! n" "rest = take n ys"
    using assms(3) by (auto simp: heap_Pop_def Let_def n_def ys_def)
  show "x0 = xs ! 0" using res ys(3) by simp
  have "ys = take n ys @ [ys ! n]" using ys(2) n by (metis take_Suc_conv_app_nth take_all lessI order_refl)
  then have "mset ys = mset (take n ys @ [ys ! n])" by simp
  then have "mset ys = add_mset x0 (mset rest)" by (simp add: res)
  then show "mset xs = add_mset x0 (mset rest)" using ys(1) by simp
  have "parent j < n" if "0 < j" "j < n" for j using parent_less [OF that(1)] that(2) by simp
  then show "is_heap lt rest" using ys(2,4) n unfolding res heap_from_def by simp
  fix y assume "y \<in> set xs"
  then obtain j where "j < length xs" "y = xs ! j" by (auto simp: in_set_conv_nth)
  then show "\<not> lt y x0" using is_heap_root [OF assms(1)] \<open>x0 = xs ! 0\<close> by simp
qed

end

end
