(* ===== verification/Iterator.thy ===== *)
theory Iterator
  imports Mvcc GoHeap
begin

text \<open>
  The merging iterators, \<open>src/iterator/iterator.go\<close>.  A source iterator is the list of entries it
  has still to yield: \<open>Valid\<close> is that it is not empty, the accessors read its head and \<open>Next\<close>
  drops it.  The heap is the array \<open>container/heap\<close> maintains.
\<close>

section \<open>The two heaps\<close>

record heapItem =
  hi_entry :: entry
  hi_rest :: "entry list"
  hi_priority :: int

definition item_less :: "heapItem \<Rightarrow> heapItem \<Rightarrow> bool" where
  "item_less a b =
     (let cmp = bytes_compare (e_key (hi_entry a)) (e_key (hi_entry b))
      in if cmp \<noteq> 0 then cmp < 0
         else if e_version (hi_entry a) \<noteq> e_version (hi_entry b)
         then e_version (hi_entry a) > e_version (hi_entry b)
         else hi_priority a > hi_priority b)"

text \<open>\<open>versionedHeapItem\<close> has no priority; its order is the one of \<open>versionedItemHeap.Less\<close>.\<close>

record versionedHeapItem =
  vi_entry :: entry
  vi_rest :: "entry list"

definition versioned_less :: "versionedHeapItem \<Rightarrow> versionedHeapItem \<Rightarrow> bool" where
  "versioned_less a b =
     (let cmp = bytes_compare (e_key (vi_entry a)) (e_key (vi_entry b))
      in if cmp \<noteq> 0 then cmp < 0 else e_version (vi_entry a) > e_version (vi_entry b))"

section \<open>\<open>MergedVersionIterator\<close>\<close>

definition versioned_items :: "entry list list \<Rightarrow> versionedHeapItem list" where
  "versioned_items iters = concat (map (\<lambda>it. case it of [] \<Rightarrow> [] | e # es \<Rightarrow> [\<lparr>vi_entry = e, vi_rest = es\<rparr>]) iters)"

text \<open>\<open>Next\<close>: the current entry becomes the top of the heap, and its source goes back if it has more;
  \<open>None\<close> when the heap is empty.\<close>

definition mv_Next :: "versionedHeapItem list \<Rightarrow> (entry \<times> versionedHeapItem list) option" where
  "mv_Next h =
     (if h = [] then None
      else (let (it, h1) = heap_Pop versioned_less h
            in Some (vi_entry it,
                 case vi_rest it of [] \<Rightarrow> h1
                 | e # es \<Rightarrow> heap_Push versioned_less h1 \<lparr>vi_entry = e, vi_rest = es\<rparr>)))"

definition NewMergedVersionIterator :: "entry list list \<Rightarrow> (entry \<times> versionedHeapItem list) option" where
  "NewMergedVersionIterator iters = mv_Next (heap_Init versioned_less (versioned_items iters))"

text \<open>A consumer's loop \<open>for it.Valid() { ... it.Next() }\<close>, with fuel.\<close>

fun mv_drain :: "nat \<Rightarrow> (entry \<times> versionedHeapItem list) option \<Rightarrow> entry list option" where
  "mv_drain 0 c = None"
| "mv_drain (Suc fuel) c =
     (case c of None \<Rightarrow> Some [] | Some (e, h) \<Rightarrow> map_option (Cons e) (mv_drain fuel (mv_Next h)))"

section \<open>\<open>MergedIterator\<close>\<close>

fun priority_at :: "int list option \<Rightarrow> nat \<Rightarrow> int" where
  "priority_at None i = 0"
| "priority_at (Some ps) i = (if i < length ps then ps ! i else 0)"

definition merged_items :: "entry list list \<Rightarrow> int list option \<Rightarrow> heapItem list" where
  "merged_items iters ps =
     concat (map (\<lambda>(i, it). case it of [] \<Rightarrow> []
       | e # es \<Rightarrow> [\<lparr>hi_entry = e, hi_rest = es, hi_priority = priority_at ps i\<rparr>]) (enumerate 0 iters))"

definition refill :: "heapItem \<Rightarrow> heapItem list \<Rightarrow> heapItem list" where
  "refill it h =
     (case hi_rest it of [] \<Rightarrow> h
      | e # es \<Rightarrow> heap_Push item_less h (it\<lparr>hi_entry := e, hi_rest := es\<rparr>))"

text \<open>The loop that drops the further entries of the current key; the second result lists the values
  passed to \<open>onDiscard\<close>.  It runs on fuel.\<close>

fun dedupe :: "nat \<Rightarrow> bytes \<Rightarrow> entry \<Rightarrow> bytes list \<Rightarrow> heapItem list \<Rightarrow> (entry \<times> bytes list \<times> heapItem list) option" where
  "dedupe 0 key cur disc h = None"
| "dedupe (Suc fuel) key cur disc h =
     (if h = [] then Some (cur, disc, h)
      else if e_key (hi_entry (h ! 0)) \<noteq> key then Some (cur, disc, h)
      else (let (dup, h1) = heap_Pop item_less h; h2 = refill dup h1
            in if e_version (hi_entry dup) > e_version cur
               then dedupe fuel key ((hi_entry dup)\<lparr>e_key := key\<rparr>) (disc @ [e_value cur]) h2
               else dedupe fuel key cur (disc @ [e_value (hi_entry dup)]) h2))"

definition heap_size :: "heapItem list \<Rightarrow> nat" where
  "heap_size h = sum_list (map (\<lambda>it. Suc (length (hi_rest it))) h)"

datatype 'a next_result = Exhausted | Item 'a

definition mi_Next :: "heapItem list \<Rightarrow> (entry \<times> bytes list \<times> heapItem list) next_result option" where
  "mi_Next h =
     (if h = [] then Some Exhausted
      else (let (it, h1) = heap_Pop item_less h; h2 = refill it h1
            in map_option Item (dedupe (Suc (heap_size h)) (e_key (hi_entry it)) (hi_entry it) [] h2)))"

definition NewMergedIterator :: "entry list list \<Rightarrow> int list option \<Rightarrow> (entry \<times> bytes list \<times> heapItem list) next_result option" where
  "NewMergedIterator iters ps = mi_Next (heap_Init item_less (merged_items iters ps))"

fun mi_drain :: "nat \<Rightarrow> (entry \<times> bytes list \<times> heapItem list) next_result option \<Rightarrow> (entry list \<times> bytes list) option" where
  "mi_drain 0 c = None"
| "mi_drain (Suc fuel) c =
     (case c of
        None \<Rightarrow> None
      | Some Exhausted \<Rightarrow> Some ([], [])
      | Some (Item (e, disc, h)) \<Rightarrow> map_option (\<lambda>(es, ds). (e # es, disc @ ds)) (mi_drain fuel (mi_Next h)))"

section \<open>Merging sorted sources through a heap\<close>

definition pending :: "('s \<Rightarrow> entry list) \<Rightarrow> 's list \<Rightarrow> entry multiset" where
  "pending src h = mset (concat (map src h))"

lemma pending_mset: "pending src h = \<Sum>\<^sub># (image_mset (mset \<circ> src) (mset h))"
  unfolding pending_def by (induction h) auto

text \<open>What a merge asks of its heap items: the heap order agrees with the order of the sources on
  the heads.\<close>

locale source_merge = go_heap lt for lt :: "'s \<Rightarrow> 's \<Rightarrow> bool" +
  fixes src :: "'s \<Rightarrow> entry list" and ord :: "entry \<Rightarrow> entry \<Rightarrow> bool"
  assumes src_nonempty: "src s \<noteq> []"
    and head_ord: "\<not> lt b a \<Longrightarrow> ord (hd (src a)) (hd (src b))"
    and ord_refl: "ord e e"
    and ord_trans: "ord e e' \<Longrightarrow> ord e' e'' \<Longrightarrow> ord e e''"
begin

definition sources_ok :: "'s list \<Rightarrow> bool" where
  "sources_ok h \<longleftrightarrow> is_heap lt h \<and> (\<forall>s \<in> set h. sorted_wrt ord (src s))"

lemma head_least: "sorted_wrt ord (src s) \<Longrightarrow> e \<in> set (src s) \<Longrightarrow> ord (hd (src s)) e"
  using src_nonempty [of s] ord_refl by (cases "src s") auto

lemma root_least:
  assumes "sources_ok h" "e \<in># pending src h"
  shows "ord (hd (src (h ! 0))) e"
proof -
  obtain s where s: "s \<in> set h" "e \<in> set (src s)" using assms(2) by (auto simp: pending_def)
  then obtain j where "j < length h" "h ! j = s" by (metis in_set_conv_nth)
  then have "\<not> lt s (h ! 0)" using is_heap_root assms(1) unfolding sources_ok_def by blast
  then show ?thesis using head_ord head_least s assms(1) ord_trans unfolding sources_ok_def by blast
qed

lemma pop_source:
  assumes ok: "sources_ok h" and ne: "h \<noteq> []" and pop: "heap_Pop lt h = (s, h1)"
  shows "sources_ok h1" "pending src h = mset (src s) + pending src h1" "sorted_wrt ord (src s)" "s = h ! 0"
proof -
  have heap: "is_heap lt h" using ok by (simp add: sources_ok_def)
  note facts = heap_Pop_ok [OF heap ne pop]
  have "set h = insert s (set h1)" using facts(2) by (metis set_mset_add_mset_insert set_mset_mset)
  then show "sources_ok h1" "sorted_wrt ord (src s)" using ok facts(1) by (auto simp: sources_ok_def)
  show "pending src h = mset (src s) + pending src h1" "s = h ! 0"
    using facts(2,3) by (simp_all add: pending_mset)
qed

lemma push_source:
  assumes "sources_ok h" "sorted_wrt ord (src s)"
  shows "sources_ok (heap_Push lt h s)" "pending src (heap_Push lt h s) = mset (src s) + pending src h"
proof -
  have heap: "is_heap lt h" using assms(1) by (simp add: sources_ok_def)
  note facts = heap_Push_ok [OF heap, of s]
  have "set (heap_Push lt h s) = insert s (set h)"
    using facts(2) by (metis set_mset_add_mset_insert set_mset_mset)
  then show "sources_ok (heap_Push lt h s)" using assms facts(1) by (auto simp: sources_ok_def)
  show "pending src (heap_Push lt h s) = mset (src s) + pending src h"
    using facts(2) by (simp add: pending_mset)
qed

lemma init_source:
  assumes "\<forall>s \<in> set h. sorted_wrt ord (src s)"
  shows "sources_ok (heap_Init lt h)" "pending src (heap_Init lt h) = pending src h"
proof -
  have "set (heap_Init lt h) = set h" using heap_Init_ok(2) by (metis set_mset_mset)
  then show "sources_ok (heap_Init lt h)" using assms heap_Init_ok(1) by (auto simp: sources_ok_def)
  show "pending src (heap_Init lt h) = pending src h" using heap_Init_ok(2) by (simp add: pending_mset)
qed

lemma pending_Nil_iff: "pending src h = {#} \<longleftrightarrow> h = []"
  using src_nonempty by (cases h) (auto simp: pending_def)

end

definition key_ord :: "entry \<Rightarrow> entry \<Rightarrow> bool" where
  "key_ord a b \<longleftrightarrow> e_key a \<le> e_key b"

definition version_ord :: "entry \<Rightarrow> entry \<Rightarrow> bool" where
  "version_ord a b \<longleftrightarrow> e_key a < e_key b \<or> e_key a = e_key b \<and> e_version b \<le> e_version a"

definition hi_list :: "heapItem \<Rightarrow> entry list" where
  "hi_list it = hi_entry it # hi_rest it"

definition vi_list :: "versionedHeapItem \<Rightarrow> entry list" where
  "vi_list it = vi_entry it # vi_rest it"

lemma item_less_iff:
  "item_less a b \<longleftrightarrow> e_key (hi_entry a) < e_key (hi_entry b) \<or>
     e_key (hi_entry a) = e_key (hi_entry b) \<and>
       (e_version (hi_entry b) < e_version (hi_entry a) \<or>
        e_version (hi_entry a) = e_version (hi_entry b) \<and> hi_priority b < hi_priority a)"
  by (auto simp: item_less_def Let_def)

lemma versioned_less_iff: "versioned_less a b \<longleftrightarrow> \<not> version_ord (vi_entry b) (vi_entry a)"
  by (auto simp: versioned_less_def version_ord_def Let_def)

interpretation items: source_merge item_less hi_list key_ord
  by unfold_locales (auto simp: item_less_iff key_ord_def hi_list_def)

interpretation versions: source_merge versioned_less vi_list version_ord
  by unfold_locales (auto simp: versioned_less_iff version_ord_def vi_list_def)

section \<open>All versions\<close>

lemma mv_Next_spec:
  assumes ok: "versions.sources_ok h" and nx: "mv_Next h = Some (e, h')"
  shows "versions.sources_ok h'" "pending vi_list h = add_mset e (pending vi_list h')"
    "e' \<in># pending vi_list h \<Longrightarrow> version_ord e e'"
proof -
  have ne: "h \<noteq> []" using nx by (auto simp: mv_Next_def)
  obtain it h1 where pop: "heap_Pop versioned_less h = (it, h1)" by fastforce
  note facts = versions.pop_source [OF ok ne pop]
  have e: "e = vi_entry it" using nx ne pop by (simp add: mv_Next_def)
  have "versions.sources_ok h' \<and> pending vi_list h' = mset (vi_rest it) + pending vi_list h1"
  proof (cases "vi_rest it")
    case Nil
    then show ?thesis using nx ne pop facts by (simp add: mv_Next_def)
  next
    case (Cons a es)
    let ?s = "\<lparr>vi_entry = a, vi_rest = es\<rparr>"
    have "sorted_wrt version_ord (vi_list ?s)" using facts(3) Cons by (simp add: vi_list_def)
    moreover have "h' = heap_Push versioned_less h1 ?s" using nx ne pop Cons by (simp add: mv_Next_def)
    ultimately show ?thesis using versions.push_source [OF facts(1), of ?s] Cons by (simp add: vi_list_def)
  qed
  then show "versions.sources_ok h'" "pending vi_list h = add_mset e (pending vi_list h')"
    using facts(2) e by (simp_all add: vi_list_def)
  show "e' \<in># pending vi_list h \<Longrightarrow> version_ord e e'"
    using versions.root_least [OF ok] facts(4) e by (simp add: vi_list_def)
qed

lemma mv_Next_None: "mv_Next h = None \<longleftrightarrow> h = []"
  by (simp add: mv_Next_def split: prod.split)

lemma mv_drain_spec:
  assumes "versions.sources_ok h" "size (pending vi_list h) < fuel"
  shows "\<exists>es. mv_drain fuel (mv_Next h) = Some es \<and> mset es = pending vi_list h \<and> sorted_wrt version_ord es"
  using assms
proof (induction fuel arbitrary: h)
  case 0
  then show ?case by simp
next
  case (Suc fuel)
  show ?case
  proof (cases "mv_Next h")
    case None
    then have "h = []" by (simp only: mv_Next_None)
    then show ?thesis using None by (simp add: pending_def)
  next
    case (Some p)
    obtain e h' where p: "p = (e, h')" by force
    note nx = mv_Next_spec [OF Suc.prems(1), of e h', unfolded Some p, OF refl]
    have "size (pending vi_list h') < fuel" using Suc.prems(2) nx(2) by simp
    then obtain es where es: "mv_drain fuel (mv_Next h') = Some es" "mset es = pending vi_list h'"
      "sorted_wrt version_ord es"
      using Suc.IH [OF nx(1)] by blast
    have "\<forall>x \<in> set es. version_ord e x"
      using nx(2,3) es(2) by (metis set_mset_mset union_iff add_mset_add_single)
    then show ?thesis using es Some p nx(2) by simp
  qed
qed

lemma pending_versioned_items: "pending vi_list (versioned_items iters) = mset (concat iters)"
  unfolding pending_def versioned_items_def
  by (induction iters) (auto simp: vi_list_def split: list.split)

lemma versioned_items_sorted:
  "\<forall>it \<in> set iters. sorted_wrt version_ord it \<Longrightarrow>
     \<forall>s \<in> set (versioned_items iters). sorted_wrt version_ord (vi_list s)"
  by (auto simp: versioned_items_def vi_list_def split: list.splits)

lemma merged_versions_drain:
  assumes "\<forall>it \<in> set iters. sorted_wrt version_ord it" and "length (concat iters) < fuel"
  shows "\<exists>es. mv_drain fuel (NewMergedVersionIterator iters) = Some es \<and>
           mset es = mset (concat iters) \<and> sorted_wrt version_ord es"
proof -
  note init = versions.init_source [OF versioned_items_sorted [OF assms(1)]]
  have "size (pending vi_list (heap_Init versioned_less (versioned_items iters))) < fuel"
    using init(2) assms(2) by (simp only: pending_versioned_items size_mset)
  from mv_drain_spec [OF init(1) this] show ?thesis
    by (simp only: init(2) pending_versioned_items NewMergedVersionIterator_def)
qed

text \<open>C7: A \<open>MergedVersionIterator\<close> over sources that are each ordered by key ascending and version
  descending yields exactly the entries of all sources, duplicates included, in that same order, and
  then ends.\<close>

theorem merged_versions_complete:
  assumes "\<forall>it \<in> set iters. sorted_wrt version_ord it" and "length (concat iters) < fuel"
  shows "\<exists>es. mv_drain fuel (NewMergedVersionIterator iters) = Some es \<and>
           mset es = mset (concat iters) \<and> sorted_wrt version_ord es"
  using assms by (rule merged_versions_drain)

theorem merged_versions_complete_witness:
  "\<exists>es. mv_drain 4 (NewMergedVersionIterator
        [[\<lparr>e_key = [1], e_value = [], e_deleted = False, e_expiresAt = 0, e_version = 7\<rparr>,
          \<lparr>e_key = [1], e_value = [], e_deleted = False, e_expiresAt = 0, e_version = 3\<rparr>],
         [\<lparr>e_key = [1], e_value = [9], e_deleted = True, e_expiresAt = 0, e_version = 5\<rparr>]]) = Some es \<and>
     mset es = mset (concat
        [[\<lparr>e_key = [1], e_value = [], e_deleted = False, e_expiresAt = 0, e_version = 7\<rparr>,
          \<lparr>e_key = [1], e_value = [], e_deleted = False, e_expiresAt = 0, e_version = 3\<rparr>],
         [\<lparr>e_key = [1], e_value = [9], e_deleted = True, e_expiresAt = 0, e_version = 5\<rparr>]]) \<and>
     sorted_wrt version_ord es"
  by (rule merged_versions_complete) (simp_all add: version_ord_def)

section \<open>One entry per key\<close>

lemma refill_spec:
  assumes "items.sources_ok h" "sorted_wrt key_ord (hi_list it)"
  shows "items.sources_ok (refill it h)" "pending hi_list (refill it h) = mset (hi_rest it) + pending hi_list h"
proof -
  have "items.sources_ok (refill it h) \<and> pending hi_list (refill it h) = mset (hi_rest it) + pending hi_list h"
  proof (cases "hi_rest it")
    case Nil
    then show ?thesis using assms by (simp add: refill_def)
  next
    case (Cons a es)
    then show ?thesis
      using assms items.push_source [OF assms(1), of "it\<lparr>hi_entry := a, hi_rest := es\<rparr>"]
      by (simp add: refill_def hi_list_def)
  qed
  then show "items.sources_ok (refill it h)" "pending hi_list (refill it h) = mset (hi_rest it) + pending hi_list h"
    by auto
qed

lemma pop_refill:
  assumes "items.sources_ok h" "h \<noteq> []" "heap_Pop item_less h = (it, h1)"
  shows "items.sources_ok (refill it h1)"
    "pending hi_list h = add_mset (hi_entry it) (pending hi_list (refill it h1))"
    "e \<in># pending hi_list h \<Longrightarrow> e_key (hi_entry it) \<le> e_key e" "it = h ! 0"
proof -
  note facts = items.pop_source [OF assms]
  note refill = refill_spec [OF facts(1,3)]
  show "items.sources_ok (refill it h1)" by (rule refill(1))
  show "pending hi_list h = add_mset (hi_entry it) (pending hi_list (refill it h1))"
    using facts(2) refill(2) by (simp add: hi_list_def)
  show "e \<in># pending hi_list h \<Longrightarrow> e_key (hi_entry it) \<le> e_key e"
    using items.root_least [OF assms(1)] facts(4) by (simp add: hi_list_def key_ord_def)
  show "it = h ! 0" by (rule facts(4))
qed

text \<open>The entries a round of the merge takes: the current one and all that share its key.\<close>

definition same_key :: "bytes \<Rightarrow> entry multiset \<Rightarrow> entry multiset" where
  "same_key k = filter_mset (\<lambda>e. e_key e = k)"

definition other_key :: "bytes \<Rightarrow> entry multiset \<Rightarrow> entry multiset" where
  "other_key k = filter_mset (\<lambda>e. e_key e \<noteq> k)"

definition best_among :: "entry \<Rightarrow> entry multiset \<Rightarrow> bool" where
  "best_among e M \<longleftrightarrow> e \<in># M \<and> (\<forall>e' \<in># M. e_version e' \<le> e_version e)"

lemma dedupe_spec:
  assumes "items.sources_ok h" "size (pending hi_list h) < fuel" "e_key cur = key"
    "\<forall>e \<in># pending hi_list h. key \<le> e_key e" "best_among cur (add_mset cur M)"
  shows "\<exists>cur' disc' h'. dedupe fuel key cur disc h = Some (cur', disc @ disc', h') \<and> items.sources_ok h' \<and>
           pending hi_list h' = other_key key (pending hi_list h) \<and> e_key cur' = key \<and>
           best_among cur' (add_mset cur M + same_key key (pending hi_list h)) \<and>
           add_mset (e_value cur') (mset disc') =
             add_mset (e_value cur) (image_mset e_value (same_key key (pending hi_list h)))"
  using assms
proof (induction fuel arbitrary: cur disc h M)
  case 0
  then show ?case by simp
next
  case (Suc fuel)
  let ?P = "pending hi_list h"
  show ?case
  proof (cases "h = [] \<or> e_key (hi_entry (h ! 0)) \<noteq> key")
    case True
    have "e_key e \<noteq> key" if "e \<in># ?P" for e
    proof -
      have ne: "h \<noteq> []" using that by (auto simp: pending_def)
      have "e_key (hi_entry (h ! 0)) \<le> e_key e"
        using items.root_least [OF Suc.prems(1) that] by (simp add: hi_list_def key_ord_def)
      moreover have "hi_entry (h ! 0) \<in># ?P"
        using ne by (auto simp: pending_def hi_list_def intro!: bexI [of _ "h ! 0"])
      ultimately show ?thesis using True ne Suc.prems(4) by fastforce
    qed
    then have "other_key key ?P = ?P" "same_key key ?P = {#}"
      by (auto simp: other_key_def same_key_def multiset_eq_iff count_eq_zero_iff)
    then show ?thesis using True Suc.prems by auto
  next
    case False
    obtain dup h1 where pop: "heap_Pop item_less h = (dup, h1)" by fastforce
    let ?h2 = "refill dup h1"
    note pr = pop_refill [OF Suc.prems(1) _ pop]
    have ne: "h \<noteq> []" and dk: "e_key (hi_entry dup) = key" using False pr(4) by auto
    have P: "?P = add_mset (hi_entry dup) (pending hi_list ?h2)" using pr(2) ne by blast
    have same: "same_key key ?P = add_mset (hi_entry dup) (same_key key (pending hi_list ?h2))"
      and other: "other_key key ?P = other_key key (pending hi_list ?h2)"
      using dk by (simp_all add: P same_key_def other_key_def)
    have sz: "size (pending hi_list ?h2) < fuel" using Suc.prems(2) P by simp
    have ge: "\<forall>e \<in># pending hi_list ?h2. key \<le> e_key e" using Suc.prems(4) P by simp
    have upd: "(hi_entry dup)\<lparr>e_key := key\<rparr> = hi_entry dup" using dk by simp
    show ?thesis
    proof (cases "e_version (hi_entry dup) > e_version cur")
      case True
      have "best_among (hi_entry dup) (add_mset (hi_entry dup) (add_mset cur M))"
        using True Suc.prems(5) by (fastforce simp: best_among_def)
      from Suc.IH [OF pr(1) [OF ne] sz dk ge this, of "disc @ [e_value cur]"]
      obtain cur' disc' h' where r: "dedupe fuel key (hi_entry dup) (disc @ [e_value cur]) ?h2 = Some (cur', disc @ e_value cur # disc', h')"
        "items.sources_ok h'" "pending hi_list h' = other_key key (pending hi_list ?h2)" "e_key cur' = key"
        "best_among cur' (add_mset (hi_entry dup) (add_mset cur M) + same_key key (pending hi_list ?h2))"
        "add_mset (e_value cur') (mset disc') = add_mset (e_value (hi_entry dup)) (image_mset e_value (same_key key (pending hi_list ?h2)))"
        by auto
      have "dedupe (Suc fuel) key cur disc h = Some (cur', disc @ e_value cur # disc', h')"
        using False True pop upd r(1) by simp
      then show ?thesis using r(2-6) unfolding same other
        by (intro exI [of _ cur'] exI [of _ "e_value cur # disc'"] exI [of _ h'])
          (simp add: add_mset_commute)
    next
      case low: False
      have "best_among cur (add_mset cur (add_mset (hi_entry dup) M))"
        using low Suc.prems(5) by (fastforce simp: best_among_def)
      from Suc.IH [OF pr(1) [OF ne] sz Suc.prems(3) ge this, of "disc @ [e_value (hi_entry dup)]"]
      obtain cur' disc' h' where r: "dedupe fuel key cur (disc @ [e_value (hi_entry dup)]) ?h2 = Some (cur', disc @ e_value (hi_entry dup) # disc', h')"
        "items.sources_ok h'" "pending hi_list h' = other_key key (pending hi_list ?h2)" "e_key cur' = key"
        "best_among cur' (add_mset cur (add_mset (hi_entry dup) M) + same_key key (pending hi_list ?h2))"
        "add_mset (e_value cur') (mset disc') = add_mset (e_value cur) (image_mset e_value (same_key key (pending hi_list ?h2)))"
        by auto
      have "dedupe (Suc fuel) key cur disc h = Some (cur', disc @ e_value (hi_entry dup) # disc', h')"
        using False low pop r(1) by simp
      then show ?thesis using r(2-6) unfolding same other
        by (intro exI [of _ cur'] exI [of _ "e_value (hi_entry dup) # disc'"] exI [of _ h'])
          (simp add: add_mset_commute)
    qed
  qed
qed

lemma size_pending_items: "size (pending hi_list h) = heap_size h"
  unfolding pending_def heap_size_def by (induction h) (auto simp: hi_list_def)

lemma mi_Next_spec:
  assumes ok: "items.sources_ok h" and ne: "h \<noteq> []"
  shows "\<exists>e disc h'. mi_Next h = Some (Item (e, disc, h')) \<and> items.sources_ok h' \<and>
           pending hi_list h' = other_key (e_key e) (pending hi_list h) \<and>
           best_among e (same_key (e_key e) (pending hi_list h)) \<and>
           (\<forall>e' \<in># pending hi_list h. e_key e \<le> e_key e') \<and>
           add_mset (e_value e) (mset disc) = image_mset e_value (same_key (e_key e) (pending hi_list h))"
proof -
  obtain it h1 where pop: "heap_Pop item_less h = (it, h1)" by fastforce
  note pr = pop_refill [OF ok ne pop]
  let ?k = "e_key (hi_entry it)" and ?h2 = "refill it h1"
  have sz: "size (pending hi_list ?h2) < Suc (heap_size h)"
    using pr(2) size_pending_items [of h] by simp
  have ge: "\<forall>e \<in># pending hi_list ?h2. ?k \<le> e_key e" using pr(2,3) by simp
  have "best_among (hi_entry it) (add_mset (hi_entry it) {#})" by (simp add: best_among_def)
  from dedupe_spec [OF pr(1) sz refl ge this, of "[]"]
  obtain e disc h' where r: "dedupe (Suc (heap_size h)) ?k (hi_entry it) [] ?h2 = Some (e, disc, h')"
    "items.sources_ok h'" "pending hi_list h' = other_key ?k (pending hi_list ?h2)" "e_key e = ?k"
    "best_among e (add_mset (hi_entry it) {#} + same_key ?k (pending hi_list ?h2))"
    "add_mset (e_value e) (mset disc) =
       add_mset (e_value (hi_entry it)) (image_mset e_value (same_key ?k (pending hi_list ?h2)))"
    by auto
  have "mi_Next h = Some (Item (e, disc, h'))" using ne pop r(1) by (simp add: mi_Next_def del: dedupe.simps)
  moreover have "pending hi_list h' = other_key ?k (pending hi_list h)"
    "same_key ?k (pending hi_list h) = add_mset (hi_entry it) (same_key ?k (pending hi_list ?h2))"
    using r(3) pr(2) by (simp_all add: other_key_def same_key_def)
  ultimately show ?thesis using r(2,4-6) pr(3) by simp
qed

definition keys_of :: "entry multiset \<Rightarrow> bytes set" where
  "keys_of M = e_key ` set_mset M"

lemma same_other_split: "M = same_key k M + other_key k M"
  unfolding same_key_def other_key_def by (rule multiset_partition)

lemma same_key_other: "k' \<noteq> k \<Longrightarrow> same_key k' (other_key k M) = same_key k' M"
  unfolding same_key_def other_key_def by (auto simp: multiset_eq_iff)

lemma mi_drain_spec:
  assumes "items.sources_ok h" "size (pending hi_list h) < fuel"
  shows "\<exists>es ds. mi_drain fuel (mi_Next h) = Some (es, ds) \<and> sorted_wrt (<) (map e_key es) \<and>
           e_key ` set es = keys_of (pending hi_list h) \<and>
           (\<forall>e \<in> set es. best_among e (same_key (e_key e) (pending hi_list h))) \<and>
           mset (map e_value es) + mset ds = image_mset e_value (pending hi_list h)"
  using assms
proof (induction fuel arbitrary: h)
  case 0
  then show ?case by simp
next
  case (Suc fuel)
  let ?P = "pending hi_list h"
  show ?case
  proof (cases "h = []")
    case True
    then show ?thesis by (simp add: mi_Next_def pending_def keys_of_def)
  next
    case False
    obtain e disc h' where nx: "mi_Next h = Some (Item (e, disc, h'))" "items.sources_ok h'"
      "pending hi_list h' = other_key (e_key e) ?P" "best_among e (same_key (e_key e) ?P)"
      "\<forall>e' \<in># ?P. e_key e \<le> e_key e'"
      "add_mset (e_value e) (mset disc) = image_mset e_value (same_key (e_key e) ?P)"
      using mi_Next_spec [OF Suc.prems(1) False] by blast
    let ?P' = "pending hi_list h'"
    have e: "e \<in># ?P" "e \<in># same_key (e_key e) ?P" using nx(4) by (auto simp: best_among_def same_key_def)
    have split: "?P = same_key (e_key e) ?P + ?P'" using same_other_split nx(3) by metis
    have "size ?P = size (same_key (e_key e) ?P) + size ?P'" by (subst split) simp
    moreover have "0 < size (same_key (e_key e) ?P)" using e(2) by (metis empty_iff nonempty_has_size set_mset_empty)
    ultimately have "size ?P' < fuel" using Suc.prems(2) by linarith
    then obtain es ds where r: "mi_drain fuel (mi_Next h') = Some (es, ds)" "sorted_wrt (<) (map e_key es)"
      "e_key ` set es = keys_of ?P'" "\<forall>x \<in> set es. best_among x (same_key (e_key x) ?P')"
      "mset (map e_value es) + mset ds = image_mset e_value ?P'"
      using Suc.IH [OF nx(2)] by blast
    have later: "e_key e < k" if "k \<in> keys_of ?P'" for k
      using that nx(3,5) by (fastforce simp: keys_of_def other_key_def)
    have "\<forall>x \<in> set es. e_key e < e_key x" using later r(3) by blast
    then have "sorted_wrt (<) (map e_key (e # es))" using r(2) by simp
    moreover have "keys_of ?P = insert (e_key e) (keys_of ?P')"
      using e(1) nx(3) by (auto simp: keys_of_def other_key_def)
    then have "e_key ` set (e # es) = keys_of ?P" using r(3) by simp
    moreover have "best_among x (same_key (e_key x) ?P)" if "x \<in> set es" for x
      using r(4) that later r(3) same_key_other [of "e_key x" "e_key e" ?P] nx(3)
      by (metis imageI order_less_irrefl)
    then have "\<forall>x \<in> set (e # es). best_among x (same_key (e_key x) ?P)" using nx(4) by simp
    moreover have "mset (map e_value (e # es)) + mset (disc @ ds) =
        add_mset (e_value e) (mset disc) + (mset (map e_value es) + mset ds)" by simp
    then have "mset (map e_value (e # es)) + mset (disc @ ds) = image_mset e_value ?P"
      unfolding nx(6) r(5) by (metis image_mset_union split)
    ultimately show ?thesis using nx(1) r(1)
      by (intro exI [of _ "e # es"] exI [of _ "disc @ ds"]) simp
  qed
qed

lemma pending_merged_items: "pending hi_list (merged_items iters ps) = mset (concat iters)"
proof -
  have "mset (concat (map hi_list (concat (map (\<lambda>(i, it). case it of [] \<Rightarrow> []
       | e # es \<Rightarrow> [\<lparr>hi_entry = e, hi_rest = es, hi_priority = priority_at ps i\<rparr>]) (enumerate n iters))))) =
     mset (concat iters)" for n
    by (induction iters arbitrary: n) (auto simp: hi_list_def split: list.split)
  then show ?thesis unfolding pending_def merged_items_def by blast
qed

lemma merged_items_sorted:
  assumes "\<forall>it \<in> set iters. sorted_wrt key_ord it"
  shows "\<forall>s \<in> set (merged_items iters ps). sorted_wrt key_ord (hi_list s)"
  using assms set_zip_rightD
  by (fastforce simp: merged_items_def hi_list_def enumerate_eq_zip split: list.splits)

text \<open>C23: A \<open>MergedIterator\<close> over sources ordered by key yields every key of the sources exactly once,
  in strictly ascending order, each with an entry of the highest version any source holds for it; the
  values it yields and the values it hands to \<open>onDiscard\<close> together are exactly the values of the
  sources.\<close>

theorem merged_iterator_latest:
  assumes "\<forall>it \<in> set iters. sorted_wrt key_ord it" and "length (concat iters) < fuel"
  shows "\<exists>es ds. mi_drain fuel (NewMergedIterator iters ps) = Some (es, ds) \<and>
     sorted_wrt (<) (map e_key es) \<and> e_key ` set es = e_key ` set (concat iters) \<and>
     (\<forall>e \<in> set es. e \<in> set (concat iters) \<and>
        (\<forall>e' \<in> set (concat iters). e_key e' = e_key e \<longrightarrow> e_version e' \<le> e_version e)) \<and>
     mset (map e_value es) + mset ds = mset (map e_value (concat iters))"
proof -
  note init = items.init_source [OF merged_items_sorted [OF assms(1)], of ps]
  have P: "pending hi_list (heap_Init item_less (merged_items iters ps)) = mset (concat iters)"
    by (simp only: init(2) pending_merged_items)
  have "size (pending hi_list (heap_Init item_less (merged_items iters ps))) < fuel"
    using assms(2) by (simp only: P size_mset)
  from mi_drain_spec [OF init(1) this] show ?thesis
    unfolding P NewMergedIterator_def keys_of_def best_among_def same_key_def by (simp only: mset_map) fastforce
qed

theorem merged_iterator_latest_witness:
  "\<exists>es ds. mi_drain 4 (NewMergedIterator
        [[\<lparr>e_key = [1], e_value = [4], e_deleted = False, e_expiresAt = 0, e_version = 7\<rparr>,
          \<lparr>e_key = [2], e_value = [5], e_deleted = False, e_expiresAt = 0, e_version = 3\<rparr>],
         [\<lparr>e_key = [1], e_value = [9], e_deleted = True, e_expiresAt = 0, e_version = 8\<rparr>]] (Some [1])) = Some (es, ds) \<and>
     mset (map e_value es) + mset ds = {#[4], [5], [9]#}"
  using merged_iterator_latest
    [of "[[\<lparr>e_key = [1], e_value = [4], e_deleted = False, e_expiresAt = 0, e_version = 7\<rparr>,
          \<lparr>e_key = [2], e_value = [5], e_deleted = False, e_expiresAt = 0, e_version = 3\<rparr>],
         [\<lparr>e_key = [1], e_value = [9], e_deleted = True, e_expiresAt = 0, e_version = 8\<rparr>]]" 4 "Some [1]"]
  by (auto simp: key_ord_def simp del: mi_drain.simps)

end
