(* ===== verification/Crypto.thy ===== *)
theory Crypto
  imports Prelude "HOL-Library.AList"
begin

text \<open>
  Encryption at rest, \<open>src/internal/crypto\<close>: AES-CTR at a byte offset of a file
  (\<open>cipher.go\<close>) and the registry of data keys (\<open>registry.go\<close>).  The AES block function and the
  GCM pair \<open>Seal\<close>/\<open>Open\<close> are parameters; counter mode itself, the counter arithmetic and the
  record format of the registry are modelled.
\<close>

section \<open>Counter mode\<close>

definition aes_key_ok :: "bytes \<Rightarrow> bool" where
  "aes_key_ok key \<longleftrightarrow> length key \<in> {16, 24, 32}"

definition put_u128 :: "128 word \<Rightarrow> bytes" where
  "put_u128 w = put_u64 (ucast (drop_bit 64 w)) @ put_u64 (ucast w)"

text \<open>A stream of \<open>cipher.NewCTR\<close> is its initial counter block and the number of bytes used; the
  block \<open>i\<close> of its key stream encrypts the counter advanced by \<open>i\<close> as a 128-bit big-endian number.\<close>

definition ctr_byte :: "(bytes \<Rightarrow> bytes) \<Rightarrow> bytes \<Rightarrow> nat \<Rightarrow> byte" where
  "ctr_byte E iv p = E (put_u128 (be_read iv + of_nat (p div 16))) ! (p mod 16)"

definition xor_at :: "(nat \<Rightarrow> byte) \<Rightarrow> nat \<Rightarrow> bytes \<Rightarrow> bytes" where
  "xor_at ks p d = map (\<lambda>(j, b). b XOR ks j) (enumerate p d)"

definition XORKeyStream :: "(bytes \<Rightarrow> bytes) \<Rightarrow> bytes \<times> nat \<Rightarrow> bytes \<Rightarrow> bytes \<times> (bytes \<times> nat)" where
  "XORKeyStream E st d = (xor_at (ctr_byte E (fst st)) (snd st) d, (fst st, snd st + length d))"

definition advanceIV :: "bytes \<Rightarrow> u64 \<Rightarrow> bytes" where
  "advanceIV iv blockNum =
     (let low = get_u64 (bslice 8 16 iv);
          sm = low + blockNum;
          iv1 = take 8 iv @ put_u64 sm
      in if sm < low then put_u64 (get_u64 (take 8 iv1) + 1) @ drop 8 iv1 else iv1)"

definition CryptAtOffset :: "(bytes \<Rightarrow> bytes \<Rightarrow> bytes) \<Rightarrow> bytes \<Rightarrow> bytes \<Rightarrow> nat \<Rightarrow> bytes \<Rightarrow> bytes option" where
  "CryptAtOffset E key baseIV offset data =
     (if data = [] then Some []
      else if \<not> aes_key_ok key then None
      else (let iv = take 16 baseIV @ replicate (16 - length baseIV) 0;
                stream = (advanceIV iv (of_nat (offset div 16)), 0);
                rem = offset mod 16;
                stream' = (if 0 < rem then snd (XORKeyStream (E key) stream (replicate rem 0)) else stream)
            in Some (fst (XORKeyStream (E key) stream' data))))"

section \<open>The key registry\<close>

record registry =
  kr_masterKey :: bytes
  kr_activeKeyID :: u64
  kr_dataKeys :: "(u64 \<times> bytes) list"

datatype crypto_error = ErrInvalidKeyLength | ErrCorruptedRegistry | ErrDataKeyNotFound | ErrCorruptedBlock | ErrDecrypt

type_synonym aead = "bytes \<Rightarrow> bytes \<Rightarrow> bytes \<Rightarrow> bytes"
type_synonym aead_open = "bytes \<Rightarrow> bytes \<Rightarrow> bytes \<Rightarrow> bytes option"

definition GetKey :: "registry \<Rightarrow> u64 \<Rightarrow> crypto_error + bytes" where
  "GetKey kr keyID = (case map_of (kr_dataKeys kr) keyID of None \<Rightarrow> Inl ErrDataKeyNotFound | Some k \<Rightarrow> Inr k)"

text \<open>A missing entry of a Go map reads as the nil slice.\<close>

definition ActiveKey :: "registry \<Rightarrow> u64 \<times> bytes" where
  "ActiveKey kr = (kr_activeKeyID kr,
     case map_of (kr_dataKeys kr) (kr_activeKeyID kr) of None \<Rightarrow> [] | Some k \<Rightarrow> k)"

text \<open>\<open>flush\<close>: the file is written in the order of the key ids, with a fresh nonce for each.\<close>

definition key_record :: "aead \<Rightarrow> bytes \<Rightarrow> (u64 \<Rightarrow> bytes) \<Rightarrow> u64 \<times> bytes \<Rightarrow> bytes" where
  "key_record seal master nonce p =
     (let c = seal master (nonce (fst p)) (snd p)
      in put_u64 (fst p) @ nonce (fst p) @ put_u32 (of_nat (length c)) @ c)"

definition kr_flush :: "aead \<Rightarrow> (u64 \<Rightarrow> bytes) \<Rightarrow> registry \<Rightarrow> bytes" where
  "kr_flush seal nonce kr =
     concat (map (key_record seal (kr_masterKey kr) nonce) (sort_key fst (kr_dataKeys kr)))"

function loadKeys :: "aead_open \<Rightarrow> registry \<Rightarrow> bytes \<Rightarrow> crypto_error + registry" where
  "loadKeys opn kr data =
     (if data = [] then (if kr_activeKeyID kr = 0 then Inl ErrCorruptedRegistry else Inr kr)
      else if length data < 24 then Inl ErrCorruptedRegistry
      else (let keyID = get_u64 data; nonce = bslice 8 20 data; encLen = unat (get_u32 (bslice 20 24 data));
                rest = drop 24 data
            in if encLen = 0 \<or> length rest < encLen then Inl ErrCorruptedRegistry
               else case opn (kr_masterKey kr) nonce (take encLen rest) of
                 None \<Rightarrow> Inl ErrDecrypt
               | Some key \<Rightarrow>
                   loadKeys opn (kr\<lparr>kr_dataKeys := AList.update keyID key (kr_dataKeys kr),
                     kr_activeKeyID := (if kr_activeKeyID kr < keyID then keyID else kr_activeKeyID kr)\<rparr>)
                     (drop encLen rest)))"
  by pat_completeness auto
termination
  by (relation "measure (\<lambda>(_, _, data). length data)") auto

declare loadKeys.simps [simp del]

text \<open>\<open>OpenKeyRegistry\<close> over the contents of the registry file; a missing file is empty.  The second
  result is the new contents when the registry is created with the random key \<open>fresh\<close>.\<close>

definition OpenKeyRegistry :: "aead \<Rightarrow> aead_open \<Rightarrow> (u64 \<Rightarrow> bytes) \<Rightarrow> bytes \<Rightarrow> bytes \<Rightarrow> bytes \<Rightarrow> crypto_error + registry \<times> bytes" where
  "OpenKeyRegistry seal opn nonce fresh masterKey data =
     (if \<not> aes_key_ok masterKey then Inl ErrInvalidKeyLength
      else if data = [] then
        (let kr = \<lparr>kr_masterKey = masterKey, kr_activeKeyID = 1, kr_dataKeys = [(1, fresh)]\<rparr>
         in Inr (kr, kr_flush seal nonce kr))
      else case loadKeys opn \<lparr>kr_masterKey = masterKey, kr_activeKeyID = 0, kr_dataKeys = []\<rparr> data of
        Inl e \<Rightarrow> Inl e | Inr kr \<Rightarrow> Inr (kr, data))"

definition SealBlock :: "aead \<Rightarrow> bytes \<Rightarrow> registry \<Rightarrow> bytes \<Rightarrow> (u64 \<times> bytes) option" where
  "SealBlock seal nonce kr plaintext =
     (let (keyID, key) = ActiveKey kr
      in if aes_key_ok key then Some (keyID, nonce @ seal key nonce plaintext) else None)"

definition OpenBlockWithKey :: "aead_open \<Rightarrow> bytes \<Rightarrow> bytes \<Rightarrow> crypto_error + bytes" where
  "OpenBlockWithKey opn key sealed =
     (if length sealed < 12 then Inl ErrCorruptedBlock
      else if \<not> aes_key_ok key then Inl ErrInvalidKeyLength
      else case opn key (take 12 sealed) (drop 12 sealed) of None \<Rightarrow> Inl ErrCorruptedBlock | Some p \<Rightarrow> Inr p)"

definition OpenBlock :: "aead_open \<Rightarrow> registry \<Rightarrow> u64 \<Rightarrow> bytes \<Rightarrow> crypto_error + bytes" where
  "OpenBlock opn kr keyID sealed =
     (case GetKey kr keyID of Inl e \<Rightarrow> Inl e | Inr key \<Rightarrow> OpenBlockWithKey opn key sealed)"

section \<open>Counter mode is a stream over file offsets\<close>

lemma be_read_two_u64:
  "(be_read (put_u64 h @ put_u64 l) :: 128 word) = of_nat (unat h * 2 ^ 64 + unat l)"
  by (simp add: be_read_pos_val pos_val_append pos_val_put_u64)

lemma split_16:
  fixes iv :: bytes
  assumes "length iv = 16"
  obtains h l where "iv = put_u64 h @ put_u64 l"
proof -
  have "iv = put_u64 (get_u64 (take 8 iv)) @ put_u64 (get_u64 (drop 8 iv))"
    using assms by (simp add: put_get_u64)
  then show ?thesis by (rule that)
qed

text \<open>The carry written out in \<open>CryptAtOffset\<close> is 128-bit addition.\<close>

lemma advanceIV_add:
  assumes "length iv = 16"
  shows "(be_read (advanceIV iv n) :: 128 word) = be_read iv + of_nat (unat n)"
proof -
  obtain h l where iv: "iv = put_u64 h @ put_u64 l" using split_16 [OF assms] .
  have parts: "get_u64 (bslice 8 16 iv) = l" "take 8 iv = put_u64 h" by (simp_all add: iv bslice_def)
  have wrap: "(of_nat (0 * 2 ^ 64) :: 128 word) = of_nat (2 ^ 64 * 2 ^ 64)" by simp
  show ?thesis
  proof (cases "unat l + unat n < 2 ^ 64")
    case True
    then have "unat (l + n) = unat l + unat n" by (simp add: unat_word_ariths)
    moreover have "\<not> l + n < l" using calculation by (simp add: word_less_nat_alt)
    ultimately have "(be_read (advanceIV iv n) :: 128 word) = of_nat (unat h * 2 ^ 64 + (unat l + unat n))"
      by (simp add: advanceIV_def parts Let_def be_read_two_u64 del: of_nat_add of_nat_mult)
    then show ?thesis by (simp add: iv be_read_two_u64)
  next
    case False
    have lt: "unat l < 2 ^ 64" "unat n < 2 ^ 64" "unat h < 2 ^ 64" using unsigned_less [where 'b = 64] by auto
    have sm: "unat (l + n) + 2 ^ 64 = unat l + unat n"
      using False lt by (auto simp: unat_word_ariths mod_if)
    then have "l + n < l" using lt by (simp add: word_less_nat_alt)
    then have eq: "(be_read (advanceIV iv n) :: 128 word) = of_nat (unat (h + 1) * 2 ^ 64 + unat (l + n))"
      by (simp add: advanceIV_def parts Let_def be_read_two_u64 del: of_nat_add of_nat_mult)
    have "unat (h + 1) = unat h + 1 \<or> unat (h + 1) = 0 \<and> unat h + 1 = 2 ^ 64"
      using lt(3) by (cases "Suc (unat h) = 2 ^ 64") (auto simp: unat_word_ariths)
    then have "(of_nat (unat (h + 1) * 2 ^ 64) :: 128 word) = of_nat ((unat h + 1) * 2 ^ 64)"
      by (elim disjE conjE) (simp_all only: wrap)
    then have "(be_read (advanceIV iv n) :: 128 word) = of_nat ((unat h + 1) * 2 ^ 64 + unat (l + n))"
      unfolding eq by simp
    also have "(unat h + 1) * 2 ^ 64 + unat (l + n) = unat h * 2 ^ 64 + (unat l + unat n)"
      using sm by simp
    finally show ?thesis by (simp add: iv be_read_two_u64)
  qed
qed

definition fileIV :: "bytes \<Rightarrow> bytes" where
  "fileIV baseIV = take 16 baseIV @ replicate (16 - length baseIV) 0"

lemma length_xor_at [simp]: "length (xor_at ks p d) = length d"
  by (simp add: xor_at_def)

lemma xor_at_append: "xor_at ks p (a @ b) = xor_at ks p a @ xor_at ks (p + length a) b"
  by (simp add: xor_at_def enumerate_append_eq)

lemma nth_xor_at: "i < length d \<Longrightarrow> xor_at ks p d ! i = d ! i XOR ks (p + i)"
  by (simp add: xor_at_def nth_enumerate_eq)

lemma xor_at_twice: "xor_at ks p (xor_at ks p d) = d"
  by (rule nth_equalityI) (simp_all add: nth_xor_at xor.assoc)

lemma xor_at_Nil [simp]: "xor_at ks p d = [] \<longleftrightarrow> d = []"
  by (metis length_xor_at length_0_conv)

lemma ctr_byte_advanced:
  assumes "n < 2 ^ 63" "length iv = 16"
  shows "ctr_byte E (advanceIV iv (of_nat (n div 16))) (n mod 16 + j) = ctr_byte E iv (n + j)"
proof -
  have "unat (of_nat (n div 16) :: u64) = n div 16"
    using assms(1) by (intro unat_of_nat_small) (simp add: div_less_iff_less_mult)
  then have "(be_read (advanceIV iv (of_nat (n div 16))) :: 128 word) = be_read iv + of_nat (n div 16)"
    using advanceIV_add [OF assms(2)] by metis
  moreover have "n + j = (n mod 16 + j) + 16 * (n div 16)" by simp
  then have "(n + j) div 16 = n div 16 + (n mod 16 + j) div 16" by (metis div_mult_self2 zero_neq_numeral)
  moreover have "(n + j) mod 16 = (n mod 16 + j) mod 16" by (simp only: mod_add_left_eq)
  ultimately show ?thesis by (simp add: ctr_byte_def algebra_simps)
qed

lemma CryptAtOffset_stream:
  assumes "offset < 2 ^ 63" "aes_key_ok key"
  shows "CryptAtOffset E key baseIV offset data = Some (xor_at (ctr_byte (E key) (fileIV baseIV)) offset data)"
proof (cases "data = []")
  case True
  then show ?thesis by (simp add: CryptAtOffset_def xor_at_def)
next
  case False
  let ?iv = "fileIV baseIV"
  have len: "length ?iv = 16" by (simp add: fileIV_def)
  have "xor_at (ctr_byte (E key) (advanceIV ?iv (of_nat (offset div 16)))) (offset mod 16) data =
        xor_at (ctr_byte (E key) ?iv) offset data"
    by (rule nth_equalityI) (simp_all add: nth_xor_at ctr_byte_advanced [OF assms(1) len])
  then show ?thesis
    using False assms(2) by (cases "offset mod 16 = 0") (simp_all add: CryptAtOffset_def XORKeyStream_def Let_def fileIV_def)
qed

text \<open>C26: \<open>CryptAtOffset\<close> with a valid key is its own inverse at every offset, and treats a file as one
  stream: encrypting a range in one call or in two adjacent calls gives the same bytes, so a value
  written as part of a longer record can be decrypted on its own at its file offset.\<close>

theorem CryptAtOffset_seekable:
  assumes "aes_key_ok key" and "offset + length a < 2 ^ 63"
  shows "\<exists>ca cb. CryptAtOffset E key baseIV offset a = Some ca \<and>
     CryptAtOffset E key baseIV (offset + length a) b = Some cb \<and>
     CryptAtOffset E key baseIV offset (a @ b) = Some (ca @ cb) \<and> length ca = length a \<and>
     CryptAtOffset E key baseIV offset ca = Some a \<and>
     CryptAtOffset E key baseIV (offset + length a) cb = Some b"
proof -
  have "offset < 2 ^ 63" using assms(2) by simp
  note stream = CryptAtOffset_stream [OF this assms(1)] CryptAtOffset_stream [OF assms(2,1)]
  show ?thesis by (simp add: stream xor_at_append xor_at_twice)
qed

theorem CryptAtOffset_seekable_witness:
  "\<exists>ca cb. CryptAtOffset (\<lambda>k b. map2 (XOR) k b) (replicate 16 7) (replicate 16 255) 37 [1, 2, 3] = Some ca \<and>
     CryptAtOffset (\<lambda>k b. map2 (XOR) k b) (replicate 16 7) (replicate 16 255) 40 [4] = Some cb \<and>
     CryptAtOffset (\<lambda>k b. map2 (XOR) k b) (replicate 16 7) (replicate 16 255) 37 [1, 2, 3, 4] = Some (ca @ cb)"
  using CryptAtOffset_seekable [of "replicate 16 7" 37 "[1, 2, 3]" "\<lambda>k b. map2 (XOR) k b" "replicate 16 255" "[4]"]
  by (auto simp: aes_key_ok_def)

section \<open>Optional encryption of a log\<close>

text \<open>Logs carry their encryption as key id, key and base IV, or none; data is encrypted at its file offset.\<close>

definition cryptIf :: "(bytes \<Rightarrow> bytes \<Rightarrow> bytes) \<Rightarrow> (u64 \<times> bytes \<times> bytes) option \<Rightarrow> nat \<Rightarrow> bytes \<Rightarrow> bytes option" where
  "cryptIf E enc offset data =
     (case enc of None \<Rightarrow> Some data | Some (_, key, baseIV) \<Rightarrow> CryptAtOffset E key baseIV offset data)"

definition enc_ok :: "(u64 \<times> bytes \<times> bytes) option \<Rightarrow> bool" where
  "enc_ok enc \<longleftrightarrow> (case enc of None \<Rightarrow> True | Some (_, key, _) \<Rightarrow> aes_key_ok key)"

lemma cryptIf_inverse:
  assumes "enc_ok enc" "offset < 2 ^ 63"
  obtains c where "cryptIf E enc offset d = Some c" "length c = length d" "cryptIf E enc offset c = Some d"
proof (cases enc)
  case None
  then show ?thesis using that by (simp add: cryptIf_def)
next
  case (Some p)
  obtain i key iv where p: "p = (i, key, iv)" by (cases p)
  have "aes_key_ok key" using assms(1) Some p by (simp add: enc_ok_def)
  then have "CryptAtOffset E key iv offset x = Some (xor_at (ctr_byte (E key) (fileIV iv)) offset x)" for x
    using CryptAtOffset_stream assms(2) by blast
  then show ?thesis using that Some p by (simp add: cryptIf_def xor_at_twice)
qed

text \<open>A registry that knows its active key, with a valid length.\<close>

definition reg_ok :: "registry option \<Rightarrow> bool" where
  "reg_ok reg \<longleftrightarrow> (case reg of None \<Rightarrow> True
     | Some kr \<Rightarrow> aes_key_ok (snd (ActiveKey kr)) \<and> GetKey kr (fst (ActiveKey kr)) = Inr (snd (ActiveKey kr)))"

definition freshEnc :: "registry option \<Rightarrow> bytes \<Rightarrow> (u64 \<times> bytes \<times> bytes) option" where
  "freshEnc reg baseIV = map_option (\<lambda>kr. (fst (ActiveKey kr), snd (ActiveKey kr), baseIV)) reg"

section \<open>The registry file\<close>

text \<open>What \<open>crypto/cipher\<close> documents of GCM: opening what was sealed under the same key and nonce gives
  the plaintext, and the output is sixteen bytes longer.\<close>

definition gcm :: "aead \<Rightarrow> aead_open \<Rightarrow> bool" where
  "gcm seal opn \<longleftrightarrow>
     (\<forall>k n p. aes_key_ok k \<and> length n = 12 \<longrightarrow> opn k n (seal k n p) = Some p \<and> length (seal k n p) = length p + 16)"

definition registry_ok :: "registry \<Rightarrow> bool" where
  "registry_ok kr \<longleftrightarrow> aes_key_ok (kr_masterKey kr) \<and> distinct (map fst (kr_dataKeys kr)) \<and>
     0 < kr_activeKeyID kr \<and> kr_activeKeyID kr \<in> fst ` set (kr_dataKeys kr) \<and>
     (\<forall>p \<in> set (kr_dataKeys kr). fst p \<le> kr_activeKeyID kr \<and> length (snd p) < 2 ^ 31)"

definition add_key :: "u64 \<times> bytes \<Rightarrow> registry \<Rightarrow> registry" where
  "add_key p kr = kr\<lparr>kr_dataKeys := AList.update (fst p) (snd p) (kr_dataKeys kr),
     kr_activeKeyID := max (fst p) (kr_activeKeyID kr)\<rparr>"

lemma loadKeys_record:
  assumes g: "gcm seal opn" and k: "aes_key_ok (kr_masterKey kr)" "length (nonce (fst p)) = 12"
    and len: "length (snd p) < 2 ^ 31"
  shows "loadKeys opn kr (key_record seal (kr_masterKey kr) nonce p @ rest) = loadKeys opn (add_key p kr) rest"
proof -
  let ?c = "seal (kr_masterKey kr) (nonce (fst p)) (snd p)"
  have c: "opn (kr_masterKey kr) (nonce (fst p)) ?c = Some (snd p)" "length ?c = length (snd p) + 16"
    using g k by (auto simp: gcm_def)
  have "unat (of_nat (length ?c) :: u32) = length ?c" using len c(2) by (intro unat_of_nat_small) simp
  moreover have "get_u32 (bslice 20 24 (key_record seal (kr_masterKey kr) nonce p @ rest)) = of_nat (length ?c)"
    "bslice 8 20 (key_record seal (kr_masterKey kr) nonce p @ rest) = nonce (fst p)"
    "get_u64 (key_record seal (kr_masterKey kr) nonce p @ rest) = fst p"
    "drop 24 (key_record seal (kr_masterKey kr) nonce p @ rest) = ?c @ rest"
    "length (key_record seal (kr_masterKey kr) nonce p) = 24 + length ?c"
    using k(2) by (simp_all add: key_record_def Let_def bslice_def)
  ultimately show ?thesis
    using c by (subst loadKeys.simps) (auto simp: add_key_def Let_def max_def not_less)
qed

lemma loadKeys_records:
  assumes "gcm seal opn" "aes_key_ok (kr_masterKey kr)" "\<forall>p \<in> set ps. length (nonce (fst p)) = 12 \<and> length (snd p) < 2 ^ 31"
  shows "loadKeys opn kr (concat (map (key_record seal (kr_masterKey kr) nonce) ps)) =
     (let kr' = fold add_key ps kr in if kr_activeKeyID kr' = 0 then Inl ErrCorruptedRegistry else Inr kr')"
  using assms(2,3)
proof (induction ps arbitrary: kr)
  case Nil
  then show ?case by (simp add: loadKeys.simps)
next
  case (Cons p ps)
  have "kr_masterKey (add_key p kr) = kr_masterKey kr" by (simp add: add_key_def)
  then show ?case
    using Cons.IH [of "add_key p kr"] Cons.prems loadKeys_record [OF assms(1) Cons.prems(1), of nonce p] by simp
qed

lemma fold_add_key:
  "map_of (kr_dataKeys (fold add_key ps kr)) = map_of (kr_dataKeys kr) ++ map_of (rev ps)"
  "kr_activeKeyID (fold add_key ps kr) = fold max (map fst ps) (kr_activeKeyID kr)"
  "kr_masterKey (fold add_key ps kr) = kr_masterKey kr"
  by (induction ps arbitrary: kr) (auto simp: add_key_def update_conv' map_add_def fun_eq_iff split: option.splits)

lemma fold_max_active:
  assumes "registry_ok kr"
  shows "fold max (map fst (sort_key fst (kr_dataKeys kr))) 0 = kr_activeKeyID kr"
proof -
  have "fold max (map fst (sort_key fst (kr_dataKeys kr))) 0 = Max (set (0 # map fst (sort_key fst (kr_dataKeys kr))))"
    by (simp only: Max.set_eq_fold)
  also have "\<dots> = kr_activeKeyID kr" using assms by (intro Max_eqI) (auto simp: registry_ok_def)
  finally show ?thesis .
qed

text \<open>C27: Writing the key registry and opening the file with the same master key gives back the same data
  keys and the same active key.\<close>

theorem registry_roundtrip:
  assumes "gcm seal opn" and "registry_ok kr" and "\<forall>keyID. length (nonce keyID) = 12"
  shows "\<exists>kr'. OpenKeyRegistry seal opn nonce' fresh (kr_masterKey kr) (kr_flush seal nonce kr) =
             Inr (kr', kr_flush seal nonce kr) \<and>
           ActiveKey kr' = ActiveKey kr \<and> (\<forall>keyID. GetKey kr' keyID = GetKey kr keyID)"
proof -
  let ?ps = "sort_key fst (kr_dataKeys kr)"
  let ?init = "\<lparr>kr_masterKey = kr_masterKey kr, kr_activeKeyID = 0, kr_dataKeys = []\<rparr>"
  let ?kr = "fold add_key ?ps ?init"
  have ok: "aes_key_ok (kr_masterKey kr)" "distinct (map fst (kr_dataKeys kr))" "kr_activeKeyID kr \<noteq> 0"
    "kr_dataKeys kr \<noteq> []"
    using assms(2) by (auto simp: registry_ok_def)
  have "mset (map fst (rev ?ps)) = mset (map fst (kr_dataKeys kr))" by simp
  then have dist: "distinct (map fst (rev ?ps))" using ok(2) mset_eq_imp_distinct_iff by blast
  have active: "kr_activeKeyID ?kr = kr_activeKeyID kr"
    using fold_max_active [OF assms(2)] by (simp add: fold_add_key(2))
  have load: "loadKeys opn ?init (kr_flush seal nonce kr) = Inr ?kr"
    using loadKeys_records [OF assms(1), of ?init ?ps nonce] ok assms(2,3) active
    by (simp add: kr_flush_def registry_ok_def Let_def)
  have "map_of (rev ?ps) = map_of (kr_dataKeys kr)"
    using map_of_inject_set [OF dist ok(2)] by (simp only: set_rev set_sort)
  then have keys: "map_of (kr_dataKeys ?kr) = map_of (kr_dataKeys kr)" by (simp add: fold_add_key(1))
  obtain kr' where kr': "loadKeys opn ?init (kr_flush seal nonce kr) = Inr kr'"
    "kr_activeKeyID kr' = kr_activeKeyID kr" "map_of (kr_dataKeys kr') = map_of (kr_dataKeys kr)"
    using load active keys by blast
  have "?ps \<noteq> []" using ok(4) by (metis set_sort set_empty)
  then have "kr_flush seal nonce kr \<noteq> []"
    by (cases ?ps) (simp_all add: kr_flush_def key_record_def Let_def put_u64_def)
  then have "OpenKeyRegistry seal opn nonce' fresh (kr_masterKey kr) (kr_flush seal nonce kr) = Inr (kr', kr_flush seal nonce kr)"
    using kr'(1) ok(1) by (simp add: OpenKeyRegistry_def)
  then show ?thesis using kr' by (auto simp: ActiveKey_def GetKey_def)
qed

theorem registry_roundtrip_witness:
  "\<exists>kr'. OpenKeyRegistry (\<lambda>k n p. p @ replicate 16 0) (\<lambda>k n c. Some (take (length c - 16) c)) (\<lambda>_. replicate 12 0) []
      (replicate 32 1) (kr_flush (\<lambda>k n p. p @ replicate 16 0) (\<lambda>_. replicate 12 9)
        \<lparr>kr_masterKey = replicate 32 1, kr_activeKeyID = 2, kr_dataKeys = [(2, [5]), (1, [6])]\<rparr>) = Inr kr' \<and>
    ActiveKey (fst kr') = (2, [5])"
proof -
  let ?kr = "\<lparr>kr_masterKey = replicate 32 1, kr_activeKeyID = 2, kr_dataKeys = [(2, [5]), (1, [6])]\<rparr>"
  have "gcm (\<lambda>k n p. p @ replicate 16 0) (\<lambda>k n c. Some (take (length c - 16) c))" by (simp add: gcm_def)
  moreover have "registry_ok ?kr" by (simp add: registry_ok_def aes_key_ok_def)
  moreover have "\<forall>keyID :: u64. length (replicate 12 (9 :: byte)) = 12" by simp
  ultimately obtain kr' where r: "OpenKeyRegistry (\<lambda>k n p. p @ replicate 16 0) (\<lambda>k n c. Some (take (length c - 16) c))
      (\<lambda>_. replicate 12 0) [] (kr_masterKey ?kr) (kr_flush (\<lambda>k n p. p @ replicate 16 0) (\<lambda>_. replicate 12 9) ?kr) =
      Inr (kr', kr_flush (\<lambda>k n p. p @ replicate 16 0) (\<lambda>_. replicate 12 9) ?kr)" "ActiveKey kr' = ActiveKey ?kr"
    using registry_roundtrip by meson
  moreover have "ActiveKey ?kr = (2, [5])" by (simp add: ActiveKey_def)
  ultimately show ?thesis by simp
qed

end
