(* ===== verification/Wal.thy ===== *)
theory Wal
  imports Crypto
begin

text \<open>
  The write-ahead log, \<open>src/wal/wal.go\<close>: the record format with its CRC, direct and group-committed
  writes, recovery with truncation of a torn tail, and reading a value at its offset.  A log is the
  contents of its file and the bytes still in the buffered writer; offsets are natural numbers (an
  \<open>int64\<close> in the code).  File operations succeed: what a crash leaves behind is covered by recovering
  from an arbitrary prefix of the file.
\<close>

section \<open>State\<close>

definition OpPut :: byte where "OpPut = 1"

definition OpDelete :: byte where "OpDelete = 2"

definition walHeaderSize :: nat where "walHeaderSize = 37"

definition walFileMagic :: u32 where "walFileMagic = 0x57414C46"

definition walFileVersion :: u32 where "walFileVersion = 1"

definition walEncHeaderSize :: nat where "walEncHeaderSize = 32"

text \<open>A \<open>writeTask\<close> without its two result channels.\<close>

record writeTask =
  wt_op :: byte
  wt_key :: bytes
  wt_val :: bytes
  wt_expiresAt :: i64
  wt_version :: u64
  wt_timestamp :: i64

record wal_rec = writeTask +
  wr_valueOffset :: nat

record wal =
  w_file :: bytes
  w_buf :: bytes
  w_syncOnWrite :: bool
  w_currentOffset :: nat
  w_enc :: "(u64 \<times> bytes \<times> bytes) option"
  w_fileHdr :: nat
  w_closed :: bool

datatype wal_error = ErrWALClosed | ErrShortHeader | ErrNoRegistry | ErrNotEncrypted | ErrKey crypto_error
  | ErrCrypt | ErrSyncHook | ErrRead

section \<open>Opening\<close>

definition OpenWal :: "registry option \<Rightarrow> bytes \<Rightarrow> bool \<Rightarrow> bytes \<Rightarrow> wal_error + wal" where
  "OpenWal reg baseIV syncOnWrite contents =
     (let w = \<lparr>w_file = contents, w_buf = [], w_syncOnWrite = syncOnWrite, w_currentOffset = length contents,
               w_enc = None, w_fileHdr = 0, w_closed = False\<rparr>
      in if contents = [] then
           (case reg of
              None \<Rightarrow> Inr w
            | Some kr \<Rightarrow>
                (let (keyID, key) = ActiveKey kr
                 in Inr (w\<lparr>w_buf := put_u32 walFileMagic @ put_u32 walFileVersion @ put_u64 keyID @
                        take 16 baseIV @ replicate (16 - length baseIV) 0,
                      w_enc := Some (keyID, key, baseIV), w_fileHdr := walEncHeaderSize,
                      w_currentOffset := walEncHeaderSize\<rparr>)))
         else if 8 \<le> length contents \<and> get_u32 contents = walFileMagic \<and> get_u32 (drop 4 contents) = walFileVersion then
           (if length contents < walEncHeaderSize then Inl ErrShortHeader
            else case reg of
              None \<Rightarrow> Inl ErrNoRegistry
            | Some kr \<Rightarrow>
                (case GetKey kr (get_u64 (drop 8 contents)) of
                   Inl e \<Rightarrow> Inl (ErrKey e)
                 | Inr key \<Rightarrow>
                     Inr (w\<lparr>w_enc := Some (get_u64 (drop 8 contents), key, bslice 16 32 contents),
                          w_fileHdr := walEncHeaderSize\<rparr>)))
         else if reg \<noteq> None then Inl ErrNotEncrypted
         else Inr w)"

section \<open>Writing\<close>

text \<open>The bytes under the checksum, in the order of the \<open>crc.Write\<close> calls.\<close>

definition crcInput :: "byte \<Rightarrow> u32 \<Rightarrow> u32 \<Rightarrow> i64 \<Rightarrow> u64 \<Rightarrow> i64 \<Rightarrow> bytes \<Rightarrow> bytes \<Rightarrow> bytes" where
  "crcInput op kLen vLen expiresAt version timestamp key val =
     [op] @ put_u32 kLen @ put_u32 vLen @ put_u64 expiresAt @ put_u64 version @ put_u64 timestamp @ key @ val"

definition encodeRecord :: "writeTask \<Rightarrow> bytes \<Rightarrow> bytes \<Rightarrow> bytes" where
  "encodeRecord t encKey encVal =
     (let kLen = of_nat (length encKey); vLen = of_nat (length encVal)
      in [wt_op t] @ put_u32 kLen @ put_u32 vLen @ put_u64 (wt_expiresAt t) @ put_u64 (wt_version t) @
         put_u64 (wt_timestamp t) @
         put_u32 (crc32 (crcInput (wt_op t) kLen vLen (wt_expiresAt t) (wt_version t) (wt_timestamp t) encKey encVal)) @
         encKey @ encVal)"

definition writeDirect :: "(bytes \<Rightarrow> bytes \<Rightarrow> bytes) \<Rightarrow> writeTask \<Rightarrow> nat \<Rightarrow> wal \<Rightarrow> wal option" where
  "writeDirect E t startOffset w =
     (let keyOffset = startOffset + walHeaderSize
      in case cryptIf E (w_enc w) keyOffset (wt_key t) of
           None \<Rightarrow> None
         | Some encKey \<Rightarrow>
             (case cryptIf E (w_enc w) (keyOffset + length (wt_key t)) (wt_val t) of
                None \<Rightarrow> None
              | Some encVal \<Rightarrow> Some (w\<lparr>w_buf := w_buf w @ encodeRecord t encKey encVal\<rparr>)))"

definition Flush :: "wal \<Rightarrow> wal" where
  "Flush w = w\<lparr>w_file := w_file w @ w_buf w, w_buf := []\<rparr>"

definition recordSize :: "writeTask \<Rightarrow> nat" where
  "recordSize t = walHeaderSize + length (wt_key t) + length (wt_val t)"

text \<open>The part of \<open>WriteVersionWithTimestamp\<close> for a log without group commit.\<close>

definition writeLocked :: "(bytes \<Rightarrow> bytes \<Rightarrow> bytes) \<Rightarrow> writeTask \<Rightarrow> wal \<Rightarrow> (wal_error + nat) \<times> wal" where
  "writeLocked E t w =
     (let startOffset = w_currentOffset w; valueOffset = startOffset + walHeaderSize + length (wt_key t)
      in case writeDirect E t startOffset w of
           None \<Rightarrow> (Inl ErrCrypt, w)
         | Some w1 \<Rightarrow> (Inr valueOffset, Flush (w1\<lparr>w_currentOffset := startOffset + recordSize t\<rparr>)))"

text \<open>One batch of \<open>groupCommitLoop\<close>.  The offsets are sent while the batch is written, the common error
  after the sync; \<open>hook\<close> is the result of the sync hook and of \<open>file.Sync\<close>.\<close>

fun groupWrite :: "(bytes \<Rightarrow> bytes \<Rightarrow> bytes) \<Rightarrow> writeTask list \<Rightarrow> bool \<Rightarrow> wal \<Rightarrow> nat list \<times> bool \<times> wal" where
  "groupWrite E [] err w = ([], err, w)"
| "groupWrite E (t # ts) err w =
     (if err then (let (offs, err', w') = groupWrite E ts err w in (0 # offs, err', w'))
      else (let startOffset = w_currentOffset w; valueOffset = startOffset + walHeaderSize + length (wt_key t)
            in case writeDirect E t startOffset w of
                 None \<Rightarrow> (let (offs, err', w') = groupWrite E ts True w in (0 # offs, err', w'))
               | Some w1 \<Rightarrow>
                   (let (offs, err', w') = groupWrite E ts False (w1\<lparr>w_currentOffset := startOffset + recordSize t\<rparr>)
                    in (valueOffset # offs, err', w'))))"

definition groupCommit :: "(bytes \<Rightarrow> bytes \<Rightarrow> bytes) \<Rightarrow> bool \<Rightarrow> writeTask list \<Rightarrow> wal \<Rightarrow> (wal_error option \<times> nat) list \<times> wal" where
  "groupCommit E hook batch w =
     (let (offs, err, w1) = groupWrite E batch False w
      in if err then (map (\<lambda>off. (Some ErrCrypt, off)) offs, w1)
         else (map (\<lambda>off. (if hook then None else Some ErrSyncHook, off)) offs, Flush w1))"

text \<open>The \<open>drain\<close> loop takes what is queued, up to 256 tasks with the first one.  On a closed channel the
  receive succeeds at once with a zero task, shown here as \<open>None\<close>; its channels are nil.\<close>

fun drain :: "nat \<Rightarrow> bool \<Rightarrow> writeTask list \<Rightarrow> writeTask option list \<times> writeTask list" where
  "drain 0 chanClosed q = ([], q)"
| "drain (Suc n) chanClosed (t # q) = (let (b, q') = drain n chanClosed q in (Some t # b, q'))"
| "drain (Suc n) chanClosed [] = (if chanClosed then (let (b, q') = drain n chanClosed [] in (None # b, q')) else ([], []))"

definition zeroTask :: writeTask where
  "zeroTask = \<lparr>wt_op = 0, wt_key = [], wt_val = [], wt_expiresAt = 0, wt_version = 0, wt_timestamp = 0\<rparr>"

datatype loop_result = Returned | Blocked wal | Batch "(wal_error option \<times> nat) list" wal "writeTask list"

text \<open>One round of \<open>groupCommitLoop\<close> on a non-empty or closed queue.  The offset of a zero task is sent on a
  nil channel, which blocks forever with the mutex held; its record is in the buffer by then.\<close>

definition groupCommitRound :: "(bytes \<Rightarrow> bytes \<Rightarrow> bytes) \<Rightarrow> bool \<Rightarrow> bool \<Rightarrow> writeTask list \<Rightarrow> wal \<Rightarrow> loop_result" where
  "groupCommitRound E hook chanClosed q w =
     (case q of
        [] \<Rightarrow> Returned
      | t # q1 \<Rightarrow>
          (let (more, q2) = drain 255 chanClosed q1; batch = t # List.map_filter id more
           in if None \<in> set more then Blocked (snd (snd (groupWrite E (batch @ [zeroTask]) False w)))
              else (let (rs, w') = groupCommit E hook batch w in Batch rs w' q2)))"

definition WriteVersionWithTimestamp :: "(bytes \<Rightarrow> bytes \<Rightarrow> bytes) \<Rightarrow> bool \<Rightarrow> writeTask \<Rightarrow> wal \<Rightarrow> (wal_error + nat) \<times> wal" where
  "WriteVersionWithTimestamp E hook t w =
     (if w_syncOnWrite w then
        (if w_closed w then (Inl ErrWALClosed, w)
         else (case groupCommit E hook [t] w of
                 ([(None, off)], w') \<Rightarrow> (Inr off, w')
               | ([(Some e, _)], w') \<Rightarrow> (Inl e, w')
               | (_, w') \<Rightarrow> (Inl ErrWALClosed, w')))
      else writeLocked E t w)"

definition SyncWal :: "bool \<Rightarrow> wal \<Rightarrow> wal_error option \<times> wal" where
  "SyncWal hook w = (if hook then None else Some ErrSyncHook, Flush w)"

definition TruncateTo :: "nat \<Rightarrow> wal \<Rightarrow> wal" where
  "TruncateTo offset w =
     w\<lparr>w_buf := [], w_file := take offset (w_file w) @ replicate (offset - length (w_file w)) 0,
       w_currentOffset := offset\<rparr>"

definition CloseWal :: "wal \<Rightarrow> wal" where
  "CloseWal w = (if w_closed w then w else (Flush w)\<lparr>w_closed := True\<rparr>)"

section \<open>Recovery and reads\<close>

text \<open>The loop of \<open>Recover\<close>: \<open>pos\<close> is \<open>totalRead\<close> and \<open>rest\<close> what the file holds from there.\<close>

function recoverLoop :: "(bytes \<Rightarrow> bytes \<Rightarrow> bytes) \<Rightarrow> (u64 \<times> bytes \<times> bytes) option \<Rightarrow> nat \<Rightarrow> nat \<Rightarrow> bytes \<Rightarrow> wal_rec list \<times> nat" where
  "recoverLoop E enc fsize pos rest =
     (if length rest < walHeaderSize then ([], pos)
      else (let op = rest ! 0; kLen = get_u32 (drop 1 rest); vLen = get_u32 (drop 5 rest);
                expiresAt = get_u64 (drop 9 rest); version = get_u64 (drop 17 rest);
                timestamp = get_u64 (drop 25 rest); expectedCRC = get_u32 (drop 33 rest);
                size = walHeaderSize + unat kLen + unat vLen;
                key = bslice walHeaderSize (walHeaderSize + unat kLen) rest;
                val = bslice (walHeaderSize + unat kLen) size rest;
                keyOffset = pos + walHeaderSize; valueOffset = keyOffset + unat kLen
            in if fsize < pos + size then ([], pos)
               else if length rest < size then ([], pos)
               else if crc32 (crcInput op kLen vLen expiresAt version timestamp key val) \<noteq> expectedCRC then ([], pos)
               else case cryptIf E enc keyOffset key of
                 None \<Rightarrow> ([], pos)
               | Some plainKey \<Rightarrow>
                   (case cryptIf E enc valueOffset val of
                      None \<Rightarrow> ([], pos)
                    | Some plainVal \<Rightarrow>
                        (let (recs, end') = recoverLoop E enc fsize (pos + size) (drop size rest)
                         in (\<lparr>wt_op = op, wt_key = plainKey, wt_val = plainVal, wt_expiresAt = expiresAt,
                              wt_version = version, wt_timestamp = timestamp, wr_valueOffset = valueOffset\<rparr> # recs,
                             end')))))"
  by pat_completeness auto
termination
  by (relation "measure (\<lambda>(_, _, _, _, rest). length rest)") (auto simp: walHeaderSize_def)

declare recoverLoop.simps [simp del]

definition Recover :: "(bytes \<Rightarrow> bytes \<Rightarrow> bytes) \<Rightarrow> wal \<Rightarrow> wal_rec list \<times> wal" where
  "Recover E w0 =
     (let w = Flush w0; start = w_fileHdr w; fsize = length (w_file w);
          (records, totalRead) = recoverLoop E (w_enc w) fsize start (drop start (w_file w))
      in (records, w\<lparr>w_file := (if totalRead < fsize then take totalRead (w_file w) else w_file w),
                     w_currentOffset := totalRead\<rparr>))"

definition ReadValue :: "(bytes \<Rightarrow> bytes \<Rightarrow> bytes) \<Rightarrow> wal \<Rightarrow> nat \<Rightarrow> nat \<Rightarrow> wal_error + bytes" where
  "ReadValue E w offset sz =
     (if sz = 0 then Inr []
      else if length (w_file w) < offset + sz then Inl ErrRead
      else case cryptIf E (w_enc w) offset (bslice offset (offset + sz) (w_file w)) of
        None \<Rightarrow> Inl ErrCrypt | Some v \<Rightarrow> Inr v)"

end
