(* ===== verification/Wal_Correct.thy ===== *)
theory Wal_Correct
  imports Wal
begin

text \<open>
  What the write-ahead log guarantees: every record written is recovered, a torn tail is cut off at a
  record boundary, values can be read back at the offsets the writes returned, and group commit writes
  what the same writes one after the other write.
\<close>

section \<open>The image of a log\<close>

definition task_ok :: "writeTask \<Rightarrow> bool" where
  "task_ok t \<longleftrightarrow> length (wt_key t) < 2 ^ 32 \<and> length (wt_val t) < 2 ^ 32 \<and> wt_op t \<in> {OpPut, OpDelete}"

definition taskBytes :: "(bytes \<Rightarrow> bytes \<Rightarrow> bytes) \<Rightarrow> (u64 \<times> bytes \<times> bytes) option \<Rightarrow> nat \<Rightarrow> writeTask \<Rightarrow> bytes" where
  "taskBytes E enc off t =
     encodeRecord t (the (cryptIf E enc (off + walHeaderSize) (wt_key t)))
       (the (cryptIf E enc (off + walHeaderSize + length (wt_key t)) (wt_val t)))"

fun wal_image :: "(bytes \<Rightarrow> bytes \<Rightarrow> bytes) \<Rightarrow> (u64 \<times> bytes \<times> bytes) option \<Rightarrow> nat \<Rightarrow> writeTask list \<Rightarrow> bytes" where
  "wal_image E enc off [] = []"
| "wal_image E enc off (t # ts) = taskBytes E enc off t @ wal_image E enc (off + recordSize t) ts"

definition task_rec :: "nat \<Rightarrow> writeTask \<Rightarrow> wal_rec" where
  "task_rec off t = \<lparr>wt_op = wt_op t, wt_key = wt_key t, wt_val = wt_val t, wt_expiresAt = wt_expiresAt t,
     wt_version = wt_version t, wt_timestamp = wt_timestamp t,
     wr_valueOffset = off + walHeaderSize + length (wt_key t)\<rparr>"

fun wal_recs :: "nat \<Rightarrow> writeTask list \<Rightarrow> wal_rec list" where
  "wal_recs off [] = []"
| "wal_recs off (t # ts) = task_rec off t # wal_recs (off + recordSize t) ts"

text \<open>The tasks whose records lie within the first \<open>n\<close> bytes of the image.\<close>

fun complete :: "nat \<Rightarrow> writeTask list \<Rightarrow> writeTask list" where
  "complete n [] = []"
| "complete n (t # ts) = (if recordSize t \<le> n then t # complete (n - recordSize t) ts else [])"

definition tasksSize :: "writeTask list \<Rightarrow> nat" where
  "tasksSize ts = sum_list (map recordSize ts)"

lemma tasksSize_simps [simp]: "tasksSize [] = 0" "tasksSize (t # ts) = recordSize t + tasksSize ts"
  by (simp_all add: tasksSize_def)

text \<open>A record at offset \<open>off\<close> taken apart: the header fields and the two ciphertexts.\<close>

lemma taskBytes_parts:
  assumes "enc_ok enc" "task_ok t" "off + recordSize t < 2 ^ 63"
  obtains k v kLen vLen where
    "taskBytes E enc off t = [wt_op t] @ put_u32 kLen @ put_u32 vLen @ put_u64 (wt_expiresAt t) @
       put_u64 (wt_version t) @ put_u64 (wt_timestamp t) @
       put_u32 (crc32 (crcInput (wt_op t) kLen vLen (wt_expiresAt t) (wt_version t) (wt_timestamp t) k v)) @ k @ v"
    "length k = length (wt_key t)" "length v = length (wt_val t)" "unat kLen = length k" "unat vLen = length v"
    "cryptIf E enc (off + walHeaderSize) (wt_key t) = Some k" "cryptIf E enc (off + walHeaderSize) k = Some (wt_key t)"
    "cryptIf E enc (off + walHeaderSize + length (wt_key t)) (wt_val t) = Some v"
    "cryptIf E enc (off + walHeaderSize + length (wt_key t)) v = Some (wt_val t)"
proof -
  have lt: "off + walHeaderSize < 2 ^ 63" "off + walHeaderSize + length (wt_key t) < 2 ^ 63"
    using assms(3) by (simp_all add: recordSize_def)
  obtain k where k: "cryptIf E enc (off + walHeaderSize) (wt_key t) = Some k" "length k = length (wt_key t)"
    "cryptIf E enc (off + walHeaderSize) k = Some (wt_key t)" using cryptIf_inverse [OF assms(1) lt(1)] by metis
  obtain v where v: "cryptIf E enc (off + walHeaderSize + length (wt_key t)) (wt_val t) = Some v"
    "length v = length (wt_val t)" "cryptIf E enc (off + walHeaderSize + length (wt_key t)) v = Some (wt_val t)"
    using cryptIf_inverse [OF assms(1) lt(2)] by metis
  have "unat (of_nat (length k) :: u32) = length k" "unat (of_nat (length v) :: u32) = length v"
    using assms(2) k(2) v(2) unat_of_nat_small [where 'a = 32] by (simp_all add: task_ok_def)
  then show ?thesis using that [of "of_nat (length k)" "of_nat (length v)" k v] k v
    by (simp add: taskBytes_def encodeRecord_def Let_def)
qed

lemma length_taskBytes:
  assumes "enc_ok enc" "task_ok t" "off + recordSize t < 2 ^ 63"
  shows "length (taskBytes E enc off t) = recordSize t"
  by (rule taskBytes_parts [OF assms, of E]) (simp add: recordSize_def walHeaderSize_def)

lemma length_wal_image:
  assumes "enc_ok enc" "\<forall>t \<in> set ts. task_ok t" "off + tasksSize ts < 2 ^ 63"
  shows "length (wal_image E enc off ts) = tasksSize ts"
  using assms(2,3)
proof (induction ts arbitrary: off)
  case (Cons t ts)
  have "length (taskBytes E enc off t) = recordSize t" using Cons.prems by (intro length_taskBytes assms(1)) auto
  then show ?case using Cons by (simp add: add.assoc)
qed simp

lemma wal_image_append: "wal_image E enc off (ts @ us) = wal_image E enc off ts @ wal_image E enc (off + tasksSize ts) us"
  by (induction ts arbitrary: off) (auto simp: ac_simps)

section \<open>Recovery\<close>

lemma header_fields:
  fixes c :: u32
  assumes "r = [op] @ put_u32 kLen @ put_u32 vLen @ put_u64 ex @ put_u64 ver @ put_u64 ts @ put_u32 c @ s"
  shows "r ! 0 = op" "get_u32 (drop (Suc 0) r) = kLen" "get_u32 (drop 5 r) = vLen" "get_u64 (drop 9 r) = ex"
    "get_u64 (drop 17 r) = ver" "get_u64 (drop 25 r) = ts" "get_u32 (drop 33 r) = c" "drop 37 r = s"
    "length r = 37 + length s"
  unfolding assms by (simp_all add: drop_Cons')

lemma recoverLoop_record:
  assumes ok: "enc_ok enc" "task_ok t" "pos + recordSize t < 2 ^ 63" and fits: "pos + recordSize t \<le> fsize"
  shows "recoverLoop E enc fsize pos (taskBytes E enc pos t @ rest) =
     (let (recs, e) = recoverLoop E enc fsize (pos + recordSize t) rest in (task_rec pos t # recs, e))"
proof -
  obtain k v kLen vLen where parts:
    "taskBytes E enc pos t = [wt_op t] @ put_u32 kLen @ put_u32 vLen @ put_u64 (wt_expiresAt t) @
       put_u64 (wt_version t) @ put_u64 (wt_timestamp t) @
       put_u32 (crc32 (crcInput (wt_op t) kLen vLen (wt_expiresAt t) (wt_version t) (wt_timestamp t) k v)) @ k @ v"
    and len: "length k = length (wt_key t)" "length v = length (wt_val t)" "unat kLen = length k" "unat vLen = length v"
    and dec: "cryptIf E enc (pos + walHeaderSize) k = Some (wt_key t)"
      "cryptIf E enc (pos + walHeaderSize + length (wt_key t)) v = Some (wt_val t)"
    using taskBytes_parts [OF ok, of E] by metis
  define r where "r = taskBytes E enc pos t @ rest"
  have "r = [wt_op t] @ put_u32 kLen @ put_u32 vLen @ put_u64 (wt_expiresAt t) @
       put_u64 (wt_version t) @ put_u64 (wt_timestamp t) @
       put_u32 (crc32 (crcInput (wt_op t) kLen vLen (wt_expiresAt t) (wt_version t) (wt_timestamp t) k v)) @ k @ v @ rest"
    by (simp add: r_def parts)
  note hdr = header_fields [OF this]
  have sz: "walHeaderSize + length (wt_key t) + length (wt_val t) = recordSize t" by (simp add: recordSize_def)
  have len': "unat kLen = length (wt_key t)" "unat vLen = length (wt_val t)" using len by simp_all
  have d: "drop (37 + m) r = drop m (k @ v @ rest)" for m using hdr(8) by (metis add.commute drop_drop)
  have body: "bslice walHeaderSize (walHeaderSize + length (wt_key t)) r = k"
    "bslice (walHeaderSize + length (wt_key t)) (recordSize t) r = v" "drop (recordSize t) r = rest"
    using d [of 0] d [of "length k"] d [of "length k + length v"] len
    by (simp_all add: bslice_def walHeaderSize_def recordSize_def ac_simps)
  have "\<not> length r < walHeaderSize" "\<not> length r < recordSize t"
    using hdr(9) len by (simp_all add: walHeaderSize_def recordSize_def)
  then show ?thesis
    unfolding r_def [symmetric] using fits dec
    by (subst recoverLoop.simps)
      (simp add: hdr(1-7) Let_def len' sz body task_rec_def split: prod.split)
qed

text \<open>A proper prefix of a record stops the loop: the header is incomplete, or it announces more than the
  file holds.\<close>

lemma recoverLoop_torn:
  assumes ok: "enc_ok enc" "task_ok t" "pos + recordSize t < 2 ^ 63" and n: "n < recordSize t"
  shows "recoverLoop E enc (pos + n) pos (take n (taskBytes E enc pos t)) = ([], pos)"
proof (cases "n < walHeaderSize")
  case True
  then show ?thesis by (subst recoverLoop.simps) simp
next
  case False
  obtain k v kLen vLen where parts:
    "taskBytes E enc pos t = [wt_op t] @ put_u32 kLen @ put_u32 vLen @ put_u64 (wt_expiresAt t) @
       put_u64 (wt_version t) @ put_u64 (wt_timestamp t) @
       put_u32 (crc32 (crcInput (wt_op t) kLen vLen (wt_expiresAt t) (wt_version t) (wt_timestamp t) k v)) @ k @ v"
    and len: "length k = length (wt_key t)" "length v = length (wt_val t)" "unat kLen = length k" "unat vLen = length v"
    using taskBytes_parts [OF ok, of E] by metis
  define r where "r = take n (taskBytes E enc pos t)"
  have "n = 37 + (n - 37)" using False by (simp add: walHeaderSize_def)
  then have "r = [wt_op t] @ put_u32 kLen @ put_u32 vLen @ put_u64 (wt_expiresAt t) @
       put_u64 (wt_version t) @ put_u64 (wt_timestamp t) @
       put_u32 (crc32 (crcInput (wt_op t) kLen vLen (wt_expiresAt t) (wt_version t) (wt_timestamp t) k v)) @ take (n - 37) (k @ v)"
    unfolding r_def parts by (simp add: take_Cons' del: append_assoc)
  note hdr = header_fields [OF this]
  have "n < walHeaderSize + unat kLen + unat vLen" using n len by (simp add: recordSize_def)
  then show ?thesis
    unfolding r_def [symmetric] by (subst recoverLoop.simps) (simp add: hdr(2,3) Let_def)
qed

lemma recoverLoop_prefix:
  assumes "enc_ok enc" "\<forall>t \<in> set ts. task_ok t" "pos + tasksSize ts < 2 ^ 63" "n \<le> tasksSize ts"
  shows "recoverLoop E enc (pos + n) pos (take n (wal_image E enc pos ts)) =
     (wal_recs pos (complete n ts), pos + tasksSize (complete n ts))"
  using assms(2-)
proof (induction ts arbitrary: pos n)
  case Nil
  then show ?case by (subst recoverLoop.simps) (simp add: walHeaderSize_def)
next
  case (Cons t ts)
  have ok: "task_ok t" "pos + recordSize t < 2 ^ 63" using Cons.prems by auto
  note len = length_taskBytes [OF assms(1) ok]
  show ?case
  proof (cases "recordSize t \<le> n")
    case True
    have "recoverLoop E enc (pos + recordSize t + (n - recordSize t)) (pos + recordSize t)
        (take (n - recordSize t) (wal_image E enc (pos + recordSize t) ts)) =
      (wal_recs (pos + recordSize t) (complete (n - recordSize t) ts),
       pos + recordSize t + tasksSize (complete (n - recordSize t) ts))"
      using Cons.prems by (intro Cons.IH) auto
    then show ?thesis
      using True len recoverLoop_record [OF assms(1) ok, of "pos + n" E] by (simp add: add.assoc)
  next
    case False
    then show ?thesis using len recoverLoop_torn [OF assms(1) ok, of n E] by simp
  qed
qed

lemma complete_all: "complete (tasksSize ts) ts = ts"
  by (induction ts) auto

lemma prefix_complete: "prefix (complete n ts) ts"
  by (induction n ts rule: complete.induct) auto

lemma tasksSize_complete: "tasksSize (complete n ts) \<le> n"
  by (induction n ts rule: complete.induct) auto

section \<open>Writing extends the image\<close>

definition walHdr :: "(u64 \<times> bytes \<times> bytes) option \<Rightarrow> bytes" where
  "walHdr enc = (case enc of None \<Rightarrow> []
     | Some (keyID, _, baseIV) \<Rightarrow> put_u32 walFileMagic @ put_u32 walFileVersion @ put_u64 keyID @ fileIV baseIV)"

definition wal_rep :: "(bytes \<Rightarrow> bytes \<Rightarrow> bytes) \<Rightarrow> wal \<Rightarrow> writeTask list \<Rightarrow> bool" where
  "wal_rep E w ts \<longleftrightarrow>
     w_file w @ w_buf w = walHdr (w_enc w) @ wal_image E (w_enc w) (w_fileHdr w) ts \<and>
     w_fileHdr w = length (walHdr (w_enc w)) \<and> w_currentOffset w = w_fileHdr w + tasksSize ts \<and>
     enc_ok (w_enc w) \<and> (\<forall>t \<in> set ts. task_ok t) \<and> w_currentOffset w < 2 ^ 63"

lemma Flush_fields [simp]:
  "w_file (Flush w) = w_file w @ w_buf w" "w_buf (Flush w) = []" "w_enc (Flush w) = w_enc w"
  "w_currentOffset (Flush w) = w_currentOffset w" "w_fileHdr (Flush w) = w_fileHdr w"
  "w_syncOnWrite (Flush w) = w_syncOnWrite w" "w_closed (Flush w) = w_closed w"
  by (simp_all add: Flush_def)

lemma wal_rep_Flush [simp]: "wal_rep E (Flush w) ts \<longleftrightarrow> wal_rep E w ts"
  by (simp add: wal_rep_def)

lemma writeDirect_rep:
  assumes "wal_rep E w ts" "task_ok t" "w_currentOffset w + recordSize t < 2 ^ 63"
  shows "\<exists>b. writeDirect E t (w_currentOffset w) w = Some (w\<lparr>w_buf := w_buf w @ b\<rparr>) \<and>
    wal_rep E (w\<lparr>w_buf := w_buf w @ b, w_currentOffset := w_currentOffset w + recordSize t\<rparr>) (ts @ [t])"
proof -
  have ok: "enc_ok (w_enc w)" using assms(1) by (simp add: wal_rep_def)
  let ?b = "taskBytes E (w_enc w) (w_currentOffset w) t"
  have "writeDirect E t (w_currentOffset w) w = Some (w\<lparr>w_buf := w_buf w @ ?b\<rparr>)"
    by (rule taskBytes_parts [OF ok assms(2,3), of E]) (simp add: writeDirect_def taskBytes_def Let_def)
  moreover have "wal_rep E (w\<lparr>w_buf := w_buf w @ ?b, w_currentOffset := w_currentOffset w + recordSize t\<rparr>) (ts @ [t])"
    using assms by (simp add: wal_rep_def wal_image_append tasksSize_def flip: append_assoc)
  ultimately show ?thesis by blast
qed

definition valueOffsets :: "nat \<Rightarrow> writeTask list \<Rightarrow> nat list" where
  "valueOffsets off ts = map wr_valueOffset (wal_recs off ts)"

lemma groupWrite_rep:
  assumes "wal_rep E w ts" "\<forall>t \<in> set batch. task_ok t" "w_currentOffset w + tasksSize batch < 2 ^ 63"
  shows "\<exists>b. groupWrite E batch False w = (valueOffsets (w_currentOffset w) batch, False,
      w\<lparr>w_buf := w_buf w @ b, w_currentOffset := w_currentOffset w + tasksSize batch\<rparr>) \<and>
    wal_rep E (w\<lparr>w_buf := w_buf w @ b, w_currentOffset := w_currentOffset w + tasksSize batch\<rparr>) (ts @ batch)"
  using assms
proof (induction batch arbitrary: w ts)
  case Nil
  then show ?case by (auto simp: valueOffsets_def intro!: exI [of _ "[]"])
next
  case (Cons t batch)
  obtain b where b: "writeDirect E t (w_currentOffset w) w = Some (w\<lparr>w_buf := w_buf w @ b\<rparr>)"
    "wal_rep E (w\<lparr>w_buf := w_buf w @ b, w_currentOffset := w_currentOffset w + recordSize t\<rparr>) (ts @ [t])"
    using writeDirect_rep [OF Cons.prems(1)] Cons.prems(2,3) by fastforce
  from Cons.IH [OF b(2)] Cons.prems(2,3) obtain b' where
    "groupWrite E batch False (w\<lparr>w_buf := w_buf w @ b, w_currentOffset := w_currentOffset w + recordSize t\<rparr>) =
      (valueOffsets (w_currentOffset w + recordSize t) batch, False,
       w\<lparr>w_buf := w_buf w @ b @ b', w_currentOffset := w_currentOffset w + tasksSize (t # batch)\<rparr>)"
    "wal_rep E (w\<lparr>w_buf := w_buf w @ b @ b', w_currentOffset := w_currentOffset w + tasksSize (t # batch)\<rparr>) (ts @ t # batch)"
    by (auto simp: add.assoc)
  then show ?case using b(1)
    by (intro exI [of _ "b @ b'"]) (simp add: Let_def valueOffsets_def task_rec_def)
qed

section \<open>Opening, writing, crashing, recovering\<close>

fun writeAll :: "(bytes \<Rightarrow> bytes \<Rightarrow> bytes) \<Rightarrow> writeTask list \<Rightarrow> wal \<Rightarrow> (wal_error + nat) list \<times> wal" where
  "writeAll E [] w = ([], w)"
| "writeAll E (t # ts) w =
     (let (r, w1) = WriteVersionWithTimestamp E True t w; (rs, w2) = writeAll E ts w1 in (r # rs, w2))"

lemma WriteVersion_rep:
  assumes "wal_rep E w ts" "task_ok t" "w_currentOffset w + recordSize t < 2 ^ 63" "\<not> w_closed w"
  shows "\<exists>w'. WriteVersionWithTimestamp E True t w = (Inr (w_currentOffset w + walHeaderSize + length (wt_key t)), w') \<and>
    wal_rep E w' (ts @ [t]) \<and> w_buf w' = [] \<and> w_enc w' = w_enc w \<and> w_fileHdr w' = w_fileHdr w \<and> \<not> w_closed w' \<and>
    w_currentOffset w' = w_currentOffset w + recordSize t"
proof -
  obtain b where b: "writeDirect E t (w_currentOffset w) w = Some (w\<lparr>w_buf := w_buf w @ b\<rparr>)"
    "wal_rep E (w\<lparr>w_buf := w_buf w @ b, w_currentOffset := w_currentOffset w + recordSize t\<rparr>) (ts @ [t])"
    using writeDirect_rep [OF assms(1-3)] by blast
  let ?w = "Flush (w\<lparr>w_buf := w_buf w @ b, w_currentOffset := w_currentOffset w + recordSize t\<rparr>)"
  have "WriteVersionWithTimestamp E True t w = (Inr (w_currentOffset w + walHeaderSize + length (wt_key t)), ?w)"
    using b(1) assms(4) by (simp add: WriteVersionWithTimestamp_def groupCommit_def writeLocked_def Let_def)
  moreover have "wal_rep E ?w (ts @ [t])" using b(2) by simp
  ultimately show ?thesis using assms(4) by auto
qed

lemma writeAll_rep:
  assumes "wal_rep E w ts" "\<forall>t \<in> set us. task_ok t" "w_currentOffset w + tasksSize us < 2 ^ 63" "\<not> w_closed w"
  shows "\<exists>w'. writeAll E us w = (map Inr (valueOffsets (w_currentOffset w) us), w') \<and> wal_rep E w' (ts @ us) \<and>
    w_enc w' = w_enc w \<and> w_fileHdr w' = w_fileHdr w \<and> (us \<noteq> [] \<longrightarrow> w_buf w' = [])"
  using assms
proof (induction us arbitrary: w ts)
  case Nil
  then show ?case by (simp add: valueOffsets_def)
next
  case (Cons t us)
  obtain w1 where w1: "WriteVersionWithTimestamp E True t w = (Inr (w_currentOffset w + walHeaderSize + length (wt_key t)), w1)"
    "wal_rep E w1 (ts @ [t])" "w_buf w1 = []" "w_enc w1 = w_enc w" "w_fileHdr w1 = w_fileHdr w" "\<not> w_closed w1"
    "w_currentOffset w1 = w_currentOffset w + recordSize t"
    using WriteVersion_rep [OF Cons.prems(1)] Cons.prems by fastforce
  have "w_currentOffset w1 + tasksSize us < 2 ^ 63" using w1(7) Cons.prems(3) by (simp add: add.assoc)
  from Cons.IH [OF w1(2) _ this w1(6)] Cons.prems(2) obtain w' where
    "writeAll E us w1 = (map Inr (valueOffsets (w_currentOffset w1) us), w')" "wal_rep E w' (ts @ t # us)"
    "w_enc w' = w_enc w1" "w_fileHdr w' = w_fileHdr w1" "us \<noteq> [] \<longrightarrow> w_buf w' = []" by auto
  moreover have "us = [] \<longrightarrow> w_buf w' = []" using calculation(1) w1(3) by auto
  ultimately show ?case using w1 by (auto simp: valueOffsets_def task_rec_def)
qed

lemma OpenWal_fresh:
  assumes "reg_ok reg" "length baseIV = 16" "OpenWal reg baseIV sync [] = Inr w"
  shows "wal_rep E w []" "w_enc w = freshEnc reg baseIV" "\<not> w_closed w" "w_fileHdr w \<le> 32"
  using assms
  by (auto simp: OpenWal_def wal_rep_def walHdr_def freshEnc_def enc_ok_def reg_ok_def fileIV_def
      walEncHeaderSize_def Let_def split: option.splits prod.splits)

lemma image_head:
  assumes "enc_ok enc" "\<forall>t \<in> set ts. task_ok t" "ts \<noteq> []"
  shows "wal_image E enc off ts ! 0 \<in> {OpPut, OpDelete} \<and> wal_image E enc off ts \<noteq> []"
  using assms by (cases ts) (auto simp: taskBytes_def encodeRecord_def Let_def task_ok_def)

lemma OpenWal_reopen:
  assumes reg: "reg_ok reg" "length baseIV = 16" and ok: "\<forall>t \<in> set ts. task_ok t"
    and c: "contents = walHdr (freshEnc reg baseIV) @ take m (wal_image E (freshEnc reg baseIV) off ts)"
  shows "OpenWal reg iv sync contents =
     Inr \<lparr>w_file = contents, w_buf = [], w_syncOnWrite = sync, w_currentOffset = length contents,
          w_enc = freshEnc reg baseIV, w_fileHdr = length (walHdr (freshEnc reg baseIV)), w_closed = False\<rparr>"
proof (cases reg)
  case None
  then have enc: "freshEnc reg baseIV = None" by (simp add: freshEnc_def)
  have "get_u32 contents \<noteq> walFileMagic" if "8 \<le> length contents"
  proof
    assume "get_u32 contents = walFileMagic"
    then have "put_u32 walFileMagic = take 4 contents"
      using that put_get_u32 [of "take 4 contents"] by (simp add: get_u32_def)
    moreover have "put_u32 walFileMagic ! 0 = 0x57" by (simp add: put_u32_def walFileMagic_def)
    ultimately have "contents ! 0 = 0x57" by simp
    moreover have "ts \<noteq> []" using that c enc by (auto simp: walHdr_def)
    ultimately show False
      using image_head [of None ts E off] ok c enc that
      by (auto simp: walHdr_def enc_ok_def OpPut_def OpDelete_def)
  qed
  then show ?thesis using None enc by (auto simp: OpenWal_def Let_def walHdr_def)
next
  case (Some kr)
  obtain k where k: "ActiveKey kr = k" by blast
  have c': "contents = put_u32 walFileMagic @ put_u32 walFileVersion @ put_u64 (fst k) @ baseIV @
      take m (wal_image E (freshEnc reg baseIV) off ts)"
    using c Some k reg(2) by (simp add: freshEnc_def walHdr_def fileIV_def)
  then have "get_u32 contents = walFileMagic" "get_u32 (drop 4 contents) = walFileVersion"
    "get_u64 (drop 8 contents) = fst k" "bslice 16 32 contents = baseIV" "32 \<le> length contents" "contents \<noteq> []"
    using reg(2) by (auto simp: bslice_def)
  then show ?thesis
    using Some k reg
    by (simp add: OpenWal_def Let_def walEncHeaderSize_def reg_ok_def freshEnc_def walHdr_def fileIV_def)
qed

lemma take_hdr: "length h \<le> n \<Longrightarrow> take n (h @ xs) = h @ take (n - length h) xs"
  by simp



section \<open>Reading values back\<close>

lemma ReadValue_rep:
  assumes rep: "wal_rep E w (us @ t # vs)" and buf: "w_buf w = []"
  shows "ReadValue E w (w_fileHdr w + tasksSize us + walHeaderSize + length (wt_key t)) (length (wt_val t)) = Inr (wt_val t)"
proof (cases "wt_val t = []")
  case True
  then show ?thesis by (simp add: ReadValue_def)
next
  case False
  let ?off = "w_fileHdr w + tasksSize us"
  have ok: "enc_ok (w_enc w)" "\<forall>x \<in> set us. task_ok x" "task_ok t" "?off + recordSize t < 2 ^ 63" "?off < 2 ^ 63"
    using rep by (auto simp: wal_rep_def tasksSize_def)
  obtain k v kLen vLen where parts:
    "taskBytes E (w_enc w) ?off t = [wt_op t] @ put_u32 kLen @ put_u32 vLen @ put_u64 (wt_expiresAt t) @
       put_u64 (wt_version t) @ put_u64 (wt_timestamp t) @
       put_u32 (crc32 (crcInput (wt_op t) kLen vLen (wt_expiresAt t) (wt_version t) (wt_timestamp t) k v)) @ k @ v"
    and len: "length k = length (wt_key t)" "length v = length (wt_val t)"
    and dec: "cryptIf E (w_enc w) (?off + walHeaderSize + length (wt_key t)) v = Some (wt_val t)"
    using taskBytes_parts [OF ok(1,3,4), of E] by metis
  have "length (wal_image E (w_enc w) (w_fileHdr w) us) = tasksSize us"
    using length_wal_image [OF ok(1,2)] ok(5) by simp
  then obtain pre post where fl: "w_file w = pre @ v @ post"
    and pre: "length pre = ?off + walHeaderSize + length (wt_key t)"
    using rep buf len(1) that [of "walHdr (w_enc w) @ wal_image E (w_enc w) (w_fileHdr w) us @ [wt_op t] @
        put_u32 kLen @ put_u32 vLen @ put_u64 (wt_expiresAt t) @ put_u64 (wt_version t) @ put_u64 (wt_timestamp t) @
        put_u32 (crc32 (crcInput (wt_op t) kLen vLen (wt_expiresAt t) (wt_version t) (wt_timestamp t) k v)) @ k"]
    by (fastforce simp: wal_rep_def wal_image_append parts walHeaderSize_def)
  have "bslice (?off + walHeaderSize + length (wt_key t)) (?off + walHeaderSize + length (wt_key t) + length (wt_val t)) (w_file w) = v"
    unfolding pre [symmetric] len(2) [symmetric] fl by (rule bslice_append_exact)
  then show ?thesis using False dec len(2) pre by (simp add: ReadValue_def fl)
qed

lemma nth_valueOffsets:
  "i < length ts \<Longrightarrow> valueOffsets off ts ! i = off + tasksSize (take i ts) + walHeaderSize + length (wt_key (ts ! i))"
  by (induction ts arbitrary: off i) (auto simp: valueOffsets_def task_rec_def nth_Cons' less_Suc_eq_0_disj)

lemma length_valueOffsets [simp]: "length (valueOffsets off ts) = length ts"
  by (induction ts arbitrary: off) (auto simp: valueOffsets_def)

text \<open>C24: Every write to a fresh log returns the offset of its value: when all writes are done, reading the value's
  length at the returned offset gives the value, also in an encrypted log.\<close>

theorem wal_read_back:
  assumes reg: "reg_ok reg" "length baseIV = 16"
    and ok: "\<forall>t \<in> set ts. task_ok t" and bound: "32 + tasksSize ts < 2 ^ 63"
    and opened: "OpenWal reg baseIV sync [] = Inr w" and written: "writeAll E ts w = (rs, w1)" and i: "i < length ts"
  shows "length rs = length ts \<and> (\<exists>off. rs ! i = Inr off \<and> ReadValue E w1 off (length (wt_val (ts ! i))) = Inr (wt_val (ts ! i)))"
proof -
  note fresh = OpenWal_fresh [OF reg opened]
  have off: "w_currentOffset w = w_fileHdr w" using fresh(1) [of E] by (simp add: wal_rep_def)
  have "w_currentOffset w + tasksSize ts < 2 ^ 63" using bound fresh(4) off by simp
  from writeAll_rep [OF fresh(1) [of E] ok this fresh(3)] obtain w' where w':
    "writeAll E ts w = (map Inr (valueOffsets (w_currentOffset w) ts), w')" "wal_rep E w' ([] @ ts)"
    "w_fileHdr w' = w_fileHdr w" "ts \<noteq> [] \<longrightarrow> w_buf w' = []" by blast
  have w1: "rs = map Inr (valueOffsets (w_fileHdr w) ts)" "wal_rep E w1 ts" "w_fileHdr w1 = w_fileHdr w" "w_buf w1 = []"
    using w' written off i by (simp_all add: length_greater_0_conv [symmetric] del: length_greater_0_conv)
  have "wal_rep E w1 (take i ts @ ts ! i # drop (Suc i) ts)" using w1(2) i by (simp add: id_take_nth_drop [symmetric])
  from ReadValue_rep [OF this w1(4)] show ?thesis using w1 i by (simp add: nth_valueOffsets)
qed

theorem wal_read_back_witness:
  "\<exists>w rs w1. OpenWal None (replicate 16 0) False [] = Inr w \<and>
     writeAll (\<lambda>_ b. b) [\<lparr>wt_op = 1, wt_key = [7], wt_val = [8, 9], wt_expiresAt = 0, wt_version = 4, wt_timestamp = 0\<rparr>] w = (rs, w1) \<and>
     (\<exists>off. rs ! 0 = Inr off \<and> ReadValue (\<lambda>_ b. b) w1 off 2 = Inr [8, 9])"
proof -
  let ?t = "\<lparr>wt_op = 1, wt_key = [7], wt_val = [8, 9], wt_expiresAt = 0, wt_version = 4, wt_timestamp = 0\<rparr>"
  obtain w where w: "OpenWal None (replicate 16 0) False [] = Inr w" by (simp add: OpenWal_def Let_def)
  obtain rs w1 where w1: "writeAll (\<lambda>_ b. b) [?t] w = (rs, w1)" by fastforce
  have "length rs = length [?t] \<and> (\<exists>off. rs ! 0 = Inr off \<and>
      ReadValue (\<lambda>_ b. b) w1 off (length (wt_val ([?t] ! 0))) = Inr (wt_val ([?t] ! 0)))"
    by (rule wal_read_back [OF _ _ _ _ w w1])
      (simp_all add: reg_ok_def recordSize_def walHeaderSize_def task_ok_def OpPut_def)
  then show ?thesis using w w1 by (auto simp: numeral_2_eq_2)
qed

section \<open>Group commit\<close>

fun seqWrite :: "(bytes \<Rightarrow> bytes \<Rightarrow> bytes) \<Rightarrow> writeTask list \<Rightarrow> wal \<Rightarrow> nat list \<times> wal" where
  "seqWrite E [] w = ([], w)"
| "seqWrite E (t # ts) w =
     (case writeLocked E t w of
        (Inl _, w1) \<Rightarrow> ([], w1)
      | (Inr off, w1) \<Rightarrow> (let (offs, w2) = seqWrite E ts w1 in (off # offs, w2)))"

lemma writeDirect_fields:
  "writeDirect E t off w = map_option (\<lambda>b. w\<lparr>w_buf := w_buf w @ b\<rparr>)
     (case cryptIf E (w_enc w) (off + walHeaderSize) (wt_key t) of None \<Rightarrow> None
      | Some k \<Rightarrow> map_option (encodeRecord t k) (cryptIf E (w_enc w) (off + walHeaderSize + length (wt_key t)) (wt_val t)))"
  by (auto simp: writeDirect_def Let_def split: option.splits)

lemma groupWrite_err [simp]: "groupWrite E ts True w = (replicate (length ts) 0, True, w)"
  by (induction ts) auto

text \<open>What a batch appends depends only on the encryption and the offset, not on what is buffered.\<close>

lemma groupWrite_shift:
  "\<exists>offs err' b c. \<forall>w. w_enc w = enc \<and> w_currentOffset w = off \<longrightarrow>
     groupWrite E ts err w = (offs, err', w\<lparr>w_buf := w_buf w @ b, w_currentOffset := c\<rparr>)"
proof (induction ts arbitrary: err off)
  case Nil
  then show ?case by (intro exI [of _ "[]"] exI [of _ err] exI [of _ off]) auto
next
  case (Cons t ts)
  let ?d = "case cryptIf E enc (off + walHeaderSize) (wt_key t) of None \<Rightarrow> None
      | Some k \<Rightarrow> map_option (encodeRecord t k) (cryptIf E enc (off + walHeaderSize + length (wt_key t)) (wt_val t))"
  obtain offs err' b c where IH: "\<forall>w. w_enc w = enc \<and> w_currentOffset w = off + recordSize t \<longrightarrow>
     groupWrite E ts False w = (offs, err', w\<lparr>w_buf := w_buf w @ b, w_currentOffset := c\<rparr>)"
    using Cons.IH by blast
  show ?case
  proof (cases "err \<or> ?d = None")
    case True
    then show ?thesis
      by (intro exI [of _ "replicate (Suc (length ts)) 0"] exI [of _ True] exI [of _ "[]"] exI [of _ off])
        (auto simp: writeDirect_fields Let_def)
  next
    case False
    then obtain d where d: "?d = Some d" by auto
    then show ?thesis
      using False IH
      by (intro exI [of _ "(off + walHeaderSize + length (wt_key t)) # offs"] exI [of _ err'] exI [of _ "d @ b"] exI [of _ c])
        (auto simp: writeDirect_fields Let_def)
  qed
qed

lemma groupWrite_Flush:
  assumes "groupWrite E ts err w = (offs, err', w1)"
  shows "\<exists>w2. groupWrite E ts err (Flush w) = (offs, err', w2) \<and> Flush w2 = Flush w1"
proof -
  obtain offs2 err2 b c where sh: "\<forall>v. w_enc v = w_enc w \<and> w_currentOffset v = w_currentOffset w \<longrightarrow>
     groupWrite E ts err v = (offs2, err2, v\<lparr>w_buf := w_buf v @ b, w_currentOffset := c\<rparr>)"
    using groupWrite_shift [of "w_enc w" "w_currentOffset w" E ts err] by blast
  then show ?thesis using assms by (auto simp: Flush_def)
qed

lemma groupWrite_seq:
  "ts \<noteq> [] \<Longrightarrow> groupWrite E ts False w = (offs, False, w1) \<Longrightarrow> seqWrite E ts w = (offs, Flush w1)"
proof (induction ts arbitrary: w offs w1)
  case (Cons t ts)
  obtain v where v: "writeDirect E t (w_currentOffset w) w = Some v"
    using Cons.prems(2) by (auto simp: Let_def split: option.splits)
  let ?v = "v\<lparr>w_currentOffset := w_currentOffset w + recordSize t\<rparr>"
  obtain o2 where v2: "groupWrite E ts False ?v = (o2, False, w1)"
    and offs: "offs = (w_currentOffset w + walHeaderSize + length (wt_key t)) # o2"
    using Cons.prems(2) v by (auto simp: Let_def split: prod.splits)
  show ?case
  proof (cases "ts = []")
    case True
    then show ?thesis using v v2 offs by (auto simp: writeLocked_def Let_def)
  next
    case False
    obtain w2 where w2: "groupWrite E ts False (Flush ?v) = (o2, False, w2)" "Flush w2 = Flush w1"
      using groupWrite_Flush [OF v2] by blast
    have "seqWrite E ts (Flush ?v) = (o2, Flush w1)" using Cons.IH [OF False w2(1)] w2(2) by simp
    then show ?thesis using v offs by (simp add: writeLocked_def Let_def)
  qed
qed simp

text \<open>C25: Committing a batch as a group returns the same offsets and leaves the same log as writing its records
  one by one with a flush after each.\<close>

theorem wal_group_commit_sequential:
  assumes "groupWrite E batch False w = (offs, False, w1)" and "batch \<noteq> []"
  shows "groupCommit E True batch w = (map (\<lambda>off. (None, off)) offs, Flush w1) \<and> seqWrite E batch w = (offs, Flush w1)"
  using assms groupWrite_seq by (simp add: groupCommit_def)

theorem wal_group_commit_sequential_witness:
  "groupCommit (\<lambda>_ b. b) True [zeroTask, zeroTask]
      \<lparr>w_file = [], w_buf = [], w_syncOnWrite = True, w_currentOffset = 0, w_enc = None, w_fileHdr = 0, w_closed = False\<rparr> =
    (map (\<lambda>off. (None, off)) (fst (seqWrite (\<lambda>_ b. b) [zeroTask, zeroTask]
      \<lparr>w_file = [], w_buf = [], w_syncOnWrite = True, w_currentOffset = 0, w_enc = None, w_fileHdr = 0, w_closed = False\<rparr>)),
     snd (seqWrite (\<lambda>_ b. b) [zeroTask, zeroTask]
      \<lparr>w_file = [], w_buf = [], w_syncOnWrite = True, w_currentOffset = 0, w_enc = None, w_fileHdr = 0, w_closed = False\<rparr>))"
proof -
  let ?w = "\<lparr>w_file = [], w_buf = [], w_syncOnWrite = True, w_currentOffset = 0, w_enc = None, w_fileHdr = 0, w_closed = False\<rparr>"
  obtain offs w1 where "groupWrite (\<lambda>_ b. b) [zeroTask, zeroTask] False ?w = (offs, False, w1)"
    by (simp add: writeDirect_def cryptIf_def Let_def)
  from wal_group_commit_sequential [OF this] show ?thesis by simp
qed

text \<open>A round that starts while the queue is being closed with fewer than 256 tasks left blocks: the drain loop
  receives zero tasks from the closed channel and sends their offsets on nil channels.\<close>

lemma drain_closed: "length q < n \<Longrightarrow> None \<in> set (fst (drain n True q))"
  by (induction n True q rule: drain.induct) (auto split: prod.splits)

lemma group_commit_blocks_on_close:
  "length q < 255 \<Longrightarrow> \<exists>w'. groupCommitRound E hook True (t # q) w = Blocked w'"
  using drain_closed [of q 255] by (auto simp: groupCommitRound_def Let_def split: prod.splits)

lemma drain_open: "None \<notin> set (fst (drain n False q))"
  by (induction n False q rule: drain.induct) (auto split: prod.splits)

end
