(* ===== verification/Cache.thy ===== *)
theory Cache
  imports Prelude "HOL-Library.AList"
begin

text \<open>
  The sharded LRU cache, \<open>src/cache/lru.go\<close>: a table and a doubly linked list per shard.  List nodes live
  in an explicit store and are addressed by their index, the two sentinels being \<open>0\<close> and \<open>1\<close>; a nil
  pointer is \<open>None\<close>, and following one is a panic, the result \<open>None\<close> of an operation.  The refinement
  shows that a shard behaves as a list of entries ordered by recency.
\<close>

section \<open>Nodes and shards\<close>

record cnode =
  cn_key :: bytes
  cn_val :: bytes
  cn_prev :: "nat option"
  cn_next :: "nat option"

record shard =
  sh_cap :: nat
  sh_tbl :: "(bytes \<times> nat) list"
  sh_nodes :: "cnode list"

definition headPtr :: nat where "headPtr = 0"

definition tailPtr :: nat where "tailPtr = 1"

definition setNext :: "nat \<Rightarrow> nat option \<Rightarrow> cnode list \<Rightarrow> cnode list" where
  "setNext a p ns = ns[a := (ns ! a)\<lparr>cn_next := p\<rparr>]"

definition setPrev :: "nat \<Rightarrow> nat option \<Rightarrow> cnode list \<Rightarrow> cnode list" where
  "setPrev a p ns = ns[a := (ns ! a)\<lparr>cn_prev := p\<rparr>]"

definition pushFront :: "nat \<Rightarrow> cnode list \<Rightarrow> cnode list option" where
  "pushFront n ns =
     (let ns1 = setPrev n (Some headPtr) ns; ns2 = setNext n (cn_next (ns1 ! headPtr)) ns1
      in case cn_next (ns2 ! headPtr) of
           None \<Rightarrow> None
         | Some q \<Rightarrow> Some (setNext headPtr (Some n) (setPrev q (Some n) ns2)))"

definition unlink :: "nat \<Rightarrow> cnode list \<Rightarrow> cnode list option" where
  "unlink n ns =
     (case cn_prev (ns ! n) of
        None \<Rightarrow> None
      | Some p \<Rightarrow>
          (let ns1 = setNext p (cn_next (ns ! n)) ns
           in case cn_next (ns1 ! n) of
                None \<Rightarrow> None
              | Some q \<Rightarrow> Some (setPrev q (cn_prev (ns1 ! n)) ns1)))"

definition promote :: "nat \<Rightarrow> cnode list \<Rightarrow> cnode list option" where
  "promote n ns = Option.bind (unlink n ns) (pushFront n)"

definition evictOldest :: "shard \<Rightarrow> shard option" where
  "evictOldest s =
     (case cn_prev (sh_nodes s ! tailPtr) of
        None \<Rightarrow> None
      | Some victim \<Rightarrow>
          if victim = headPtr then Some s
          else map_option (\<lambda>ns. s\<lparr>sh_nodes := ns, sh_tbl := AList.delete (cn_key (ns ! victim)) (sh_tbl s)\<rparr>)
                 (unlink victim (sh_nodes s)))"

text \<open>\<open>Get\<close> and \<open>Put\<close> after \<open>getShard\<close>.\<close>

definition shard_Get :: "bytes \<Rightarrow> shard \<Rightarrow> (bytes option \<times> shard) option" where
  "shard_Get key s =
     (case map_of (sh_tbl s) key of
        None \<Rightarrow> Some (None, s)
      | Some n \<Rightarrow> map_option (\<lambda>ns. (Some (cn_val (ns ! n)), s\<lparr>sh_nodes := ns\<rparr>)) (promote n (sh_nodes s)))"

definition shard_Put :: "bytes \<Rightarrow> bytes \<Rightarrow> shard \<Rightarrow> shard option" where
  "shard_Put key val s =
     (case map_of (sh_tbl s) key of
        Some n \<Rightarrow>
          (let ns = (sh_nodes s)[n := (sh_nodes s ! n)\<lparr>cn_val := val\<rparr>]
           in map_option (\<lambda>ns'. s\<lparr>sh_nodes := ns'\<rparr>) (promote n ns))
      | None \<Rightarrow>
          (case (if sh_cap s \<le> length (sh_tbl s) then evictOldest s else Some s) of
             None \<Rightarrow> None
           | Some s1 \<Rightarrow>
               (let n = length (sh_nodes s1);
                    ns = sh_nodes s1 @ [\<lparr>cn_key = key, cn_val = val, cn_prev = None, cn_next = None\<rparr>];
                    tbl = AList.update key n (sh_tbl s1)
                in map_option (\<lambda>ns'. s1\<lparr>sh_nodes := ns', sh_tbl := tbl\<rparr>) (pushFront n ns))))"

definition newShard :: "nat \<Rightarrow> shard" where
  "newShard c =
     \<lparr>sh_cap = c, sh_tbl = [],
      sh_nodes = [\<lparr>cn_key = [], cn_val = [], cn_prev = None, cn_next = Some tailPtr\<rparr>,
                  \<lparr>cn_key = [], cn_val = [], cn_prev = Some headPtr, cn_next = None\<rparr>]\<rparr>"

definition NewLRUCache :: "int \<Rightarrow> shard list" where
  "NewLRUCache capacity0 =
     (let capacity = (if capacity0 \<le> 0 then 128 else nat capacity0);
          nShards = (if capacity < 16 then capacity else 16);
          nShards' = (if nShards < 1 then 1 else nShards);
          perShard = (if capacity div nShards' < 1 then 1 else capacity div nShards');
          remainder = capacity mod nShards'
      in map (\<lambda>i. newShard (if i < remainder then perShard + 1 else perShard)) [0..<nShards'])"

definition getShard :: "(bytes \<Rightarrow> u64) \<Rightarrow> shard list \<Rightarrow> bytes \<Rightarrow> nat" where
  "getShard hash c key = unat (hash key mod of_nat (length c))"

definition cache_Get :: "(bytes \<Rightarrow> u64) \<Rightarrow> bytes \<Rightarrow> shard list \<Rightarrow> (bytes option \<times> shard list) option" where
  "cache_Get hash key c =
     (let i = getShard hash c key in map_option (\<lambda>(r, s). (r, c[i := s])) (shard_Get key (c ! i)))"

definition cache_Put :: "(bytes \<Rightarrow> u64) \<Rightarrow> bytes \<Rightarrow> bytes \<Rightarrow> shard list \<Rightarrow> shard list option" where
  "cache_Put hash key val c =
     (let i = getShard hash c key in map_option (\<lambda>s. c[i := s]) (shard_Put key val (c ! i)))"

section \<open>Doubly linked lists in the store\<close>

definition links :: "cnode list \<Rightarrow> nat list \<Rightarrow> bool" where
  "links ns as = successively (\<lambda>a b. cn_next (ns ! a) = Some b \<and> cn_prev (ns ! b) = Some a) as"

lemma links_simps [simp]:
  "links ns []" "links ns [a]"
  "links ns (a # b # as) \<longleftrightarrow> cn_next (ns ! a) = Some b \<and> cn_prev (ns ! b) = Some a \<and> links ns (b # as)"
  by (simp_all add: links_def)

lemma links_append: "links ns (us @ p # vs) \<longleftrightarrow> links ns (us @ [p]) \<and> links ns (p # vs)"
proof (induction us)
  case (Cons u us)
  then show ?case by (cases us) auto
qed simp

text \<open>A list of nodes only depends on the successors of all but the last and the predecessors of all but the
  first of them.\<close>

lemma links_cong:
  assumes "\<forall>a \<in> set (butlast as). cn_next (ns' ! a) = cn_next (ns ! a)"
    and "\<forall>a \<in> set (tl as). cn_prev (ns' ! a) = cn_prev (ns ! a)"
  shows "links ns' as \<longleftrightarrow> links ns as"
  using assms
proof (induction as)
  case (Cons a as)
  then show ?case by (cases as) auto
qed simp

lemma setNext_nth:
  "length (setNext a p ns) = length ns"
  "a < length ns \<Longrightarrow> setNext a p ns ! b = (if b = a then (ns ! a)\<lparr>cn_next := p\<rparr> else ns ! b)"
  by (auto simp: setNext_def nth_list_update)

lemma setPrev_nth:
  "length (setPrev a p ns) = length ns"
  "a < length ns \<Longrightarrow> setPrev a p ns ! b = (if b = a then (ns ! a)\<lparr>cn_prev := p\<rparr> else ns ! b)"
  by (auto simp: setPrev_def nth_list_update)

lemmas set_nth = setNext_nth setPrev_nth

definition same_data :: "cnode list \<Rightarrow> cnode list \<Rightarrow> bool" where
  "same_data ns ns' \<longleftrightarrow> length ns' = length ns \<and> (\<forall>a. cn_key (ns' ! a) = cn_key (ns ! a) \<and> cn_val (ns' ! a) = cn_val (ns ! a))"

lemma same_data_trans: "same_data a b \<Longrightarrow> same_data b c \<Longrightarrow> same_data a c"
  by (simp add: same_data_def)

lemma in_set_tlD: "x \<in> set (tl xs) \<Longrightarrow> x \<in> set xs"
  by (cases xs) auto

lemma unlink_spec:
  assumes "links ns (us @ p # n # q # vs)" "distinct (us @ p # n # q # vs)" "\<forall>a \<in> set (us @ p # n # q # vs). a < length ns"
  shows "\<exists>ns'. unlink n ns = Some ns' \<and> links ns' (us @ p # q # vs) \<and> same_data ns ns'"
proof -
  have l: "links ns (us @ [p])" "links ns (q # vs)" "cn_prev (ns ! n) = Some p" "cn_next (ns ! n) = Some q"
    using assms(1) links_append [of ns us p "n # q # vs"] by auto
  have neq: "p \<noteq> n" "n \<noteq> q" "p \<noteq> q" "p < length ns" "q < length ns" using assms(2,3) by auto
  let ?ns = "setPrev q (Some p) (setNext p (Some q) ns)"
  have "unlink n ns = Some ?ns" using l neq by (simp add: unlink_def Let_def set_nth)
  moreover have "links ?ns (us @ [p])"
    using l(1) assms(2) neq by (subst links_cong [of _ _ ns]) (auto simp: set_nth dest: in_set_tlD)
  moreover have "links ?ns (q # vs)"
    using l(2) assms(2) neq by (subst links_cong [of _ _ ns]) (auto simp: set_nth dest: in_set_butlastD)
  moreover have "cn_next (?ns ! p) = Some q" "cn_prev (?ns ! q) = Some p" using neq by (simp_all add: set_nth)
  ultimately show ?thesis using links_append [of ?ns us p "q # vs"] neq by (auto simp: same_data_def set_nth)
qed

lemma pushFront_spec:
  assumes "links ns (headPtr # q # vs)" "distinct (n # headPtr # q # vs)" "\<forall>a \<in> set (n # headPtr # q # vs). a < length ns"
  shows "\<exists>ns'. pushFront n ns = Some ns' \<and> links ns' (headPtr # n # q # vs) \<and> same_data ns ns'"
proof -
  have l: "links ns (q # vs)" "cn_next (ns ! headPtr) = Some q" using assms(1) by auto
  have neq: "n \<noteq> headPtr" "n \<noteq> q" "headPtr \<noteq> q" "n < length ns" "q < length ns" "headPtr < length ns" using assms(2,3) by auto
  let ?ns = "setNext headPtr (Some n) (setPrev q (Some n) (setNext n (Some q) (setPrev n (Some headPtr) ns)))"
  have "pushFront n ns = Some ?ns" using l neq by (simp add: pushFront_def Let_def set_nth)
  moreover have "links ?ns (q # vs)"
    using l(1) assms(2) neq by (subst links_cong [of _ _ ns]) (auto simp: set_nth dest: in_set_butlastD)
  ultimately show ?thesis using neq by (auto simp: same_data_def set_nth)
qed

lemma unlink_inner:
  assumes "links ns (xs @ n # ys)" "distinct (xs @ n # ys)" "\<forall>a \<in> set (xs @ n # ys). a < length ns" "xs \<noteq> []" "ys \<noteq> []"
  shows "\<exists>ns'. unlink n ns = Some ns' \<and> links ns' (xs @ ys) \<and> same_data ns ns'"
proof -
  obtain us p where xs: "xs = us @ [p]" using assms(4) by (metis rev_exhaust)
  obtain q vs where ys: "ys = q # vs" using assms(5) by (cases ys) auto
  show ?thesis using unlink_spec [of ns us p n q vs] assms(1-3) unfolding xs ys by simp
qed

lemma promote_spec:
  assumes "links ns (headPtr # us @ n # vs @ [tailPtr])" "distinct (headPtr # us @ n # vs @ [tailPtr])"
    "\<forall>a \<in> set (headPtr # us @ n # vs @ [tailPtr]). a < length ns"
  shows "\<exists>ns'. promote n ns = Some ns' \<and> links ns' (headPtr # n # us @ vs @ [tailPtr]) \<and> same_data ns ns'"
proof -
  obtain ns1 where ns1: "unlink n ns = Some ns1" "links ns1 (headPtr # us @ vs @ [tailPtr])" "same_data ns ns1"
    using unlink_inner [of ns "headPtr # us" n "vs @ [tailPtr]"] assms by auto
  obtain q ws where q: "us @ vs @ [tailPtr] = q # ws" by (cases "us @ vs @ [tailPtr]") auto
  have "distinct (n # headPtr # q # ws)" using assms(2) unfolding q [symmetric] by auto
  moreover have "\<forall>a \<in> set (n # headPtr # q # ws). a < length ns1"
    using assms(3) ns1(3) unfolding q [symmetric] by (auto simp: same_data_def)
  ultimately obtain ns' where "pushFront n ns1 = Some ns'" "links ns' (headPtr # n # us @ vs @ [tailPtr])" "same_data ns1 ns'"
    using pushFront_spec [of ns1 q ws n] ns1(2) unfolding q by blast
  then show ?thesis using ns1 same_data_trans by (auto simp: promote_def)
qed

section \<open>A shard is a list ordered by recency\<close>

definition lru_get :: "bytes \<Rightarrow> (bytes \<times> bytes) list \<Rightarrow> bytes option \<times> (bytes \<times> bytes) list" where
  "lru_get k l = (case map_of l k of None \<Rightarrow> (None, l) | Some v \<Rightarrow> (Some v, (k, v) # AList.delete k l))"

definition lru_put :: "nat \<Rightarrow> bytes \<Rightarrow> bytes \<Rightarrow> (bytes \<times> bytes) list \<Rightarrow> (bytes \<times> bytes) list" where
  "lru_put c k v l =
     (k, v) # (if map_of l k \<noteq> None then AList.delete k l else if c \<le> length l then butlast l else l)"

definition sh_wf :: "shard \<Rightarrow> nat list \<Rightarrow> bool" where
  "sh_wf s xs \<longleftrightarrow> links (sh_nodes s) (headPtr # xs @ [tailPtr]) \<and> distinct (headPtr # xs @ [tailPtr]) \<and>
     (\<forall>a \<in> set (headPtr # xs @ [tailPtr]). a < length (sh_nodes s)) \<and>
     distinct (map fst (sh_tbl s)) \<and> set (sh_tbl s) = (\<lambda>a. (cn_key (sh_nodes s ! a), a)) ` set xs \<and>
     distinct (map (\<lambda>a. cn_key (sh_nodes s ! a)) xs) \<and> 0 < sh_cap s \<and> length xs \<le> sh_cap s"

definition sh_list :: "shard \<Rightarrow> nat list \<Rightarrow> (bytes \<times> bytes) list" where
  "sh_list s xs = map (\<lambda>a. (cn_key (sh_nodes s ! a), cn_val (sh_nodes s ! a))) xs"

lemma tbl_lookup: "sh_wf s xs \<Longrightarrow> map_of (sh_tbl s) k = Some a \<longleftrightarrow> a \<in> set xs \<and> cn_key (sh_nodes s ! a) = k"
  by (auto simp: sh_wf_def map_of_eq_Some_iff)

lemma tbl_None: "sh_wf s xs \<Longrightarrow> map_of (sh_tbl s) k = None \<longleftrightarrow> map_of (sh_list s xs) k = None"
  by (force simp: sh_wf_def map_of_eq_None_iff sh_list_def image_image)

lemma tbl_length: "sh_wf s xs \<Longrightarrow> length (sh_tbl s) = length xs"
  by (simp add: sh_wf_def distinct_card [symmetric] distinct_map card_image inj_on_def)

lemma list_split:
  assumes "sh_wf s (us @ n # vs)"
  shows "AList.delete (cn_key (sh_nodes s ! n)) (sh_list s (us @ n # vs)) = sh_list s (us @ vs)"
    "map_of (sh_list s (us @ n # vs)) (cn_key (sh_nodes s ! n)) = Some (cn_val (sh_nodes s ! n))"
proof -
  let ?k = "\<lambda>a. cn_key (sh_nodes s ! a)"
  have d: "distinct (map ?k (us @ n # vs))" using assms unfolding sh_wf_def by blast
  then have "filter (\<lambda>a. ?k n \<noteq> ?k a) us = us" "filter (\<lambda>a. ?k n \<noteq> ?k a) vs = vs"
    by (auto simp: filter_id_conv image_iff)
  then show "AList.delete (?k n) (sh_list s (us @ n # vs)) = sh_list s (us @ vs)"
    by (simp add: AList.delete_eq sh_list_def filter_map comp_def)
  have "distinct (map fst (sh_list s (us @ n # vs)))" using d by (simp add: sh_list_def comp_def)
  then show "map_of (sh_list s (us @ n # vs)) (?k n) = Some (cn_val (sh_nodes s ! n))"
    by (simp only: map_of_eq_Some_iff) (simp add: sh_list_def)
qed

text \<open>Reordering the addresses and rewriting the links keeps a shard well formed.\<close>

lemma sh_wf_relink:
  assumes "sh_wf s xs" "same_data (sh_nodes s) ns" "links ns (headPtr # ys @ [tailPtr])" "mset ys = mset xs"
  shows "sh_wf (s\<lparr>sh_nodes := ns\<rparr>) ys" "sh_list (s\<lparr>sh_nodes := ns\<rparr>) ys = sh_list s ys"
proof -
  have "set ys = set xs" "length ys = length xs" using assms(4) mset_eq_setD mset_eq_length by blast+
  moreover have "distinct ys \<longleftrightarrow> distinct xs" using assms(4) mset_eq_imp_distinct_iff by blast
  moreover have "distinct (map (\<lambda>a. cn_key (sh_nodes s ! a)) ys) \<longleftrightarrow> distinct (map (\<lambda>a. cn_key (sh_nodes s ! a)) xs)"
    using assms(4) by (intro mset_eq_imp_distinct_iff) simp
  ultimately show "sh_wf (s\<lparr>sh_nodes := ns\<rparr>) ys" using assms(1-3) by (simp add: sh_wf_def same_data_def)
  show "sh_list (s\<lparr>sh_nodes := ns\<rparr>) ys = sh_list s ys" using assms(2) by (simp add: sh_list_def same_data_def)
qed

lemma shard_Get_refines:
  assumes wf: "sh_wf s xs"
  shows "\<exists>s' ys. shard_Get k s = Some (fst (lru_get k (sh_list s xs)), s') \<and> sh_wf s' ys \<and>
     sh_list s' ys = snd (lru_get k (sh_list s xs)) \<and> sh_cap s' = sh_cap s"
proof (cases "map_of (sh_tbl s) k")
  case None
  then show ?thesis using tbl_None [OF wf, of k] wf by (auto simp: shard_Get_def lru_get_def)
next
  case (Some n)
  then have n: "n \<in> set xs" "cn_key (sh_nodes s ! n) = k" using tbl_lookup [OF wf] by auto
  then obtain us vs where xs: "xs = us @ n # vs" by (meson split_list)
  have "links (sh_nodes s) (headPtr # us @ n # vs @ [tailPtr])" "distinct (headPtr # us @ n # vs @ [tailPtr])"
    "\<forall>a \<in> set (headPtr # us @ n # vs @ [tailPtr]). a < length (sh_nodes s)"
    using wf unfolding xs sh_wf_def by auto
  from promote_spec [OF this] obtain ns where ns: "promote n (sh_nodes s) = Some ns"
    "links ns (headPtr # n # us @ vs @ [tailPtr])" "same_data (sh_nodes s) ns" by blast
  have "mset (n # us @ vs) = mset xs" by (simp add: xs)
  with sh_wf_relink [OF wf ns(3), of "n # us @ vs"] ns(2)
  have wf': "sh_wf (s\<lparr>sh_nodes := ns\<rparr>) (n # us @ vs)" "sh_list (s\<lparr>sh_nodes := ns\<rparr>) (n # us @ vs) = sh_list s (n # us @ vs)"
    by auto
  have "cn_val (ns ! n) = cn_val (sh_nodes s ! n)" using ns(3) by (simp add: same_data_def)
  then show ?thesis
    using Some ns(1) wf' list_split [of s us n vs] wf n(2) unfolding xs
    by (intro exI [of _ "s\<lparr>sh_nodes := ns\<rparr>"] exI [of _ "n # us @ vs"])
      (auto simp: shard_Get_def lru_get_def sh_list_def)
qed

lemma sh_wf_setval:
  fixes v :: bytes
  assumes wf: "sh_wf s (us @ n # vs)"
  defines "s' \<equiv> s\<lparr>sh_nodes := (sh_nodes s)[n := (sh_nodes s ! n)\<lparr>cn_val := v\<rparr>]\<rparr>"
  shows "sh_wf s' (us @ n # vs)" "sh_list s' (n # us @ vs) = (cn_key (sh_nodes s ! n), v) # sh_list s (us @ vs)"
proof -
  have n: "n < length (sh_nodes s)" "n \<notin> set (us @ vs)" using wf by (auto simp: sh_wf_def)
  have same: "cn_key (sh_nodes s' ! a) = cn_key (sh_nodes s ! a)" "cn_next (sh_nodes s' ! a) = cn_next (sh_nodes s ! a)"
    "cn_prev (sh_nodes s' ! a) = cn_prev (sh_nodes s ! a)" for a
    using n(1) by (auto simp: s'_def nth_list_update)
  have "links (sh_nodes s') (headPtr # (us @ n # vs) @ [tailPtr])"
    using wf same by (subst links_cong [of _ _ "sh_nodes s"]) (auto simp: sh_wf_def)
  then show "sh_wf s' (us @ n # vs)" using wf same by (simp add: sh_wf_def) (simp add: s'_def)
  show "sh_list s' (n # us @ vs) = (cn_key (sh_nodes s ! n), v) # sh_list s (us @ vs)"
    using n by (auto simp: sh_list_def s'_def nth_list_update)
qed

lemma evictOldest_refines:
  assumes wf: "sh_wf s (ys @ [n])"
  shows "\<exists>s'. evictOldest s = Some s' \<and> sh_wf s' ys \<and> sh_list s' ys = sh_list s ys \<and> sh_cap s' = sh_cap s"
proof -
  have l: "links (sh_nodes s) ((headPtr # ys) @ n # [tailPtr])" "distinct ((headPtr # ys) @ n # [tailPtr])"
    "\<forall>a \<in> set ((headPtr # ys) @ n # [tailPtr]). a < length (sh_nodes s)" using wf by (auto simp: sh_wf_def)
  have prev: "cn_prev (sh_nodes s ! tailPtr) = Some n" "n \<noteq> headPtr"
    using l(1,2) links_append [of "sh_nodes s" "headPtr # ys" n "[tailPtr]"] by auto
  obtain ns where ns: "unlink n (sh_nodes s) = Some ns" "links ns (headPtr # ys @ [tailPtr])" "same_data (sh_nodes s) ns"
    using unlink_inner [OF l] by auto
  let ?k = "\<lambda>a. cn_key (sh_nodes s ! a)" and ?s = "s\<lparr>sh_nodes := ns, sh_tbl := AList.delete (cn_key (ns ! n)) (sh_tbl s)\<rparr>"
  have data: "cn_key (ns ! a) = ?k a" "cn_val (ns ! a) = cn_val (sh_nodes s ! a)" "length ns = length (sh_nodes s)" for a
    using ns(3) by (simp_all add: same_data_def)
  have "distinct (map ?k (ys @ [n]))" using wf unfolding sh_wf_def by blast
  then have "\<forall>a \<in> set ys. ?k a \<noteq> ?k n" by (auto simp: image_iff)
  then have "set (AList.delete (?k n) (sh_tbl s)) = (\<lambda>a. (?k a, a)) ` set ys"
    using wf by (auto simp: sh_wf_def AList.delete_eq)
  moreover have "distinct (map fst (AList.delete (?k n) (sh_tbl s)))" using wf by (simp add: sh_wf_def distinct_delete)
  ultimately have "sh_wf ?s ys" using wf ns(2) by (simp add: sh_wf_def data)
  moreover have "evictOldest s = Some ?s" using prev ns(1) by (simp add: evictOldest_def)
  ultimately show ?thesis by (auto simp: sh_list_def data)
qed

lemma update_new: "k \<notin> fst ` set t \<Longrightarrow> AList.update k v t = t @ [(k, v)]"
  by (induction t) auto

lemma push_new:
  fixes v :: bytes
  assumes wf: "sh_wf s ys" and new: "map_of (sh_tbl s) k = None" and room: "length ys < sh_cap s"
  defines "n \<equiv> length (sh_nodes s)" and "ns \<equiv> sh_nodes s @ [\<lparr>cn_key = k, cn_val = v, cn_prev = None, cn_next = None\<rparr>]"
  shows "\<exists>ns'. pushFront n ns = Some ns' \<and> sh_wf (s\<lparr>sh_nodes := ns', sh_tbl := AList.update k n (sh_tbl s)\<rparr>) (n # ys) \<and>
     sh_list (s\<lparr>sh_nodes := ns', sh_tbl := AList.update k n (sh_tbl s)\<rparr>) (n # ys) = (k, v) # sh_list s ys"
proof -
  have bound: "\<forall>a \<in> set (headPtr # ys @ [tailPtr]). a < n" using wf by (simp add: sh_wf_def n_def)
  have old: "ns ! a = sh_nodes s ! a" if "a < n" for a using that by (simp add: ns_def n_def nth_append)
  obtain q ws where q: "ys @ [tailPtr] = q # ws" by (cases "ys @ [tailPtr]") auto
  have "links ns (headPtr # ys @ [tailPtr])"
    using wf old bound by (subst links_cong [of _ _ "sh_nodes s"]) (auto simp: sh_wf_def dest: in_set_butlastD)
  moreover have "distinct (n # headPtr # q # ws)" using wf bound unfolding q [symmetric] by (auto simp: sh_wf_def)
  moreover have "\<forall>a \<in> set (n # headPtr # q # ws). a < length ns"
    using bound unfolding q [symmetric] by (auto simp: ns_def n_def)
  ultimately obtain ns' where ns': "pushFront n ns = Some ns'" "links ns' (headPtr # n # ys @ [tailPtr])" "same_data ns ns'"
    using pushFront_spec [of ns q ws n] unfolding q by blast
  have data: "cn_key (ns' ! a) = cn_key (sh_nodes s ! a)" "cn_val (ns' ! a) = cn_val (sh_nodes s ! a)" if "a \<in> set ys" for a
    using ns'(3) old [of a] bound that by (auto simp: same_data_def)
  have dn: "cn_key (ns' ! n) = k" "cn_val (ns' ! n) = v" "length ns' = Suc n"
    using ns'(3) by (simp_all add: same_data_def ns_def n_def nth_append)
  have fresh: "k \<notin> fst ` set (sh_tbl s)" using new by (simp add: map_of_eq_None_iff)
  then have tbl: "AList.update k n (sh_tbl s) = sh_tbl s @ [(k, n)]" by (rule update_new)
  have cong: "(\<lambda>a. (cn_key (ns' ! a), a)) ` set ys = set (sh_tbl s)"
    "map (\<lambda>a. cn_key (ns' ! a)) ys = map (\<lambda>a. cn_key (sh_nodes s ! a)) ys"
    using wf data by (auto simp: sh_wf_def image_iff)
  have "k \<notin> (\<lambda>a. cn_key (sh_nodes s ! a)) ` set ys" using fresh wf by (auto simp: sh_wf_def image_image)
  moreover have "k \<notin> (\<lambda>a. cn_key (ns' ! a)) ` set ys" using calculation cong(2) by (metis set_map)
  ultimately have "sh_wf (s\<lparr>sh_nodes := ns', sh_tbl := AList.update k n (sh_tbl s)\<rparr>) (n # ys)"
    using wf ns'(2) bound room dn fresh unfolding sh_wf_def tbl by (simp add: cong) auto
  then show ?thesis using ns'(1) data dn by (auto simp: sh_list_def)
qed

lemma shard_Put_refines:
  assumes wf: "sh_wf s xs"
  shows "\<exists>s' ys. shard_Put k v s = Some s' \<and> sh_wf s' ys \<and> sh_list s' ys = lru_put (sh_cap s) k v (sh_list s xs) \<and>
     sh_cap s' = sh_cap s"
proof (cases "map_of (sh_tbl s) k")
  case (Some n)
  then have n: "n \<in> set xs" "cn_key (sh_nodes s ! n) = k" using tbl_lookup [OF wf] by auto
  then obtain us vs where xs: "xs = us @ n # vs" by (meson split_list)
  define s1 where "s1 = s\<lparr>sh_nodes := (sh_nodes s)[n := (sh_nodes s ! n)\<lparr>cn_val := v\<rparr>]\<rparr>"
  note s1 = sh_wf_setval [OF wf [unfolded xs], of v, folded s1_def]
  have "links (sh_nodes s1) (headPtr # us @ n # vs @ [tailPtr])" "distinct (headPtr # us @ n # vs @ [tailPtr])"
    "\<forall>a \<in> set (headPtr # us @ n # vs @ [tailPtr]). a < length (sh_nodes s1)"
    using s1(1) unfolding sh_wf_def by auto
  from promote_spec [OF this] obtain ns where ns: "promote n (sh_nodes s1) = Some ns"
    "links ns (headPtr # n # us @ vs @ [tailPtr])" "same_data (sh_nodes s1) ns" by blast
  have "mset (n # us @ vs) = mset (us @ n # vs)" by simp
  with sh_wf_relink [OF s1(1) ns(3), of "n # us @ vs"] ns(2) s1(2)
  have "sh_wf (s1\<lparr>sh_nodes := ns\<rparr>) (n # us @ vs)" "sh_list (s1\<lparr>sh_nodes := ns\<rparr>) (n # us @ vs) = (k, v) # sh_list s (us @ vs)"
    using n(2) by auto
  moreover have "shard_Put k v s = Some (s1\<lparr>sh_nodes := ns\<rparr>)" using Some ns(1) by (simp add: shard_Put_def s1_def Let_def)
  moreover have "lru_put (sh_cap s) k v (sh_list s xs) = (k, v) # sh_list s (us @ vs)"
    using list_split [OF wf [unfolded xs]] n(2) by (simp add: lru_put_def xs)
  ultimately show ?thesis by (auto simp: s1_def)
next
  case None
  obtain s1 ys where s1: "(if sh_cap s \<le> length (sh_tbl s) then evictOldest s else Some s) = Some s1" "sh_wf s1 ys"
    "sh_cap s1 = sh_cap s" "length ys < sh_cap s" "map_of (sh_tbl s1) k = None"
    "sh_list s1 ys = (if sh_cap s \<le> length (sh_list s xs) then butlast (sh_list s xs) else sh_list s xs)"
  proof (cases "sh_cap s \<le> length xs")
    case True
    then have "xs \<noteq> []" using wf by (auto simp: sh_wf_def)
    then obtain ys n where xs: "xs = ys @ [n]" by (metis rev_exhaust)
    obtain s1 where s1: "evictOldest s = Some s1" "sh_wf s1 ys" "sh_list s1 ys = sh_list s ys" "sh_cap s1 = sh_cap s"
      using evictOldest_refines [OF wf [unfolded xs]] by blast
    have "map_of (sh_list s1 ys) k = None" using None tbl_None [OF wf, of k] s1(3) by (simp add: xs sh_list_def map_of_eq_None_iff)
    then show ?thesis
      using that [of s1 ys] s1 True wf tbl_length [OF wf] tbl_None [OF s1(2), of k] by (simp add: xs sh_list_def sh_wf_def)
  next
    case False
    then show ?thesis using that [of s xs] wf tbl_length [OF wf] None by (simp add: sh_list_def)
  qed
  obtain ns' where "pushFront (length (sh_nodes s1)) (sh_nodes s1 @ [\<lparr>cn_key = k, cn_val = v, cn_prev = None, cn_next = None\<rparr>]) = Some ns'"
    "sh_wf (s1\<lparr>sh_nodes := ns', sh_tbl := AList.update k (length (sh_nodes s1)) (sh_tbl s1)\<rparr>) (length (sh_nodes s1) # ys)"
    "sh_list (s1\<lparr>sh_nodes := ns', sh_tbl := AList.update k (length (sh_nodes s1)) (sh_tbl s1)\<rparr>) (length (sh_nodes s1) # ys) =
       (k, v) # sh_list s1 ys"
    using push_new [OF s1(2,5), of v] s1(3,4) by auto
  moreover have "map_of (sh_list s xs) k = None" using None tbl_None [OF wf] by simp
  ultimately show ?thesis using None s1 by (auto simp: shard_Put_def Let_def lru_put_def)
qed

section \<open>The sharded cache\<close>

datatype cop = CGet bytes | CPut bytes bytes

fun cop_key :: "cop \<Rightarrow> bytes" where
  "cop_key (CGet k) = k"
| "cop_key (CPut k v) = k"

fun cache_op :: "(bytes \<Rightarrow> u64) \<Rightarrow> cop \<Rightarrow> shard list \<Rightarrow> (bytes option \<times> shard list) option" where
  "cache_op hash (CGet k) c = cache_Get hash k c"
| "cache_op hash (CPut k v) c = map_option (\<lambda>c'. (None, c')) (cache_Put hash k v c)"

fun cache_run :: "(bytes \<Rightarrow> u64) \<Rightarrow> cop list \<Rightarrow> shard list \<Rightarrow> (bytes option list \<times> shard list) option" where
  "cache_run hash [] c = Some ([], c)"
| "cache_run hash (p # ps) c =
     (case cache_op hash p c of
        None \<Rightarrow> None
      | Some (r, c1) \<Rightarrow> map_option (\<lambda>(rs, c2). (r # rs, c2)) (cache_run hash ps c1))"

text \<open>The specification: a capacity and a recency list per shard.\<close>

type_synonym acache = "(nat \<times> (bytes \<times> bytes) list) list"

fun spec_shard :: "cop \<Rightarrow> nat \<times> (bytes \<times> bytes) list \<Rightarrow> bytes option \<times> nat \<times> (bytes \<times> bytes) list" where
  "spec_shard (CGet k) (c, l) = (fst (lru_get k l), c, snd (lru_get k l))"
| "spec_shard (CPut k v) (c, l) = (None, c, lru_put c k v l)"

definition spec_op :: "(bytes \<Rightarrow> u64) \<Rightarrow> cop \<Rightarrow> acache \<Rightarrow> bytes option \<times> acache" where
  "spec_op hash p a =
     (let i = unat (hash (cop_key p) mod of_nat (length a)); (r, x) = spec_shard p (a ! i) in (r, a[i := x]))"

fun spec_run :: "(bytes \<Rightarrow> u64) \<Rightarrow> cop list \<Rightarrow> acache \<Rightarrow> bytes option list \<times> acache" where
  "spec_run hash [] a = ([], a)"
| "spec_run hash (p # ps) a =
     (let (r, a1) = spec_op hash p a; (rs, a2) = spec_run hash ps a1 in (r # rs, a2))"

definition shard_rel :: "shard \<Rightarrow> nat \<times> (bytes \<times> bytes) list \<Rightarrow> bool" where
  "shard_rel s x \<longleftrightarrow> fst x = sh_cap s \<and> (\<exists>xs. sh_wf s xs \<and> sh_list s xs = snd x)"

definition cache_rel :: "shard list \<Rightarrow> acache \<Rightarrow> bool" where
  "cache_rel c a \<longleftrightarrow> list_all2 shard_rel c a \<and> 0 < length c \<and> length c < 2 ^ 64"

lemma cache_op_refines:
  assumes rel: "cache_rel c a"
  shows "\<exists>c'. cache_op hash p c = Some (fst (spec_op hash p a), c') \<and> cache_rel c' (snd (spec_op hash p a)) \<and>
     map sh_cap c' = map sh_cap c"
proof -
  let ?i = "unat (hash (cop_key p) mod of_nat (length a))"
  have len: "length c = length a" "0 < length a" "length a < 2 ^ 64"
    using rel by (auto simp: cache_rel_def dest: list_all2_lengthD)
  have i: "?i < length a" using len by (simp add: unat_mod_distrib unat_of_nat_small)
  obtain cap l where ai: "a ! ?i = (cap, l)" by fastforce
  have "shard_rel (c ! ?i) (a ! ?i)" using rel i len(1) by (simp add: cache_rel_def list_all2_nthD)
  then obtain xs where xs: "sh_wf (c ! ?i) xs" "sh_list (c ! ?i) xs = l" "sh_cap (c ! ?i) = cap" by (auto simp: shard_rel_def ai)
  have upd: "cache_rel (c[?i := s']) (a[?i := (cap, l')]) \<and> map sh_cap (c[?i := s']) = map sh_cap c"
    if "sh_wf s' ys" "sh_list s' ys = l'" "sh_cap s' = cap" for s' ys l'
  proof -
    have "shard_rel s' (cap, l')" using that by (auto simp: shard_rel_def)
    then have "list_all2 shard_rel (c[?i := s']) (a[?i := (cap, l')])"
      using rel by (simp add: cache_rel_def list_all2_update_cong)
    moreover have "map sh_cap (c[?i := s']) = map sh_cap c"
      using that(3) xs(3) i len(1) by (intro nth_equalityI) (auto simp: nth_list_update)
    ultimately show ?thesis using rel by (simp add: cache_rel_def)
  qed
  show ?thesis
  proof (cases p)
    case (CGet k)
    obtain s' ys where g: "shard_Get k (c ! ?i) = Some (fst (lru_get k l), s')" "sh_wf s' ys"
      "sh_list s' ys = snd (lru_get k l)" "sh_cap s' = cap"
      using shard_Get_refines [OF xs(1), of k] xs(2,3) by auto
    then show ?thesis using upd [OF g(2-4)] CGet ai len(1) by (auto simp: cache_Get_def getShard_def spec_op_def Let_def)
  next
    case (CPut k v)
    obtain s' ys where g: "shard_Put k v (c ! ?i) = Some s'" "sh_wf s' ys" "sh_list s' ys = lru_put cap k v l" "sh_cap s' = cap"
      using shard_Put_refines [OF xs(1), of k v] xs(2,3) by auto
    then show ?thesis using upd [OF g(2-4)] CPut ai len(1) by (auto simp: cache_Put_def getShard_def spec_op_def Let_def)
  qed
qed

lemma cache_run_refines:
  assumes "cache_rel c a"
  shows "\<exists>c'. cache_run hash ps c = Some (fst (spec_run hash ps a), c') \<and> cache_rel c' (snd (spec_run hash ps a)) \<and>
     map sh_cap c' = map sh_cap c"
  using assms
proof (induction ps arbitrary: c a)
  case (Cons p ps)
  obtain c1 where c1: "cache_op hash p c = Some (fst (spec_op hash p a), c1)" "cache_rel c1 (snd (spec_op hash p a))"
    "map sh_cap c1 = map sh_cap c"
    using cache_op_refines [OF Cons.prems] by blast
  from Cons.IH [OF c1(2)] show ?case using c1 by (auto simp: Let_def split: prod.splits)
qed auto

lemma newShard_wf: "0 < c \<Longrightarrow> sh_wf (newShard c) []"
  by (simp add: sh_wf_def newShard_def headPtr_def tailPtr_def)

lemma sum_spread: "sum_list (map (\<lambda>i. if i < r then p + 1 else p) [0..<n]) = n * p + min r n"
  by (induction n) (auto simp: min_def)

lemma sh_cap_newShard [simp]: "sh_cap (newShard c) = c"
  by (simp add: newShard_def)

lemma NewLRUCache_shape:
  obtains n p r where "0 < n" "n \<le> 16" "0 < p" "r < n" "n * p + r = (if capacity \<le> 0 then 128 else nat capacity)"
    "NewLRUCache capacity = map (\<lambda>i. newShard (if i < r then p + 1 else p)) [0..<n]"
proof -
  define c where "c = (if capacity \<le> 0 then 128 else nat capacity)"
  define n where "n = (if c < 16 then c else 16)"
  have n: "0 < n" "n \<le> 16" "n \<le> c" by (auto simp: n_def c_def)
  then have "0 < c div n" by (simp add: div_greater_zero_iff)
  then have "NewLRUCache capacity = map (\<lambda>i. newShard (if i < c mod n then c div n + 1 else c div n)) [0..<n]"
    using n(1) unfolding NewLRUCache_def Let_def c_def [symmetric] n_def [symmetric] by simp
  then show ?thesis using that [of n "c div n" "c mod n"] n \<open>0 < c div n\<close> by (simp add: c_def)
qed

lemma NewLRUCache_rel:
  "cache_rel (NewLRUCache capacity) (map (\<lambda>s. (sh_cap s, [])) (NewLRUCache capacity))"
proof -
  obtain n p r where shape: "0 < n" "n \<le> 16" "0 < p"
    "NewLRUCache capacity = map (\<lambda>i. newShard (if i < r then p + 1 else p)) [0..<n]"
    by (rule NewLRUCache_shape)
  have "shard_rel (newShard c) (c, [])" if "0 < c" for c
    using newShard_wf [OF that] by (auto simp: shard_rel_def sh_list_def intro!: exI [of _ "[]"])
  then show ?thesis using shape(1-3) unfolding shape(4) cache_rel_def by (auto simp: list_all2_conv_all_nth)
qed

lemma NewLRUCache_caps:
  "sum_list (map sh_cap (NewLRUCache capacity)) = (if capacity \<le> 0 then 128 else nat capacity)"
proof -
  obtain n p r where shape: "r < n" "n * p + r = (if capacity \<le> 0 then 128 else nat capacity)"
    "NewLRUCache capacity = map (\<lambda>i. newShard (if i < r then p + 1 else p)) [0..<n]"
    by (rule NewLRUCache_shape)
  then show ?thesis by (simp add: comp_def sum_spread min_def)
qed

text \<open>C28: Every sequence of \<open>Get\<close> and \<open>Put\<close> on a new cache runs without following a nil pointer and returns
  what one recency list per shard returns: a hit moves its entry to the front, a put of a new key into a full
  shard drops the least recently used entry.\<close>

theorem lru_cache_refines:
  "\<exists>c. cache_run hash ps (NewLRUCache capacity) =
     Some (fst (spec_run hash ps (map (\<lambda>s. (sh_cap s, [])) (NewLRUCache capacity))), c)"
  using cache_run_refines [OF NewLRUCache_rel] by blast


end
