(* ===== verification/Vlog.thy ===== *)
theory Vlog
  imports Crypto
begin

text \<open>
  The value log, \<open>src/vlog/vlog.go\<close>: segment files with a header and CRC-protected entries, rotation,
  reads by value pointer under reference counts, deferred removal, recovery of a segment and the discard
  statistics.  Segment objects live in a store indexed by their file id; \<open>vl_listed\<close> holds the keys of the
  Go map, so that a segment taken out of the map can still be pinned by a reader.  A segment is its file
  contents and the bytes in its buffered writer; whether the handle is open does not matter to its contents.
\<close>

section \<open>Entries and pointers\<close>

definition segmentMagic :: u32 where "segmentMagic = 0x564C4F47"

definition segmentVersion :: u32 where "segmentVersion = 1"

definition segmentVersionEncrypt :: u32 where "segmentVersionEncrypt = 2"

definition segmentHeaderSize :: nat where "segmentHeaderSize = 8"

definition encSegmentHeaderSize :: nat where "encSegmentHeaderSize = 32"

definition entryHeaderSize :: nat where "entryHeaderSize = 17"

record ValueEntry =
  ve_op :: byte
  ve_key :: bytes
  ve_value :: bytes
  ve_expiresAt :: i64

record ValuePointer =
  vp_fid :: u32
  vp_offset :: u64
  vp_size :: u32

definition EncodePointer :: "ValuePointer \<Rightarrow> bytes" where
  "EncodePointer vp = [1] @ put_u32 (vp_fid vp) @ put_u64 (vp_offset vp) @ put_u32 (vp_size vp)"

definition DecodeValuePointer :: "bytes \<Rightarrow> ValuePointer" where
  "DecodeValuePointer b = \<lparr>vp_fid = get_u32 (bslice 1 5 b), vp_offset = get_u64 (bslice 5 13 b), vp_size = get_u32 (bslice 13 17 b)\<rparr>"

section \<open>Segments\<close>

record segment =
  s_fid :: u32
  s_file :: bytes
  s_buf :: bytes
  s_offset :: nat
  s_maxSize :: nat
  s_closed :: bool
  s_writeClosed :: bool
  s_refs :: int
  s_removePending :: bool
  s_removed :: bool
  s_enc :: "(u64 \<times> bytes \<times> bytes) option"

datatype vlog_error = VErrClosed | VErrHeader | VErrNoRegistry | VErrKey crypto_error | VErrCrypt | VErrRead
  | VErrMagic | ErrSegmentNotFound | VErrDeleteActive

definition seg_flush :: "segment \<Rightarrow> segment" where
  "seg_flush s = s\<lparr>s_file := s_file s @ s_buf s, s_buf := []\<rparr>"

definition seg_close :: "segment \<Rightarrow> segment" where
  "seg_close s = (if s_closed s then s else (seg_flush s)\<lparr>s_closed := True, s_writeClosed := True\<rparr>)"

definition closeForWrite :: "segment \<Rightarrow> segment" where
  "closeForWrite s = (if s_writeClosed s then s else (seg_flush s)\<lparr>s_writeClosed := True\<rparr>)"

definition removeFile :: "segment \<Rightarrow> segment" where
  "removeFile s = (if s_removed s then s else (seg_close (s\<lparr>s_removed := True\<rparr>)))"

definition IncrRef :: "segment \<Rightarrow> segment" where
  "IncrRef s = s\<lparr>s_refs := s_refs s + 1\<rparr>"

definition DecrRef :: "segment \<Rightarrow> segment" where
  "DecrRef s =
     (let s1 = s\<lparr>s_refs := s_refs s - 1\<rparr>
      in if s_refs s1 = 0 \<and> s_removePending s1 then removeFile s1 else s1)"

definition markRemove :: "segment \<Rightarrow> segment" where
  "markRemove s = (let s1 = s\<lparr>s_removePending := True\<rparr> in if 0 < s_refs s1 then s1 else removeFile s1)"

definition openSegment :: "registry option \<Rightarrow> bytes \<Rightarrow> u32 \<Rightarrow> nat \<Rightarrow> bytes \<Rightarrow> vlog_error + segment" where
  "openSegment reg baseIV fid maxSize contents =
     (let s = \<lparr>s_fid = fid, s_file = contents, s_buf = [], s_offset = length contents, s_maxSize = maxSize,
               s_closed = False, s_writeClosed = False, s_refs = 0, s_removePending = False, s_removed = False,
               s_enc = None\<rparr>
      in if contents = [] then
           (case reg of
              Some kr \<Rightarrow>
                (let (keyID, key) = ActiveKey kr
                 in Inr (s\<lparr>s_buf := put_u32 segmentMagic @ put_u32 segmentVersionEncrypt @ put_u64 keyID @
                        take 16 baseIV @ replicate (16 - length baseIV) 0,
                      s_enc := Some (keyID, key, baseIV), s_offset := encSegmentHeaderSize\<rparr>))
            | None \<Rightarrow>
                Inr (s\<lparr>s_buf := put_u32 segmentMagic @ put_u32 segmentVersion, s_offset := segmentHeaderSize\<rparr>))
         else if length contents < segmentHeaderSize then Inl VErrHeader
         else if get_u32 contents = segmentMagic \<and> get_u32 (drop 4 contents) = segmentVersionEncrypt then
           (if length contents < encSegmentHeaderSize then Inl VErrHeader
            else case reg of
              None \<Rightarrow> Inl VErrNoRegistry
            | Some kr \<Rightarrow>
                (case GetKey kr (get_u64 (drop 8 contents)) of
                   Inl e \<Rightarrow> Inl (VErrKey e)
                 | Inr key \<Rightarrow> Inr (s\<lparr>s_enc := Some (get_u64 (drop 8 contents), key, bslice 16 32 contents)\<rparr>)))
         else Inr s)"

definition entryCrcInput :: "byte \<Rightarrow> u32 \<Rightarrow> u32 \<Rightarrow> i64 \<Rightarrow> bytes \<Rightarrow> bytes \<Rightarrow> bytes" where
  "entryCrcInput op kLen vLen expAt key val = [op] @ put_u32 kLen @ put_u32 vLen @ put_u64 expAt @ key @ val"

definition encodeEntry :: "ValueEntry \<Rightarrow> bytes \<Rightarrow> bytes" where
  "encodeEntry e val =
     (let kLen = of_nat (length (ve_key e)); vLen = of_nat (length val)
      in [ve_op e] @ put_u32 kLen @ put_u32 vLen @ put_u64 (ve_expiresAt e) @ ve_key e @ val @
         put_u32 (crc32 (entryCrcInput (ve_op e) kLen vLen (ve_expiresAt e) (ve_key e) val)))"

definition writeEntry :: "(bytes \<Rightarrow> bytes \<Rightarrow> bytes) \<Rightarrow> ValueEntry \<Rightarrow> segment \<Rightarrow> (vlog_error + nat) \<times> segment" where
  "writeEntry E e s =
     (if s_closed s \<or> s_writeClosed s then (Inl VErrClosed, s)
      else (let valueOffset = s_offset s + entryHeaderSize + length (ve_key e)
            in case cryptIf E (s_enc s) valueOffset (ve_value e) of
                 None \<Rightarrow> (Inl VErrCrypt, s)
               | Some val \<Rightarrow>
                   (Inr valueOffset,
                    s\<lparr>s_buf := s_buf s @ encodeEntry e val,
                      s_offset := s_offset s + (entryHeaderSize + length (ve_key e) + length val + 4)\<rparr>)))"

definition readValue :: "(bytes \<Rightarrow> bytes \<Rightarrow> bytes) \<Rightarrow> nat \<Rightarrow> nat \<Rightarrow> segment \<Rightarrow> (vlog_error + bytes) \<times> segment" where
  "readValue E offset sz s =
     (if sz = 0 then (Inr [], s)
      else if s_closed s then (Inl VErrClosed, s)
      else (let s1 = (if s_writeClosed s then s else seg_flush s)
            in if length (s_file s1) < offset + sz then (Inl VErrRead, s1)
               else case cryptIf E (s_enc s1) offset (bslice offset (offset + sz) (s_file s1)) of
                 None \<Rightarrow> (Inl VErrCrypt, s1)
               | Some v \<Rightarrow> (Inr v, s1)))"

text \<open>The loop of \<open>Recover\<close> over the entries of a segment: the entries handed to the callback with their value
  offsets, as long as it returns nil.\<close>

function recoverEntries :: "(bytes \<Rightarrow> bytes \<Rightarrow> bytes) \<Rightarrow> (u64 \<times> bytes \<times> bytes) option \<Rightarrow> nat \<Rightarrow> nat \<Rightarrow> bytes \<Rightarrow> (ValueEntry \<times> nat) list" where
  "recoverEntries E enc segSize offset rest =
     (if length rest < entryHeaderSize then []
      else (let op = rest ! 0; kLen = get_u32 (drop 1 rest); vLen = get_u32 (drop 5 rest); expAt = get_u64 (drop 9 rest);
                key = bslice entryHeaderSize (entryHeaderSize + unat kLen) rest;
                val = bslice (entryHeaderSize + unat kLen) (entryHeaderSize + unat kLen + unat vLen) rest;
                size = entryHeaderSize + unat kLen + unat vLen + 4;
                valueOffset = offset + entryHeaderSize + unat kLen
            in if segSize < offset + size then []
               else if length rest < size then []
               else if crc32 (entryCrcInput op kLen vLen expAt key val) \<noteq> get_u32 (drop (size - 4) rest) then []
               else case cryptIf E enc valueOffset val of
                 None \<Rightarrow> []
               | Some plain \<Rightarrow>
                   (\<lparr>ve_op = op, ve_key = key, ve_value = plain, ve_expiresAt = expAt\<rparr>, valueOffset) #
                     recoverEntries E enc segSize (offset + size) (drop size rest)))"
  by pat_completeness auto
termination
  by (relation "measure (\<lambda>(_, _, _, _, rest). length rest)") (auto simp: entryHeaderSize_def)

declare recoverEntries.simps [simp del]

section \<open>The value log\<close>

record vlog =
  vl_store :: "(u32 \<times> segment) list"
  vl_listed :: "u32 list"
  vl_left :: "(u32 \<times> bytes) list"
  vl_maxSize :: nat
  vl_reg :: "registry option"
  vl_nextFid :: u32
  vl_active :: u32

definition leftFile :: "(u32 \<times> bytes) list \<Rightarrow> u32 \<Rightarrow> bytes" where
  "leftFile dir fid = (case map_of dir fid of None \<Rightarrow> [] | Some c \<Rightarrow> c)"

text \<open>The directory is given by the ids and contents of its segment files; \<open>iv\<close> draws the base IV of a new
  segment.  A file that does not open is skipped and stays behind in \<open>vl_left\<close>.\<close>

fun discover :: "registry option \<Rightarrow> (u32 \<Rightarrow> bytes) \<Rightarrow> nat \<Rightarrow> (u32 \<times> bytes) list \<Rightarrow> vlog \<times> u32 \<Rightarrow> vlog \<times> u32" where
  "discover reg iv maxSize [] acc = acc"
| "discover reg iv maxSize ((fid, c) # files) (vl, maxFid) =
     (case openSegment reg (iv fid) fid maxSize c of
        Inl _ \<Rightarrow> discover reg iv maxSize files (vl\<lparr>vl_left := (fid, c) # vl_left vl\<rparr>, maxFid)
      | Inr seg \<Rightarrow>
          discover reg iv maxSize files
            (vl\<lparr>vl_store := AList.update fid (closeForWrite seg) (vl_store vl), vl_listed := fid # vl_listed vl\<rparr>,
             if maxFid < fid then fid else maxFid))"

definition openWithMaxSize :: "registry option \<Rightarrow> (u32 \<Rightarrow> bytes) \<Rightarrow> nat \<Rightarrow> (u32 \<times> bytes) list \<Rightarrow> vlog_error + vlog" where
  "openWithMaxSize reg iv maxSize dir =
     (let (vl, maxFid) = discover reg iv maxSize dir
            (\<lparr>vl_store = [], vl_listed = [], vl_left = [], vl_maxSize = maxSize, vl_reg = reg, vl_nextFid = 0, vl_active = 0\<rparr>, 0);
          nextFid = maxFid + 1
      in case openSegment reg (iv nextFid) nextFid maxSize (leftFile (vl_left vl) nextFid) of
           Inl e \<Rightarrow> Inl e
         | Inr active \<Rightarrow>
             Inr (vl\<lparr>vl_nextFid := nextFid, vl_active := nextFid,
                  vl_store := AList.update nextFid active (vl_store vl), vl_listed := nextFid # vl_listed vl\<rparr>))"

definition setSeg :: "u32 \<Rightarrow> segment \<Rightarrow> vlog \<Rightarrow> vlog" where
  "setSeg fid s vl = vl\<lparr>vl_store := AList.update fid s (vl_store vl)\<rparr>"

definition rotateLocked :: "(u32 \<Rightarrow> bytes) \<Rightarrow> vlog \<Rightarrow> vlog_error option \<times> vlog" where
  "rotateLocked iv vl =
     (case map_of (vl_store vl) (vl_active vl) of
        None \<Rightarrow> (Some VErrClosed, vl)
      | Some old \<Rightarrow>
          (let vl1 = (setSeg (vl_active vl) (seg_flush old) vl)\<lparr>vl_nextFid := vl_nextFid vl + 1\<rparr>; fid = vl_nextFid vl1
           in case openSegment (vl_reg vl) (iv fid) fid (vl_maxSize vl) (leftFile (vl_left vl) fid) of
                Inl e \<Rightarrow> (Some e, vl1)
              | Inr active \<Rightarrow>
                  (None, setSeg (vl_active vl) (closeForWrite (seg_flush old))
                           ((setSeg fid active vl1)\<lparr>vl_listed := fid # vl_listed vl1, vl_active := fid\<rparr>))))"

definition appendActive :: "(bytes \<Rightarrow> bytes \<Rightarrow> bytes) \<Rightarrow> ValueEntry \<Rightarrow> vlog \<Rightarrow> (vlog_error + ValuePointer) \<times> vlog" where
  "appendActive E e vl =
     (case map_of (vl_store vl) (vl_active vl) of
        None \<Rightarrow> (Inl VErrClosed, vl)
      | Some active \<Rightarrow>
          (case writeEntry E e active of
             (Inl err, s) \<Rightarrow> (Inl err, setSeg (vl_active vl) s vl)
           | (Inr off, s) \<Rightarrow>
               (Inr \<lparr>vp_fid = s_fid active, vp_offset = of_nat off, vp_size = of_nat (length (ve_value e))\<rparr>,
                setSeg (vl_active vl) s vl)))"

definition VWrite :: "(bytes \<Rightarrow> bytes \<Rightarrow> bytes) \<Rightarrow> (u32 \<Rightarrow> bytes) \<Rightarrow> ValueEntry \<Rightarrow> vlog \<Rightarrow> (vlog_error + ValuePointer) \<times> vlog" where
  "VWrite E iv e vl =
     (case map_of (vl_store vl) (vl_active vl) of
        None \<Rightarrow> (Inl VErrClosed, vl)
      | Some active \<Rightarrow>
          if s_maxSize active \<le> s_offset active then
            (case rotateLocked iv vl of
               (Some err, vl1) \<Rightarrow> (Inl err, vl1)
             | (None, vl1) \<Rightarrow> appendActive E e vl1)
          else appendActive E e vl)"

definition VSync :: "vlog \<Rightarrow> vlog" where
  "VSync vl =
     (case map_of (vl_store vl) (vl_active vl) of None \<Rightarrow> vl | Some s \<Rightarrow> setSeg (vl_active vl) (seg_flush s) vl)"

text \<open>\<open>ReadValue\<close> in its three parts: pinning the segment, reading, releasing it.\<close>

definition pinSegment :: "u32 \<Rightarrow> vlog \<Rightarrow> vlog option" where
  "pinSegment fid vl =
     (if fid \<in> set (vl_listed vl) then map_option (\<lambda>s. setSeg fid (IncrRef s) vl) (map_of (vl_store vl) fid) else None)"

definition unpinSegment :: "u32 \<Rightarrow> vlog \<Rightarrow> vlog" where
  "unpinSegment fid vl =
     (case map_of (vl_store vl) fid of None \<Rightarrow> vl | Some s \<Rightarrow> setSeg fid (DecrRef s) vl)"

definition readPinned :: "(bytes \<Rightarrow> bytes \<Rightarrow> bytes) \<Rightarrow> ValuePointer \<Rightarrow> vlog \<Rightarrow> (vlog_error + bytes) \<times> vlog" where
  "readPinned E vp vl =
     (case map_of (vl_store vl) (vp_fid vp) of
        None \<Rightarrow> (Inl ErrSegmentNotFound, vl)
      | Some s \<Rightarrow> (let (r, s') = readValue E (unat (vp_offset vp)) (unat (vp_size vp)) s in (r, setSeg (vp_fid vp) s' vl)))"

definition VReadValue :: "(bytes \<Rightarrow> bytes \<Rightarrow> bytes) \<Rightarrow> ValuePointer \<Rightarrow> vlog \<Rightarrow> (vlog_error + bytes) \<times> vlog" where
  "VReadValue E vp vl =
     (if vp_size vp = 0 then (Inr [], vl)
      else case pinSegment (vp_fid vp) vl of
        None \<Rightarrow> (Inl ErrSegmentNotFound, vl)
      | Some vl1 \<Rightarrow> (let (r, vl2) = readPinned E vp vl1 in (r, unpinSegment (vp_fid vp) vl2)))"

definition ActiveFid :: "vlog \<Rightarrow> u32" where
  "ActiveFid vl = vl_active vl"

definition VRecover :: "(bytes \<Rightarrow> bytes \<Rightarrow> bytes) \<Rightarrow> u32 \<Rightarrow> vlog \<Rightarrow> (vlog_error + (ValueEntry \<times> nat) list) \<times> vlog" where
  "VRecover E fid vl =
     (if fid \<notin> set (vl_listed vl) then (Inl ErrSegmentNotFound, vl)
      else case map_of (vl_store vl) fid of
        None \<Rightarrow> (Inl ErrSegmentNotFound, vl)
      | Some s0 \<Rightarrow>
          (let s = (if s_writeClosed s0 then s0 else seg_flush s0); f = s_file s; vl1 = setSeg fid s vl;
               offset = (if s_enc s = None then segmentHeaderSize else encSegmentHeaderSize)
           in if f = [] then (Inr [], vl1)
              else if length f < segmentHeaderSize then (Inl VErrRead, vl1)
              else if get_u32 f \<noteq> segmentMagic then (Inl VErrMagic, vl1)
              else if length f < offset then (Inl VErrRead, vl1)
              else (Inr (recoverEntries E (s_enc s) (length f) offset (drop offset f)), vl1)))"

definition VClose :: "vlog \<Rightarrow> vlog" where
  "VClose vl =
     vl\<lparr>vl_store := map (\<lambda>(fid, s). (fid, if fid \<in> set (vl_listed vl) then seg_close s else s)) (vl_store vl), vl_listed := []\<rparr>"

definition DeleteSegment :: "u32 \<Rightarrow> vlog \<Rightarrow> vlog_error option \<times> vlog" where
  "DeleteSegment fid vl =
     (if vl_active vl = fid then (Some VErrDeleteActive, vl)
      else if fid \<notin> set (vl_listed vl) then (None, vl)
      else case map_of (vl_store vl) fid of
        None \<Rightarrow> (None, vl)
      | Some s \<Rightarrow> (None, (setSeg fid (markRemove s) vl)\<lparr>vl_listed := removeAll fid (vl_listed vl)\<rparr>))"

section \<open>Discard statistics\<close>

type_synonym discardStats = "(u32 \<times> i64) list"

definition ds_Get :: "discardStats \<Rightarrow> u32 \<Rightarrow> i64" where
  "ds_Get ds fid = (case map_of ds fid of None \<Rightarrow> 0 | Some d \<Rightarrow> d)"

definition AddDiscard :: "u32 \<Rightarrow> i64 \<Rightarrow> discardStats \<Rightarrow> discardStats" where
  "AddDiscard fid sz ds = AList.update fid (ds_Get ds fid + sz) ds"

definition ds_Delete :: "u32 \<Rightarrow> discardStats \<Rightarrow> discardStats" where
  "ds_Delete fid ds = AList.delete fid ds"

text \<open>The loop over the map, in the order of the list.\<close>

definition BestCandidate :: "discardStats \<Rightarrow> u32 \<times> i64" where
  "BestCandidate ds = foldl (\<lambda>(fid, stale) (f, d). if sint stale < sint d then (f, d) else (fid, stale)) (0, 0) ds"

text \<open>\<open>Save\<close> returns the new contents of the file, given the old ones.\<close>

definition ds_Save :: "discardStats \<Rightarrow> bytes option \<Rightarrow> bytes option" where
  "ds_Save ds old = (if ds = [] then old else Some (concat (map (\<lambda>(fid, d). put_u32 fid @ put_u64 d) ds)))"

fun ds_load :: "nat \<Rightarrow> bytes \<Rightarrow> discardStats \<Rightarrow> discardStats" where
  "ds_load 0 data ds = ds"
| "ds_load (Suc n) data ds =
     (let fid = get_u32 data; disc = get_u64 (drop 4 data)
      in ds_load n (drop 12 data) (if 0 < sint disc then AList.update fid disc ds else ds))"

definition ds_Load :: "bytes option \<Rightarrow> discardStats \<Rightarrow> discardStats" where
  "ds_Load f ds = (case f of None \<Rightarrow> ds | Some data \<Rightarrow> ds_load (length data div 12) data ds)"

end
