(* ===== verification/Vlog_Correct.thy ===== *)
theory Vlog_Correct
  imports Vlog
begin

text \<open>
  What the value log guarantees: a pointer returned by a write reads its value back through rotations,
  deletions of other segments and encryption; a deleted segment stays readable for the readers that pinned
  it and is removed with the last of them; recovery lists the entries of a segment in write order.
\<close>

section \<open>The image of a segment\<close>

definition entry_ok :: "ValueEntry \<Rightarrow> bool" where
  "entry_ok e \<longleftrightarrow> length (ve_key e) < 2 ^ 32 \<and> length (ve_value e) < 2 ^ 32"

definition entrySize :: "ValueEntry \<Rightarrow> nat" where
  "entrySize e = entryHeaderSize + length (ve_key e) + length (ve_value e) + 4"

definition entryBytes :: "(bytes \<Rightarrow> bytes \<Rightarrow> bytes) \<Rightarrow> (u64 \<times> bytes \<times> bytes) option \<Rightarrow> nat \<Rightarrow> ValueEntry \<Rightarrow> bytes" where
  "entryBytes E enc off e = encodeEntry e (the (cryptIf E enc (off + entryHeaderSize + length (ve_key e)) (ve_value e)))"

fun seg_image :: "(bytes \<Rightarrow> bytes \<Rightarrow> bytes) \<Rightarrow> (u64 \<times> bytes \<times> bytes) option \<Rightarrow> nat \<Rightarrow> ValueEntry list \<Rightarrow> bytes" where
  "seg_image E enc off [] = []"
| "seg_image E enc off (e # es) = entryBytes E enc off e @ seg_image E enc (off + entrySize e) es"

definition entriesSize :: "ValueEntry list \<Rightarrow> nat" where
  "entriesSize es = sum_list (map entrySize es)"

lemma entriesSize_simps [simp]:
  "entriesSize [] = 0" "entriesSize (e # es) = entrySize e + entriesSize es"
  "entriesSize (es @ fs) = entriesSize es + entriesSize fs"
  by (simp_all add: entriesSize_def)

fun seg_entries :: "nat \<Rightarrow> ValueEntry list \<Rightarrow> (ValueEntry \<times> nat) list" where
  "seg_entries off [] = []"
| "seg_entries off (e # es) = (e, off + entryHeaderSize + length (ve_key e)) # seg_entries (off + entrySize e) es"

fun completeEntries :: "nat \<Rightarrow> ValueEntry list \<Rightarrow> ValueEntry list" where
  "completeEntries n [] = []"
| "completeEntries n (e # es) = (if entrySize e \<le> n then e # completeEntries (n - entrySize e) es else [])"

lemma entryBytes_parts:
  assumes "enc_ok enc" "entry_ok e" "off + entrySize e < 2 ^ 63"
  obtains v kLen vLen where
    "entryBytes E enc off e = [ve_op e] @ put_u32 kLen @ put_u32 vLen @ put_u64 (ve_expiresAt e) @ ve_key e @ v @
       put_u32 (crc32 (entryCrcInput (ve_op e) kLen vLen (ve_expiresAt e) (ve_key e) v))"
    "length v = length (ve_value e)" "unat kLen = length (ve_key e)" "unat vLen = length v"
    "cryptIf E enc (off + entryHeaderSize + length (ve_key e)) (ve_value e) = Some v"
    "cryptIf E enc (off + entryHeaderSize + length (ve_key e)) v = Some (ve_value e)"
proof -
  have "off + entryHeaderSize + length (ve_key e) < 2 ^ 63" using assms(3) by (simp add: entrySize_def)
  then obtain v where v: "cryptIf E enc (off + entryHeaderSize + length (ve_key e)) (ve_value e) = Some v"
    "length v = length (ve_value e)" "cryptIf E enc (off + entryHeaderSize + length (ve_key e)) v = Some (ve_value e)"
    using cryptIf_inverse [OF assms(1)] by metis
  have "unat (of_nat (length (ve_key e)) :: u32) = length (ve_key e)" "unat (of_nat (length v) :: u32) = length v"
    using assms(2) v(2) unat_of_nat_small [where 'a = 32] by (simp_all add: entry_ok_def)
  then show ?thesis using that [of "of_nat (length (ve_key e))" "of_nat (length v)" v] v
    by (simp add: entryBytes_def encodeEntry_def Let_def)
qed

lemma length_entryBytes:
  assumes "enc_ok enc" "entry_ok e" "off + entrySize e < 2 ^ 63"
  shows "length (entryBytes E enc off e) = entrySize e"
  by (rule entryBytes_parts [OF assms, of E]) (simp add: entrySize_def entryHeaderSize_def)

lemma length_seg_image:
  assumes "enc_ok enc" "\<forall>e \<in> set es. entry_ok e" "off + entriesSize es < 2 ^ 63"
  shows "length (seg_image E enc off es) = entriesSize es"
  using assms(2,3)
proof (induction es arbitrary: off)
  case (Cons e es)
  have "length (entryBytes E enc off e) = entrySize e" using Cons.prems by (intro length_entryBytes assms(1)) auto
  then show ?case using Cons by (simp add: add.assoc)
qed simp

lemma seg_image_append: "seg_image E enc off (es @ fs) = seg_image E enc off es @ seg_image E enc (off + entriesSize es) fs"
  by (induction es arbitrary: off) (auto simp: ac_simps)

section \<open>Recovery of a segment\<close>

lemma entry_fields:
  assumes "r = [op] @ put_u32 kLen @ put_u32 vLen @ put_u64 ex @ s"
  shows "r ! 0 = op" "get_u32 (drop (Suc 0) r) = kLen" "get_u32 (drop 5 r) = vLen" "get_u64 (drop 9 r) = ex"
    "drop 17 r = s" "length r = 17 + length s"
  unfolding assms by (simp_all add: drop_Cons')

lemma recoverEntries_entry:
  assumes ok: "enc_ok enc" "entry_ok e" "off + entrySize e < 2 ^ 63" and fits: "off + entrySize e \<le> segSize"
  shows "recoverEntries E enc segSize off (entryBytes E enc off e @ rest) =
     (e, off + entryHeaderSize + length (ve_key e)) # recoverEntries E enc segSize (off + entrySize e) rest"
proof -
  obtain v kLen vLen where parts:
    "entryBytes E enc off e = [ve_op e] @ put_u32 kLen @ put_u32 vLen @ put_u64 (ve_expiresAt e) @ ve_key e @ v @
       put_u32 (crc32 (entryCrcInput (ve_op e) kLen vLen (ve_expiresAt e) (ve_key e) v))"
    and len: "length v = length (ve_value e)" "unat kLen = length (ve_key e)" "unat vLen = length v"
    and dec: "cryptIf E enc (off + entryHeaderSize + length (ve_key e)) v = Some (ve_value e)"
    using entryBytes_parts [OF ok, of E] by metis
  let ?crc = "crc32 (entryCrcInput (ve_op e) kLen vLen (ve_expiresAt e) (ve_key e) v)"
  define r where "r = entryBytes E enc off e @ rest"
  have "r = [ve_op e] @ put_u32 kLen @ put_u32 vLen @ put_u64 (ve_expiresAt e) @ (ve_key e @ v @ put_u32 ?crc @ rest)"
    by (simp add: r_def parts)
  note hdr = entry_fields [OF this]
  have d: "drop (17 + m) r = drop m (ve_key e @ v @ put_u32 ?crc @ rest)" for m
    using hdr(5) by (metis add.commute drop_drop)
  have sz: "entryHeaderSize + length (ve_key e) + length (ve_value e) + 4 = entrySize e" by (simp add: entrySize_def)
  have len': "unat vLen = length (ve_value e)" using len by simp
  have body: "bslice entryHeaderSize (entryHeaderSize + length (ve_key e)) r = ve_key e"
    "bslice (entryHeaderSize + length (ve_key e)) (entryHeaderSize + length (ve_key e) + length (ve_value e)) r = v"
    "get_u32 (drop (entrySize e - 4) r) = ?crc" "drop (entrySize e) r = rest"
    using d [of 0] d [of "length (ve_key e)"] d [of "length (ve_key e) + length v"] d [of "length (ve_key e) + length v + 4"] len(1)
    by (simp_all add: bslice_def entryHeaderSize_def entrySize_def ac_simps)
  have "\<not> length r < entryHeaderSize" "\<not> length r < entrySize e"
    using hdr(6) len(1) by (simp_all add: entryHeaderSize_def entrySize_def)
  then show ?thesis
    unfolding r_def [symmetric] using fits dec
    by (subst recoverEntries.simps) (simp add: hdr(1-4) Let_def len(2) len' sz body)
qed

lemma recoverEntries_torn:
  assumes ok: "enc_ok enc" "entry_ok e" "off + entrySize e < 2 ^ 63" and n: "n < entrySize e"
  shows "recoverEntries E enc (off + n) off (take n (entryBytes E enc off e)) = []"
proof (cases "n < entryHeaderSize")
  case True
  then show ?thesis by (subst recoverEntries.simps) simp
next
  case False
  obtain v kLen vLen where parts:
    "entryBytes E enc off e = [ve_op e] @ put_u32 kLen @ put_u32 vLen @ put_u64 (ve_expiresAt e) @ ve_key e @ v @
       put_u32 (crc32 (entryCrcInput (ve_op e) kLen vLen (ve_expiresAt e) (ve_key e) v))"
    and len: "length v = length (ve_value e)" "unat kLen = length (ve_key e)" "unat vLen = length v"
    using entryBytes_parts [OF ok, of E] by metis
  define r where "r = take n (entryBytes E enc off e)"
  have "n = 17 + (n - 17)" using False by (simp add: entryHeaderSize_def)
  then have "r = [ve_op e] @ put_u32 kLen @ put_u32 vLen @ put_u64 (ve_expiresAt e) @
      take (n - 17) (ve_key e @ v @ put_u32 (crc32 (entryCrcInput (ve_op e) kLen vLen (ve_expiresAt e) (ve_key e) v)))"
    unfolding r_def parts by (simp add: take_Cons' del: append_assoc)
  note hdr = entry_fields [OF this]
  have "n < entryHeaderSize + unat kLen + unat vLen + 4" using n len by (simp add: entrySize_def)
  then show ?thesis
    unfolding r_def [symmetric] by (subst recoverEntries.simps) (simp add: hdr(2,3) Let_def)
qed

lemma recoverEntries_prefix:
  assumes "enc_ok enc" "\<forall>e \<in> set es. entry_ok e" "off + entriesSize es < 2 ^ 63" "n \<le> entriesSize es"
  shows "recoverEntries E enc (off + n) off (take n (seg_image E enc off es)) = seg_entries off (completeEntries n es)"
  using assms(2-)
proof (induction es arbitrary: off n)
  case Nil
  then show ?case by (subst recoverEntries.simps) (simp add: entryHeaderSize_def)
next
  case (Cons e es)
  have ok: "entry_ok e" "off + entrySize e < 2 ^ 63" using Cons.prems by auto
  note len = length_entryBytes [OF assms(1) ok]
  show ?case
  proof (cases "entrySize e \<le> n")
    case True
    have "recoverEntries E enc (off + entrySize e + (n - entrySize e)) (off + entrySize e)
        (take (n - entrySize e) (seg_image E enc (off + entrySize e) es)) =
      seg_entries (off + entrySize e) (completeEntries (n - entrySize e) es)"
      using Cons.prems by (intro Cons.IH) auto
    then show ?thesis
      using True len recoverEntries_entry [OF assms(1) ok, of "off + n" E] by (simp add: add.assoc)
  next
    case False
    then show ?thesis using len recoverEntries_torn [OF assms(1) ok, of n E] by simp
  qed
qed

lemma completeEntries_all: "completeEntries (entriesSize es) es = es"
  by (induction es) auto

section \<open>Segments that hold a list of entries\<close>

definition segHdr :: "(u64 \<times> bytes \<times> bytes) option \<Rightarrow> bytes" where
  "segHdr enc = (case enc of
       None \<Rightarrow> put_u32 segmentMagic @ put_u32 segmentVersion
     | Some (keyID, _, baseIV) \<Rightarrow> put_u32 segmentMagic @ put_u32 segmentVersionEncrypt @ put_u64 keyID @ fileIV baseIV)"

definition seg_rep :: "(bytes \<Rightarrow> bytes \<Rightarrow> bytes) \<Rightarrow> segment \<Rightarrow> ValueEntry list \<Rightarrow> bool" where
  "seg_rep E s es \<longleftrightarrow>
     s_file s @ s_buf s = segHdr (s_enc s) @ seg_image E (s_enc s) (length (segHdr (s_enc s))) es \<and>
     s_offset s = length (segHdr (s_enc s)) + entriesSize es \<and> enc_ok (s_enc s) \<and>
     (\<forall>e \<in> set es. entry_ok e) \<and> s_offset s < 2 ^ 63 \<and> (s_writeClosed s \<longrightarrow> s_buf s = [])"

lemma length_segHdr: "length (segHdr enc) = (if enc = None then segmentHeaderSize else encSegmentHeaderSize)"
  by (auto simp: segHdr_def segmentHeaderSize_def encSegmentHeaderSize_def fileIV_def split: option.split)

lemma seg_flush_fields [simp]:
  "s_file (seg_flush s) = s_file s @ s_buf s" "s_buf (seg_flush s) = []" "s_enc (seg_flush s) = s_enc s"
  "s_offset (seg_flush s) = s_offset s" "s_closed (seg_flush s) = s_closed s" "s_writeClosed (seg_flush s) = s_writeClosed s"
  "s_refs (seg_flush s) = s_refs s" "s_removePending (seg_flush s) = s_removePending s" "s_removed (seg_flush s) = s_removed s"
  "s_fid (seg_flush s) = s_fid s" "s_maxSize (seg_flush s) = s_maxSize s"
  by (simp_all add: seg_flush_def)

lemma seg_rep_flush [simp]: "seg_rep E s es \<Longrightarrow> seg_rep E (seg_flush s) es"
  by (simp add: seg_rep_def)

lemma seg_rep_misc:
  assumes "seg_rep E s es"
  shows "seg_rep E (seg_close s) es" "seg_rep E (closeForWrite s) es" "seg_rep E (removeFile s) es"
    "seg_rep E (IncrRef s) es" "seg_rep E (DecrRef s) es" "seg_rep E (markRemove s) es"
  using assms by (auto simp: seg_rep_def seg_close_def closeForWrite_def removeFile_def IncrRef_def DecrRef_def
      markRemove_def Let_def)

lemma openSegment_fresh:
  assumes "reg_ok reg" "length baseIV = 16"
  obtains s where "openSegment reg baseIV fid maxSize [] = Inr s" "seg_rep E s []" "\<not> s_closed s" "\<not> s_writeClosed s"
    "s_refs s = 0" "\<not> s_removePending s" "\<not> s_removed s" "s_fid s = fid" "s_maxSize s = maxSize"
proof (cases reg)
  case None
  then show ?thesis
    using that by (simp add: openSegment_def seg_rep_def segHdr_def enc_ok_def segmentHeaderSize_def Let_def)
next
  case (Some kr)
  obtain keyID key where "ActiveKey kr = (keyID, key)" by fastforce
  then show ?thesis
    using that Some assms by (simp add: openSegment_def seg_rep_def segHdr_def enc_ok_def encSegmentHeaderSize_def Let_def
        reg_ok_def fileIV_def)
qed

lemma writeEntry_rep:
  assumes rep: "seg_rep E s es" and ok: "entry_ok e" "s_offset s + entrySize e < 2 ^ 63" and opn: "\<not> s_closed s" "\<not> s_writeClosed s"
  obtains b where "writeEntry E e s = (Inr (s_offset s + entryHeaderSize + length (ve_key e)),
      s\<lparr>s_buf := s_buf s @ b, s_offset := s_offset s + entrySize e\<rparr>)"
    "seg_rep E (s\<lparr>s_buf := s_buf s @ b, s_offset := s_offset s + entrySize e\<rparr>) (es @ [e])"
proof -
  have enc: "enc_ok (s_enc s)" using rep by (simp add: seg_rep_def)
  let ?b = "entryBytes E (s_enc s) (s_offset s) e"
  have "writeEntry E e s = (Inr (s_offset s + entryHeaderSize + length (ve_key e)),
      s\<lparr>s_buf := s_buf s @ ?b, s_offset := s_offset s + entrySize e\<rparr>)"
    by (rule entryBytes_parts [OF enc ok, of E]) (simp add: writeEntry_def entryBytes_def Let_def entrySize_def opn)
  moreover have "seg_rep E (s\<lparr>s_buf := s_buf s @ ?b, s_offset := s_offset s + entrySize e\<rparr>) (es @ [e])"
    using rep ok opn by (simp add: seg_rep_def seg_image_append flip: append_assoc)
  ultimately show ?thesis by (rule that)
qed

fun ptrs :: "u32 \<Rightarrow> nat \<Rightarrow> ValueEntry list \<Rightarrow> (ValuePointer \<times> ValueEntry) list" where
  "ptrs fid off [] = []"
| "ptrs fid off (e # es) =
     (\<lparr>vp_fid = fid, vp_offset = of_nat (off + entryHeaderSize + length (ve_key e)), vp_size = of_nat (length (ve_value e))\<rparr>, e) #
       ptrs fid (off + entrySize e) es"

lemma ptrs_append: "ptrs fid off (es @ fs) = ptrs fid off es @ ptrs fid (off + entriesSize es) fs"
  by (induction es arbitrary: off) (auto simp: ac_simps)

lemma ptrs_split:
  assumes "(vp, e) \<in> set (ptrs fid off es)"
  obtains us vs where "es = us @ e # vs" "vp_offset vp = of_nat (off + entriesSize us + entryHeaderSize + length (ve_key e))"
    "vp_size vp = of_nat (length (ve_value e))"
  using assms
proof (induction es arbitrary: off thesis)
  case (Cons a es)
  show ?case
  proof (cases "(vp, e) \<in> set (ptrs fid (off + entrySize a) es)")
    case True
    from Cons.IH [OF _ True] obtain us vs where "es = us @ e # vs"
      "vp_offset vp = of_nat (off + entrySize a + entriesSize us + entryHeaderSize + length (ve_key e))"
      "vp_size vp = of_nat (length (ve_value e))" by blast
    then show ?thesis using Cons.prems(1) [of "a # us" vs] by (simp add: ac_simps)
  next
    case False
    then show ?thesis using Cons.prems(1) [of "[]" es] Cons.prems(2) by auto
  qed
qed simp

lemma readValue_rep:
  assumes rep: "seg_rep E s (us @ e # vs)" and opn: "\<not> s_closed s"
  shows "fst (readValue E (length (segHdr (s_enc s)) + entriesSize us + entryHeaderSize + length (ve_key e)) (length (ve_value e)) s)
    = Inr (ve_value e)"
proof (cases "ve_value e = []")
  case True
  then show ?thesis by (simp add: readValue_def)
next
  case False
  let ?off = "length (segHdr (s_enc s)) + entriesSize us"
  have ok: "enc_ok (s_enc s)" "\<forall>x \<in> set us. entry_ok x" "entry_ok e" "?off + entrySize e < 2 ^ 63" "?off < 2 ^ 63"
    using rep by (auto simp: seg_rep_def)
  obtain v kLen vLen where parts:
    "entryBytes E (s_enc s) ?off e = [ve_op e] @ put_u32 kLen @ put_u32 vLen @ put_u64 (ve_expiresAt e) @ ve_key e @ v @
       put_u32 (crc32 (entryCrcInput (ve_op e) kLen vLen (ve_expiresAt e) (ve_key e) v))"
    and len: "length v = length (ve_value e)"
    and dec: "cryptIf E (s_enc s) (?off + entryHeaderSize + length (ve_key e)) v = Some (ve_value e)"
    using entryBytes_parts [OF ok(1,3,4), of E] by metis
  define s1 where "s1 = (if s_writeClosed s then s else seg_flush s)"
  have s1: "s_file s1 = s_file s @ s_buf s" "s_enc s1 = s_enc s" using rep by (auto simp: s1_def seg_rep_def)
  have "length (seg_image E (s_enc s) (length (segHdr (s_enc s))) us) = entriesSize us"
    using length_seg_image [OF ok(1,2)] ok(5) by simp
  then obtain pre post where fl: "s_file s1 = pre @ v @ post"
    and pre: "length pre = ?off + entryHeaderSize + length (ve_key e)"
    using rep s1 that [of "segHdr (s_enc s) @ seg_image E (s_enc s) (length (segHdr (s_enc s))) us @ [ve_op e] @
        put_u32 kLen @ put_u32 vLen @ put_u64 (ve_expiresAt e) @ ve_key e"]
    by (fastforce simp: seg_rep_def seg_image_append parts entryHeaderSize_def)
  have "bslice (?off + entryHeaderSize + length (ve_key e)) (?off + entryHeaderSize + length (ve_key e) + length (ve_value e)) (s_file s1) = v"
    unfolding pre [symmetric] len [symmetric] fl by (rule bslice_append_exact)
  then show ?thesis
    using False opn dec len pre s1(2) fl by (simp add: readValue_def s1_def [symmetric] Let_def)
qed

section \<open>The invariant of the value log\<close>

definition seg_ok :: "(bytes \<Rightarrow> bytes \<Rightarrow> bytes) \<Rightarrow> nat \<Rightarrow> bool \<Rightarrow> nat \<Rightarrow> (ValuePointer \<times> ValueEntry) list \<Rightarrow> u32 \<Rightarrow> segment \<Rightarrow> bool" where
  "seg_ok E mx lst n ps fid s \<longleftrightarrow> s_fid s = fid \<and> s_maxSize s = mx \<and> s_refs s = int n \<and>
     (\<exists>es. seg_rep E s es \<and> ps = ptrs fid (length (segHdr (s_enc s))) es) \<and>
     (s_closed s \<longleftrightarrow> s_removed s) \<and> (s_removed s \<longleftrightarrow> \<not> lst \<and> n = 0) \<and> (s_removePending s \<longleftrightarrow> \<not> lst)"

lemma seg_enc_misc [simp]:
  "s_enc (seg_close s) = s_enc s" "s_enc (closeForWrite s) = s_enc s" "s_enc (removeFile s) = s_enc s"
  "s_enc (IncrRef s) = s_enc s" "s_enc (DecrRef s) = s_enc s" "s_enc (markRemove s) = s_enc s"
  by (simp_all add: seg_close_def closeForWrite_def removeFile_def IncrRef_def DecrRef_def markRemove_def Let_def)

lemma ref_fields [simp]:
  "s_fid (closeForWrite s) = s_fid s" "s_maxSize (closeForWrite s) = s_maxSize s" "s_refs (closeForWrite s) = s_refs s"
  "s_closed (closeForWrite s) = s_closed s" "s_removed (closeForWrite s) = s_removed s"
  "s_removePending (closeForWrite s) = s_removePending s"
  "s_fid (IncrRef s) = s_fid s" "s_maxSize (IncrRef s) = s_maxSize s" "s_refs (IncrRef s) = s_refs s + 1"
  "s_closed (IncrRef s) = s_closed s" "s_removed (IncrRef s) = s_removed s" "s_removePending (IncrRef s) = s_removePending s"
  "s_writeClosed (IncrRef s) = s_writeClosed s"
  by (simp_all add: closeForWrite_def IncrRef_def)

lemma remove_fields [simp]:
  "s_fid (removeFile s) = s_fid s" "s_maxSize (removeFile s) = s_maxSize s" "s_refs (removeFile s) = s_refs s"
  "s_closed (removeFile s) = (s_closed s \<or> \<not> s_removed s)" "s_removed (removeFile s)"
  "s_removePending (removeFile s) = s_removePending s"
  "s_fid (DecrRef s) = s_fid s" "s_maxSize (DecrRef s) = s_maxSize s" "s_refs (DecrRef s) = s_refs s - 1"
  "s_closed (DecrRef s) = (s_closed s \<or> s_refs s = 1 \<and> s_removePending s \<and> \<not> s_removed s)"
  "s_removed (DecrRef s) = (s_removed s \<or> s_refs s = 1 \<and> s_removePending s)"
  "s_removePending (DecrRef s) = s_removePending s"
  "s_fid (markRemove s) = s_fid s" "s_maxSize (markRemove s) = s_maxSize s" "s_refs (markRemove s) = s_refs s"
  "s_closed (markRemove s) = (s_closed s \<or> \<not> 0 < s_refs s \<and> \<not> s_removed s)"
  "s_removed (markRemove s) = (s_removed s \<or> \<not> 0 < s_refs s)" "s_removePending (markRemove s)"
  by (simp_all add: removeFile_def DecrRef_def markRemove_def seg_close_def Let_def)

lemma seg_ok_change:
  assumes "seg_ok E mx lst n ps fid s" "\<And>es. seg_rep E s es \<Longrightarrow> seg_rep E s' es" "s_enc s' = s_enc s"
    "s_fid s' = s_fid s" "s_maxSize s' = s_maxSize s" "s_refs s' = int n'"
    "s_closed s' \<longleftrightarrow> s_removed s'" "s_removed s' \<longleftrightarrow> \<not> lst' \<and> n' = 0" "s_removePending s' \<longleftrightarrow> \<not> lst'"
  shows "seg_ok E mx lst' n' ps fid s'"
  using assms by (auto simp: seg_ok_def)

lemma seg_ok_flush: "seg_ok E mx lst n ps fid s \<Longrightarrow> seg_ok E mx lst n ps fid (seg_flush s)"
  by (rule seg_ok_change, assumption) (auto simp: seg_ok_def)

lemma seg_ok_closeForWrite: "seg_ok E mx lst n ps fid s \<Longrightarrow> seg_ok E mx lst n ps fid (closeForWrite s)"
  by (rule seg_ok_change [OF _ seg_rep_misc(2)], assumption) (auto simp: seg_ok_def)

lemma seg_ok_IncrRef: "seg_ok E mx True n ps fid s \<Longrightarrow> seg_ok E mx True (Suc n) ps fid (IncrRef s)"
  by (rule seg_ok_change [OF _ seg_rep_misc(4)], assumption) (auto simp: seg_ok_def)

lemma seg_ok_DecrRef: "seg_ok E mx lst (Suc n) ps fid s \<Longrightarrow> seg_ok E mx lst n ps fid (DecrRef s)"
  by (rule seg_ok_change [OF _ seg_rep_misc(5)], assumption) (auto simp: seg_ok_def)

lemma seg_ok_markRemove: "seg_ok E mx True n ps fid s \<Longrightarrow> seg_ok E mx False n ps fid (markRemove s)"
  by (rule seg_ok_change [OF _ seg_rep_misc(6)], assumption) (auto simp: seg_ok_def)

definition log_of :: "u32 \<Rightarrow> (ValuePointer \<times> ValueEntry) list \<Rightarrow> (ValuePointer \<times> ValueEntry) list" where
  "log_of fid log = filter (\<lambda>p. vp_fid (fst p) = fid) log"

definition vl_inv :: "(bytes \<Rightarrow> bytes \<Rightarrow> bytes) \<Rightarrow> vlog \<Rightarrow> (ValuePointer \<times> ValueEntry) list \<Rightarrow> u32 multiset \<Rightarrow> bool" where
  "vl_inv E vl log pins \<longleftrightarrow>
     vl_left vl = [] \<and> reg_ok (vl_reg vl) \<and> vl_maxSize vl \<le> 2 ^ 62 \<and> vl_active vl = vl_nextFid vl \<and>
     vl_active vl \<in> set (vl_listed vl) \<and>
     (\<forall>fid s. map_of (vl_store vl) fid = Some s \<longrightarrow> fid \<le> vl_nextFid vl \<and>
        seg_ok E (vl_maxSize vl) (fid \<in> set (vl_listed vl)) (count pins fid) (log_of fid log) fid s) \<and>
     (\<forall>fid. fid \<in> set (vl_listed vl) \<or> fid \<in># pins \<or> fid \<in> vp_fid ` fst ` set log \<longrightarrow> map_of (vl_store vl) fid \<noteq> None) \<and>
     (\<forall>s. map_of (vl_store vl) (vl_active vl) = Some s \<longrightarrow> \<not> s_writeClosed s)"

lemma vl_inv_seg:
  assumes "vl_inv E vl log pins" "map_of (vl_store vl) fid = Some s"
  shows "seg_ok E (vl_maxSize vl) (fid \<in> set (vl_listed vl)) (count pins fid) (log_of fid log) fid s"
  using assms by (simp add: vl_inv_def)

lemma vl_invD:
  assumes "vl_inv E vl log pins"
  shows "vl_left vl = []" "reg_ok (vl_reg vl)" "vl_maxSize vl \<le> 2 ^ 62" "vl_active vl = vl_nextFid vl"
    "vl_active vl \<in> set (vl_listed vl)" "map_of (vl_store vl) fid = Some s \<Longrightarrow> fid \<le> vl_nextFid vl"
    "fid \<in> set (vl_listed vl) \<Longrightarrow> \<exists>s. map_of (vl_store vl) fid = Some s"
    "fid \<in># pins \<Longrightarrow> \<exists>s. map_of (vl_store vl) fid = Some s"
    "fid \<in> vp_fid ` fst ` set log \<Longrightarrow> \<exists>s. map_of (vl_store vl) fid = Some s"
    "map_of (vl_store vl) (vl_active vl) = Some s \<Longrightarrow> \<not> s_writeClosed s"
  using assms unfolding vl_inv_def by blast+

lemma vl_inv_upd:
  assumes inv: "vl_inv E vl log pins" and old: "map_of (vl_store vl) fid = Some s"
    and ok: "seg_ok E (vl_maxSize vl) (fid \<in> set lst) (count pins' fid) (log_of fid log') fid s'"
    and rest: "\<And>f. f \<noteq> fid \<Longrightarrow> (f \<in> set lst \<longleftrightarrow> f \<in> set (vl_listed vl)) \<and> count pins' f = count pins f \<and> log_of f log' = log_of f log"
    and act: "vl_active vl \<in> set lst" "fid = vl_active vl \<Longrightarrow> \<not> s_writeClosed s'"
  shows "vl_inv E ((setSeg fid s' vl)\<lparr>vl_listed := lst\<rparr>) log' pins'"
proof -
  have dom: "map_of (vl_store vl) f \<noteq> None" if "f \<in> set lst \<or> f \<in># pins' \<or> f \<in> vp_fid ` fst ` set log'" for f
  proof (cases "f = fid")
    case False
    have "f \<in> vp_fid ` fst ` set l \<longleftrightarrow> log_of f l \<noteq> []" for l by (force simp: log_of_def filter_empty_conv)
    then have "f \<in> set (vl_listed vl) \<or> f \<in># pins \<or> f \<in> vp_fid ` fst ` set log"
      using that rest [OF False] by (metis count_greater_zero_iff)
    then show ?thesis using inv unfolding vl_inv_def by blast
  qed (simp add: old)
  have segs: "f \<le> vl_nextFid vl \<and> seg_ok E (vl_maxSize vl) (f \<in> set lst) (count pins' f) (log_of f log') f x"
    if "((map_of (vl_store vl))(fid \<mapsto> s')) f = Some x" for f x
  proof (cases "f = fid")
    case True
    then show ?thesis using that ok inv old by (auto simp: vl_inv_def)
  next
    case False
    then show ?thesis using that rest [OF False] inv by (simp add: vl_inv_def)
  qed
  have "\<not> s_writeClosed x" if "((map_of (vl_store vl))(fid \<mapsto> s')) (vl_active vl) = Some x" for x
    using that act(2) inv by (auto simp: vl_inv_def split: if_splits)
  then show ?thesis using inv act(1) dom segs by (simp add: vl_inv_def setSeg_def update_conv')
qed

lemma setSeg_listed: "(setSeg fid s vl)\<lparr>vl_listed := vl_listed vl\<rparr> = setSeg fid s vl"
  by (simp add: setSeg_def)

lemma log_of_snoc [simp]: "log_of f (l @ [p]) = log_of f l @ (if vp_fid (fst p) = f then [p] else [])"
  by (simp add: log_of_def)

lemma succ_u32: "(w :: u32) \<noteq> - 1 \<Longrightarrow> f \<le> w \<Longrightarrow> f < w + 1"
proof -
  assume w: "w \<noteq> - 1" and f: "f \<le> w"
  have "unat w \<noteq> unat (- 1 :: u32)" using w by (simp add: word_unat_eq_iff)
  moreover have "unat w < 2 ^ 32" using unsigned_less [of w] by simp
  ultimately have "unat (w + 1) = Suc (unat w)" by (simp add: unat_word_ariths unsigned_minus_1_eq_mask mask_eq_exp_minus_1)
  then show ?thesis using f by (simp add: word_less_nat_alt word_le_nat_alt)
qed

lemma rotate_inv:
  assumes inv: "vl_inv E vl log pins" and fid: "vl_nextFid vl \<noteq> - 1" and iv: "\<forall>f. length (iv f) = 16"
  shows "\<exists>vl'. rotateLocked iv vl = (None, vl') \<and> vl_inv E vl' log pins \<and>
     (\<exists>s. map_of (vl_store vl') (vl_active vl') = Some s \<and> s_offset s \<le> 32)"
proof -
  let ?a = "vl_active vl" and ?f = "vl_nextFid vl + 1"
  obtain old where old: "map_of (vl_store vl) ?a = Some old" using vl_invD(5,7) [OF inv] by blast
  have reg: "reg_ok (vl_reg vl)" "vl_left vl = []" "?a = vl_nextFid vl" using vl_invD [OF inv] by blast+
  obtain s where s: "openSegment (vl_reg vl) (iv ?f) ?f (vl_maxSize vl) [] = Inr s" "seg_rep E s []" "\<not> s_closed s"
    "\<not> s_writeClosed s" "s_refs s = 0" "\<not> s_removePending s" "\<not> s_removed s" "s_fid s = ?f" "s_maxSize s = vl_maxSize vl"
    using openSegment_fresh [OF reg(1)] iv by metis
  have gt: "f < ?f" if "f \<le> vl_nextFid vl" for f using succ_u32 [OF fid that] .
  have "map_of (vl_store vl) ?f = None" using vl_invD(6) [OF inv] gt by (metis option.exhaust less_irrefl)
  then have new: "?f \<notin> set (vl_listed vl)" "?f \<notin># pins" "?f \<notin> vp_fid ` fst ` set log"
    using vl_invD(7-9) [OF inv] by (metis option.distinct(1))+
  have neq: "?f \<noteq> ?a" using gt [of ?a] reg(3) by auto
  let ?vl = "(setSeg ?a (closeForWrite (seg_flush old)) ((setSeg ?f s (setSeg ?a (seg_flush old) vl))
      \<lparr>vl_nextFid := ?f, vl_listed := ?f # vl_listed vl, vl_active := ?f\<rparr>))"
  have rot: "rotateLocked iv vl = (None, ?vl)"
    using old s(1) reg(2) by (simp add: rotateLocked_def Let_def leftFile_def setSeg_def)
  have store: "map_of (vl_store ?vl) = (map_of (vl_store vl))(?f \<mapsto> s, ?a \<mapsto> closeForWrite (seg_flush old))"
    using neq by (auto simp: setSeg_def update_conv')
  have logf: "log_of ?f log = []" using new(3) by (force simp: log_of_def filter_empty_conv)
  have okf: "seg_ok E (vl_maxSize vl) True (count pins ?f) (log_of ?f log) ?f s"
    using s(2-) new(2) logf by (auto simp: seg_ok_def count_eq_zero_iff intro!: exI [of _ "[]"])
  have oka: "seg_ok E (vl_maxSize vl) (?a \<in> set (vl_listed vl)) (count pins ?a) (log_of ?a log) ?a (closeForWrite (seg_flush old))"
    by (intro seg_ok_closeForWrite seg_ok_flush vl_inv_seg [OF inv old])
  have segs: "g \<le> ?f \<and> seg_ok E (vl_maxSize vl) (g \<in> set (?f # vl_listed vl)) (count pins g) (log_of g log) g x"
    if "map_of (vl_store ?vl) g = Some x" for g x
  proof -
    consider "g = ?f" | "g = ?a" | "g \<noteq> ?f" "g \<noteq> ?a" by blast
    then show ?thesis
    proof cases
      case 1
      then show ?thesis using that okf neq store by auto
    next
      case 2
      then show ?thesis using that oka neq store gt [of ?a] reg(3) by auto
    next
      case 3
      then have m: "map_of (vl_store vl) g = Some x" using that store by simp
      then have "g \<le> vl_nextFid vl" using vl_invD(6) [OF inv] by blast
      then show ?thesis using vl_inv_seg [OF inv m] gt [of g] 3(1) by auto
    qed
  qed
  have dom: "map_of (vl_store ?vl) g \<noteq> None" if "g \<in> set (?f # vl_listed vl) \<or> g \<in># pins \<or> g \<in> vp_fid ` fst ` set log" for g
    using that vl_invD(7-9) [OF inv, of g] unfolding store by auto
  have fields: "vl_left ?vl = []" "vl_reg ?vl = vl_reg vl" "vl_maxSize ?vl = vl_maxSize vl" "vl_active ?vl = ?f" "vl_nextFid ?vl = ?f"
    "vl_listed ?vl = ?f # vl_listed vl" using reg(2) by (simp_all add: setSeg_def)
  have "\<not> s_writeClosed x" if "map_of (vl_store ?vl) ?f = Some x" for x using that s(4) neq unfolding store by simp
  then have "vl_inv E ?vl log pins"
    unfolding vl_inv_def fields using segs dom reg(1) vl_invD(3) [OF inv] by auto
  moreover have "map_of (vl_store ?vl) (vl_active ?vl) = Some s" using store neq by (simp add: setSeg_def)
  moreover have "s_offset s \<le> 32" using s(2) by (simp add: seg_rep_def length_segHdr segmentHeaderSize_def encSegmentHeaderSize_def)
  ultimately show ?thesis using rot by blast
qed

lemma append_inv:
  assumes inv: "vl_inv E vl log pins" and ok: "entry_ok e"
    and s: "map_of (vl_store vl) (vl_active vl) = Some s" "s_offset s + entrySize e < 2 ^ 63"
  shows "\<exists>vp vl'. appendActive E e vl = (Inr vp, vl') \<and> vl_inv E vl' (log @ [(vp, e)]) pins"
proof -
  let ?a = "vl_active vl"
  have act: "?a \<in> set (vl_listed vl)" "\<not> s_writeClosed s" using vl_invD(5,10) [OF inv] s(1) by blast+
  have so: "seg_ok E (vl_maxSize vl) True (count pins ?a) (log_of ?a log) ?a s" using vl_inv_seg [OF inv s(1)] act(1) by simp
  then obtain es where es: "seg_rep E s es" "log_of ?a log = ptrs ?a (length (segHdr (s_enc s))) es" "\<not> s_closed s" "s_fid s = ?a"
    by (auto simp: seg_ok_def)
  obtain b where w: "writeEntry E e s = (Inr (s_offset s + entryHeaderSize + length (ve_key e)),
      s\<lparr>s_buf := s_buf s @ b, s_offset := s_offset s + entrySize e\<rparr>)"
    "seg_rep E (s\<lparr>s_buf := s_buf s @ b, s_offset := s_offset s + entrySize e\<rparr>) (es @ [e])"
    using writeEntry_rep [OF es(1) ok s(2) es(3) act(2)] .
  let ?s = "s\<lparr>s_buf := s_buf s @ b, s_offset := s_offset s + entrySize e\<rparr>"
  let ?vp = "\<lparr>vp_fid = ?a, vp_offset = of_nat (s_offset s + entryHeaderSize + length (ve_key e)), vp_size = of_nat (length (ve_value e))\<rparr>"
  have off: "s_offset s = length (segHdr (s_enc s)) + entriesSize es" using es(1) by (simp add: seg_rep_def)
  have "log_of ?a (log @ [(?vp, e)]) = ptrs ?a (length (segHdr (s_enc s))) (es @ [e])"
    using es(2) off by (simp add: ptrs_append)
  then have "seg_ok E (vl_maxSize vl) (?a \<in> set (vl_listed vl)) (count pins ?a) (log_of ?a (log @ [(?vp, e)])) ?a ?s"
    using so act(1) w(2) by (auto simp: seg_ok_def simp del: log_of_snoc)
  from vl_inv_upd [OF inv s(1) this] act have "vl_inv E (setSeg ?a ?s vl) (log @ [(?vp, e)]) pins"
    by (simp add: setSeg_listed)
  moreover have "appendActive E e vl = (Inr ?vp, setSeg ?a ?s vl)" using s(1) w(1) es(4) by (simp add: appendActive_def)
  ultimately show ?thesis by blast
qed

lemma write_inv:
  assumes inv: "vl_inv E vl log pins" and ok: "entry_ok e" and fid: "vl_nextFid vl \<noteq> - 1" and iv: "\<forall>f. length (iv f) = 16"
  shows "\<exists>vp vl'. VWrite E iv e vl = (Inr vp, vl') \<and> vl_inv E vl' (log @ [(vp, e)]) pins"
proof -
  obtain s where s: "map_of (vl_store vl) (vl_active vl) = Some s" using vl_invD(5,7) [OF inv] by blast
  have sz: "entrySize e < 2 ^ 34" using ok by (simp add: entry_ok_def entrySize_def entryHeaderSize_def)
  have mx: "s_maxSize s \<le> 2 ^ 62" using vl_inv_seg [OF inv s] vl_invD(3) [OF inv] by (simp add: seg_ok_def)
  show ?thesis
  proof (cases "s_maxSize s \<le> s_offset s")
    case True
    obtain vl1 s1 where r: "rotateLocked iv vl = (None, vl1)" "vl_inv E vl1 log pins"
      "map_of (vl_store vl1) (vl_active vl1) = Some s1" "s_offset s1 \<le> 32"
      using rotate_inv [OF inv fid iv] by blast
    then show ?thesis using append_inv [OF r(2) ok r(3)] sz s True by (simp add: VWrite_def)
  next
    case False
    then show ?thesis using append_inv [OF inv ok s] sz mx s by (simp add: VWrite_def)
  qed
qed

section \<open>Operations in any order\<close>

text \<open>The state is the log with two ghosts: the pointers returned so far with their entries, in write order, and
  the pins held by readers.\<close>

type_synonym vstate = "vlog \<times> (ValuePointer \<times> ValueEntry) list \<times> u32 multiset"

inductive vstep :: "(bytes \<Rightarrow> bytes \<Rightarrow> bytes) \<Rightarrow> (u32 \<Rightarrow> bytes) \<Rightarrow> vstate \<Rightarrow> vstate \<Rightarrow> bool" for E iv where
  vs_write: "entry_ok e \<Longrightarrow> vl_nextFid vl \<noteq> - 1 \<Longrightarrow> VWrite E iv e vl = (Inr vp, vl') \<Longrightarrow>
     vstep E iv (vl, log, pins) (vl', log @ [(vp, e)], pins)"
| vs_rotate: "vl_nextFid vl \<noteq> - 1 \<Longrightarrow> rotateLocked iv vl = (r, vl') \<Longrightarrow> vstep E iv (vl, log, pins) (vl', log, pins)"
| vs_sync: "vstep E iv (vl, log, pins) (VSync vl, log, pins)"
| vs_pin: "pinSegment fid vl = Some vl' \<Longrightarrow> vstep E iv (vl, log, pins) (vl', log, add_mset fid pins)"
| vs_read: "readPinned E vp vl = (r, vl') \<Longrightarrow> vstep E iv (vl, log, pins) (vl', log, pins)"
| vs_unpin: "fid \<in># pins \<Longrightarrow> vstep E iv (vl, log, pins) (unpinSegment fid vl, log, pins - {#fid#})"
| vs_recover: "VRecover E fid vl = (r, vl') \<Longrightarrow> vstep E iv (vl, log, pins) (vl', log, pins)"
| vs_delete: "DeleteSegment fid vl = (r, vl') \<Longrightarrow> vstep E iv (vl, log, pins) (vl', log, pins)"

lemma flush_inv:
  assumes "vl_inv E vl log pins" "map_of (vl_store vl) fid = Some s" "s' = s \<or> s' = seg_flush s"
  shows "vl_inv E (setSeg fid s' vl) log pins"
proof -
  have "seg_ok E (vl_maxSize vl) (fid \<in> set (vl_listed vl)) (count pins fid) (log_of fid log) fid s'"
    using vl_inv_seg [OF assms(1,2)] seg_ok_flush assms(3) by blast
  moreover have "\<not> s_writeClosed s'" if "fid = vl_active vl"
    using vl_invD(10) [OF assms(1)] assms(2,3) that by auto
  ultimately show ?thesis
    using vl_inv_upd [OF assms(1,2), of "vl_listed vl" pins log s'] vl_invD(5) [OF assms(1)] by (simp add: setSeg_listed)
qed

lemma pin_inv:
  assumes inv: "vl_inv E vl log pins" and pin: "pinSegment fid vl = Some vl'"
  shows "vl_inv E vl' log (add_mset fid pins)"
proof -
  obtain s where s: "fid \<in> set (vl_listed vl)" "map_of (vl_store vl) fid = Some s" "vl' = setSeg fid (IncrRef s) vl"
    using pin by (auto simp: pinSegment_def split: if_splits)
  have "seg_ok E (vl_maxSize vl) (fid \<in> set (vl_listed vl)) (count (add_mset fid pins) fid) (log_of fid log) fid (IncrRef s)"
    using seg_ok_IncrRef vl_inv_seg [OF inv s(2)] s(1) by simp
  from vl_inv_upd [OF inv s(2) this] vl_invD(5,10) [OF inv] s show ?thesis by (auto simp: setSeg_listed)
qed

lemma unpin_inv:
  assumes inv: "vl_inv E vl log pins" and pin: "fid \<in># pins"
  shows "vl_inv E (unpinSegment fid vl) log (pins - {#fid#})"
proof -
  obtain s where s: "map_of (vl_store vl) fid = Some s" using vl_invD(8) [OF inv pin] by blast
  have n: "count pins fid = Suc (count (pins - {#fid#}) fid)" using pin by (simp add: Suc_diff_1)
  then have ok: "seg_ok E (vl_maxSize vl) (fid \<in> set (vl_listed vl)) (count (pins - {#fid#}) fid) (log_of fid log) fid (DecrRef s)"
    using seg_ok_DecrRef vl_inv_seg [OF inv s] by metis
  have "s_writeClosed (DecrRef s) \<longleftrightarrow> s_writeClosed s" if "fid = vl_active vl"
  proof -
    have "\<not> s_removePending s" using vl_inv_seg [OF inv s] that vl_invD(5) [OF inv] by (simp add: seg_ok_def)
    then show ?thesis by (simp add: DecrRef_def)
  qed
  then show ?thesis
    using vl_inv_upd [OF inv s ok] vl_invD(5,10) [OF inv] s by (auto simp: unpinSegment_def setSeg_listed)
qed

lemma delete_inv:
  assumes inv: "vl_inv E vl log pins" and del: "DeleteSegment fid vl = (r, vl')"
  shows "vl_inv E vl' log pins"
proof (cases "vl_active vl = fid \<or> fid \<notin> set (vl_listed vl)")
  case True
  then show ?thesis using inv del by (auto simp: DeleteSegment_def split: if_splits)
next
  case False
  then obtain s where s: "map_of (vl_store vl) fid = Some s" using vl_invD(7) [OF inv] by blast
  have "seg_ok E (vl_maxSize vl) (fid \<in> set (removeAll fid (vl_listed vl))) (count pins fid) (log_of fid log) fid (markRemove s)"
    using seg_ok_markRemove vl_inv_seg [OF inv s] False by simp
  from vl_inv_upd [OF inv s this] vl_invD(5) [OF inv] False del s show ?thesis by (auto simp: DeleteSegment_def)
qed

lemma vstep_inv:
  assumes "vstep E iv (vl, log, pins) (vl', log', pins')" "vl_inv E vl log pins" "\<forall>f. length (iv f) = 16"
  shows "vl_inv E vl' log' pins'"
  using assms(1)
proof cases
  case (vs_write e vp)
  then show ?thesis using write_inv [OF assms(2) _ _ assms(3), of e] by auto
next
  case (vs_rotate r)
  then show ?thesis using rotate_inv [OF assms(2) _ assms(3)] by auto
next
  case vs_sync
  then show ?thesis using assms(2) flush_inv [OF assms(2)] by (auto simp: VSync_def split: option.splits)
next
  case (vs_read vp r)
  then show ?thesis
    using assms(2) flush_inv [OF assms(2), of "vp_fid vp"]
    by (auto simp: readPinned_def readValue_def Let_def split: option.splits if_splits)
next
  case (vs_recover fid r)
  then show ?thesis
    using assms(2) flush_inv [OF assms(2), of fid] by (auto simp: VRecover_def Let_def split: option.splits if_splits)
qed (use assms(2) pin_inv unpin_inv delete_inv in auto)

definition vreach :: "(bytes \<Rightarrow> bytes \<Rightarrow> bytes) \<Rightarrow> (u32 \<Rightarrow> bytes) \<Rightarrow> registry option \<Rightarrow> nat \<Rightarrow> vstate \<Rightarrow> bool" where
  "vreach E iv reg maxSize st \<longleftrightarrow>
     (\<exists>vl. openWithMaxSize reg iv maxSize [] = Inr vl \<and> (vstep E iv)\<^sup>*\<^sup>* (vl, [], {#}) st)"

lemma open_inv:
  assumes "openWithMaxSize reg iv maxSize [] = Inr vl" "reg_ok reg" "maxSize \<le> 2 ^ 62" "\<forall>f. length (iv f) = 16"
  shows "vl_inv E vl [] {#}"
proof -
  obtain s where s: "openSegment reg (iv 1) 1 maxSize [] = Inr s" "seg_rep E s []" "\<not> s_closed s" "\<not> s_writeClosed s"
    "s_refs s = 0" "\<not> s_removePending s" "\<not> s_removed s" "s_fid s = 1" "s_maxSize s = maxSize"
    using openSegment_fresh [OF assms(2)] assms(4) by metis
  have vl: "vl = \<lparr>vl_store = [(1, s)], vl_listed = [1], vl_left = [], vl_maxSize = maxSize, vl_reg = reg, vl_nextFid = 1, vl_active = 1\<rparr>"
    using assms(1) s(1) by (simp add: openWithMaxSize_def leftFile_def)
  show ?thesis
    using s(2-) assms(2,3) unfolding vl vl_inv_def by (auto simp: seg_ok_def log_of_def intro!: exI [of _ "[]"])
qed

lemma vreach_inv:
  assumes "vreach E iv reg maxSize (vl, log, pins)" "reg_ok reg" "maxSize \<le> 2 ^ 62" "\<forall>f. length (iv f) = 16"
  shows "vl_inv E vl log pins"
proof -
  obtain vl0 where o: "openWithMaxSize reg iv maxSize [] = Inr vl0" "(vstep E iv)\<^sup>*\<^sup>* (vl0, [], {#}) (vl, log, pins)"
    using assms(1) by (auto simp: vreach_def)
  from o(2) have "case (vl, log, pins) of (vl, log, pins) \<Rightarrow> vl_inv E vl log pins"
  proof induction
    case base
    then show ?case using open_inv [OF o(1) assms(2-4)] by simp
  next
    case (step y z)
    then show ?case using vstep_inv assms(4) by (cases y; cases z) fastforce
  qed
  then show ?thesis by simp
qed

section \<open>Reads and removal\<close>

lemma readPinned_log:
  assumes inv: "vl_inv E vl log pins" and mem: "(vp, e) \<in> set log"
    and live: "vp_fid vp \<in> set (vl_listed vl) \<or> vp_fid vp \<in># pins"
  shows "fst (readPinned E vp vl) = Inr (ve_value e)"
proof -
  obtain s where s: "map_of (vl_store vl) (vp_fid vp) = Some s" using vl_invD(7,8) [OF inv] live by blast
  note ok = vl_inv_seg [OF inv s]
  have "(vp, e) \<in> set (log_of (vp_fid vp) log)" using mem by (simp add: log_of_def)
  then obtain es where es: "seg_rep E s es" "(vp, e) \<in> set (ptrs (vp_fid vp) (length (segHdr (s_enc s))) es)"
    using ok unfolding seg_ok_def by metis
  obtain us vs where sp: "es = us @ e # vs"
    "vp_offset vp = of_nat (length (segHdr (s_enc s)) + entriesSize us + entryHeaderSize + length (ve_key e))"
    "vp_size vp = of_nat (length (ve_value e))" by (rule ptrs_split [OF es(2)])
  have bound: "length (segHdr (s_enc s)) + entriesSize us + entryHeaderSize + length (ve_key e) < 2 ^ 63" "entry_ok e"
    using es(1) sp(1) by (auto simp: seg_rep_def entrySize_def)
  have "\<not> s_closed s" using ok live by (auto simp: seg_ok_def)
  from readValue_rep [OF es(1) [unfolded sp(1)] this]
  have "fst (readValue E (unat (vp_offset vp)) (unat (vp_size vp)) s) = Inr (ve_value e)"
    unfolding sp(2,3) using bound
    by (subst (1 2) unat_of_nat_small) (auto simp: entry_ok_def)
  then show ?thesis using s by (auto simp: readPinned_def split: prod.split)
qed

lemma VReadValue_log:
  assumes inv: "vl_inv E vl log pins" and mem: "(vp, e) \<in> set log" and live: "vp_fid vp \<in> set (vl_listed vl)"
  shows "fst (VReadValue E vp vl) = Inr (ve_value e)"
proof -
  obtain s where s: "map_of (vl_store vl) (vp_fid vp) = Some s" using vl_invD(7) [OF inv] live by blast
  define vl1 where "vl1 = setSeg (vp_fid vp) (IncrRef s) vl"
  have pin: "pinSegment (vp_fid vp) vl = Some vl1" using s live by (simp add: pinSegment_def vl1_def)
  have r: "fst (readPinned E vp vl1) = Inr (ve_value e)" by (rule readPinned_log [OF pin_inv [OF inv pin] mem]) simp
  have z: "fst (readPinned E vp vl) = Inr (ve_value e)" by (rule readPinned_log [OF inv mem]) (use live in simp)
  show ?thesis
  proof (cases "vp_size vp = 0")
    case True
    then show ?thesis using z s by (simp add: VReadValue_def readPinned_def readValue_def)
  next
    case False
    then show ?thesis using r pin by (cases "readPinned E vp vl1") (simp add: VReadValue_def)
  qed
qed

lemma seg_entries_ptrs:
  assumes "off + entriesSize es < 2 ^ 63"
  shows "seg_entries off (completeEntries m es) =
    map (\<lambda>(vp, e). (e, unat (vp_offset vp)))
      (takeWhile (\<lambda>(vp, e). unat (vp_offset vp) + length (ve_value e) + 4 \<le> off + m) (ptrs fid off es))"
  using assms
proof (induction es arbitrary: off m)
  case (Cons e es)
  have u: "unat (of_nat (off + entryHeaderSize + length (ve_key e)) :: u64) = off + entryHeaderSize + length (ve_key e)"
    by (rule unat_of_nat_small) (use Cons.prems in \<open>simp add: entrySize_def\<close>)
  have "off + entryHeaderSize + length (ve_key e) + length (ve_value e) + 4 \<le> off + m \<longleftrightarrow> entrySize e \<le> m"
    by (simp add: entrySize_def add.assoc)
  then show ?case
    using Cons.prems Cons.IH [of "off + entrySize e" "m - entrySize e"] u by (simp del: of_nat_add)
qed simp

lemma segHdr_read:
  assumes "f = segHdr enc @ rest"
  shows "f \<noteq> []" "\<not> length f < segmentHeaderSize" "get_u32 f = segmentMagic"
proof -
  have "8 \<le> length f" "get_u32 f = segmentMagic" using assms by (auto simp: segHdr_def fileIV_def split: option.splits)
  then show "f \<noteq> []" "\<not> length f < segmentHeaderSize" "get_u32 f = segmentMagic" by (auto simp: segmentHeaderSize_def)
qed

lemma VRecover_torn:
  assumes inv: "vl_inv E vl log pins" and live: "fid \<in> set (vl_listed vl)" and s: "map_of (vl_store vl) fid = Some s"
    and n: "length (segHdr (s_enc s)) \<le> n" "n \<le> length (s_file s @ s_buf s)"
    and s': "s_file s' = take n (s_file s @ s_buf s)" "s_buf s' = []" "s_enc s' = s_enc s"
  shows "fst (VRecover E fid (setSeg fid s' vl)) = Inr (map (\<lambda>(vp, e). (e, unat (vp_offset vp)))
      (takeWhile (\<lambda>(vp, e). unat (vp_offset vp) + length (ve_value e) + 4 \<le> n) (log_of fid log)))"
proof -
  define h where "h = length (segHdr (s_enc s))"
  obtain es where es: "seg_rep E s es" "log_of fid log = ptrs fid h es"
    using vl_inv_seg [OF inv s] by (auto simp: seg_ok_def h_def)
  have img: "s_file s @ s_buf s = segHdr (s_enc s) @ seg_image E (s_enc s) h es" and ok: "enc_ok (s_enc s)"
    "\<forall>e \<in> set es. entry_ok e" "h + entriesSize es < 2 ^ 63" using es(1) by (auto simp: seg_rep_def h_def)
  have len: "length (seg_image E (s_enc s) h es) = entriesSize es" using length_seg_image ok by blast
  define m where "m = n - h"
  have m: "n = h + m" "m \<le> entriesSize es" using n len by (auto simp: m_def h_def img)
  have f: "s_file s' = segHdr (s_enc s) @ take m (seg_image E (s_enc s) h es)" by (simp add: s'(1) img m(1) h_def)
  have h: "(if s_enc s = None then segmentHeaderSize else encSegmentHeaderSize) = h" by (simp add: h_def length_segHdr)
  have lf: "length (s_file s') = h + m" using f len m(2) by (simp add: h_def)
  have "recoverEntries E (s_enc s) (h + m) h (take m (seg_image E (s_enc s) h es)) = seg_entries h (completeEntries m es)"
    using recoverEntries_prefix ok m(2) by blast
  moreover have "drop h (s_file s') = take m (seg_image E (s_enc s) h es)" by (simp add: f h_def)
  moreover have "s_file (if s_writeClosed s' then s' else seg_flush s') = s_file s'"
    "s_enc (if s_writeClosed s' then s' else seg_flush s') = s_enc s" using s'(2,3) by auto
  ultimately show ?thesis
    using segHdr_read [OF f] live seg_entries_ptrs [OF ok(3), of m fid] lf
    by (simp add: VRecover_def setSeg_def update_conv' h es(2) m(1) Let_def)
qed

text \<open>C30: in every state a value log reaches from an empty directory by writes, rotations, syncs, recoveries,
  pinned reads and segment deletions in any order, with or without encryption, a pointer that a write returned
  reads its value back: through \<open>ReadValue\<close> while its segment is in the log, and for a reader that pinned the
  segment also after the segment was deleted.\<close>

theorem vlog_read_back:
  assumes "vreach E iv reg maxSize (vl, log, pins)" "reg_ok reg" "maxSize \<le> 2 ^ 62" "\<forall>f. length (iv f) = 16"
    and "(vp, e) \<in> set log"
  shows "(vp_fid vp \<in> set (vl_listed vl) \<longrightarrow> fst (VReadValue E vp vl) = Inr (ve_value e)) \<and>
    (vp_fid vp \<in># pins \<longrightarrow> fst (readPinned E vp vl) = Inr (ve_value e))"
  using vreach_inv [OF assms(1-4)] VReadValue_log readPinned_log assms(5) by blast

text \<open>C31: the file of a segment is removed exactly when the segment was deleted from the log and no reader holds
  it: never under a reader, and no later than the release of the last one.  The active segment is never removed.\<close>

theorem vlog_removed_iff:
  assumes "vreach E iv reg maxSize (vl, log, pins)" "reg_ok reg" "maxSize \<le> 2 ^ 62" "\<forall>f. length (iv f) = 16"
    and "map_of (vl_store vl) fid = Some s"
  shows "(s_removed s \<longleftrightarrow> fid \<notin> set (vl_listed vl) \<and> fid \<notin># pins) \<and> (fid = vl_active vl \<longrightarrow> \<not> s_removed s)"
  using vl_inv_seg [OF vreach_inv [OF assms(1-4)] assms(5)] vl_invD(5) [OF vreach_inv [OF assms(1-4)]]
  by (auto simp: seg_ok_def not_in_iff)


section \<open>Discard statistics and pointers\<close>

lemma map_of_update_conv: "map_of (AList.update k v xs) = (map_of xs)(k \<mapsto> v)"
  by (simp add: update_conv')

lemma ds_load_image:
  assumes "\<forall>(fid, d) \<in> set ds. 0 < sint d"
  shows "map_of (ds_load (length ds) (concat (map (\<lambda>(fid, d). put_u32 fid @ put_u64 d) ds)) acc) = map_of acc ++ map_of (rev ds)"
  using assms
proof (induction ds arbitrary: acc)
  case (Cons p ds)
  obtain fid d where p: "p = (fid, d)" by fastforce
  have "drop 12 (put_u32 fid @ put_u64 d @ xs) = xs" "get_u64 (drop 4 (put_u32 fid @ put_u64 d @ xs)) = d" for xs
    by simp_all
  then show ?case using Cons p by (simp add: Let_def map_of_update_conv)
qed simp

lemma length_ds_image: "length (concat (map (\<lambda>(fid, d). put_u32 fid @ put_u64 d) ds)) = 12 * length ds"
  by (induction ds) auto

lemma map_of_rev_distinct: "distinct (map fst xs) \<Longrightarrow> map_of (rev xs) = map_of xs"
  by (rule map_of_inject_set [THEN iffD2]) (auto simp flip: rev_map)

lemma best_fold:
  assumes "foldl (\<lambda>(fid, stale) (f, d). if sint stale < sint d then (f, d) else (fid, stale)) (f0, d0 :: i64) ds = (fid, stale)"
  shows "sint d0 \<le> sint stale \<and> (\<forall>(f, d) \<in> set ds. sint d \<le> sint stale) \<and> ((fid, stale) \<in> set ds \<or> (fid, stale) = (f0, d0))"
  using assms
proof (induction ds arbitrary: f0 d0)
  case (Cons p ds)
  obtain f d where p: "p = (f, d)" by fastforce
  show ?case
  proof (cases "sint d0 < sint d")
    case True
    then show ?thesis using Cons.IH [of f d] Cons.prems p by auto
  next
    case False
    then show ?thesis using Cons.IH [of f0 d0] Cons.prems p by auto
  qed
qed simp


text \<open>Saving empty statistics leaves the file of the last save behind: what was deleted is loaded again.\<close>

lemma ds_Save_empty_stale:
  "ds_Load (ds_Save (ds_Delete 7 [(7, 100)]) (ds_Save [(7, 100)] None)) [] = [(7, 100)]"
  by (simp add: ds_Save_def ds_Delete_def ds_Load_def Let_def)

text \<open>C34: a value pointer survives its 17-byte encoding.\<close>

theorem value_pointer_roundtrip:
  "DecodeValuePointer (EncodePointer vp) = vp \<and> length (EncodePointer vp) = 17 \<and> hd (EncodePointer vp) = 1"
  by (simp add: DecodeValuePointer_def EncodePointer_def bslice_def drop_Cons')

text \<open>A segment whose first header bytes were torn by a crash blocks the log: it is skipped without counting its
  id, which then becomes the id of the active segment.\<close>

lemma torn_header_blocks_open:
  "openWithMaxSize None iv mx [(1, [0x56])] = Inl VErrHeader"
  by (simp add: openWithMaxSize_def openSegment_def leftFile_def segmentHeaderSize_def)

section \<open>A run of the log\<close>

text \<open>One entry written, its segment pinned, rotated away and deleted.\<close>

definition demoEntry :: ValueEntry where
  "demoEntry = \<lparr>ve_op = 1, ve_key = [107], ve_value = [1, 2, 3], ve_expiresAt = 0\<rparr>"

definition demoPtr :: ValuePointer where
  "demoPtr = \<lparr>vp_fid = 1, vp_offset = 26, vp_size = 3\<rparr>"

definition demoSeg :: segment where
  "demoSeg = \<lparr>s_fid = 1, s_file = [], s_buf = put_u32 segmentMagic @ put_u32 segmentVersion, s_offset = 8, s_maxSize = 1000,
     s_closed = False, s_writeClosed = False, s_refs = 0, s_removePending = False, s_removed = False, s_enc = None\<rparr>"

definition demoOpen :: vlog where
  "demoOpen = \<lparr>vl_store = [(1, demoSeg)], vl_listed = [1], vl_left = [], vl_maxSize = 1000, vl_reg = None, vl_nextFid = 1, vl_active = 1\<rparr>"

definition demoSeg1 :: segment where
  "demoSeg1 = demoSeg\<lparr>s_buf := s_buf demoSeg @ encodeEntry demoEntry [1, 2, 3], s_offset := 33\<rparr>"

definition demoWritten :: vlog where
  "demoWritten = demoOpen\<lparr>vl_store := [(1, demoSeg1)]\<rparr>"

definition demoPinned :: vlog where
  "demoPinned = demoOpen\<lparr>vl_store := [(1, IncrRef demoSeg1)]\<rparr>"

definition demoRotated :: vlog where
  "demoRotated = snd (rotateLocked (\<lambda>_. replicate 16 0) demoPinned)"

definition demoDeleted :: vlog where
  "demoDeleted = snd (DeleteSegment 1 demoRotated)"

lemmas demo_defs = demoEntry_def demoPtr_def demoSeg_def demoOpen_def demoSeg1_def demoWritten_def demoPinned_def

lemma demo_written: "vreach (\<lambda>k b. b) (\<lambda>_. replicate 16 0) None 1000 (demoWritten, [(demoPtr, demoEntry)], {#})"
proof -
  have o: "openWithMaxSize None (\<lambda>_. replicate 16 0) 1000 [] = Inr demoOpen"
    by (simp add: openWithMaxSize_def openSegment_def leftFile_def demo_defs segmentHeaderSize_def)
  have "VWrite (\<lambda>k b. b) (\<lambda>_. replicate 16 0) demoEntry demoOpen = (Inr demoPtr, demoWritten)"
    by (simp add: VWrite_def appendActive_def writeEntry_def cryptIf_def demo_defs entryHeaderSize_def setSeg_def)
  then have "vstep (\<lambda>k b. b) (\<lambda>_. replicate 16 0) (demoOpen, [], {#}) (demoWritten, [] @ [(demoPtr, demoEntry)], {#})"
    by (intro vs_write) (simp_all add: entry_ok_def demo_defs)
  then show ?thesis using o by (auto simp: vreach_def)
qed

lemma demo_deleted: "vreach (\<lambda>k b. b) (\<lambda>_. replicate 16 0) None 1000 (demoDeleted, [(demoPtr, demoEntry)], {#1#})"
proof -
  have "vstep (\<lambda>k b. b) (\<lambda>_. replicate 16 0) (demoWritten, [(demoPtr, demoEntry)], {#}) (demoPinned, [(demoPtr, demoEntry)], {#1#})"
    by (intro vs_pin) (simp add: pinSegment_def demoWritten_def demoOpen_def demoPinned_def setSeg_def)
  moreover have "vstep (\<lambda>k b. b) (\<lambda>_. replicate 16 0) (demoPinned, l, q) (demoRotated, l, q)" for l q
    by (rule vs_rotate [of _ _ "fst (rotateLocked (\<lambda>_. replicate 16 0) demoPinned)"])
       (simp_all add: demoPinned_def demoOpen_def demoRotated_def)
  moreover have "vstep (\<lambda>k b. b) (\<lambda>_. replicate 16 0) (demoRotated, l, q) (demoDeleted, l, q)" for l q
    by (rule vs_delete [of 1 _ "fst (DeleteSegment 1 demoRotated)"]) (simp add: demoDeleted_def)
  ultimately show ?thesis using demo_written unfolding vreach_def by (meson rtranclp.rtrancl_into_rtrancl)
qed

lemma demo_deleted_seg:
  "map_of (vl_store demoDeleted) 1 = Some (markRemove (closeForWrite (seg_flush (IncrRef demoSeg1))))" "vl_listed demoDeleted = [2]"
  by (simp_all add: demoDeleted_def demoRotated_def demoPinned_def demoOpen_def rotateLocked_def openSegment_def leftFile_def
      DeleteSegment_def setSeg_def segmentHeaderSize_def Let_def)

theorem vlog_read_back_witness:
  "fst (VReadValue (\<lambda>k b. b) demoPtr demoWritten) = Inr [1, 2, 3] \<and> fst (readPinned (\<lambda>k b. b) demoPtr demoDeleted) = Inr [1, 2, 3] \<and>
   1 \<notin> set (vl_listed demoDeleted)"
  using vlog_read_back [OF demo_written, of demoPtr demoEntry] vlog_read_back [OF demo_deleted, of demoPtr demoEntry] demo_deleted_seg(2)
  by (simp add: reg_ok_def demoPtr_def demoEntry_def demoWritten_def demoOpen_def)

theorem vlog_removed_iff_witness:
  "vl_listed demoDeleted = [2] \<and> \<not> s_removed (markRemove (closeForWrite (seg_flush (IncrRef demoSeg1))))"
  using vlog_removed_iff [OF demo_deleted _ _ _ demo_deleted_seg(1)] demo_deleted_seg(2) by (simp add: reg_ok_def)



end
