(* ===== verification/Block.thy ===== *)
theory Block
  imports Mvcc
begin

text \<open>
  Data blocks of an SSTable, \<open>src/sstable/sstable.go\<close>: the record header, the restart trailer that follows
  the records of a block, and the lookups inside a decoded block.  Lengths and offsets inside a block are
  naturals; the 32-bit fields of the format keep their width.
\<close>

section \<open>Records\<close>

definition TargetBlockSize :: nat where "TargetBlockSize = 4096"

definition restartInterval :: nat where "restartInterval = 16"

definition blockRestartMagic :: u32 where "blockRestartMagic = 0x52535450"

definition recordHeaderSize :: nat where "recordHeaderSize = 25"

record RecordHeader =
  h_keyLen :: u32
  h_valLen :: u32
  h_deleted :: bool
  h_expiresAt :: i64
  h_version :: u64

definition hdr_Encode :: "RecordHeader \<Rightarrow> bytes" where
  "hdr_Encode h = put_u32 (h_keyLen h) @ put_u32 (h_valLen h) @ [if h_deleted h then 1 else 0] @
     put_u64 (h_expiresAt h) @ put_u64 (h_version h)"

definition hdr_Decode :: "bytes \<Rightarrow> RecordHeader" where
  "hdr_Decode buf = \<lparr>h_keyLen = get_u32 buf, h_valLen = get_u32 (drop 4 buf), h_deleted = (buf ! 8 = 1),
     h_expiresAt = get_u64 (drop 9 buf), h_version = get_u64 (drop 17 buf)\<rparr>"

text \<open>The bytes one entry adds to the current block.\<close>

definition encodeRecord :: "entry \<Rightarrow> bytes" where
  "encodeRecord e =
     (let vLen = (if e_deleted e then 0 else of_nat (length (e_value e)));
          hdr = \<lparr>h_keyLen = of_nat (length (e_key e)), h_valLen = vLen, h_deleted = e_deleted e,
                 h_expiresAt = e_expiresAt e, h_version = e_version e\<rparr>
      in hdr_Encode hdr @ e_key e @ (if \<not> e_deleted e \<and> 0 < length (e_value e) then e_value e else []))"

definition readEntryAt :: "bytes \<Rightarrow> nat \<Rightarrow> (entry \<times> nat) option" where
  "readEntryAt block off =
     (if length block < off + recordHeaderSize then None
      else (let hdr = hdr_Decode (drop off block); cur = off + recordHeaderSize; kl = unat (h_keyLen hdr); vl = unat (h_valLen hdr)
            in if length block < cur + kl then None
               else (let key = bslice cur (cur + kl) block; cur1 = cur + kl;
                         ent = (\<lambda>v. \<lparr>e_key = key, e_value = v, e_deleted = h_deleted hdr, e_expiresAt = h_expiresAt hdr,
                                      e_version = h_version hdr\<rparr>)
                     in if \<not> h_deleted hdr \<and> 0 < vl then
                          (if length block < cur1 + vl then None
                           else Some (ent (bslice cur1 (cur1 + vl) block), cur1 + vl))
                        else Some (ent [], cur1))))"

lemma readEntryAt_advances: "readEntryAt block off = Some (e, off') \<Longrightarrow> off < off' \<and> off' \<le> length block"
  by (auto simp: readEntryAt_def recordHeaderSize_def Let_def split: if_splits)

section \<open>The restart trailer\<close>

definition blockTrailer :: "u32 list \<Rightarrow> bytes" where
  "blockTrailer offsets =
     concat (map put_u32 offsets) @ put_u32 (of_nat (length offsets)) @ put_u32 blockRestartMagic"

text \<open>The records and the restart offsets, or \<open>None\<close> when the block carries no trailer.\<close>

definition parseBlockRestarts :: "bytes \<Rightarrow> (bytes \<times> u32 list) option" where
  "parseBlockRestarts b =
     (if length b < 8 then None
      else if get_u32 (drop (length b - 4) b) \<noteq> blockRestartMagic then None
      else (let numOffsets = unat (get_u32 (drop (length b - 8) b))
            in if numOffsets = 0 \<or> length b < numOffsets * 4 + 8 then None
               else (let offsetsStart = length b - 8 - numOffsets * 4
                     in Some (take offsetsStart b, map (\<lambda>i. get_u32 (drop (offsetsStart + i * 4) b)) [0..<numOffsets]))))"

section \<open>Lookups in a block\<close>

text \<open>A lookup result: value, found, deleted, expiry and version.\<close>

type_synonym slookup = "bytes \<times> bool \<times> bool \<times> i64 \<times> u64"

text \<open>The loops of the four scans: all of them keep the candidate with the greatest version among the records
  with the key that are accepted; the scans that start at a restart stop behind the key.\<close>

function scanLoop :: "(entry \<Rightarrow> bool) \<Rightarrow> (entry \<Rightarrow> bool) \<Rightarrow> bytes \<Rightarrow> nat \<Rightarrow> entry option \<Rightarrow> entry option" where
  "scanLoop accept stop block off best =
     (if off < length block then
        (case readEntryAt block off of
           None \<Rightarrow> best
         | Some (e, off') \<Rightarrow>
             if stop e then best
             else scanLoop accept stop block off' (if accept e then better best e else best))
      else best)"
  by pat_completeness auto
termination
  by (relation "measure (\<lambda>(_, _, block, off, _). length block - off)") (auto dest: readEntryAt_advances)

declare scanLoop.simps [simp del]

definition scanResult :: "i64 \<Rightarrow> entry option \<Rightarrow> slookup" where
  "scanResult now best =
     (case best of
        None \<Rightarrow> ([], False, False, 0, 0)
      | Some b \<Rightarrow> if expired now (e_expiresAt b) then ([], True, True, 0, e_version b)
                 else (e_value b, True, e_deleted b, e_expiresAt b, e_version b))"

definition scanBlockForKeyLinear :: "i64 \<Rightarrow> bytes \<Rightarrow> bytes \<Rightarrow> slookup" where
  "scanBlockForKeyLinear now block target =
     scanResult now (scanLoop (\<lambda>e. e_key e = target) (\<lambda>e. False) block 0 None)"

definition scanBlockForKeyVersionLinear :: "i64 \<Rightarrow> bytes \<Rightarrow> bytes \<Rightarrow> u64 \<Rightarrow> slookup" where
  "scanBlockForKeyVersionLinear now block target maxVersion =
     scanResult now (scanLoop (\<lambda>e. e_key e = target \<and> e_version e \<le> maxVersion) (\<lambda>e. False) block 0 None)"

text \<open>The key stored at a restart offset, when it lies within the records.\<close>

definition restartKey :: "bytes \<Rightarrow> nat \<Rightarrow> bytes option" where
  "restartKey data off =
     (if length data < off + recordHeaderSize then None
      else (let kl = unat (h_keyLen (hdr_Decode (drop off data)))
            in if length data < off + recordHeaderSize + kl then None
               else Some (bslice (off + recordHeaderSize) (off + recordHeaderSize + kl) data)))"

function restartSearch :: "bytes \<Rightarrow> u32 list \<Rightarrow> bytes \<Rightarrow> int \<Rightarrow> int \<Rightarrow> int \<Rightarrow> int" where
  "restartSearch data offsets target lo hi restartIdx =
     (if lo \<le> hi then
        (let mid = (lo + hi) div 2
         in case restartKey data (unat (offsets ! nat mid)) of
              None \<Rightarrow> restartSearch data offsets target lo (mid - 1) restartIdx
            | Some curKey \<Rightarrow>
                if bytes_compare curKey target < 0 then restartSearch data offsets target (mid + 1) hi mid
                else if bytes_compare curKey target = 0 then restartSearch data offsets target lo (mid - 1) mid
                else restartSearch data offsets target lo (mid - 1) restartIdx)
      else restartIdx)"
  by pat_completeness auto
termination
  by (relation "measure (\<lambda>(_, _, _, lo, hi, _). nat (hi - lo + 1))") auto

declare restartSearch.simps [simp del]

definition scanBlockForKeyBinary :: "i64 \<Rightarrow> bytes \<times> u32 list \<Rightarrow> bytes \<Rightarrow> slookup" where
  "scanBlockForKeyBinary now br target =
     (let (data, offsets) = br; restartIdx = restartSearch data offsets target 0 (int (length offsets) - 1) (- 1)
      in if restartIdx = - 1 then scanResult now None
         else scanResult now (scanLoop (\<lambda>e. e_key e = target) (\<lambda>e. 0 < bytes_compare (e_key e) target) data
                                (unat (offsets ! nat restartIdx)) None))"

definition scanBlockForKeyVersionBinary :: "i64 \<Rightarrow> bytes \<times> u32 list \<Rightarrow> bytes \<Rightarrow> u64 \<Rightarrow> slookup" where
  "scanBlockForKeyVersionBinary now br target maxVersion =
     (let (data, offsets) = br; restartIdx = restartSearch data offsets target 0 (int (length offsets) - 1) (- 1)
      in if restartIdx = - 1 then scanResult now None
         else scanResult now (scanLoop (\<lambda>e. e_key e = target \<and> e_version e \<le> maxVersion)
                                (\<lambda>e. 0 < bytes_compare (e_key e) target) data (unat (offsets ! nat restartIdx)) None))"

definition scanBlockForKey :: "i64 \<Rightarrow> bytes \<Rightarrow> bytes \<Rightarrow> slookup" where
  "scanBlockForKey now block target =
     (case parseBlockRestarts block of
        Some (data, offsets) \<Rightarrow>
          if 1 < length offsets then scanBlockForKeyBinary now (data, offsets) target
          else scanBlockForKeyLinear now data target
      | None \<Rightarrow> scanBlockForKeyLinear now block target)"

definition scanBlockForKeyVersion :: "i64 \<Rightarrow> bytes \<Rightarrow> bytes \<Rightarrow> u64 \<Rightarrow> slookup" where
  "scanBlockForKeyVersion now block target maxVersion =
     (case parseBlockRestarts block of
        Some (data, offsets) \<Rightarrow>
          if 1 < length offsets then scanBlockForKeyVersionBinary now (data, offsets) target maxVersion
          else scanBlockForKeyVersionLinear now data target maxVersion
      | None \<Rightarrow> scanBlockForKeyVersionLinear now block target maxVersion)"

text \<open>\<open>io.ReadFull\<close> into a buffer of \<open>n\<close> zero bytes whose error is ignored.\<close>

definition readFull :: "nat \<Rightarrow> bytes \<Rightarrow> bytes \<times> bytes" where
  "readFull n r = (take n r @ replicate (n - length r) 0, drop n r)"

text \<open>The reader loop of \<open>ReadAll\<close> over the records of one block.\<close>

function readRecords :: "bytes \<Rightarrow> entry list" where
  "readRecords r =
     (if length r < recordHeaderSize then []
      else (let hdr = hdr_Decode r; (k, r1) = readFull (unat (h_keyLen hdr)) (drop recordHeaderSize r);
                (v, r2) = (if \<not> h_deleted hdr \<and> 0 < unat (h_valLen hdr) then readFull (unat (h_valLen hdr)) r1 else ([], r1))
            in \<lparr>e_key = k, e_value = v, e_deleted = h_deleted hdr, e_expiresAt = h_expiresAt hdr, e_version = h_version hdr\<rparr> #
                 readRecords r2))"
  by pat_completeness auto
termination
  by (relation "measure length") (auto simp: recordHeaderSize_def readFull_def split: if_splits)

declare readRecords.simps [simp del]

end
