(* ===== verification/Strconv.thy ===== *)
theory Strconv
  imports Prelude
begin

text \<open>
  Decimal numbers as the source writes and reads them (\<open>strconv.FormatInt\<close>, \<open>strconv.ParseInt\<close>,
  \<open>strconv.ParseUint\<close> in base ten and the \<open>%06d\<close> of file names), with their round trips.
\<close>

definition lit :: "string \<Rightarrow> bytes" where
  "lit s = map of_char s"

text \<open>\<open>strconv.FormatInt(n, 10)\<close> for non-negative \<open>n\<close>.\<close>

fun fmtNat :: "nat \<Rightarrow> bytes" where
  "fmtNat n = (if n < 10 then [0x30 + of_nat n] else fmtNat (n div 10) @ [0x30 + of_nat (n mod 10)])"

declare fmtNat.simps [simp del]

definition fmtInt :: "int \<Rightarrow> bytes" where
  "fmtInt n = (if n < 0 then [0x2D] @ fmtNat (nat (- n)) else fmtNat (nat n))"

definition digitsVal :: "bytes \<Rightarrow> nat" where
  "digitsVal ds = foldl (\<lambda>a d. a * 10 + unat (d - 0x30)) 0 ds"

lemma digit_byte: "n < 10 \<Longrightarrow> unat (of_nat n :: byte) = n" "n < 10 \<Longrightarrow> 0x30 \<le> (0x30 + of_nat n :: byte) \<and> (0x30 + of_nat n :: byte) \<le> 0x39"
proof -
  assume n: "n < 10"
  show u: "unat (of_nat n :: byte) = n" by (rule unat_of_nat_small) (use n in simp)
  have "unat (0x30 + of_nat n :: byte) = 48 + n" using n u by (subst unat_add_lem [THEN iffD1]) auto
  then show "0x30 \<le> (0x30 + of_nat n :: byte) \<and> (0x30 + of_nat n :: byte) \<le> 0x39" using n by (simp add: word_le_nat_alt)
qed

lemma fmtNat_digits: "fmtNat n \<noteq> [] \<and> (\<forall>d \<in> set (fmtNat n). 0x30 \<le> d \<and> d \<le> 0x39) \<and> digitsVal (fmtNat n) = n"
proof (induction n rule: fmtNat.induct)
  case (1 n)
  show ?case
  proof (cases "n < 10")
    case True
    then show ?thesis using digit_byte [of n] by (subst (1 2 3) fmtNat.simps) (simp add: digitsVal_def)
  next
    case False
    then show ?thesis using 1 [OF False] digit_byte [of "n mod 10"] by (subst (1 2 3) fmtNat.simps) (auto simp: digitsVal_def)
  qed
qed

lemma fmtInt_inject: "fmtInt a = fmtInt b \<longleftrightarrow> a = b"
proof -
  have neg: "fmtNat m \<noteq> 0x2D # xs" for m xs using fmtNat_digits [of m] by (cases "fmtNat m = 0x2D # xs") auto
  have "fmtNat m = fmtNat n \<longleftrightarrow> m = n" for m n using fmtNat_digits [of m] fmtNat_digits [of n] by metis
  then show ?thesis using neg neg [symmetric] by (auto simp: fmtInt_def)
qed

lemma last_fmtInt: "fmtInt a \<noteq> []" "0x30 \<le> last (fmtInt a) \<and> last (fmtInt a) \<le> 0x39"
  using fmtNat_digits [of "nat a"] fmtNat_digits [of "nat (- a)"] by (auto simp: fmtInt_def)

section \<open>Parsing\<close>

definition isDigit :: "byte \<Rightarrow> bool" where
  "isDigit d \<longleftrightarrow> 0x30 \<le> d \<and> d \<le> 0x39"

definition ParseUint :: "bytes \<Rightarrow> u64 option" where
  "ParseUint s = (if s = [] \<or> \<not> list_all isDigit s \<or> 2 ^ 64 \<le> digitsVal s then None else Some (of_nat (digitsVal s)))"

definition ParseInt :: "bytes \<Rightarrow> i64 option" where
  "ParseInt s =
     (let neg = (s \<noteq> [] \<and> hd s = 0x2D); s0 = (if s \<noteq> [] \<and> (hd s = 0x2B \<or> hd s = 0x2D) then tl s else s)
      in case ParseUint s0 of
           None \<Rightarrow> None
         | Some un \<Rightarrow>
             if \<not> neg \<and> 2 ^ 63 \<le> unat un then None
             else if neg \<and> 2 ^ 63 < unat un then None
             else Some (if neg then - un else un))"

definition FormatInt :: "i64 \<Rightarrow> bytes" where
  "FormatInt v = fmtInt (sint v)"

definition fmt06 :: "nat \<Rightarrow> bytes" where
  "fmt06 n = replicate (6 - length (fmtNat n)) 0x30 @ fmtNat n"

lemma digitsVal_zeros [simp]: "digitsVal (replicate n 0x30 @ ds) = digitsVal ds"
  by (induction n) (simp_all add: digitsVal_def)

lemma ParseUint_fmtNat: "n < 2 ^ 64 \<Longrightarrow> ParseUint (replicate m 0x30 @ fmtNat n) = Some (of_nat n)"
  using fmtNat_digits [of n] by (auto simp: ParseUint_def list_all_iff isDigit_def not_le)

lemma ParseUint_fmt06: "ParseUint (fmt06 (unat v)) = Some v"
  using ParseUint_fmtNat [of "unat v" "6 - length (fmtNat (unat v))"] unsigned_less [of v, where 'a = nat] by (simp add: fmt06_def)

lemma ParseInt_FormatInt: "ParseInt (FormatInt v) = Some v"
proof -
  have hd: "fmtNat n \<noteq> [] \<and> hd (fmtNat n) \<noteq> 0x2D \<and> hd (fmtNat n) \<noteq> 0x2B" for n
    using fmtNat_digits [of n] hd_in_set [of "fmtNat n"] by fastforce
  have lo: "- (2 ^ 63) \<le> sint v" and hi: "sint v < 2 ^ 63" using sint_range_size [of v] by (simp_all add: word_size)
  show ?thesis
  proof (cases "sint v < 0")
    case True
    define n where "n = nat (- sint v)"
    have n: "n \<le> 2 ^ 63" "int n = - sint v" using True lo by (simp_all add: n_def nat_le_iff)
    have "- (of_nat n :: u64) = v"
    proof -
      have "(of_nat n :: u64) = of_int (- sint v)" using n(2) by (metis of_int_of_nat_eq)
      then show ?thesis by simp
    qed
    moreover have "ParseUint (fmtNat n) = Some (of_nat n)" using ParseUint_fmtNat [of n 0] n(1) by simp
    moreover have "unat (of_nat n :: u64) = n" by (rule unat_of_nat_small) (use n(1) in simp)
    ultimately show ?thesis using True n(1) by (simp add: ParseInt_def FormatInt_def fmtInt_def n_def [symmetric])
  next
    case False
    define n where "n = nat (sint v)"
    have n: "n < 2 ^ 63" "int n = sint v" using False hi by (simp_all add: n_def nat_less_iff)
    have "(of_nat n :: u64) = v"
    proof -
      have "(of_nat n :: u64) = of_int (sint v)" using n(2) by (metis of_int_of_nat_eq)
      then show ?thesis by simp
    qed
    moreover have "ParseUint (fmtNat n) = Some (of_nat n)" using ParseUint_fmtNat [of n 0] n(1) by simp
    moreover have "unat (of_nat n :: u64) = n" by (rule unat_of_nat_small) (use n(1) in simp)
    ultimately show ?thesis using False n(1) hd [of n] by (simp add: ParseInt_def FormatInt_def fmtInt_def n_def [symmetric])
  qed
qed

end
