(* ===== verification/SSTable.thy ===== *)
theory SSTable
  imports Block Bloom Crypto Encoding Strconv
begin

text \<open>
  SSTable files, \<open>src/sstable/sstable.go\<close>: building a table from sorted entries, opening it, point lookups,
  full reads, iterators and the reference count that defers closing and removal.  The shared block cache, the
  compressors, AES-GCM, SHA-256 and xxhash are the fields of an environment \<open>senv\<close>.  A table is its file
  contents and the fields of the Go struct; \<open>t_open\<close> says that the file or its mapping is still open, and
  reads from either give the same bytes.  The tombstone ratio is kept in ten-thousandths, as the footer
  stores it; the float arithmetic that scales it is the argument \<open>ratio\<close>.
\<close>

section \<open>Environment and state\<close>

record 'c senv =
  xxhash :: "bytes \<Rightarrow> u64"
  cGet :: "'c \<Rightarrow> bytes \<Rightarrow> bytes option \<times> 'c"
  cPut :: "'c \<Rightarrow> bytes \<Rightarrow> bytes \<Rightarrow> 'c"
  s2Encode :: "bytes \<Rightarrow> bytes"
  s2Decode :: "bytes \<Rightarrow> bytes option"
  zstdEncode :: "bytes \<Rightarrow> bytes"
  zstdDecode :: "bytes \<Rightarrow> bytes option"
  gcmSeal :: aead
  gcmOpen :: aead_open
  sha256 :: "bytes \<Rightarrow> bytes"

datatype sst_error = SErrRead | ErrBlockCorrupted | SErrCrypto crypto_error | SErrSeal | SErrNoRegistry | SErrIndexKey | SPanic

definition compressNone :: byte where "compressNone = 0"

definition compressSnappy :: byte where "compressSnappy = 1"

definition compressZSTD :: byte where "compressZSTD = 2"

definition compressionTypeForLevel :: "int \<Rightarrow> byte" where
  "compressionTypeForLevel level = (if 2 \<le> level then compressZSTD else compressSnappy)"

definition compressBlock :: "'c senv \<Rightarrow> bytes \<Rightarrow> int \<Rightarrow> bytes \<times> byte" where
  "compressBlock env data level =
     (if compressionTypeForLevel level = compressZSTD then (zstdEncode env data, compressZSTD)
      else (s2Encode env data, compressSnappy))"

record sparseIndexEntry =
  x_key :: bytes
  x_offset :: int
  x_size :: u32

record sstable =
  t_filename :: bytes
  t_data :: bytes
  t_open :: bool
  t_removed :: bool
  t_indexOff :: int
  t_indexLen :: int
  t_numBlocks :: u32
  t_filterOff :: int
  t_filterLen :: int
  t_filterBits :: u32
  t_filterK :: byte
  t_prefixOff :: int
  t_prefixLen :: int
  t_prefixBits :: u32
  t_prefixK :: byte
  t_refs :: int
  t_closed :: bool
  t_compress :: byte
  t_cacheTag :: bytes
  t_removePending :: bool
  t_encrypted :: bool
  t_keyID :: u64
  t_blockKey :: bytes
  t_minKey :: bytes
  t_maxKey :: bytes
  t_level :: int
  t_tombstone :: u16

text \<open>The zero value with a file name and an open file.\<close>

definition emptyTable :: "bytes \<Rightarrow> bytes \<Rightarrow> sstable" where
  "emptyTable filename data =
     \<lparr>t_filename = filename, t_data = data, t_open = True, t_removed = False, t_indexOff = 0, t_indexLen = 0, t_numBlocks = 0,
      t_filterOff = 0, t_filterLen = 0, t_filterBits = 0, t_filterK = 0, t_prefixOff = 0, t_prefixLen = 0, t_prefixBits = 0,
      t_prefixK = 0, t_refs = 0, t_closed = False, t_compress = 0, t_cacheTag = [], t_removePending = False,
      t_encrypted = False, t_keyID = 0, t_blockKey = [], t_minKey = [], t_maxKey = [], t_level = 0, t_tombstone = 0\<rparr>"

section \<open>Cache keys\<close>

text \<open>\<open>%x\<close> of a byte slice.\<close>

definition hexByte :: "byte \<Rightarrow> bytes" where
  "hexByte b = (let d = (\<lambda>n. if n < 10 then 0x30 + of_nat n else 0x57 + of_nat n) in [d (unat b div 16), d (unat b mod 16)])"

definition blockCacheTag :: "'c senv \<Rightarrow> bytes \<Rightarrow> bytes" where
  "blockCacheTag env key =
     (if key = [] then [] else lit '':k'' @ concat (map hexByte (take 8 (sha256 env key))))"

definition blockCacheKey :: "sstable \<Rightarrow> int \<Rightarrow> bytes" where
  "blockCacheKey s off = t_filename s @ t_cacheTag s @ lit '':'' @ fmtInt off"

definition indexCacheKey :: "sstable \<Rightarrow> bytes" where
  "indexCacheKey s = lit ''index:'' @ t_filename s"

definition filterCacheKey :: "sstable \<Rightarrow> bytes" where
  "filterCacheKey s = lit ''filter:'' @ t_filename s"

definition prefixCacheKey :: "sstable \<Rightarrow> bytes" where
  "prefixCacheKey s = lit ''prefix:'' @ t_filename s"

section \<open>Reading sections of the file\<close>

text \<open>\<open>ReadAt\<close> of a whole buffer: an error unless all bytes are there.\<close>

definition readAt :: "bytes \<Rightarrow> int \<Rightarrow> nat \<Rightarrow> bytes option" where
  "readAt d off n =
     (if off < 0 \<or> int (length d) < off + int n then None else Some (bslice (nat off) (nat off + n) d))"

definition tableRead :: "sstable \<Rightarrow> int \<Rightarrow> nat \<Rightarrow> bytes option" where
  "tableRead s off n = (if t_open s then readAt (t_data s) off n else None)"

text \<open>A nil cache is \<open>None\<close>.\<close>

definition cacheGet :: "'c senv \<Rightarrow> bytes \<Rightarrow> 'c option \<Rightarrow> bytes option \<times> 'c option" where
  "cacheGet env k c = (case c of None \<Rightarrow> (None, None) | Some c0 \<Rightarrow> (let (r, c1) = cGet env c0 k in (r, Some c1)))"

definition cachePut :: "'c senv \<Rightarrow> bytes \<Rightarrow> bytes \<Rightarrow> 'c option \<Rightarrow> 'c option" where
  "cachePut env k v c = map_option (\<lambda>c0. cPut env c0 k v) c"

text \<open>The common body of \<open>getIndexData\<close>, \<open>getFilter\<close> and \<open>getPrefixFilter\<close>.\<close>

definition getSection :: "'c senv \<Rightarrow> sstable \<Rightarrow> bytes \<Rightarrow> int \<Rightarrow> int \<Rightarrow> 'c option \<Rightarrow> bytes option \<times> 'c option" where
  "getSection env s ck off len c =
     (if len \<le> 0 then (None, c)
      else case cacheGet env ck c of
        (Some raw, c1) \<Rightarrow> (Some raw, c1)
      | (None, c1) \<Rightarrow>
          (case tableRead s off (nat len) of
             None \<Rightarrow> (None, c1)
           | Some raw \<Rightarrow> (Some raw, cachePut env ck raw c1)))"

definition getIndexData :: "'c senv \<Rightarrow> sstable \<Rightarrow> 'c option \<Rightarrow> bytes option \<times> 'c option" where
  "getIndexData env s c = getSection env s (indexCacheKey s) (t_indexOff s) (t_indexLen s) c"

definition getFilter :: "'c senv \<Rightarrow> sstable \<Rightarrow> 'c option \<Rightarrow> filter option \<times> 'c option" where
  "getFilter env s c =
     (case getSection env s (filterCacheKey s) (t_filterOff s) (t_filterLen s) c of
        (raw, c1) \<Rightarrow> (map_option (\<lambda>r. NewFilterFromBytes r (t_filterBits s) (t_filterK s)) raw, c1))"

definition getPrefixFilter :: "'c senv \<Rightarrow> sstable \<Rightarrow> 'c option \<Rightarrow> filter option \<times> 'c option" where
  "getPrefixFilter env s c =
     (case getSection env s (prefixCacheKey s) (t_prefixOff s) (t_prefixLen s) c of
        (raw, c1) \<Rightarrow> (map_option (\<lambda>r. NewFilterFromBytes r (t_prefixBits s) (t_prefixK s)) raw, c1))"

definition MayContainPrefix :: "'c senv \<Rightarrow> sstable \<Rightarrow> bytes \<Rightarrow> 'c option \<Rightarrow> bool option \<times> 'c option" where
  "MayContainPrefix env s p c = (case getPrefixFilter env s c of (f, c1) \<Rightarrow> (MayContain (xxhash env) f p, c1))"

definition parseIndexEntry :: "bytes \<Rightarrow> nat \<Rightarrow> nat \<Rightarrow> bytes \<times> int \<times> u32" where
  "parseIndexEntry idx n i =
     (if length idx < 4 + n * 4 then ([], 0, 0)
      else (let dataStart = 4 + n * 4 + unat (get_u32 (drop (4 + i * 4) idx))
            in if length idx < dataStart + 14 then ([], 0, 0)
               else (let keyLen = unat (get_u16 (drop dataStart idx));
                         offset = sint (get_u64 (drop (dataStart + 2) idx)); sz = get_u32 (drop (dataStart + 10) idx)
                     in if length idx < dataStart + 14 + keyLen then ([], 0, 0)
                        else (bslice (dataStart + 14) (dataStart + 14 + keyLen) idx, offset, sz))))"

definition getEntryAt :: "'c senv \<Rightarrow> sstable \<Rightarrow> int \<Rightarrow> 'c option \<Rightarrow> (bytes \<times> int \<times> u32) \<times> 'c option" where
  "getEntryAt env s i c =
     (if i < 0 \<or> int (unat (t_numBlocks s)) \<le> i then (([], 0, 0), c)
      else case getIndexData env s c of
        (None, c1) \<Rightarrow> (([], 0, 0), c1)
      | (Some idx, c1) \<Rightarrow> (parseIndexEntry idx (unat (t_numBlocks s)) (nat i), c1))"

definition getKeyAt :: "'c senv \<Rightarrow> sstable \<Rightarrow> int \<Rightarrow> 'c option \<Rightarrow> bytes \<times> 'c option" where
  "getKeyAt env s i c = (case getEntryAt env s i c of ((k, _, _), c1) \<Rightarrow> (k, c1))"

section \<open>Building a table\<close>

record builder =
  b_file :: bytes
  b_index :: "sparseIndexEntry list"
  b_keys :: "bytes list"
  b_offset :: nat
  b_block :: bytes
  b_first :: "bytes option"
  b_offsets :: "u32 list"
  b_err :: "sst_error option"
  b_keyID :: u64
  b_prefix :: "filter option"
  b_tombs :: nat
  b_count :: nat
  b_prev :: bytes

text \<open>The GCM nonce of a block is drawn from \<open>nonce\<close>, by the number of the block.\<close>

definition flushCurrentBlock :: "'c senv \<Rightarrow> (nat \<Rightarrow> bytes) \<Rightarrow> int \<Rightarrow> registry option \<Rightarrow> builder \<Rightarrow> builder" where
  "flushCurrentBlock env nonce level reg b =
     (if b_block b = [] \<or> b_err b \<noteq> None then b
      else (let blockData = b_block b @ blockTrailer (b_offsets b);
                compressed = fst (compressBlock env blockData level);
                sealed = (case reg of None \<Rightarrow> Some (b_keyID b, compressed)
                          | Some kr \<Rightarrow> SealBlock (gcmSeal env) (nonce (length (b_index b))) kr compressed)
            in case sealed of
                 None \<Rightarrow> b\<lparr>b_block := blockData, b_err := Some SErrSeal\<rparr>
               | Some (keyID, payload) \<Rightarrow>
                   (let blockSize = of_nat (length payload + 4) :: u32
                    in b\<lparr>b_keyID := keyID,
                         b_index := b_index b @ [\<lparr>x_key = (case b_first b of None \<Rightarrow> [] | Some k \<Rightarrow> k),
                                                  x_offset = int (b_offset b), x_size = blockSize\<rparr>],
                         b_file := b_file b @ payload @ put_u32 (crc32 payload),
                         b_offset := b_offset b + unat blockSize,
                         b_block := [], b_first := None, b_offsets := []\<rparr>)))"

definition addEntry :: "'c senv \<Rightarrow> (nat \<Rightarrow> bytes) \<Rightarrow> i64 \<Rightarrow> int \<Rightarrow> registry option \<Rightarrow> builder \<Rightarrow> entry \<Rightarrow> builder" where
  "addEntry env nonce nowUnix level reg b0 e =
     (let b1 = (if b_first b0 \<noteq> None \<and> TargetBlockSize \<le> length (b_block b0) \<and> e_key e \<noteq> b_prev b0
                then flushCurrentBlock env nonce level reg b0 else b0);
          b2 = b1\<lparr>b_prev := e_key e, b_keys := b_keys b1 @ [e_key e],
                  b_prefix := Option.bind (b_prefix b1) (\<lambda>f. Add (xxhash env) f (ExtractPrefix (e_key e))),
                  b_tombs := (if e_deleted e \<or> expired nowUnix (e_expiresAt e) then Suc (b_tombs b1) else b_tombs b1)\<rparr>;
          b3 = (case b_first b2 of
                  None \<Rightarrow> b2\<lparr>b_first := Some (e_key e), b_offsets := b_offsets b2 @ [0], b_count := 0\<rparr>
                | Some _ \<Rightarrow>
                    if b_count b2 mod restartInterval = 0 then b2\<lparr>b_offsets := b_offsets b2 @ [of_nat (length (b_block b2))]\<rparr>
                    else b2)
      in b3\<lparr>b_block := b_block b3 @ encodeRecord e, b_count := Suc (b_count b3)\<rparr>)"

definition newBuilder :: "nat \<Rightarrow> builder" where
  "newBuilder n =
     \<lparr>b_file = [], b_index = [], b_keys = [], b_offset = 0, b_block = [], b_first = None, b_offsets = [], b_err = None,
      b_keyID = 0, b_prefix = Some (NewFilterSized n 10), b_tombs = 0, b_count = 0, b_prev = []\<rparr>"

text \<open>The offsets table and the entries of the flat index.\<close>

fun encodeIndex :: "sparseIndexEntry list \<Rightarrow> bytes \<Rightarrow> bytes \<Rightarrow> (bytes \<times> bytes) option" where
  "encodeIndex [] table entriesBuf = Some (table, entriesBuf)"
| "encodeIndex (x # xs) table entriesBuf =
     (if 65535 < length (x_key x) then None
      else encodeIndex xs (table @ put_u32 (of_nat (length entriesBuf)))
             (entriesBuf @ put_u16 (of_nat (length (x_key x))) @ put_u64 (of_int (x_offset x)) @ put_u32 (x_size x) @ x_key x))"

definition filterSection :: "filter \<Rightarrow> bytes" where
  "filterSection f = [f_k f] @ put_u32 (f_bits f) @ f_data f"

definition footer :: "nat \<Rightarrow> nat \<Rightarrow> byte \<Rightarrow> nat \<Rightarrow> registry option \<Rightarrow> u64 \<Rightarrow> u16 \<Rightarrow> bytes" where
  "footer indexStart bloomStart ctype minKeyStart reg keyID tomb =
     put_u64 (of_nat indexStart) @ put_u64 (of_nat bloomStart) @ [ctype] @ put_u64 (of_nat minKeyStart) @
     (if reg \<noteq> None \<and> keyID \<noteq> 0 then put_u32 (ucast keyID) @ [1] else replicate 5 0) @ put_u16 tomb"

definition createAtLevel :: "'c senv \<Rightarrow> (nat \<Rightarrow> bytes) \<Rightarrow> (nat \<Rightarrow> nat \<Rightarrow> u16) \<Rightarrow> i64 \<Rightarrow> bytes \<Rightarrow> entry list \<Rightarrow> int \<Rightarrow>
    registry option \<Rightarrow> 'c option \<Rightarrow> (sst_error + sstable) \<times> 'c option" where
  "createAtLevel env nonce ratio nowUnix filename entries level reg c =
     (let b = flushCurrentBlock env nonce level reg
                (foldl (addEntry env nonce nowUnix level reg) (newBuilder (length entries)) entries)
      in case b_err b of
           Some err \<Rightarrow> (Inl err, c)
         | None \<Rightarrow>
             (case encodeIndex (b_index b) [] [] of
                None \<Rightarrow> (Inl SErrIndexKey, c)
              | Some (table, entriesBuf) \<Rightarrow>
                  (case (NewFilter (xxhash env) (b_keys b) 10, b_prefix b) of
                     (Some f, Some pf) \<Rightarrow>
                       (let numBlocks = of_nat (length (b_index b)) :: u32;
                            indexStart = b_offset b;
                            indexData = put_u32 numBlocks @ table @ entriesBuf;
                            bloomStart = indexStart + length indexData;
                            prefixStart = bloomStart + 5 + length (f_data f);
                            minKeyStart = prefixStart + 5 + length (f_data pf);
                            minKey = (case entries of [] \<Rightarrow> [] | e # _ \<Rightarrow> e_key e);
                            maxKey = (case entries of [] \<Rightarrow> [] | _ # _ \<Rightarrow> e_key (last entries));
                            tomb = (if entries = [] then 0 else ratio (b_tombs b) (length entries));
                            ctype = compressionTypeForLevel level;
                            data = b_file b @ indexData @ filterSection f @ filterSection pf @
                                   put_u32 (of_nat (length minKey)) @ minKey @ put_u32 (of_nat (length maxKey)) @ maxKey @
                                   footer indexStart bloomStart ctype minKeyStart reg (b_keyID b) tomb;
                            enc = (reg \<noteq> None \<and> b_keyID b \<noteq> 0);
                            sst = (emptyTable filename data)
                              \<lparr>t_indexOff := int indexStart, t_indexLen := int (length indexData), t_numBlocks := numBlocks,
                               t_filterOff := int (bloomStart + 5), t_filterLen := int (length (f_data f)), t_filterBits := f_bits f,
                               t_filterK := f_k f, t_prefixOff := int (prefixStart + 5), t_prefixLen := int (length (f_data pf)),
                               t_prefixBits := f_bits pf, t_prefixK := f_k pf, t_level := level, t_compress := ctype,
                               t_encrypted := enc, t_keyID := b_keyID b, t_minKey := minKey, t_maxKey := maxKey, t_tombstone := tomb,
                               t_blockKey := (case reg of Some kr \<Rightarrow> if enc then snd (ActiveKey kr) else [] | None \<Rightarrow> [])\<rparr>
                        in (Inr sst,
                            cachePut env (prefixCacheKey sst) (f_data pf)
                              (cachePut env (filterCacheKey sst) (f_data f) (cachePut env (indexCacheKey sst) indexData c))))
                   | _ \<Rightarrow> (Inl SPanic, c))))"

section \<open>Opening a table\<close>

definition readLen32 :: "bytes \<Rightarrow> int \<Rightarrow> u32 option" where
  "readLen32 d off = map_option get_u32 (readAt d off 4)"

text \<open>Offset, length, bits and probes of the filter and of the prefix filter; zero when absent.\<close>

definition openFilter :: "bytes \<Rightarrow> int \<Rightarrow> int \<Rightarrow> int \<times> int \<times> u32 \<times> byte" where
  "openFilter d bloomStart minKeyOffset =
     (if bloomStart + 5 \<le> int (length d) then
        (case (readAt d bloomStart 1, readLen32 d (bloomStart + 1)) of
           (Some kByte, Some bits) \<Rightarrow>
             (let l = minKeyOffset - (bloomStart + 5)
              in if 0 < l then
                   (let flen = int (unat ((bits + 7) div 8))
                    in (bloomStart + 5, if flen \<le> 0 \<or> l < flen then l else flen, bits, kByte ! 0))
                 else (0, 0, bits, kByte ! 0))
         | _ \<Rightarrow> (0, 0, 0, 0))
      else (0, 0, 0, 0))"

definition openPrefix :: "bytes \<Rightarrow> int \<Rightarrow> int \<Rightarrow> int \<Rightarrow> int \<times> int \<times> u32 \<times> byte" where
  "openPrefix d filterOff filterLen minKeyOffset =
     (let pOff = filterOff + filterLen
      in if 0 < filterLen \<and> pOff + 5 \<le> minKeyOffset then
           (case (readAt d pOff 1, readLen32 d (pOff + 1)) of
              (Some kByte, Some bits) \<Rightarrow>
                (let pl = int (unat ((bits + 7) div 8))
                 in if 0 < pl \<and> pOff + 5 + pl \<le> minKeyOffset then (pOff + 5, pl, bits, kByte ! 0) else (0, 0, 0, 0))
            | _ \<Rightarrow> (0, 0, 0, 0))
         else (0, 0, 0, 0))"

text \<open>The stored key bounds replace the ones taken from the index.\<close>

definition openBounds :: "bytes \<Rightarrow> int \<Rightarrow> sstable \<Rightarrow> sstable" where
  "openBounds d minKeyOffset s =
     (let lim = int (length d) - 32
      in if 0 < minKeyOffset \<and> minKeyOffset < lim then
           (case readLen32 d minKeyOffset of
              None \<Rightarrow> s
            | Some l \<Rightarrow>
                (let mkLen = int (unat l);
                     s1 = (if 0 < mkLen \<and> minKeyOffset + 4 + mkLen < lim then
                             (case readAt d (minKeyOffset + 4) (nat mkLen) of None \<Rightarrow> s | Some k \<Rightarrow> s\<lparr>t_minKey := k\<rparr>)
                           else s);
                     mkOff = minKeyOffset + 4 + mkLen
                 in case readLen32 d mkOff of
                      None \<Rightarrow> s1
                    | Some l2 \<Rightarrow>
                        (let mkLen2 = int (unat l2)
                         in if 0 < mkLen2 \<and> mkOff + 4 + mkLen2 \<le> lim then
                              (case readAt d (mkOff + 4) (nat mkLen2) of None \<Rightarrow> s1 | Some k \<Rightarrow> s1\<lparr>t_maxKey := k\<rparr>)
                            else s1)))
         else s)"

definition openTable :: "'c senv \<Rightarrow> registry option \<Rightarrow> bytes \<Rightarrow> bytes \<Rightarrow> 'c option \<Rightarrow> (sst_error + sstable) \<times> 'c option" where
  "openTable env reg filename d c =
     (if length d < 32 then (Inr (emptyTable filename d), c)
      else (let ft = drop (length d - 32) d;
                indexStart = sint (get_u64 ft); bloomStart = sint (get_u64 (drop 8 ft)); ctype = ft ! 16;
                minKeyOffset = sint (get_u64 (drop 17 ft)); keyID = ucast (get_u32 (drop 25 ft)) :: u64; encrypted = (ft ! 29 = 1);
                blockKey = (if encrypted then (case reg of None \<Rightarrow> Inl SErrNoRegistry
                              | Some kr \<Rightarrow> (case GetKey kr keyID of Inl e \<Rightarrow> Inl (SErrCrypto e) | Inr k \<Rightarrow> Inr k))
                            else Inr [])
            in case blockKey of
                 Inl e \<Rightarrow> (Inl e, c)
               | Inr bk \<Rightarrow>
                   (case readLen32 d indexStart of
                      None \<Rightarrow> (Inl SErrRead, c)
                    | Some numBlocks \<Rightarrow>
                        (case openFilter d bloomStart minKeyOffset of
                           (fOff, fLen, fBits, fK) \<Rightarrow>
                             (case openPrefix d fOff fLen minKeyOffset of
                                (pOff, pLen, pBits, pK) \<Rightarrow>
                                  (let sst = (emptyTable filename d)
                                     \<lparr>t_indexOff := indexStart, t_indexLen := bloomStart - indexStart, t_numBlocks := numBlocks,
                                      t_filterOff := fOff, t_filterLen := fLen, t_filterBits := fBits, t_filterK := fK,
                                      t_prefixOff := pOff, t_prefixLen := pLen, t_prefixBits := pBits, t_prefixK := pK,
                                      t_compress := ctype, t_encrypted := encrypted, t_keyID := keyID, t_blockKey := bk,
                                      t_cacheTag := blockCacheTag env bk, t_tombstone := get_u16 (drop 30 ft)\<rparr>
                                   in if 0 < numBlocks then
                                        (case getKeyAt env sst 0 c of
                                           (k0, c1) \<Rightarrow>
                                             (case getKeyAt env sst (int (unat (numBlocks - 1))) c1 of
                                                (k1, c2) \<Rightarrow> (Inr (openBounds d minKeyOffset (sst\<lparr>t_minKey := k0, t_maxKey := k1\<rparr>)), c2)))
                                      else (Inr (openBounds d minKeyOffset sst), c)))))))"

section \<open>References and removal\<close>

definition closeLocked :: "sstable \<Rightarrow> sstable" where
  "closeLocked s = (if t_open s then s\<lparr>t_open := False, t_removed := t_removed s \<or> t_removePending s\<rparr> else s)"

definition tIncrRef :: "sstable \<Rightarrow> sstable" where
  "tIncrRef s = s\<lparr>t_refs := t_refs s + 1\<rparr>"

definition tDecrRef :: "sstable \<Rightarrow> sstable" where
  "tDecrRef s =
     (let s1 = s\<lparr>t_refs := t_refs s - 1\<rparr>
      in if t_refs s1 \<le> 0 \<and> (t_closed s1 \<or> t_removePending s1) then closeLocked s1 else s1)"

definition tClose :: "sstable \<Rightarrow> sstable" where
  "tClose s = (let s1 = s\<lparr>t_closed := True\<rparr> in if t_refs s1 \<le> 0 then closeLocked s1 else s1)"

definition MarkRemove :: "sstable \<Rightarrow> sstable" where
  "MarkRemove s = (let s1 = s\<lparr>t_removePending := True, t_closed := True\<rparr> in if t_refs s1 \<le> 0 then closeLocked s1 else s1)"

section \<open>Reading blocks\<close>

definition readBlock :: "sstable \<Rightarrow> int \<Rightarrow> u32 \<Rightarrow> sst_error + bytes" where
  "readBlock s off sz = (case tableRead s off (unat sz) of None \<Rightarrow> Inl SErrRead | Some d \<Rightarrow> Inr d)"

definition verifyBlockCRC :: "bytes \<Rightarrow> bytes option" where
  "verifyBlockCRC data =
     (if length data \<le> 4 then None
      else (let contentLen = length data - 4; content = take contentLen data
            in if get_u32 (drop contentLen data) \<noteq> crc32 content then None else Some content))"

definition decodeBlock :: "'c senv \<Rightarrow> sstable \<Rightarrow> bytes \<Rightarrow> sst_error + bytes" where
  "decodeBlock env s raw =
     (case verifyBlockCRC raw of
        None \<Rightarrow> Inl ErrBlockCorrupted
      | Some content \<Rightarrow>
          (case (if t_encrypted s then OpenBlockWithKey (gcmOpen env) (t_blockKey s) content else Inr content) of
             Inl e \<Rightarrow> Inl (SErrCrypto e)
           | Inr plain \<Rightarrow>
               if t_compress s = compressSnappy then
                 (case s2Decode env plain of None \<Rightarrow> Inl ErrBlockCorrupted | Some d \<Rightarrow> Inr d)
               else if t_compress s = compressZSTD then
                 (case zstdDecode env plain of None \<Rightarrow> Inl ErrBlockCorrupted | Some d \<Rightarrow> Inr d)
               else Inr plain))"

text \<open>The block of an index entry, from the cache or the file.\<close>

definition fetchBlock :: "'c senv \<Rightarrow> sstable \<Rightarrow> int \<Rightarrow> u32 \<Rightarrow> 'c option \<Rightarrow> (sst_error + bytes) \<times> 'c option" where
  "fetchBlock env s off sz c =
     (case cacheGet env (blockCacheKey s off) c of
        (Some b, c1) \<Rightarrow> (Inr b, c1)
      | (None, c1) \<Rightarrow>
          (case readBlock s off sz of
             Inl e \<Rightarrow> (Inl e, c1)
           | Inr raw \<Rightarrow>
               (case decodeBlock env s raw of
                  Inl e \<Rightarrow> (Inl e, c1)
                | Inr b \<Rightarrow> (Inr b, cachePut env (blockCacheKey s off) b c1))))"

text \<open>The binary search for the last block whose first key is not greater than \<open>key\<close>.\<close>

function blockSearch :: "'c senv \<Rightarrow> sstable \<Rightarrow> bytes \<Rightarrow> int \<Rightarrow> int \<Rightarrow> int \<Rightarrow> 'c option \<Rightarrow> int \<times> 'c option" where
  "blockSearch env s key low high target c =
     (if low \<le> high then
        (let mid = (low + high) div 2
         in case getKeyAt env s mid c of
              (k, c1) \<Rightarrow>
                if bytes_compare k key \<le> 0 then blockSearch env s key (mid + 1) high mid c1
                else blockSearch env s key low (mid - 1) target c1)
      else (target, c))"
  by pat_completeness auto
termination
  by (relation "measure (\<lambda>(_, _, _, low, high, _, _). nat (high - low + 1))") auto

declare blockSearch.simps [simp del]

text \<open>The common body of \<open>Get\<close> and \<open>GetByVersion\<close>, which differ in the scan of the block.\<close>

definition lookupTable :: "'c senv \<Rightarrow> (bytes \<Rightarrow> slookup) \<Rightarrow> sstable \<Rightarrow> bytes \<Rightarrow> 'c option \<Rightarrow> (sst_error + slookup) \<times> 'c option" where
  "lookupTable env scan s key c =
     (case getFilter env s c of
        (f, c1) \<Rightarrow>
          (case MayContain (xxhash env) f key of
             None \<Rightarrow> (Inl SPanic, c1)
           | Some False \<Rightarrow> (Inr ([], False, False, 0, 0), c1)
           | Some True \<Rightarrow>
               if t_numBlocks s = 0 then (Inr ([], False, False, 0, 0), c1)
               else (case blockSearch env s key 0 (int (unat (t_numBlocks s)) - 1) (- 1) c1 of
                       (idx, c2) \<Rightarrow>
                         if idx = - 1 then (Inr ([], False, False, 0, 0), c2)
                         else (case getEntryAt env s idx c2 of
                                 ((_, off, sz), c3) \<Rightarrow>
                                   (case fetchBlock env s off sz c3 of
                                      (Inl e, c4) \<Rightarrow> (Inl e, c4)
                                    | (Inr b, c4) \<Rightarrow> (Inr (scan b), c4))))))"

definition tGet :: "'c senv \<Rightarrow> i64 \<Rightarrow> sstable \<Rightarrow> bytes \<Rightarrow> 'c option \<Rightarrow> (sst_error + slookup) \<times> sstable \<times> 'c option" where
  "tGet env now s key c =
     (case lookupTable env (\<lambda>b. scanBlockForKey now b key) (tIncrRef s) key c of
        (r, c1) \<Rightarrow> (r, tDecrRef (tIncrRef s), c1))"

definition tGetByVersion :: "'c senv \<Rightarrow> i64 \<Rightarrow> sstable \<Rightarrow> bytes \<Rightarrow> u64 \<Rightarrow> 'c option \<Rightarrow> (sst_error + slookup) \<times> sstable \<times> 'c option" where
  "tGetByVersion env now s key maxVersion c =
     (case lookupTable env (\<lambda>b. scanBlockForKeyVersion now b key maxVersion) (tIncrRef s) key c of
        (r, c1) \<Rightarrow> (r, tDecrRef (tIncrRef s), c1))"

section \<open>Reading everything\<close>

definition blockRecordBytes :: "bytes \<Rightarrow> bytes" where
  "blockRecordBytes b = (case parseBlockRestarts b of None \<Rightarrow> b | Some (data, _) \<Rightarrow> data)"

fun readAllLoop :: "'c senv \<Rightarrow> sstable \<Rightarrow> nat list \<Rightarrow> entry list \<Rightarrow> 'c option \<Rightarrow> (sst_error + entry list) \<times> 'c option" where
  "readAllLoop env s [] acc c = (Inr acc, c)"
| "readAllLoop env s (i # is) acc c =
     (case getEntryAt env s (int i) c of
        ((_, off, sz), c1) \<Rightarrow>
          (case readBlock s off sz of
             Inl e \<Rightarrow> (Inl e, c1)
           | Inr raw \<Rightarrow>
               (case decodeBlock env s raw of
                  Inl _ \<Rightarrow> readAllLoop env s is acc c1
                | Inr b \<Rightarrow> readAllLoop env s is (acc @ readRecords (blockRecordBytes b)) c1)))"

definition ReadAll :: "'c senv \<Rightarrow> sstable \<Rightarrow> 'c option \<Rightarrow> (sst_error + entry list) \<times> 'c option" where
  "ReadAll env s c = readAllLoop env s [0..<unat (t_numBlocks s)] [] c"

section \<open>Iterators\<close>

record sst_iter =
  i_blockIdx :: int
  i_reader :: "bytes option"
  i_key :: bytes
  i_value :: bytes
  i_deleted :: bool
  i_expAt :: i64
  i_version :: u64
  i_valid :: bool
  i_done :: bool

definition NewIterator :: "sstable \<Rightarrow> sst_iter \<times> sstable" where
  "NewIterator s =
     (\<lparr>i_blockIdx = - 1, i_reader = None, i_key = [], i_value = [], i_deleted = False, i_expAt = 0, i_version = 0,
       i_valid = False, i_done = False\<rparr>, tIncrRef s)"

definition loadBlock :: "'c senv \<Rightarrow> sstable \<Rightarrow> int \<Rightarrow> sst_iter \<Rightarrow> 'c option \<Rightarrow> bool \<times> sst_iter \<times> 'c option" where
  "loadBlock env s idx it c =
     (if idx < 0 \<or> int (unat (t_numBlocks s)) \<le> idx then (False, it, c)
      else case getEntryAt env s idx c of
        ((_, off, sz), c1) \<Rightarrow>
          (case fetchBlock env s off sz c1 of
             (Inl _, c2) \<Rightarrow> (False, it, c2)
           | (Inr b, c2) \<Rightarrow> (True, it\<lparr>i_blockIdx := idx, i_reader := Some (blockRecordBytes b)\<rparr>, c2)))"

definition readNextRecord :: "sst_iter \<Rightarrow> bool \<times> sst_iter" where
  "readNextRecord it =
     (case i_reader it of
        None \<Rightarrow> (False, it)
      | Some r \<Rightarrow>
          if r = [] then (False, it)
          else if length r < recordHeaderSize then (False, it\<lparr>i_reader := Some []\<rparr>)
          else (let hdr = hdr_Decode r; r1 = drop recordHeaderSize r; kl = unat (h_keyLen hdr);
                    it1 = it\<lparr>i_deleted := h_deleted hdr, i_expAt := h_expiresAt hdr, i_version := h_version hdr\<rparr>
                in if length r1 < kl then (False, it1\<lparr>i_reader := Some []\<rparr>)
                   else (let it2 = it1\<lparr>i_key := take kl r1\<rparr>; r2 = drop kl r1
                         in if \<not> h_deleted hdr \<and> 0 < unat (h_valLen hdr) then
                              (let (v, r3) = readFull (unat (h_valLen hdr)) r2 in (True, it2\<lparr>i_value := v, i_reader := Some r3\<rparr>))
                            else (True, it2\<lparr>i_value := [], i_reader := Some r2\<rparr>))))"

text \<open>The inner loop of \<open>Seek\<close>: records of the current block up to the first that is not less than \<open>key\<close>.  It
  ends since every record takes at least its header off the reader.\<close>

lemma readNextRecord_less:
  "readNextRecord it = (True, it') \<Longrightarrow> length (the (i_reader it')) < length (the (i_reader it)) \<and> i_reader it' \<noteq> None"
  by (auto simp: readNextRecord_def recordHeaderSize_def readFull_def Let_def split: option.splits if_splits)

function seekBlock :: "bytes \<Rightarrow> sst_iter \<Rightarrow> bool \<times> sst_iter" where
  "seekBlock key it =
     (case readNextRecord it of
        (False, it1) \<Rightarrow> (False, it1)
      | (True, it1) \<Rightarrow> if 0 \<le> bytes_compare (i_key it1) key then (True, it1\<lparr>i_valid := True\<rparr>) else seekBlock key it1)"
  by pat_completeness auto
termination
  by (relation "measure (\<lambda>(_, it). length (the (i_reader it)))") (auto dest!: sym [of _ "readNextRecord _"] readNextRecord_less)

declare seekBlock.simps [simp del]

fun seekBlocks :: "'c senv \<Rightarrow> sstable \<Rightarrow> bytes \<Rightarrow> nat list \<Rightarrow> sst_iter \<Rightarrow> 'c option \<Rightarrow> sst_iter \<times> 'c option" where
  "seekBlocks env s key [] it c = (it\<lparr>i_valid := False\<rparr>, c)"
| "seekBlocks env s key (i # is) it c =
     (case loadBlock env s (int i) it c of
        (False, it1, c1) \<Rightarrow> (it1\<lparr>i_valid := False\<rparr>, c1)
      | (True, it1, c1) \<Rightarrow>
          (case seekBlock key it1 of (True, it2) \<Rightarrow> (it2, c1) | (False, it2) \<Rightarrow> seekBlocks env s key is it2 c1))"

definition tSeek :: "'c senv \<Rightarrow> sstable \<Rightarrow> bytes \<Rightarrow> sst_iter \<Rightarrow> 'c option \<Rightarrow> sst_iter \<times> 'c option" where
  "tSeek env s key it c =
     (if t_numBlocks s = 0 then (it\<lparr>i_valid := False\<rparr>, c)
      else case blockSearch env s key 0 (int (unat (t_numBlocks s)) - 1) 0 c of
        (targetIdx, c1) \<Rightarrow> seekBlocks env s key [nat targetIdx..<unat (t_numBlocks s)] it c1)"

fun nextBlocks :: "'c senv \<Rightarrow> sstable \<Rightarrow> nat list \<Rightarrow> sst_iter \<Rightarrow> 'c option \<Rightarrow> bool \<times> sst_iter \<times> 'c option" where
  "nextBlocks env s [] it c = (False, it\<lparr>i_valid := False\<rparr>, c)"
| "nextBlocks env s (i # is) it c =
     (case loadBlock env s (int i) it c of
        (False, it1, c1) \<Rightarrow> (False, it1\<lparr>i_valid := False\<rparr>, c1)
      | (True, it1, c1) \<Rightarrow>
          (case readNextRecord it1 of
             (True, it2) \<Rightarrow> (True, it2\<lparr>i_valid := True\<rparr>, c1)
           | (False, it2) \<Rightarrow> nextBlocks env s is it2 c1))"

definition tNext :: "'c senv \<Rightarrow> sstable \<Rightarrow> sst_iter \<Rightarrow> 'c option \<Rightarrow> bool \<times> sst_iter \<times> 'c option" where
  "tNext env s it c =
     (case readNextRecord it of
        (True, it1) \<Rightarrow> (True, it1\<lparr>i_valid := True\<rparr>, c)
      | (False, it1) \<Rightarrow> nextBlocks env s [nat (i_blockIdx it1 + 1)..<unat (t_numBlocks s)] it1 c)"

definition iter_Close :: "sst_iter \<Rightarrow> sstable \<Rightarrow> sst_iter \<times> sstable" where
  "iter_Close it s = (if i_done it then (it, s) else (it\<lparr>i_done := True\<rparr>, tDecrRef s))"

end
