(* ===== verification/Block_Correct.thy ===== *)
theory Block_Correct
  imports Block
begin

text \<open>
  Blocks hold their entries: a block written from a sorted list of entries reads back as that list (deletions
  lose their value), and the lookups of the block return what the entries answer.  The binary search over
  the restarts does so only if no key has versions on both sides of a restart; \<open>straddle_lost\<close> is an
  instance where it does not.
\<close>

section \<open>Records\<close>

definition rec_ok :: "entry \<Rightarrow> bool" where
  "rec_ok e \<longleftrightarrow> length (e_key e) < 2 ^ 32 \<and> length (e_value e) < 2 ^ 32"

definition wire :: "entry \<Rightarrow> entry" where
  "wire e = (if e_deleted e then e\<lparr>e_value := []\<rparr> else e)"

lemma wire_fields [simp]:
  "e_key (wire e) = e_key e" "e_version (wire e) = e_version e" "e_deleted (wire e) = e_deleted e"
  "e_expiresAt (wire e) = e_expiresAt e"
  by (simp_all add: wire_def)

abbreviation records :: "entry list \<Rightarrow> bytes" where
  "records es \<equiv> concat (map encodeRecord es)"

lemma hdr_Encode_len [simp]: "length (hdr_Encode h) = 25"
  by (simp add: hdr_Encode_def)

lemma hdr_Decode_Encode [simp]: "hdr_Decode (hdr_Encode h @ r) = h"
proof -
  have "drop 8 (hdr_Encode h @ r) = (if h_deleted h then 1 else 0) # put_u64 (h_expiresAt h) @ put_u64 (h_version h) @ r"
    by (simp add: hdr_Encode_def)
  then have "(hdr_Encode h @ r) ! 8 = (if h_deleted h then 1 else 0)"
    using hd_drop_conv_nth [of 8 "hdr_Encode h @ r"] by simp
  moreover have "drop 4 (hdr_Encode h @ r) = put_u32 (h_valLen h) @ [if h_deleted h then 1 else 0] @ put_u64 (h_expiresAt h) @ put_u64 (h_version h) @ r"
    "drop 9 (hdr_Encode h @ r) = put_u64 (h_expiresAt h) @ put_u64 (h_version h) @ r"
    "drop 17 (hdr_Encode h @ r) = put_u64 (h_version h) @ r" "get_u32 (hdr_Encode h @ r) = h_keyLen h"
    by (simp_all add: hdr_Encode_def drop_Cons')
  ultimately show ?thesis by (simp add: hdr_Decode_def)
qed

text \<open>What an encoded record consists of.\<close>

lemma encodeRecord_parts:
  assumes "rec_ok e"
  obtains hdr where "encodeRecord e = hdr_Encode hdr @ e_key e @ e_value (wire e)" "unat (h_keyLen hdr) = length (e_key e)"
    "h_deleted hdr = e_deleted e" "h_expiresAt hdr = e_expiresAt e" "h_version hdr = e_version e"
    "unat (h_valLen hdr) = length (e_value (wire e))"
proof -
  have "unat (of_nat (length (e_key e)) :: u32) = length (e_key e)" "unat (of_nat (length (e_value e)) :: u32) = length (e_value e)"
    using assms unat_of_nat_small [where 'a = 32] by (simp_all add: rec_ok_def)
  then show ?thesis
    using that [of "\<lparr>h_keyLen = of_nat (length (e_key e)), h_valLen = (if e_deleted e then 0 else of_nat (length (e_value e))),
       h_deleted = e_deleted e, h_expiresAt = e_expiresAt e, h_version = e_version e\<rparr>"]
    by (auto simp: encodeRecord_def Let_def wire_def)
qed

lemma readEntryAt_record:
  assumes "rec_ok e"
  shows "readEntryAt (pre @ encodeRecord e @ post) (length pre) = Some (wire e, length pre + length (encodeRecord e))"
proof -
  obtain hdr where p: "encodeRecord e = hdr_Encode hdr @ e_key e @ e_value (wire e)" "unat (h_keyLen hdr) = length (e_key e)"
    "h_deleted hdr = e_deleted e" "h_expiresAt hdr = e_expiresAt e" "h_version hdr = e_version e"
    "unat (h_valLen hdr) = length (e_value (wire e))" by (rule encodeRecord_parts [OF assms])
  have d: "e_value (wire e) = []" if "e_deleted e" using that by (simp add: wire_def)
  have eq: "\<lparr>e_key = e_key e, e_value = e_value (wire e), e_deleted = e_deleted e, e_expiresAt = e_expiresAt e,
      e_version = e_version e\<rparr> = wire e" by (simp add: wire_def)
  show ?thesis
    using p(2-) eq d
    by (cases "e_value (wire e) = []") (auto simp: readEntryAt_def p(1) recordHeaderSize_def bslice_def Let_def)
qed

lemma encodeRecord_nonempty [simp]: "encodeRecord e \<noteq> []"
  by (simp add: encodeRecord_def hdr_Encode_def Let_def)

lemma scanLoop_records:
  assumes "\<forall>e \<in> set es. rec_ok e"
  shows "scanLoop accept stop (pre @ records es) (length pre) best =
    foldl better best (filter accept (takeWhile (\<lambda>e. \<not> stop e) (map wire es)))"
  using assms
proof (induction es arbitrary: pre best)
  case Nil
  then show ?case by (subst scanLoop.simps) simp
next
  case (Cons e es)
  have "scanLoop accept stop ((pre @ encodeRecord e) @ records es) (length (pre @ encodeRecord e)) b =
    foldl better b (filter accept (takeWhile (\<lambda>e. \<not> stop e) (map wire es)))" for b
    using Cons.prems by (intro Cons.IH) auto
  then show ?case
    using readEntryAt_record [of e pre "records es"] Cons.prems by (subst scanLoop.simps) simp
qed

lemma readRecords_records:
  assumes "\<forall>e \<in> set es. rec_ok e"
  shows "readRecords (records es) = map wire es"
  using assms
proof (induction es)
  case Nil
  then show ?case by (subst readRecords.simps) (simp add: recordHeaderSize_def)
next
  case (Cons e es)
  have "rec_ok e" using Cons.prems by simp
  then obtain hdr where p: "encodeRecord e = hdr_Encode hdr @ e_key e @ e_value (wire e)" "unat (h_keyLen hdr) = length (e_key e)"
    "h_deleted hdr = e_deleted e" "h_expiresAt hdr = e_expiresAt e" "h_version hdr = e_version e"
    "unat (h_valLen hdr) = length (e_value (wire e))" by (rule encodeRecord_parts)
  have d: "e_value (wire e) = []" if "e_deleted e" using that by (simp add: wire_def)
  have eq: "\<lparr>e_key = e_key e, e_value = e_value (wire e), e_deleted = e_deleted e, e_expiresAt = e_expiresAt e,
      e_version = e_version e\<rparr> = wire e" by (simp add: wire_def)
  show ?case
    using Cons p(2-) eq d
    by (cases "e_value (wire e) = []") (subst readRecords.simps, auto simp: p(1) recordHeaderSize_def readFull_def Let_def)+
qed

section \<open>The trailer\<close>

lemma length_put_u32s [simp]: "length (concat (map put_u32 xs)) = 4 * length xs"
  by (induction xs) auto

lemma get_put_u32s: "i < length xs \<Longrightarrow> get_u32 (drop (i * 4) (concat (map put_u32 xs)) @ r) = xs ! i"
proof (induction xs arbitrary: i)
  case (Cons x xs)
  then show ?case by (cases i) auto
qed simp

lemma length_blockTrailer [simp]: "length (blockTrailer offs) = 4 * length offs + 8"
  by (simp add: blockTrailer_def)

lemma parse_trailer:
  assumes "offs \<noteq> []" "length offs < 2 ^ 32"
  shows "parseBlockRestarts (d @ blockTrailer offs) = Some (d, offs)"
proof -
  let ?b = "d @ blockTrailer offs"
  have n: "unat (of_nat (length offs) :: u32) = length offs" using assms(2) by (intro unat_of_nat_small) simp
  have "drop (length ?b - 4) ?b = put_u32 blockRestartMagic"
    "drop (length ?b - 8) ?b = put_u32 (of_nat (length offs)) @ put_u32 blockRestartMagic"
    by (simp_all add: blockTrailer_def)
  moreover have "map (\<lambda>i. get_u32 (drop (length d + i * 4) ?b)) [0..<length offs] = offs"
    by (rule nth_equalityI) (auto simp: blockTrailer_def get_put_u32s)
  ultimately show ?thesis using assms(1) n by (simp add: parseBlockRestarts_def Let_def)
qed

section \<open>Restart points\<close>

text \<open>A restart every sixteen entries, at the offset of its record.\<close>

definition restarts :: "entry list \<Rightarrow> nat list" where
  "restarts es = map (\<lambda>j. length (records (take (16 * j) es))) [0..<(length es + 15) div 16]"

definition blockBytes :: "entry list \<Rightarrow> bytes" where
  "blockBytes es = records es @ blockTrailer (map of_nat (restarts es))"

abbreviation key_sorted :: "entry list \<Rightarrow> bool" where
  "key_sorted es \<equiv> sorted (map e_key es)"

text \<open>The versions of key \<open>k\<close> do not lie on both sides of a restart.\<close>

definition no_straddle :: "bytes \<Rightarrow> entry list \<Rightarrow> bool" where
  "no_straddle k es \<longleftrightarrow> (\<forall>j. 0 < j \<and> 16 * j < length es \<and> e_key (es ! (16 * j)) = k \<longrightarrow> e_key (es ! (16 * j - 1)) \<noteq> k)"

definition block_ok :: "entry list \<Rightarrow> bool" where
  "block_ok es \<longleftrightarrow> (\<forall>e \<in> set es. rec_ok e) \<and> length (records es) < 2 ^ 32 \<and> length es < 2 ^ 32"

lemma length_restarts [simp]: "length (restarts es) = (length es + 15) div 16"
  by (simp add: restarts_def)

lemma restart_less: "j < length (restarts es) \<longleftrightarrow> 16 * j < length es"
  unfolding restarts_def length_map length_upt by linarith

lemma restart_nth: "j < length (restarts es) \<Longrightarrow> restarts es ! j = length (records (take (16 * j) es))"
  by (simp add: restarts_def)

lemma restart_word:
  assumes "block_ok es" "j < length (restarts es)"
  shows "unat (map of_nat (restarts es) ! j :: u32) = length (records (take (16 * j) es))"
proof -
  have "records es = records (take (16 * j) es) @ records (drop (16 * j) es)"
    by (metis append_take_drop_id concat_append map_append)
  then have "length (records (take (16 * j) es)) < 2 ^ 32" using assms(1) by (simp add: block_ok_def)
  then show ?thesis using assms(2) by (simp add: restart_nth unat_of_nat_small)
qed

lemma block_split: "i < length es \<Longrightarrow> records es = records (take i es) @ encodeRecord (es ! i) @ records (drop (Suc i) es)"
proof -
  assume "i < length es"
  then have "es = take i es @ es ! i # drop (Suc i) es" by (rule id_take_nth_drop)
  then have "records es = records (take i es @ es ! i # drop (Suc i) es)" by (rule arg_cong)
  then show ?thesis by (simp only: map_append list.map concat_append concat.simps)
qed

lemma restartKey_restart:
  assumes "block_ok es" "j < length (restarts es)"
  shows "restartKey (records es) (unat (map of_nat (restarts es) ! j :: u32)) = Some (e_key (es ! (16 * j)))"
proof -
  have j: "16 * j < length es" using assms(2) by (simp only: restart_less)
  then have "rec_ok (es ! (16 * j))" using assms(1) by (simp add: block_ok_def)
  then obtain hdr where p: "encodeRecord (es ! (16 * j)) = hdr_Encode hdr @ e_key (es ! (16 * j)) @ e_value (wire (es ! (16 * j)))"
    "unat (h_keyLen hdr) = length (e_key (es ! (16 * j)))" by (rule encodeRecord_parts)
  show ?thesis
    unfolding restart_word [OF assms] block_split [OF j] p(1)
    by (simp add: restartKey_def recordHeaderSize_def p(2) bslice_def Let_def)
qed

text \<open>The restart that the search returns does not lie behind the key, and it returns none only if the first key
  lies behind it.\<close>

lemma restartSearch_spec:
  assumes ok: "block_ok es" and "key_sorted es"
    and "0 \<le> lo" "hi < int (length (restarts es))" "lo \<le> hi + 1"
    and "idx = - 1 \<or> 0 \<le> idx \<and> idx < int (length (restarts es)) \<and> e_key (es ! (16 * nat idx)) \<le> k"
    and "idx = - 1 \<longrightarrow> lo = 0 \<and> (\<forall>j. hi < int j \<and> j < length (restarts es) \<longrightarrow> k < e_key (es ! (16 * j)))"
    and res: "r = restartSearch (records es) (map of_nat (restarts es)) k lo hi idx"
  shows "r = - 1 \<and> (\<forall>j < length (restarts es). k < e_key (es ! (16 * j))) \<or>
    0 \<le> r \<and> r < int (length (restarts es)) \<and> e_key (es ! (16 * nat r)) \<le> k"
  using assms(3-)
proof (induction "nat (hi - lo + 1)" arbitrary: lo hi idx rule: less_induct)
  case less
  show ?case
  proof (cases "lo \<le> hi")
    case False
    then have "r = idx" using less.prems(6) by (simp add: restartSearch.simps)
    then show ?thesis using less.prems(3,4,5) False by auto
  next
    case True
    define m where "m = (lo + hi) div 2"
    have m: "lo \<le> m" "m \<le> hi" "0 \<le> m" "nat m < length (restarts es)" "int (nat m) = m" using True less.prems(1,2) by (auto simp: m_def)
    let ?km = "e_key (es ! (16 * nat m))"
    have step: "r = (if ?km < k then restartSearch (records es) (map of_nat (restarts es)) k (m + 1) hi m
       else if ?km = k then restartSearch (records es) (map of_nat (restarts es)) k lo (m - 1) m
       else restartSearch (records es) (map of_nat (restarts es)) k lo (m - 1) idx)"
      using less.prems(6) True restartKey_restart [OF ok m(4)] unfolding m_def by (subst (asm) restartSearch.simps) (simp add: Let_def)
    consider "?km < k" | "?km = k" | "k < ?km" by fastforce
    then show ?thesis
    proof cases
      case 1
      then show ?thesis using less.hyps [of hi "m + 1" m] step m less.prems(1,2) by auto
    next
      case 2
      then show ?thesis using less.hyps [of "m - 1" lo m] step m less.prems(1,2) by auto
    next
      case 3
      have mono: "k < e_key (es ! (16 * j))" if "m \<le> int j" "j < length (restarts es)" for j
      proof -
        have "16 * nat m \<le> 16 * j" "16 * j < length es" using that m by (auto simp: restart_less [symmetric])
        then have "?km \<le> e_key (es ! (16 * j))" using assms(2) by (auto simp: sorted_iff_nth_mono)
        then show ?thesis using 3 by simp
      qed
      have "idx = - 1 \<longrightarrow> lo = 0 \<and> (\<forall>j. m - 1 < int j \<and> j < length (restarts es) \<longrightarrow> k < e_key (es ! (16 * j)))"
        using less.prems(5) mono by auto
      then show ?thesis using less.hyps [of "m - 1" lo idx] step 3 m less.prems(1,2,4) by auto
    qed
  qed
qed

section \<open>Lookups\<close>

lemma no_straddle_single:
  assumes "length (filter (\<lambda>e. e_key e = k) es) \<le> 1"
  shows "no_straddle k es"
proof -
  have False if j: "0 < j" "16 * j < length es" "e_key (es ! (16 * j)) = k" "e_key (es ! (16 * j - 1)) = k" for j
  proof -
    have "{16 * j, 16 * j - 1} \<subseteq> {i. i < length es \<and> e_key (es ! i) = k}" using j by auto
    then have "card {16 * j, 16 * j - 1} \<le> length (filter (\<lambda>e. e_key e = k) es)"
      unfolding length_filter_conv_card by (intro card_mono) auto
    then show False using j(1) assms by simp
  qed
  then show ?thesis by (auto simp: no_straddle_def)
qed

lemma before_restart:
  assumes "key_sorted es" "no_straddle k es" "16 * j < length es" "e_key (es ! (16 * j)) \<le> k" "i < 16 * j"
  shows "e_key (es ! i) < k"
proof (cases "e_key (es ! (16 * j)) = k")
  case False
  have "e_key (es ! i) \<le> e_key (es ! (16 * j))" using assms(1,3,5) by (auto simp: sorted_iff_nth_mono)
  then show ?thesis using False assms(4) by simp
next
  case True
  have j: "0 < j" "16 * j - 1 < length es" "i \<le> 16 * j - 1" "16 * j - 1 < 16 * j" using assms(3,5) by auto
  have "e_key (es ! i) \<le> e_key (es ! (16 * j - 1))" using assms(1) j by (auto simp: sorted_iff_nth_mono)
  moreover have "e_key (es ! (16 * j - 1)) \<le> e_key (es ! (16 * j))"
    using assms(1,3) sorted_nth_mono [of "map e_key es" "16 * j - 1" "16 * j"] by simp
  moreover have "e_key (es ! (16 * j - 1)) \<noteq> e_key (es ! (16 * j))" using assms(2,3) j(1) True by (simp add: no_straddle_def)
  ultimately show ?thesis using True by simp
qed

lemma filter_stop:
  assumes "key_sorted es" "\<And>e. accept e \<Longrightarrow> e_key e = k"
  shows "filter accept (takeWhile (\<lambda>e. \<not> 0 < bytes_compare (e_key e) k) es) = filter accept es"
  using assms(1)
proof (induction es)
  case (Cons e es)
  show ?case
  proof (cases "k < e_key e")
    case True
    then have "\<forall>x \<in> set (e # es). k < e_key x" using Cons.prems by fastforce
    then have "filter accept (e # es) = []" using assms(2) by (auto simp: filter_empty_conv)
    then show ?thesis using True by simp
  next
    case False
    then show ?thesis using Cons by simp
  qed
qed simp

lemma scan_restart:
  assumes ok: "block_ok es" and srt: "key_sorted es" and ns: "no_straddle k es" and acc: "\<And>e. accept e \<Longrightarrow> e_key e = k"
    and r: "r = restartSearch (records es) (map of_nat (restarts es)) k 0 (int (length (restarts es)) - 1) (- 1)"
  shows "(if r = - 1 then None else scanLoop accept (\<lambda>e. 0 < bytes_compare (e_key e) k) (records es)
      (unat (map of_nat (restarts es) ! nat r :: u32)) None) = best_of (filter accept (map wire es))"
proof -
  consider "r = - 1" "\<forall>j < length (restarts es). k < e_key (es ! (16 * j))" |
    "r \<noteq> - 1" "nat r < length (restarts es)" "e_key (es ! (16 * nat r)) \<le> k"
    using restartSearch_spec [OF ok srt _ _ _ _ _ r] by fastforce
  then show ?thesis
  proof cases
    case 1
    have "k < e_key e" if "e \<in> set es" for e
    proof -
      have "k < e_key (es ! 0)" using 1(2) that by (metis length_greater_0_conv length_pos_if_in_set mult_0_right restart_less)
      moreover have "e_key (es ! 0) \<le> e_key e" using srt that by (cases es) auto
      ultimately show ?thesis by simp
    qed
    then have "filter accept (map wire es) = []" using acc by (fastforce simp: filter_empty_conv)
    then show ?thesis using 1(1) by simp
  next
    case 2
    define i where "i = 16 * nat r"
    have i: "i < length es" using 2(2) by (simp add: restart_less i_def del: length_restarts)
    have rec: "records es = records (take i es) @ records (drop i es)" by (metis append_take_drop_id concat_append map_append)
    have "scanLoop accept (\<lambda>e. 0 < bytes_compare (e_key e) k) (records es) (length (records (take i es))) None =
        foldl better None (filter accept (takeWhile (\<lambda>e. \<not> 0 < bytes_compare (e_key e) k) (map wire (drop i es))))"
      unfolding rec by (rule scanLoop_records) (use ok in \<open>auto simp: block_ok_def dest: in_set_dropD\<close>)
    also have "\<dots> = best_of (filter accept (map wire (drop i es)))"
      using filter_stop [of "map wire (drop i es)" accept k] srt acc
      by (simp add: best_of_def comp_def sorted_wrt_drop drop_map [symmetric])
    also have "filter accept (map wire (drop i es)) = filter accept (map wire es)"
    proof -
      have "e_key e < k" if "e \<in> set (take i es)" for e
        using that before_restart [OF srt ns _ 2(3)] i by (auto simp: in_set_conv_nth i_def)
      then have "filter accept (map wire (take i es)) = []" using acc by (fastforce simp: filter_empty_conv)
      then show ?thesis by (metis append_Nil append_take_drop_id filter_append map_append)
    qed
    finally show ?thesis using 2(1) restart_word [OF ok 2(2)] by (simp add: i_def)
  qed
qed

lemma restarts_nonempty: "es \<noteq> [] \<Longrightarrow> restarts es \<noteq> []"
  by (simp add: restarts_def div_eq_0_iff not_less Suc_le_eq)

lemma restarts_small: "block_ok es \<Longrightarrow> length (restarts es) < 2 ^ 32"
  by (simp add: block_ok_def less_mult_imp_div_less)

lemma block_offsets:
  "es \<noteq> [] \<Longrightarrow> block_ok es \<Longrightarrow> parseBlockRestarts (blockBytes es) = Some (records es, map of_nat (restarts es))"
  unfolding blockBytes_def by (rule parse_trailer) (use restarts_nonempty restarts_small [of es] in \<open>simp_all\<close>)

lemma scan_linear:
  "block_ok es \<Longrightarrow> scanLoop accept (\<lambda>e. False) (records es) 0 None = best_of (filter accept (map wire es))"
  using scanLoop_records [of es accept "\<lambda>e. False" "[]" None] by (simp add: block_ok_def best_of_def takeWhile_eq_all_conv [THEN iffD2])

text \<open>Both lookups of a block return what its entries answer.\<close>

lemma block_lookup:
  assumes "es \<noteq> []" "block_ok es" "key_sorted es" "no_straddle k es"
  shows "scanBlockForKey now (blockBytes es) k = scanResult now (best_of (filter (\<lambda>e. e_key e = k) (map wire es)))"
    and "scanBlockForKeyVersion now (blockBytes es) k ts = scanResult now (snapshot_entry (map wire es) k ts)"
  using scan_restart [OF assms(2-4), of "\<lambda>e. e_key e = k"] scan_restart [OF assms(2-4), of "\<lambda>e. e_key e = k \<and> e_version e \<le> ts"]
  by (auto simp: scanBlockForKey_def scanBlockForKeyVersion_def block_offsets [OF assms(1,2)] scanBlockForKeyLinear_def
      scanBlockForKeyVersionLinear_def scan_linear [OF assms(2)] scanBlockForKeyBinary_def scanBlockForKeyVersionBinary_def
      snapshot_entry_def Let_def split: if_splits)

lemma block_readRecords: "block_ok es \<Longrightarrow> readRecords (records es) = map wire es"
  by (rule readRecords_records) (simp add: block_ok_def)

text \<open>One key, then sixteen versions of a second one: the newest version lies before the restart at the sixteenth
  entry, whose key equals the target, so the search starts behind it and returns the oldest version.\<close>

definition straddle :: "entry list" where
  "straddle = \<lparr>e_key = [1], e_value = [], e_deleted = False, e_expiresAt = 0, e_version = 1\<rparr> #
     map (\<lambda>i. \<lparr>e_key = [2], e_value = [of_nat i], e_deleted = False, e_expiresAt = 0, e_version = of_nat i\<rparr>) (rev [2..<18])"

lemma straddle_upt: "rev [2..<18] = [17, 16, 15, 14, 13, 12, 11, 10, 9, 8, 7, 6, 5, 4, 3, 2]"
  by (simp add: upt_rec)

lemma straddle_ok: "block_ok straddle" "length straddle = 17" "key_sorted straddle" "straddle \<noteq> []"
  by (simp_all add: straddle_def straddle_upt block_ok_def rec_ok_def encodeRecord_def hdr_Encode_def)

lemma straddle_search: "restartSearch (records straddle) (map of_nat (restarts straddle)) [2] 0 1 (- 1) = 1"
proof -
  have "restartKey (records straddle) (unat (map of_nat (restarts straddle) ! 0 :: u32)) = Some [1]"
    "restartKey (records straddle) (unat (map of_nat (restarts straddle) ! 1 :: u32)) = Some [2]"
    using restartKey_restart [OF straddle_ok(1), of 0] restartKey_restart [OF straddle_ok(1), of 1]
    by (simp_all add: straddle_ok(2)) (simp_all add: straddle_def straddle_upt)
  then show ?thesis by (simp add: restartSearch.simps)
qed

lemma straddle_lost:
  "scanBlockForKeyVersion 0 (blockBytes straddle) [2] 100 = ([2], True, False, 0, 2)"
  "scanResult 0 (snapshot_entry straddle [2] 100) = ([17], True, False, 0, 17)"
proof -
  have rec: "records straddle = records (take 16 straddle) @ records (drop 16 straddle)"
    by (metis append_take_drop_id concat_append map_append)
  have d: "drop 16 straddle = [\<lparr>e_key = [2], e_value = [2], e_deleted = False, e_expiresAt = 0, e_version = 2\<rparr>]"
    by (simp add: straddle_def straddle_upt)
  have "scanLoop (\<lambda>e. e_key e = [2] \<and> e_version e \<le> 100) (\<lambda>e. 0 < bytes_compare (e_key e) [2]) (records straddle)
      (length (records (take 16 straddle))) None = Some \<lparr>e_key = [2], e_value = [2], e_deleted = False, e_expiresAt = 0, e_version = 2\<rparr>"
    unfolding rec by (subst scanLoop_records) (simp_all add: d rec_ok_def wire_def better_def)
  then show "scanBlockForKeyVersion 0 (blockBytes straddle) [2] 100 = ([2], True, False, 0, 2)"
    using restart_word [OF straddle_ok(1), of 1] straddle_search
    by (simp add: scanBlockForKeyVersion_def block_offsets [OF straddle_ok(4,1)] straddle_ok(2) scanBlockForKeyVersionBinary_def
        scanResult_def expired_def)
  show "scanResult 0 (snapshot_entry straddle [2] 100) = ([17], True, False, 0, 17)"
    by (simp add: straddle_def straddle_upt snapshot_entry_def best_of_def better_def scanResult_def expired_def)
qed

end
