(* ===== verification/SSTable_Read.thy ===== *)
theory SSTable_Read
  imports SSTable Block_Correct "HOL-Library.Sublist"
begin

text \<open>
  Reading an SSTable through the shared block cache.  The cache is an interface: whatever it holds was put
  there, and it may forget.  As long as it holds nothing wrong about a table, every read of the table returns
  what the file says, whether or not the cache answers.  What the file says is \<open>serves\<close>: the index lists the
  blocks of a list of entries and the filter knows their keys.
\<close>

section \<open>The cache interface\<close>

text \<open>A cache that holds nothing but right values; the nil cache holds nothing.\<close>

definition agrees :: "('c \<Rightarrow> bool) \<Rightarrow> ('c \<Rightarrow> bytes \<Rightarrow> bytes option) \<Rightarrow> (bytes \<Rightarrow> bytes \<Rightarrow> bool) \<Rightarrow> 'c option \<Rightarrow> bool" where
  "agrees cinv view right c \<longleftrightarrow>
     (case c of None \<Rightarrow> True | Some c0 \<Rightarrow> cinv c0 \<and> (\<forall>k v. view c0 k = Some v \<longrightarrow> right k v))"

locale block_cache =
  fixes env :: "'c senv" and cinv :: "'c \<Rightarrow> bool" and view :: "'c \<Rightarrow> bytes \<Rightarrow> bytes option"
  assumes cGet_inv: "cinv c \<Longrightarrow> cinv (snd (cGet env c k))"
    and cGet_view: "cinv c \<Longrightarrow> view (snd (cGet env c k)) x = Some v \<Longrightarrow> view c x = Some v"
    and cGet_hit: "cinv c \<Longrightarrow> fst (cGet env c k) = Some v \<Longrightarrow> view c k = Some v"
    and cPut_inv: "cinv c \<Longrightarrow> cinv (cPut env c k v)"
    and cPut_view: "cinv c \<Longrightarrow> view (cPut env c k v) x = Some w \<Longrightarrow> (if x = k then w = v else view c x = Some w)"
begin

lemma cacheGet_agrees:
  assumes "agrees cinv view right c" "cacheGet env k c = (r, c1)"
  shows "agrees cinv view right c1 \<and> (\<forall>v. r = Some v \<longrightarrow> right k v)"
proof (cases c)
  case None
  then show ?thesis using assms by (auto simp: agrees_def cacheGet_def)
next
  case (Some c0)
  then have "r = fst (cGet env c0 k)" "c1 = Some (snd (cGet env c0 k))" using assms(2) by (auto simp: cacheGet_def split: prod.splits)
  then show ?thesis using assms(1) Some cGet_inv [of c0 k] cGet_view [of c0 k] cGet_hit [of c0 k] by (simp add: agrees_def)
qed

lemma cachePut_agrees:
  assumes "agrees cinv view right c" "right k v"
  shows "agrees cinv view right (cachePut env k v c)"
proof (cases c)
  case None
  then show ?thesis by (simp add: agrees_def cachePut_def)
next
  case (Some c0)
  have "right x w" if "view (cPut env c0 k v) x = Some w" for x w
    using cPut_view [OF _ that] assms Some by (auto simp: agrees_def split: if_splits)
  then show ?thesis using assms(1) Some cPut_inv [of c0 k v] by (simp add: agrees_def cachePut_def)
qed

lemma getSection_agrees:
  assumes "agrees cinv view right c" "0 < len" "tableRead s off (nat len) = Some raw" "\<And>v. right ck v \<longleftrightarrow> v = raw"
  shows "\<exists>c1. getSection env s ck off len c = (Some raw, c1) \<and> agrees cinv view right c1"
proof -
  obtain r c1 where g: "cacheGet env ck c = (r, c1)" by fastforce
  note a = cacheGet_agrees [OF assms(1) g]
  show ?thesis
  proof (cases r)
    case None
    then show ?thesis using assms g a cachePut_agrees [of right c1 ck raw] by (simp add: getSection_def)
  next
    case (Some v)
    then show ?thesis using assms g a by (simp add: getSection_def)
  qed
qed

end

section \<open>Tables that hold a list of blocks\<close>

text \<open>\<open>entryAt s i\<close> is the index entry of block \<open>i\<close> as the file has it.\<close>

definition indexBytes :: "sstable \<Rightarrow> bytes" where
  "indexBytes s = the (readAt (t_data s) (t_indexOff s) (nat (t_indexLen s)))"

definition filterBytes :: "sstable \<Rightarrow> bytes" where
  "filterBytes s = the (readAt (t_data s) (t_filterOff s) (nat (t_filterLen s)))"

definition prefixBytes :: "sstable \<Rightarrow> bytes" where
  "prefixBytes s = the (readAt (t_data s) (t_prefixOff s) (nat (t_prefixLen s)))"

definition entryAt :: "sstable \<Rightarrow> nat \<Rightarrow> bytes \<times> int \<times> u32" where
  "entryAt s i = parseIndexEntry (indexBytes s) (unat (t_numBlocks s)) i"

definition block_served :: "'c senv \<Rightarrow> sstable \<Rightarrow> nat \<Rightarrow> entry list \<Rightarrow> bool" where
  "block_served env s i b \<longleftrightarrow> b \<noteq> [] \<and> block_ok b \<and>
     (\<exists>off sz raw. entryAt s i = (e_key (hd b), off, sz) \<and> readAt (t_data s) off (unat sz) = Some raw \<and>
        decodeBlock env s raw = Inr (blockBytes b))"

definition serves :: "'c senv \<Rightarrow> sstable \<Rightarrow> entry list list \<Rightarrow> bool" where
  "serves env s bs \<longleftrightarrow> t_open s \<and> unat (t_numBlocks s) = length bs \<and>
     0 < t_indexLen s \<and> readAt (t_data s) (t_indexOff s) (nat (t_indexLen s)) \<noteq> None \<and>
     0 < t_filterLen s \<and> readAt (t_data s) (t_filterOff s) (nat (t_filterLen s)) \<noteq> None \<and>
     0 < t_prefixLen s \<and> readAt (t_data s) (t_prefixOff s) (nat (t_prefixLen s)) \<noteq> None \<and>
     (\<forall>i < length bs. block_served env s i (bs ! i)) \<and>
     (\<forall>i < length bs. \<forall>j < length bs. fst (snd (entryAt s i)) = fst (snd (entryAt s j)) \<longrightarrow> i = j) \<and>
     (\<forall>k. MayContain (xxhash env) (Some (NewFilterFromBytes (filterBytes s) (t_filterBits s) (t_filterK s))) k \<noteq> None) \<and>
     (\<forall>k \<in> e_key ` set (concat bs).
        MayContain (xxhash env) (Some (NewFilterFromBytes (filterBytes s) (t_filterBits s) (t_filterK s))) k = Some True) \<and>
     (\<forall>k. MayContain (xxhash env) (Some (NewFilterFromBytes (prefixBytes s) (t_prefixBits s) (t_prefixK s))) k \<noteq> None) \<and>
     (\<forall>k \<in> e_key ` set (concat bs).
        MayContain (xxhash env) (Some (NewFilterFromBytes (prefixBytes s) (t_prefixBits s) (t_prefixK s))) (ExtractPrefix k) = Some True)"

text \<open>The cache entries of a table, and what they may hold.  Table names end in \<open>.sst\<close>: a name that does not
  end in a digit keeps the keys of blocks apart from the others.\<close>

definition name_ok :: "sstable \<Rightarrow> bool" where
  "name_ok s \<longleftrightarrow> t_filename s \<noteq> [] \<and> \<not> (0x30 \<le> last (t_filename s) \<and> last (t_filename s) \<le> 0x39)"

definition right_for :: "'c senv \<Rightarrow> sstable \<Rightarrow> bytes \<Rightarrow> bytes \<Rightarrow> bool" where
  "right_for env s k v \<longleftrightarrow>
     (k = indexCacheKey s \<longrightarrow> v = indexBytes s) \<and> (k = filterCacheKey s \<longrightarrow> v = filterBytes s) \<and>
     (k = prefixCacheKey s \<longrightarrow> v = prefixBytes s) \<and>
     (\<forall>i off sz key raw. i < unat (t_numBlocks s) \<and> entryAt s i = (key, off, sz) \<and> k = blockCacheKey s off \<and>
        readAt (t_data s) off (unat sz) = Some raw \<longrightarrow> decodeBlock env s raw = Inr v)"

section \<open>Cache keys\<close>

lemma cache_keys_apart:
  "indexCacheKey s \<noteq> filterCacheKey s" "indexCacheKey s \<noteq> prefixCacheKey s" "filterCacheKey s \<noteq> prefixCacheKey s"
  "blockCacheKey s a = blockCacheKey s b \<longleftrightarrow> a = b"
  by (simp_all add: indexCacheKey_def filterCacheKey_def prefixCacheKey_def lit_def blockCacheKey_def fmtInt_inject)

lemma block_key_apart_from:
  assumes "name_ok t"
  shows "blockCacheKey s a \<noteq> indexCacheKey t" "blockCacheKey s a \<noteq> filterCacheKey t" "blockCacheKey s a \<noteq> prefixCacheKey t"
proof -
  have "last (blockCacheKey s a) = last (fmtInt a)" using last_fmtInt(1) by (simp add: blockCacheKey_def)
  moreover have "last (x @ t_filename t) = last (t_filename t)" for x using assms by (simp add: name_ok_def)
  ultimately show "blockCacheKey s a \<noteq> indexCacheKey t" "blockCacheKey s a \<noteq> filterCacheKey t" "blockCacheKey s a \<noteq> prefixCacheKey t"
    using assms last_fmtInt(2) [of a] unfolding name_ok_def indexCacheKey_def filterCacheKey_def prefixCacheKey_def by metis+
qed

lemmas block_key_apart = block_key_apart_from [where s = s and t = s for s]

lemmas keys_apart = cache_keys_apart cache_keys_apart(1-3) [symmetric] block_key_apart block_key_apart [symmetric]

text \<open>What the cache may hold of a served table.\<close>

lemma serves_block:
  assumes "serves env s bs" "i < length bs" "entryAt s i = (k, off, sz)"
  obtains raw where "readAt (t_data s) off (unat sz) = Some raw" "decodeBlock env s raw = Inr (blockBytes (bs ! i))" "k = e_key (hd (bs ! i))"
  using assms by (auto simp: serves_def block_served_def)

lemma right_for_keys:
  assumes "serves env s bs" "name_ok s"
  shows "right_for env s (indexCacheKey s) v \<longleftrightarrow> v = indexBytes s"
    "right_for env s (filterCacheKey s) v \<longleftrightarrow> v = filterBytes s"
    "right_for env s (prefixCacheKey s) v \<longleftrightarrow> v = prefixBytes s"
  using keys_apart [of s] assms(2) by (auto simp: right_for_def)

lemma right_for_block:
  assumes srv: "serves env s bs" and "name_ok s" "i < length bs" "entryAt s i = (k, off, sz)"
  shows "right_for env s (blockCacheKey s off) v \<longleftrightarrow> v = blockBytes (bs ! i)"
proof -
  obtain raw where raw: "readAt (t_data s) off (unat sz) = Some raw" "decodeBlock env s raw = Inr (blockBytes (bs ! i))"
    by (rule serves_block [OF srv assms(3,4)])
  have n: "unat (t_numBlocks s) = length bs" using srv by (simp add: serves_def)
  have same: "j = i \<and> off' = off \<and> sz' = sz" if "j < length bs" "entryAt s j = (k', off', sz')" "blockCacheKey s off = blockCacheKey s off'" for j k' off' sz'
  proof -
    have "off' = off" using that(3) by (simp add: cache_keys_apart)
    moreover have "j = i" using srv that(1,2) assms(3,4) \<open>off' = off\<close> unfolding serves_def by (metis fst_conv snd_conv)
    ultimately show ?thesis using that(2) assms(4) by simp
  qed
  show ?thesis
  proof
    assume "right_for env s (blockCacheKey s off) v"
    then show "v = blockBytes (bs ! i)" using raw assms(3,4) n unfolding right_for_def by (metis sum.inject(2))
  next
    assume "v = blockBytes (bs ! i)"
    then show "right_for env s (blockCacheKey s off) v"
      using raw same block_key_apart [OF assms(2)] n by (auto simp: right_for_def)
  qed
qed

text \<open>What the reads of one table need of a notion of right values; other tables may share the cache.\<close>

definition covers :: "'c senv \<Rightarrow> sstable \<Rightarrow> entry list list \<Rightarrow> (bytes \<Rightarrow> bytes \<Rightarrow> bool) \<Rightarrow> bool" where
  "covers env s bs right \<longleftrightarrow> (\<forall>v. right (indexCacheKey s) v \<longleftrightarrow> v = indexBytes s) \<and> (\<forall>v. right (filterCacheKey s) v \<longleftrightarrow> v = filterBytes s) \<and>
     (\<forall>v. right (prefixCacheKey s) v \<longleftrightarrow> v = prefixBytes s) \<and>
     (\<forall>i < length bs. \<forall>k off sz. entryAt s i = (k, off, sz) \<longrightarrow> (\<forall>v. right (blockCacheKey s off) v \<longleftrightarrow> v = blockBytes (bs ! i)))"

lemma covers_keys:
  assumes "covers env s bs right"
  shows "right (indexCacheKey s) v \<longleftrightarrow> v = indexBytes s" "right (filterCacheKey s) v \<longleftrightarrow> v = filterBytes s"
    "right (prefixCacheKey s) v \<longleftrightarrow> v = prefixBytes s"
  using assms by (simp_all add: covers_def)

lemma covers_block:
  "covers env s bs right \<Longrightarrow> i < length bs \<Longrightarrow> entryAt s i = (k, off, sz) \<Longrightarrow> right (blockCacheKey s off) v \<longleftrightarrow> v = blockBytes (bs ! i)"
  by (simp add: covers_def)

lemma right_for_covers: "serves env s bs \<Longrightarrow> name_ok s \<Longrightarrow> covers env s bs (right_for env s)"
  by (simp add: covers_def right_for_keys right_for_block)

text \<open>Tables with names of which none is the beginning of another can share a cache.\<close>

definition right_all :: "'c senv \<Rightarrow> sstable set \<Rightarrow> bytes \<Rightarrow> bytes \<Rightarrow> bool" where
  "right_all env T k v \<longleftrightarrow> (\<forall>t \<in> T. right_for env t k v)"

definition names_apart :: "sstable set \<Rightarrow> bool" where
  "names_apart T \<longleftrightarrow> (\<forall>s \<in> T. name_ok s) \<and> (\<forall>s \<in> T. \<forall>t \<in> T. prefix (t_filename s) (t_filename t) \<longrightarrow> s = t)"

lemma other_table_keys:
  assumes "names_apart T" "s \<in> T" "t \<in> T" "s \<noteq> t"
  shows "right_for env t (indexCacheKey s) v" "right_for env t (filterCacheKey s) v" "right_for env t (prefixCacheKey s) v"
    "right_for env t (blockCacheKey s off) v"
proof -
  have n: "name_ok s" "name_ok t" and ne: "t_filename s \<noteq> t_filename t" using assms by (auto simp: names_apart_def)
  have b: "blockCacheKey s off \<noteq> blockCacheKey t off'" for off off'
  proof
    assume "blockCacheKey s off = blockCacheKey t off'"
    then have "prefix (t_filename s) (t_filename t) \<or> prefix (t_filename t) (t_filename s)"
      unfolding blockCacheKey_def by (metis prefixI prefix_same_cases)
    then show False using assms by (auto simp: names_apart_def)
  qed
  note k = block_key_apart_from [OF n(1), of t] block_key_apart_from [OF n(2), of s]
  have x: "indexCacheKey s \<noteq> indexCacheKey t" "indexCacheKey s \<noteq> filterCacheKey t" "indexCacheKey s \<noteq> prefixCacheKey t"
    "filterCacheKey s \<noteq> indexCacheKey t" "filterCacheKey s \<noteq> filterCacheKey t" "filterCacheKey s \<noteq> prefixCacheKey t"
    "prefixCacheKey s \<noteq> indexCacheKey t" "prefixCacheKey s \<noteq> filterCacheKey t" "prefixCacheKey s \<noteq> prefixCacheKey t"
    using ne by (simp_all add: indexCacheKey_def filterCacheKey_def prefixCacheKey_def lit_def)
  show "right_for env t (indexCacheKey s) v" "right_for env t (filterCacheKey s) v" "right_for env t (prefixCacheKey s) v"
    "right_for env t (blockCacheKey s off) v" by (simp_all add: right_for_def x k k [symmetric] b)
qed

lemma right_all_covers:
  assumes "names_apart T" "s \<in> T" "serves env s bs"
  shows "covers env s bs (right_all env T)"
proof -
  have c: "covers env s bs (right_for env s)" by (rule right_for_covers [OF assms(3)]) (use assms(1,2) in \<open>simp add: names_apart_def\<close>)
  have "right_all env T k v \<longleftrightarrow> right_for env s k v" if "\<And>t. t \<in> T \<Longrightarrow> s \<noteq> t \<Longrightarrow> right_for env t k v" for k v
    using that assms(2) by (auto simp: right_all_def)
  then have "right_all env T (indexCacheKey s) v \<longleftrightarrow> right_for env s (indexCacheKey s) v"
    "right_all env T (filterCacheKey s) v \<longleftrightarrow> right_for env s (filterCacheKey s) v"
    "right_all env T (prefixCacheKey s) v \<longleftrightarrow> right_for env s (prefixCacheKey s) v"
    "right_all env T (blockCacheKey s off) v \<longleftrightarrow> right_for env s (blockCacheKey s off) v" for v off
    using other_table_keys [OF assms(1,2)] by blast+
  then show ?thesis using c by (simp add: covers_def)
qed

section \<open>Reads of a served table\<close>

text \<open>Blocks of a sorted table: sorted themselves, and no key lies in two of them.\<close>

definition blocks_sorted :: "entry list list \<Rightarrow> bool" where
  "blocks_sorted bs \<longleftrightarrow> (\<forall>b \<in> set bs. b \<noteq> [] \<and> key_sorted b) \<and> sorted_wrt (\<lambda>a b. \<forall>x \<in> set a. \<forall>y \<in> set b. e_key x < e_key y) bs"

lemma blocks_sorted_hd:
  assumes "blocks_sorted bs" "i < j" "j < length bs" "x \<in> set (bs ! i)"
  shows "e_key x < e_key (hd (bs ! j))"
proof -
  have "hd (bs ! j) \<in> set (bs ! j)" using assms(1,3) by (simp add: blocks_sorted_def)
  then show ?thesis using assms sorted_wrt_nth_less [of _ bs i j] unfolding blocks_sorted_def by blast
qed

lemma blocks_sorted_le:
  assumes "blocks_sorted bs" "i < length bs" "x \<in> set (bs ! i)"
  shows "e_key (hd (bs ! i)) \<le> e_key x"
proof -
  have "key_sorted (bs ! i)" using assms(1,2) by (simp add: blocks_sorted_def)
  then show ?thesis using assms(3) by (cases "bs ! i") auto
qed

lemma in_concat_nth: "x \<in> set (concat bs) \<longleftrightarrow> (\<exists>i < length bs. x \<in> set (bs ! i))"
  by (induction bs) (auto simp: less_Suc_eq_0_disj)

lemma serves_filter:
  assumes "serves env s bs"
  shows "MayContain (xxhash env) (Some (NewFilterFromBytes (filterBytes s) (t_filterBits s) (t_filterK s))) k \<noteq> None"
    "k \<in> e_key ` set (concat bs) \<Longrightarrow>
       MayContain (xxhash env) (Some (NewFilterFromBytes (filterBytes s) (t_filterBits s) (t_filterK s))) k = Some True"
    "MayContain (xxhash env) (Some (NewFilterFromBytes (prefixBytes s) (t_prefixBits s) (t_prefixK s))) k \<noteq> None"
    "k \<in> e_key ` set (concat bs) \<Longrightarrow>
       MayContain (xxhash env) (Some (NewFilterFromBytes (prefixBytes s) (t_prefixBits s) (t_prefixK s))) (ExtractPrefix k) = Some True"
  using assms unfolding serves_def by blast+

text \<open>The current entry of an iterator, and the entries it has still to yield.\<close>

definition cur_entry :: "sst_iter \<Rightarrow> entry" where
  "cur_entry it = \<lparr>e_key = i_key it, e_value = i_value it, e_deleted = i_deleted it, e_expiresAt = i_expAt it, e_version = i_version it\<rparr>"

definition iter_rem :: "entry list list \<Rightarrow> sst_iter \<Rightarrow> entry list \<Rightarrow> bool" where
  "iter_rem bs it rs \<longleftrightarrow> i_reader it = None \<and> i_blockIdx it = - 1 \<and> rs = concat bs \<or>
     (\<exists>i es. i < length bs \<and> i_blockIdx it = int i \<and> i_reader it = Some (records es) \<and> (\<forall>e \<in> set es. rec_ok e) \<and>
        rs = es @ concat (drop (Suc i) bs))"

lemma readNextRecord_Nil [simp]: "i_reader it = Some [] \<Longrightarrow> readNextRecord it = (False, it)" "i_reader it = None \<Longrightarrow> readNextRecord it = (False, it)"
  by (simp_all add: readNextRecord_def)

lemma readNextRecord_Cons:
  assumes "i_reader it = Some (records (e # es))" "rec_ok e"
  shows "\<exists>it1. readNextRecord it = (True, it1) \<and> cur_entry it1 = wire e \<and> i_reader it1 = Some (records es) \<and> i_blockIdx it1 = i_blockIdx it"
proof -
  obtain hdr where p: "encodeRecord e = hdr_Encode hdr @ e_key e @ e_value (wire e)" "unat (h_keyLen hdr) = length (e_key e)"
    "h_deleted hdr = e_deleted e" "h_expiresAt hdr = e_expiresAt e" "h_version hdr = e_version e"
    "unat (h_valLen hdr) = length (e_value (wire e))" by (rule encodeRecord_parts [OF assms(2)])
  have d: "e_value (wire e) = []" if "e_deleted e" using that by (simp add: wire_def)
  have eq: "\<lparr>e_key = e_key e, e_value = e_value (wire e), e_deleted = e_deleted e, e_expiresAt = e_expiresAt e,
      e_version = e_version e\<rparr> = wire e" by (simp add: wire_def)
  have r: "i_reader it = Some (hdr_Encode hdr @ e_key e @ e_value (wire e) @ records es)" using assms(1) p(1) by simp
  have ne: "hdr_Encode hdr \<noteq> []" using hdr_Encode_len [of hdr] by (metis list.size(3) zero_neq_numeral)
  show ?thesis
    using p(2-) eq d ne
    by (cases "e_value (wire e) = []") (auto simp: readNextRecord_def r recordHeaderSize_def readFull_def cur_entry_def Let_def)
qed

lemma seekBlock_records:
  assumes "i_reader it = Some (records es)" "\<forall>e \<in> set es. rec_ok e"
  shows "case dropWhile (\<lambda>e. e_key e < key) es of
      [] \<Rightarrow> (\<exists>it1. seekBlock key it = (False, it1) \<and> i_reader it1 = Some [] \<and> i_blockIdx it1 = i_blockIdx it)
    | e # rs \<Rightarrow> (\<exists>it1. seekBlock key it = (True, it1) \<and> i_valid it1 \<and> cur_entry it1 = wire e \<and> i_reader it1 = Some (records rs) \<and>
        i_blockIdx it1 = i_blockIdx it)"
  using assms
proof (induction es arbitrary: it)
  case Nil
  then show ?case by (subst seekBlock.simps) simp
next
  case (Cons e es)
  obtain it1 where it1: "readNextRecord it = (True, it1)" "cur_entry it1 = wire e" "i_reader it1 = Some (records es)" "i_blockIdx it1 = i_blockIdx it"
    using readNextRecord_Cons [OF Cons.prems(1)] Cons.prems(2) by auto
  have k: "i_key it1 = e_key e" using it1(2) by (metis cur_entry_def entry.select_convs(1) wire_fields(1))
  show ?case
  proof (cases "e_key e < key")
    case True
    then have "\<not> key \<le> e_key e" by simp
    then have "seekBlock key it = seekBlock key it1" using it1(1) k by (subst seekBlock.simps) simp
    then show ?thesis using Cons.IH [OF it1(3)] Cons.prems(2) True it1(4) by (simp cong: list.case_cong)
  next
    case False
    then have "key \<le> e_key e" by simp
    then have "seekBlock key it = (True, it1\<lparr>i_valid := True\<rparr>)" using it1(1) k by (subst seekBlock.simps) simp
    then show ?thesis using False it1 by (simp add: cur_entry_def)
  qed
qed

context block_cache
begin

lemma getEntryAt_ok:
  assumes srv: "serves env s bs" "covers env s bs right" and c: "agrees cinv view right c" and i: "i < length bs"
  shows "\<exists>c1. getEntryAt env s (int i) c = (entryAt s i, c1) \<and> agrees cinv view right c1"
proof -
  have "tableRead s (t_indexOff s) (nat (t_indexLen s)) = Some (indexBytes s)" "0 < t_indexLen s" "unat (t_numBlocks s) = length bs"
    using srv(1) by (auto simp: serves_def tableRead_def indexBytes_def)
  then show ?thesis
    using getSection_agrees [OF c, of "t_indexLen s" s "t_indexOff s" "indexBytes s" "indexCacheKey s"] covers_keys(1) [OF srv(2)] i
    by (auto simp: getEntryAt_def getIndexData_def entryAt_def)
qed

lemma getFilter_ok:
  assumes srv: "serves env s bs" "covers env s bs right" and c: "agrees cinv view right c"
  shows "\<exists>c1. getFilter env s c = (Some (NewFilterFromBytes (filterBytes s) (t_filterBits s) (t_filterK s)), c1) \<and>
    agrees cinv view right c1"
proof -
  have "tableRead s (t_filterOff s) (nat (t_filterLen s)) = Some (filterBytes s)" "0 < t_filterLen s"
    using srv(1) by (auto simp: serves_def tableRead_def filterBytes_def)
  then show ?thesis
    using getSection_agrees [OF c, of "t_filterLen s" s "t_filterOff s" "filterBytes s" "filterCacheKey s"] covers_keys(2) [OF srv(2)]
    by (auto simp: getFilter_def)
qed

lemma getPrefixFilter_ok:
  assumes srv: "serves env s bs" "covers env s bs right" and c: "agrees cinv view right c"
  shows "\<exists>c1. getPrefixFilter env s c = (Some (NewFilterFromBytes (prefixBytes s) (t_prefixBits s) (t_prefixK s)), c1) \<and>
    agrees cinv view right c1"
proof -
  have "tableRead s (t_prefixOff s) (nat (t_prefixLen s)) = Some (prefixBytes s)" "0 < t_prefixLen s"
    using srv(1) by (auto simp: serves_def tableRead_def prefixBytes_def)
  then show ?thesis
    using getSection_agrees [OF c, of "t_prefixLen s" s "t_prefixOff s" "prefixBytes s" "prefixCacheKey s"] covers_keys(3) [OF srv(2)]
    by (auto simp: getPrefixFilter_def)
qed

lemma fetchBlock_ok:
  assumes srv: "serves env s bs" "covers env s bs right" and c: "agrees cinv view right c"
    and i: "i < length bs" "entryAt s i = (k, off, sz)"
  shows "\<exists>c1. fetchBlock env s off sz c = (Inr (blockBytes (bs ! i)), c1) \<and> agrees cinv view right c1"
proof -
  obtain raw where raw: "readAt (t_data s) off (unat sz) = Some raw" "decodeBlock env s raw = Inr (blockBytes (bs ! i))"
    by (rule serves_block [OF srv(1) i])
  obtain r c1 where g: "cacheGet env (blockCacheKey s off) c = (r, c1)" by fastforce
  note a = cacheGet_agrees [OF c g] and rb = covers_block [OF srv(2) i]
  have "t_open s" using srv(1) by (simp add: serves_def)
  then show ?thesis
    using g a rb raw cachePut_agrees [of right c1 "blockCacheKey s off" "blockBytes (bs ! i)"]
    by (cases r) (auto simp: fetchBlock_def readBlock_def tableRead_def)
qed

lemma blockSearch_ok:
  assumes srv: "serves env s bs" "covers env s bs right" and bs: "blocks_sorted bs"
  shows "\<lbrakk>agrees cinv view right c; 0 \<le> lo; hi < int (length bs); lo \<le> hi + 1;
     target = (if lo = 0 then t0 else lo - 1); 0 < lo \<longrightarrow> e_key (hd (bs ! nat (lo - 1))) \<le> key;
     \<forall>j. hi < int j \<and> j < length bs \<longrightarrow> key < e_key (hd (bs ! j))\<rbrakk> \<Longrightarrow>
    \<exists>r c1. blockSearch env s key lo hi target c = (r, c1) \<and> agrees cinv view right c1 \<and>
      (r = t0 \<and> (\<forall>j < length bs. key < e_key (hd (bs ! j))) \<or>
       0 \<le> r \<and> r < int (length bs) \<and> e_key (hd (bs ! nat r)) \<le> key \<and> (\<forall>j. r < int j \<and> j < length bs \<longrightarrow> key < e_key (hd (bs ! j))))"
proof (induction "nat (hi - lo + 1)" arbitrary: lo hi target c rule: less_induct)
  case less
  show ?case
  proof (cases "lo \<le> hi")
    case False
    then have "hi = lo - 1" using less.prems(4) by simp
    then show ?thesis using less.prems False by (auto simp: blockSearch.simps)
  next
    case True
    define m where "m = (lo + hi) div 2"
    have m: "lo \<le> m" "m \<le> hi" "0 \<le> m" "nat m < length bs" "int (nat m) = m" using True less.prems(2,3) by (auto simp: m_def)
    obtain c1 where e: "getEntryAt env s m c = (entryAt s (nat m), c1)" and c1: "agrees cinv view right c1"
      using getEntryAt_ok [OF srv less.prems(1) m(4)] m(5) by auto
    obtain off sz where k: "entryAt s (nat m) = (e_key (hd (bs ! nat m)), off, sz)"
      using srv(1) m(4) by (auto simp: serves_def block_served_def)
    have step: "blockSearch env s key lo hi target c = (if e_key (hd (bs ! nat m)) \<le> key then blockSearch env s key (m + 1) hi m c1
        else blockSearch env s key lo (m - 1) target c1)"
      using True e k by (subst blockSearch.simps) (simp add: getKeyAt_def m_def [symmetric])
    show ?thesis
    proof (cases "e_key (hd (bs ! nat m)) \<le> key")
      case True
      then show ?thesis using less.hyps [of hi "m + 1" c1 m] step m c1 less.prems(3,7) by auto
    next
      case False
      have "key < e_key (hd (bs ! j))" if "m - 1 < int j" "j < length bs" for j
      proof (cases "j = nat m")
        case neq: False
        then have "nat m < j" using that(1) m by linarith
        then have "e_key (hd (bs ! nat m)) < e_key (hd (bs ! j))" using bs that(2) m(4) by (intro blocks_sorted_hd) (auto simp: blocks_sorted_def)
        then show ?thesis using False by auto
      qed (use False in auto)
      then show ?thesis using less.hyps [of "m - 1" lo c1 target] step False m c1 less.prems(2,5,6) by auto
    qed
  qed
qed

lemma blockSearch_full:
  assumes "serves env s bs" "covers env s bs right" "blocks_sorted bs" "agrees cinv view right c"
  shows "\<exists>r c1. blockSearch env s key 0 (int (length bs) - 1) t0 c = (r, c1) \<and> agrees cinv view right c1 \<and>
      (r = t0 \<and> (\<forall>j < length bs. key < e_key (hd (bs ! j))) \<or>
       0 \<le> r \<and> r < int (length bs) \<and> e_key (hd (bs ! nat r)) \<le> key \<and> (\<forall>j. r < int j \<and> j < length bs \<longrightarrow> key < e_key (hd (bs ! j))))"
  by (rule blockSearch_ok [OF assms]) auto

lemma filter_other_blocks:
  assumes "blocks_sorted bs" "i < length bs" "e_key (hd (bs ! i)) \<le> key"
    "\<forall>j. i < j \<and> j < length bs \<longrightarrow> key < e_key (hd (bs ! j))" "\<And>e. accept e \<Longrightarrow> e_key e = key"
  shows "filter accept (map wire (concat bs)) = filter accept (map wire (bs ! i))"
proof -
  have "filter accept (map wire (concat (take i bs))) = []"
  proof -
    have "e_key x < key" if x: "x \<in> set (concat (take i bs))" for x
    proof -
      obtain j where "j < i" "x \<in> set (bs ! j)" using x assms(2) unfolding in_concat_nth by auto
      then show ?thesis using blocks_sorted_hd [OF assms(1), of j i x] assms(2,3) by simp
    qed
    then show ?thesis using assms(5) by (fastforce simp: filter_empty_conv)
  qed
  moreover have "filter accept (map wire (concat (drop (Suc i) bs))) = []"
  proof -
    have "key < e_key x" if x: "x \<in> set (concat (drop (Suc i) bs))" for x
    proof -
      obtain m where m: "m < length bs - Suc i" "x \<in> set (bs ! (Suc i + m))" using x assms(2) unfolding in_concat_nth by auto
      define j where "j = Suc i + m"
      have j: "i < j" "j < length bs" "x \<in> set (bs ! j)" using m by (auto simp: j_def)
      then show ?thesis using blocks_sorted_le [OF assms(1) j(2,3)] assms(4) by fastforce
    qed
    then show ?thesis using assms(5) by (fastforce simp: filter_empty_conv)
  qed
  moreover have "concat bs = concat (take i bs) @ bs ! i @ concat (drop (Suc i) bs)"
    by (metis append_take_drop_id assms(2) concat.simps(2) concat_append Cons_nth_drop_Suc)
  ultimately show ?thesis by simp
qed

lemma lookupTable_ok:
  assumes srv: "serves env s bs" "covers env s bs right" and bs: "blocks_sorted bs" and c: "agrees cinv view right c"
    and scan: "\<And>b. b \<in> set bs \<Longrightarrow> scan (blockBytes b) = scanResult now (best_of (filter accept (map wire b)))"
    and acc: "\<And>e. accept e \<Longrightarrow> e_key e = key"
  shows "\<exists>c1. lookupTable env scan s key c = (Inr (scanResult now (best_of (filter accept (map wire (concat bs))))), c1) \<and>
     agrees cinv view right c1"
proof -
  let ?f = "Some (NewFilterFromBytes (filterBytes s) (t_filterBits s) (t_filterK s))"
  obtain c1 where c1: "getFilter env s c = (?f, c1)" "agrees cinv view right c1" using getFilter_ok [OF srv c] by blast
  have none: "scanResult now None = ([], False, False, 0, 0)" by (simp add: scanResult_def)
  consider "MayContain (xxhash env) ?f key = Some False" | "MayContain (xxhash env) ?f key = Some True"
    using serves_filter(1) [OF srv(1), of key] by (metis (full_types) not_None_eq)
  then show ?thesis
  proof cases
    case 1
    then have "key \<notin> e_key ` set (concat bs)" using serves_filter(2) [OF srv(1), of key] by (metis option.inject)
    then have "filter accept (map wire (concat bs)) = []" using acc by (fastforce simp: filter_empty_conv)
    then show ?thesis using 1 c1 none by (simp add: lookupTable_def)
  next
    case 2
    show ?thesis
    proof (cases "bs = []")
      case True
      then have "t_numBlocks s = 0" using srv(1) by (simp add: serves_def unat_eq_0)
      then show ?thesis using 2 c1 none True by (simp add: lookupTable_def)
    next
      case False
      have n: "unat (t_numBlocks s) = length bs" "t_numBlocks s \<noteq> 0" using srv(1) False by (auto simp: serves_def unat_eq_0)
      obtain r c2 where r: "blockSearch env s key 0 (int (length bs) - 1) (- 1) c1 = (r, c2)" "agrees cinv view right c2"
        "r = - 1 \<and> (\<forall>j < length bs. key < e_key (hd (bs ! j))) \<or>
         0 \<le> r \<and> r < int (length bs) \<and> e_key (hd (bs ! nat r)) \<le> key \<and> (\<forall>j. r < int j \<and> j < length bs \<longrightarrow> key < e_key (hd (bs ! j)))"
        using blockSearch_full [OF srv bs c1(2), of key "- 1"] by auto
      show ?thesis
      proof (cases "r = - 1")
        case True
        have "key < e_key x" if "x \<in> set (concat bs)" for x
          using that r(3) True blocks_sorted_le [OF bs] unfolding in_concat_nth by fastforce
        then have "filter accept (map wire (concat bs)) = []" using acc by (fastforce simp: filter_empty_conv)
        then show ?thesis using 2 c1 none True n r by (simp add: lookupTable_def)
      next
        case ne: False
        have i: "nat r < length bs" "int (nat r) = r" using r(3) ne by auto
        obtain off sz where e: "entryAt s (nat r) = (e_key (hd (bs ! nat r)), off, sz)"
          using srv(1) i(1) by (auto simp: serves_def block_served_def)
        obtain c3 where c3: "getEntryAt env s r c2 = (entryAt s (nat r), c3)" "agrees cinv view right c3"
          using getEntryAt_ok [OF srv r(2) i(1)] i(2) by auto
        obtain c4 where c4: "fetchBlock env s off sz c3 = (Inr (blockBytes (bs ! nat r)), c4)" "agrees cinv view right c4"
          using fetchBlock_ok [OF srv c3(2) i(1) e] by auto
        have "filter accept (map wire (concat bs)) = filter accept (map wire (bs ! nat r))"
          using r(3) ne i by (intro filter_other_blocks [OF bs i(1) _ _ acc]) auto
        then show ?thesis using 2 c1 ne n r(1) c3 c4 e scan [of "bs ! nat r"] i(1) by (simp add: lookupTable_def)
      qed
    qed
  qed
qed

lemma readAllLoop_ok:
  assumes srv: "serves env s bs" "covers env s bs right"
  shows "agrees cinv view right c \<Longrightarrow> i \<le> length bs \<Longrightarrow>
    \<exists>c1. readAllLoop env s [i..<length bs] acc c = (Inr (acc @ map wire (concat (drop i bs))), c1) \<and> agrees cinv view right c1"
proof (induction "length bs - i" arbitrary: i acc c)
  case 0
  then show ?case by simp
next
  case (Suc n)
  then have i: "i < length bs" by simp
  obtain off sz where e: "entryAt s i = (e_key (hd (bs ! i)), off, sz)" using srv(1) i by (auto simp: serves_def block_served_def)
  obtain raw where raw: "readAt (t_data s) off (unat sz) = Some raw" "decodeBlock env s raw = Inr (blockBytes (bs ! i))"
    by (rule serves_block [OF srv(1) i e])
  obtain c1 where c1: "getEntryAt env s (int i) c = (entryAt s i, c1)" "agrees cinv view right c1"
    using getEntryAt_ok [OF srv Suc.prems(1) i] by auto
  have b: "bs ! i \<noteq> []" "block_ok (bs ! i)" "t_open s" using srv(1) i by (auto simp: serves_def block_served_def)
  have "readRecords (blockRecordBytes (blockBytes (bs ! i))) = map wire (bs ! i)"
    using block_offsets [OF b(1,2)] block_readRecords [OF b(2)] by (simp add: blockRecordBytes_def)
  moreover have "concat (drop i bs) = bs ! i @ concat (drop (Suc i) bs)" using i by (simp add: Cons_nth_drop_Suc [symmetric])
  ultimately show ?case
    using Suc.hyps(1) [of "Suc i" c1 "acc @ map wire (bs ! i)"] Suc.hyps(2) i c1 e raw b(3)
    by (simp add: upt_conv_Cons readBlock_def tableRead_def)
qed

lemma loadBlock_ok:
  assumes srv: "serves env s bs" "covers env s bs right" and c: "agrees cinv view right c" and i: "i < length bs"
  shows "\<exists>c1. loadBlock env s (int i) it c = (True, it\<lparr>i_blockIdx := int i, i_reader := Some (records (bs ! i))\<rparr>, c1) \<and>
    agrees cinv view right c1"
proof -
  have n: "unat (t_numBlocks s) = length bs" "bs ! i \<noteq> []" "block_ok (bs ! i)" using srv(1) i by (auto simp: serves_def block_served_def)
  obtain off sz where e: "entryAt s i = (e_key (hd (bs ! i)), off, sz)" using srv(1) i by (auto simp: serves_def block_served_def)
  obtain c1 where c1: "getEntryAt env s (int i) c = (entryAt s i, c1)" "agrees cinv view right c1"
    using getEntryAt_ok [OF srv c i] by auto
  obtain c2 where "fetchBlock env s off sz c1 = (Inr (blockBytes (bs ! i)), c2)" "agrees cinv view right c2"
    using fetchBlock_ok [OF srv c1(2) i e] by auto
  then show ?thesis using n i c1 e block_offsets [OF n(2,3)] by (simp add: loadBlock_def blockRecordBytes_def)
qed

lemma nextBlocks_ok:
  assumes srv: "serves env s bs" "covers env s bs right" and c: "agrees cinv view right c" and i: "i < length bs"
  shows "\<exists>it1 c1 rs. nextBlocks env s [i..<length bs] it c = (True, it1, c1) \<and> i_valid it1 \<and> cur_entry it1 = wire (hd (bs ! i)) \<and>
    iter_rem bs it1 (tl (bs ! i) @ concat (drop (Suc i) bs)) \<and> agrees cinv view right c1"
proof -
  obtain e es where b: "bs ! i = e # es" "\<forall>x \<in> set (e # es). rec_ok x"
    using srv(1) i by (cases "bs ! i") (auto simp: serves_def block_served_def block_ok_def)
  obtain c1 where l: "loadBlock env s (int i) it c = (True, it\<lparr>i_blockIdx := int i, i_reader := Some (records (bs ! i))\<rparr>, c1)"
    "agrees cinv view right c1" using loadBlock_ok [OF srv c i] by auto
  obtain it1 where it1: "readNextRecord (it\<lparr>i_blockIdx := int i, i_reader := Some (records (bs ! i))\<rparr>) = (True, it1)"
    "cur_entry it1 = wire e" "i_reader it1 = Some (records es)" "i_blockIdx it1 = int i"
    using readNextRecord_Cons [of "it\<lparr>i_blockIdx := int i, i_reader := Some (records (bs ! i))\<rparr>" e es] b by auto
  have "iter_rem bs (it1\<lparr>i_valid := True\<rparr>) (es @ concat (drop (Suc i) bs))" using it1(3,4) i b(2) by (auto simp: iter_rem_def)
  then show ?thesis using l it1 b(1) i by (simp add: upt_conv_Cons cur_entry_def)
qed

lemma tNext_ok:
  assumes srv: "serves env s bs" "covers env s bs right" and c: "agrees cinv view right c" and it: "iter_rem bs it rs"
  shows "case rs of
      [] \<Rightarrow> (\<exists>it1 c1. tNext env s it c = (False, it1, c1) \<and> \<not> i_valid it1 \<and> iter_rem bs it1 [] \<and> agrees cinv view right c1)
    | e # rs' \<Rightarrow> (\<exists>it1 c1. tNext env s it c = (True, it1, c1) \<and> i_valid it1 \<and> cur_entry it1 = wire e \<and> iter_rem bs it1 rs' \<and>
        agrees cinv view right c1)"
proof -
  have n: "unat (t_numBlocks s) = length bs" and ne: "\<And>j. j < length bs \<Longrightarrow> bs ! j \<noteq> []"
    using srv(1) by (auto simp: serves_def block_served_def)
  have blocks: ?thesis if rd: "readNextRecord it = (False, it)" and i: "nat (i_blockIdx it + 1) = j" "rs = concat (drop j bs)" "j \<le> length bs"
    and fin: "rs = [] \<Longrightarrow> iter_rem bs (it\<lparr>i_valid := False\<rparr>) []" for j
  proof (cases "j < length bs")
    case True
    have "concat (drop j bs) = hd (bs ! j) # tl (bs ! j) @ concat (drop (Suc j) bs)"
      using True ne [OF True] by (simp add: Cons_nth_drop_Suc [symmetric] del: append_Cons flip: append_Cons)
    then show ?thesis using nextBlocks_ok [OF srv c True, of it] rd i n by (auto simp: tNext_def)
  next
    case False
    then show ?thesis using rd i n fin c by (simp add: tNext_def)
  qed
  from it [unfolded iter_rem_def] show ?thesis
  proof (elim disjE exE conjE)
    assume "i_reader it = None" "i_blockIdx it = - 1" "rs = concat bs"
    then show ?thesis by (intro blocks [of 0]) (auto simp: iter_rem_def)
  next
    fix i es
    assume h: "i < length bs" "i_blockIdx it = int i" "i_reader it = Some (records es)" "\<forall>e \<in> set es. rec_ok e"
      "rs = es @ concat (drop (Suc i) bs)"
    show ?thesis
    proof (cases es)
      case Nil
      then show ?thesis using h by (intro blocks [of "Suc i"]) (auto simp: iter_rem_def)
    next
      case (Cons e es')
      then obtain it1 where "readNextRecord it = (True, it1)" "cur_entry it1 = wire e" "i_reader it1 = Some (records es')"
        "i_blockIdx it1 = i_blockIdx it" using readNextRecord_Cons [of it e es'] h(3,4) by auto
      then show ?thesis using h Cons c by (auto simp: tNext_def cur_entry_def iter_rem_def)
    qed
  qed
qed

lemma seekBlocks_ok:
  assumes srv: "serves env s bs" "covers env s bs right"
  shows "agrees cinv view right c \<Longrightarrow> i \<le> length bs \<Longrightarrow>
    (case dropWhile (\<lambda>e. e_key e < key) (concat (drop i bs)) of
      [] \<Rightarrow> (\<exists>it1 c1. seekBlocks env s key [i..<length bs] it c = (it1, c1) \<and> \<not> i_valid it1 \<and> agrees cinv view right c1)
    | e # rs \<Rightarrow> (\<exists>it1 c1. seekBlocks env s key [i..<length bs] it c = (it1, c1) \<and> i_valid it1 \<and> cur_entry it1 = wire e \<and>
        iter_rem bs it1 rs \<and> agrees cinv view right c1))"
proof (induction "length bs - i" arbitrary: i it c)
  case 0
  then show ?case by simp
next
  case (Suc n)
  then have i: "i < length bs" by simp
  have ok: "\<forall>e \<in> set (bs ! i). rec_ok e" using srv(1) i by (auto simp: serves_def block_served_def block_ok_def)
  have split: "concat (drop i bs) = bs ! i @ concat (drop (Suc i) bs)" using i by (simp add: Cons_nth_drop_Suc [symmetric])
  let ?it = "it\<lparr>i_blockIdx := int i, i_reader := Some (records (bs ! i))\<rparr>"
  obtain c1 where l: "loadBlock env s (int i) it c = (True, ?it, c1)" "agrees cinv view right c1"
    using loadBlock_ok [OF srv Suc.prems(1) i] by auto
  note sk = seekBlock_records [of ?it "bs ! i" key, OF _ ok]
  show ?case
  proof (cases "dropWhile (\<lambda>e. e_key e < key) (bs ! i)")
    case Nil
    obtain it1 where "seekBlock key ?it = (False, it1)" using sk [unfolded Nil] by auto
    moreover have "dropWhile (\<lambda>e. e_key e < key) (concat (drop i bs)) = dropWhile (\<lambda>e. e_key e < key) (concat (drop (Suc i) bs))"
      using Nil by (simp add: split dropWhile_append dropWhile_eq_Nil_conv)
    moreover have "seekBlocks env s key [i..<length bs] it c = seekBlocks env s key [Suc i..<length bs] it1 c1"
      using l(1) i \<open>seekBlock key ?it = (False, it1)\<close> by (simp add: upt_conv_Cons)
    moreover have "n = length bs - Suc i" "Suc i \<le> length bs" using Suc.hyps(2) i by auto
    ultimately show ?thesis using Suc.hyps(1) [of "Suc i" c1 it1] l(2) by (simp cong: list.case_cong)
  next
    case (Cons e rs)
    obtain it1 where it1: "seekBlock key ?it = (True, it1)" "i_valid it1" "cur_entry it1 = wire e" "i_reader it1 = Some (records rs)"
      "i_blockIdx it1 = int i" using sk [unfolded Cons] by auto
    have "set rs \<subseteq> set (bs ! i)" using Cons set_dropWhileD by (metis list.set_intros(2) subsetI)
    then have "iter_rem bs it1 (rs @ concat (drop (Suc i) bs))" using it1 i ok by (auto simp: iter_rem_def)
    moreover have "dropWhile (\<lambda>e. e_key e < key) (concat (drop i bs)) = e # rs @ concat (drop (Suc i) bs)"
    proof -
      have "\<exists>x \<in> set (bs ! i). \<not> e_key x < key" using Cons by (metis dropWhile_eq_Nil_conv list.distinct(1))
      then show ?thesis using Cons by (auto simp: split dropWhile_append)
    qed
    ultimately show ?thesis using it1 l i by (simp add: upt_conv_Cons)
  qed
qed

lemma tSeek_ok:
  assumes srv: "serves env s bs" "covers env s bs right" and bs: "blocks_sorted bs" and c: "agrees cinv view right c"
  shows "case dropWhile (\<lambda>e. e_key e < key) (concat bs) of
      [] \<Rightarrow> (\<exists>it1 c1. tSeek env s key it c = (it1, c1) \<and> \<not> i_valid it1 \<and> agrees cinv view right c1)
    | e # rs \<Rightarrow> (\<exists>it1 c1. tSeek env s key it c = (it1, c1) \<and> i_valid it1 \<and> cur_entry it1 = wire e \<and>
        iter_rem bs it1 rs \<and> agrees cinv view right c1)"
proof (cases "bs = []")
  case True
  then have "t_numBlocks s = 0" using srv(1) by (simp add: serves_def unat_eq_0)
  then show ?thesis using True c by (simp add: tSeek_def)
next
  case False
  have n: "unat (t_numBlocks s) = length bs" "t_numBlocks s \<noteq> 0" using srv(1) False by (auto simp: serves_def unat_eq_0)
  obtain r c1 where r: "blockSearch env s key 0 (int (length bs) - 1) 0 c = (r, c1)" "agrees cinv view right c1"
    "r = 0 \<and> (\<forall>j < length bs. key < e_key (hd (bs ! j))) \<or>
     0 \<le> r \<and> r < int (length bs) \<and> e_key (hd (bs ! nat r)) \<le> key \<and> (\<forall>j. r < int j \<and> j < length bs \<longrightarrow> key < e_key (hd (bs ! j)))"
    using blockSearch_full [OF srv bs c, of key 0] by auto
  have i: "nat r < length bs" using r(3) False by auto
  have "e_key x < key" if x: "x \<in> set (concat (take (nat r) bs))" for x
  proof -
    obtain j where j: "j < nat r" "x \<in> set (bs ! j)" using x i unfolding in_concat_nth by auto
    then have "e_key x < e_key (hd (bs ! nat r))" using blocks_sorted_hd [OF bs] i by blast
    then show ?thesis using r(3) j(1) by auto
  qed
  then have "dropWhile (\<lambda>e. e_key e < key) (concat (take (nat r) bs) @ concat (drop (nat r) bs)) =
      dropWhile (\<lambda>e. e_key e < key) (concat (drop (nat r) bs))" by (simp add: dropWhile_append)
  then have "dropWhile (\<lambda>e. e_key e < key) (concat bs) = dropWhile (\<lambda>e. e_key e < key) (concat (drop (nat r) bs))"
    by (metis append_take_drop_id concat_append)
  moreover have "tSeek env s key it c = seekBlocks env s key [nat r..<length bs] it c1" using r(1) n by (simp add: tSeek_def)
  ultimately show ?thesis using seekBlocks_ok [OF srv r(2), of "nat r" key it] i by (simp cong: list.case_cong)
qed

end

end
