(* ===== verification/LruCache.thy ===== *)
theory LruCache
  imports Cache SSTable_Read
begin

text \<open>
  The LRU cache keeps the interface that the reads of an SSTable rely on: what it holds was put there under
  that key.
\<close>

definition lruEnv :: "(bytes \<Rightarrow> u64) \<Rightarrow> shard list senv \<Rightarrow> shard list senv" where
  "lruEnv hash base =
     base\<lparr>cGet := (\<lambda>c k. case cache_Get hash k c of None \<Rightarrow> (None, c) | Some r \<Rightarrow> r),
          cPut := (\<lambda>c k v. case cache_Put hash k v c of None \<Rightarrow> c | Some c' \<Rightarrow> c')\<rparr>"

definition lruView :: "(bytes \<Rightarrow> u64) \<Rightarrow> shard list \<Rightarrow> bytes \<Rightarrow> bytes option" where
  "lruView hash c k =
     (let s = c ! getShard hash c k in map_option (\<lambda>n. cn_val (sh_nodes s ! n)) (map_of (sh_tbl s) k))"

definition lruInv :: "shard list \<Rightarrow> bool" where
  "lruInv c \<longleftrightarrow> (\<exists>a. cache_rel c a)"

definition aview :: "(bytes \<Rightarrow> u64) \<Rightarrow> acache \<Rightarrow> bytes \<Rightarrow> bytes option" where
  "aview hash a k = map_of (snd (a ! unat (hash k mod of_nat (length a)))) k"

lemma cache_rel_shard:
  fixes hash :: "bytes \<Rightarrow> u64"
  assumes "cache_rel c a"
  shows "length c = length a" "unat (hash k mod of_nat (length a)) < length a"
    "i < length a \<Longrightarrow> shard_rel (c ! i) (a ! i)"
proof -
  show l: "length c = length a" using assms by (auto simp: cache_rel_def dest: list_all2_lengthD)
  have n: "unat (of_nat (length a) :: u64) = length a" "0 < length a"
    using assms l by (auto simp: cache_rel_def unat_of_nat_small)
  show "unat (hash k mod of_nat (length a)) < length a"
    unfolding unat_mod_distrib n(1) by (rule mod_less_divisor [OF n(2)])
  show "shard_rel (c ! i) (a ! i)" if "i < length a"
    using assms that l by (auto simp: cache_rel_def list_all2_conv_all_nth)
qed

lemma lruView_abs:
  assumes "cache_rel c a" shows "lruView hash c k = aview hash a k"
proof -
  note r = cache_rel_shard [OF assms]
  let ?i = "unat (hash k mod of_nat (length a))"
  obtain xs where xs: "sh_wf (c ! ?i) xs" "sh_list (c ! ?i) xs = snd (a ! ?i)" 
    using r(3) [OF r(2) [of hash k]] unfolding shard_rel_def by blast
  have "map_option (\<lambda>n. cn_val (sh_nodes (c ! ?i) ! n)) (map_of (sh_tbl (c ! ?i)) k) = map_of (sh_list (c ! ?i) xs) k"
  proof (cases "map_of (sh_tbl (c ! ?i)) k")
    case None
    then show ?thesis using tbl_None [OF xs(1)] by simp
  next
    case (Some n)
    then have n: "n \<in> set xs" "cn_key (sh_nodes (c ! ?i) ! n) = k" using tbl_lookup [OF xs(1)] by auto
    then obtain us vs where "xs = us @ n # vs" by (meson split_list)
    then show ?thesis using Some n list_split(2) [of "c ! ?i" us n vs] xs(1) by simp
  qed
  then show ?thesis using xs(2) r(1) by (simp add: lruView_def aview_def getShard_def Let_def)
qed

lemma spec_op_upd:
  "spec_op hash p a = (fst (spec_shard p (a ! unat (hash (cop_key p) mod of_nat (length a)))),
     a[unat (hash (cop_key p) mod of_nat (length a)) := snd (spec_shard p (a ! unat (hash (cop_key p) mod of_nat (length a))))])"
  by (simp add: spec_op_def Let_def case_prod_beta)

lemma aview_get:
  assumes "cache_rel c a"
  shows "aview hash (snd (spec_op hash (CGet k) a)) x = aview hash a x" "fst (spec_op hash (CGet k) a) = aview hash a k"
proof -
  let ?i = "unat (hash k mod of_nat (length a))"
  obtain cap l where ai: "a ! ?i = (cap, l)" by fastforce
  have "map_of (snd (lru_get k l)) x = map_of l x" by (auto simp: lru_get_def delete_conv' split: option.split)
  then show "aview hash (snd (spec_op hash (CGet k) a)) x = aview hash a x"
    using ai cache_rel_shard(2) [OF assms, of hash k] by (auto simp: spec_op_upd aview_def nth_list_update)
  show "fst (spec_op hash (CGet k) a) = aview hash a k"
    using ai by (simp add: spec_op_upd aview_def lru_get_def split: option.split)
qed

lemma lru_put_lookup:
  assumes "map_of (lru_put cap k v l) x = Some w"
  shows "if x = k then w = v else map_of l x = Some w"
proof -
  have bl: "map_of (butlast l) x = Some w \<Longrightarrow> map_of l x = Some w" by (cases l rule: rev_cases) auto
  show ?thesis using assms bl by (auto simp: lru_put_def delete_conv' split: if_splits)
qed

lemma aview_put:
  assumes "cache_rel c a" "aview hash (snd (spec_op hash (CPut k v) a)) x = Some w"
  shows "if x = k then w = v else aview hash a x = Some w"
proof -
  let ?i = "unat (hash k mod of_nat (length a))"
  let ?j = "unat (hash x mod of_nat (length a))"
  obtain cap l where ai: "a ! ?i = (cap, l)" by fastforce
  have i: "?i < length a" by (rule cache_rel_shard(2) [OF assms(1)])
  show ?thesis
  proof (cases "?j = ?i")
    case True
    have "map_of (lru_put cap k v l) x = Some w" using assms(2) ai i by (simp add: spec_op_upd aview_def True)
    from lru_put_lookup [OF this] show ?thesis unfolding aview_def True ai by simp
  next
    case False
    then have "x \<noteq> k" by blast
    then show ?thesis using assms(2) False by (simp add: spec_op_upd aview_def)
  qed
qed

lemma lru_block_cache: "block_cache (lruEnv hash base) lruInv (lruView hash)"
proof (unfold_locales, goal_cases)
  case (1 c k)
  then show ?case using cache_op_refines [of c _ hash "CGet k"] by (fastforce simp: lruInv_def lruEnv_def)
next
  case (2 c k x v)
  then obtain a where a: "cache_rel c a" by (auto simp: lruInv_def)
  obtain c' where "cache_Get hash k c = Some (fst (spec_op hash (CGet k) a), c')" "cache_rel c' (snd (spec_op hash (CGet k) a))"
    using cache_op_refines [OF a, of hash "CGet k"] by auto
  then show ?case using 2(2) aview_get [OF a] lruView_abs a by (simp add: lruEnv_def)
next
  case (3 c k v)
  then obtain a where a: "cache_rel c a" by (auto simp: lruInv_def)
  obtain c' where "cache_Get hash k c = Some (fst (spec_op hash (CGet k) a), c')"
    using cache_op_refines [OF a, of hash "CGet k"] by auto
  then show ?case using 3(2) aview_get(2) [OF a] lruView_abs [OF a] by (simp add: lruEnv_def)
next
  case (4 c k v)
  then show ?case using cache_op_refines [of c _ hash "CPut k v"] by (fastforce simp: lruInv_def lruEnv_def)
next
  case (5 c k v x w)
  then obtain a where a: "cache_rel c a" by (auto simp: lruInv_def)
  obtain c' where c': "cache_Put hash k v c = Some c'" "cache_rel c' (snd (spec_op hash (CPut k v) a))"
    using cache_op_refines [OF a, of hash "CPut k v"] by auto
  then show ?case using 5(2) aview_put [OF a] lruView_abs a by (simp add: lruEnv_def)
qed

interpretation lru: block_cache "lruEnv hash base" lruInv "lruView hash" for hash base
  by (rule lru_block_cache)

end
