(* ===== verification/SSTable_Build.thy ===== *)
theory SSTable_Build
  imports SSTable_Read
begin

text \<open>
  Building and opening tables: the builder cuts sorted entries into blocks at key boundaries and writes the
  image of each; the created table and the table opened from its file both serve these blocks.
\<close>

section \<open>Filters\<close>

definition filter_shape :: "filter \<Rightarrow> filter \<Rightarrow> bool" where
  "filter_shape f g \<longleftrightarrow> f_bits f = f_bits g \<and> f_k f = f_k g \<and> length (f_data f) = length (f_data g)"

lemma addProbes_length: "addProbes h bits is d = Some d' \<Longrightarrow> length d' = length d"
  by (induction "is" arbitrary: d) (auto simp: setBit_def Let_def split: option.splits if_splits)

lemma Add_shape: "Add hash f k = Some f' \<Longrightarrow> filter_shape f' f"
  by (auto simp: Add_def filter_shape_def split: if_splits dest: addProbes_length)

lemma addAll_shape: "addAll hash f ks = Some f' \<Longrightarrow> filter_shape f' f"
proof (induction ks arbitrary: f)
  case (Cons k ks)
  then obtain g where g: "Add hash f k = Some g" "addAll hash g ks = Some f'" by (auto split: option.splits)
  show ?case using Add_shape [OF g(1)] Cons.IH [OF g(2)] by (simp add: filter_shape_def)
qed (simp add: filter_shape_def)

lemma addAll_snoc: "addAll hash f (ks @ [k]) = Option.bind (addAll hash f ks) (\<lambda>g. Add hash g k)"
  by (induction ks arbitrary: f) (auto split: option.splits)

lemma addAll_snoc2: "addAll hash f (js @ ks @ [k]) = Option.bind (addAll hash f (js @ ks)) (\<lambda>g. Add hash g k)"
  using addAll_snoc [of hash f "js @ ks" k] by simp

lemma MayContain_wf:
  assumes "filter_wf f" shows "MayContain hash (Some f) k \<noteq> None"
proof (cases "f_bits f = 0 \<or> f_data f = []")
  case False
  then have "unat (drop_bit 3 (probe h (f_bits f) i)) < length (f_data f)" for h i using probe_in_range [OF assms] by blast
  then show ?thesis using False by (simp add: MayContain_def testProbes_bitmap)
qed (auto simp: MayContain_def)

lemma sized_shape:
  assumes "n < 2 ^ 28"
  obtains l where "length (f_data (NewFilterSized n 10)) = l" "f_bits (NewFilterSized n 10) = of_nat (8 * l)" "0 < l" "8 * l + 7 < 2 ^ 32"
proof -
  define m where "m = (if n = 0 then 1 else n) * 10"
  define r where "r = (if m < 64 then 64 else m)"
  have m: "m < 2 ^ 32 - 16" "r < 2 ^ 32 - 16" "64 \<le> r" using assms by (auto simp: m_def r_def)
  have "word_of_int (int (if n = 0 then 1 else n) * 10) = (of_nat m :: u32)" by (simp add: m_def)
  moreover have um: "unat (of_nat m :: u32) = m" using m(1) by (intro unat_of_nat_small) simp
  ultimately have raw: "(if word_of_int (int (if n = 0 then 1 else n) * 10) < (64 :: u32) then 64 else word_of_int (int (if n = 0 then 1 else n) * 10)) = (of_nat r :: u32)"
    by (simp add: r_def word_less_nat_alt)
  have "unat (of_nat r + 7 :: u32) = r + 7"
    using unat_of_nat_small [of "r + 7", where 'a = 32] m(2) by simp
  then have "unat ((of_nat r + 7) div 8 :: u32) = (r + 7) div 8" by (simp add: unat_div)
  moreover have "(of_nat r + 7) div 8 = (of_nat ((r + 7) div 8) :: u32)"
    unfolding word_unat_eq_iff calculation by (rule unat_of_nat_small [symmetric]) (use m(2) in simp)
  then have "(of_nat r + 7) div 8 * 8 = (of_nat (8 * ((r + 7) div 8)) :: u32)" by simp
  moreover have "NewFilterSized n 10 = \<lparr>f_data = replicate (unat ((of_nat r + 7) div 8 :: u32)) 0, f_bits = (of_nat r + 7) div 8 * 8, f_k = probes 10\<rparr>"
    unfolding NewFilterSized_def by (simp only: Let_def if_cancel raw)
  ultimately show ?thesis using that [of "(r + 7) div 8"] m by simp
qed

section \<open>Block images\<close>

definition blkPayload :: "'c senv \<Rightarrow> (nat \<Rightarrow> bytes) \<Rightarrow> int \<Rightarrow> registry option \<Rightarrow> nat \<Rightarrow> entry list \<Rightarrow> bytes" where
  "blkPayload env nonce level reg i b =
     (let z = fst (compressBlock env (blockBytes b) level)
      in case reg of None \<Rightarrow> z | Some kr \<Rightarrow> nonce i @ gcmSeal env (snd (ActiveKey kr)) (nonce i) z)"

fun fileOf :: "(nat \<Rightarrow> entry list \<Rightarrow> bytes) \<Rightarrow> nat \<Rightarrow> entry list list \<Rightarrow> bytes" where
  "fileOf pl i [] = []"
| "fileOf pl i (b # bs) = pl i b @ put_u32 (crc32 (pl i b)) @ fileOf pl (Suc i) bs"

fun indexOf :: "(nat \<Rightarrow> entry list \<Rightarrow> bytes) \<Rightarrow> nat \<Rightarrow> nat \<Rightarrow> entry list list \<Rightarrow> sparseIndexEntry list" where
  "indexOf pl off i [] = []"
| "indexOf pl off i (b # bs) = \<lparr>x_key = e_key (hd b), x_offset = int off, x_size = of_nat (length (pl i b) + 4)\<rparr> #
     indexOf pl (off + length (pl i b) + 4) (Suc i) bs"

lemma fileOf_append: "fileOf pl i (bs @ cs) = fileOf pl i bs @ fileOf pl (i + length bs) cs"
  by (induction bs arbitrary: i) auto

lemma indexOf_append: "indexOf pl off i (bs @ cs) = indexOf pl off i bs @ indexOf pl (off + length (fileOf pl i bs)) (i + length bs) cs"
  by (induction bs arbitrary: i off) (auto simp: ac_simps)

lemma length_indexOf [simp]: "length (indexOf pl off i bs) = length bs"
  by (induction bs arbitrary: i off) auto

lemma div_succ_16: "n mod 16 \<noteq> 0 \<Longrightarrow> (n + 16) div 16 = (n + 15) div (16 :: nat)"
proof -
  assume "n mod 16 \<noteq> 0"
  then obtain r q where n: "0 < r" "r < 16" "n = 16 * q + r"
    using that [of "n mod 16" "n div 16"] by simp
  have "(16 * q + r + 15) div 16 = q + 1" by (rule div_nat_eqI) (use n in auto)
  moreover have "(16 * q + r + 16) div 16 = q + 1" by (rule div_nat_eqI) (use n in auto)
  ultimately show ?thesis using n(3) by simp
qed

lemma restarts_snoc: "restarts (es @ [e]) = restarts es @ (if length es mod 16 = 0 then [length (records es)] else [])"
proof -
  have pre: "map (\<lambda>j. length (records (take (16 * j) (es @ [e])))) [0..<n] = map (\<lambda>j. length (records (take (16 * j) es))) [0..<n]"
    if "n \<le> (length es + 15) div 16" for n
  proof (intro map_cong refl)
    fix j assume "j \<in> set [0..<n]"
    then have "16 * j \<le> length es" using that by auto
    then show "length (records (take (16 * j) (es @ [e]))) = length (records (take (16 * j) es))" by simp
  qed
  show ?thesis
  proof (cases "length es mod 16 = 0")
    case True
    then obtain q where "length es = 16 * q" by auto
    then show ?thesis using pre [of q] by (simp add: restarts_def)
  next
    case False
    then have "(length (es @ [e]) + 15) div 16 = (length es + 15) div 16" using div_succ_16 [of "length es"] by simp
    then show ?thesis using False by (simp only: restarts_def pre [OF order_refl] if_False append_Nil2)
  qed
qed

section \<open>The builder\<close>

definition seal_ready :: "registry option \<Rightarrow> bool" where
  "seal_ready reg \<longleftrightarrow> (case reg of None \<Rightarrow> True | Some kr \<Rightarrow> aes_key_ok (snd (ActiveKey kr)))"

definition bld :: "'c senv \<Rightarrow> (nat \<Rightarrow> bytes) \<Rightarrow> int \<Rightarrow> registry option \<Rightarrow> nat \<Rightarrow> builder \<Rightarrow> entry list \<Rightarrow> entry list list \<Rightarrow> entry list \<Rightarrow> bool" where
  "bld env nonce level reg n b es bs cur \<longleftrightarrow>
     es = concat bs @ cur \<and> blocks_sorted bs \<and> key_sorted cur \<and> (\<forall>x \<in> set (concat bs). \<forall>y \<in> set cur. e_key x < e_key y) \<and>
     b_file b = fileOf (blkPayload env nonce level reg) 0 bs \<and> map x_key (b_index b) = map (e_key \<circ> hd) bs \<and> b_keys b = map e_key es \<and>
     b_block b = records cur \<and> b_first b = (if cur = [] then None else Some (e_key (hd cur))) \<and>
     b_offsets b = map of_nat (restarts cur) \<and> b_err b = None \<and>
     b_keyID b = (case reg of None \<Rightarrow> 0 | Some kr \<Rightarrow> if bs = [] then 0 else fst (ActiveKey kr)) \<and>
     b_prefix b = addAll (xxhash env) (NewFilterSized n 10) (map (ExtractPrefix \<circ> e_key) es) \<and>
     (cur \<noteq> [] \<longrightarrow> b_count b = length cur) \<and> (es \<noteq> [] \<longrightarrow> b_prev b = e_key (last es)) \<and>
     (length (b_file b) < 2 ^ 32 \<longrightarrow> b_offset b = length (b_file b) \<and> b_index b = indexOf (blkPayload env nonce level reg) 0 0 bs)"

lemma records_Nil_iff [simp]: "records es = [] \<longleftrightarrow> es = []"
  by (cases es) auto

lemma restarts_Nil [simp]: "restarts [] = []"
  by (simp add: restarts_def)

lemma restarts_one [simp]: "restarts [e] = [0]"
  by (simp add: restarts_def)

lemma blocks_sorted_snoc:
  assumes "blocks_sorted bs" "key_sorted b" "b \<noteq> []" "\<forall>x \<in> set (concat bs). \<forall>y \<in> set b. e_key x < e_key y"
  shows "blocks_sorted (bs @ [b])"
  using assms by (auto simp: blocks_sorted_def sorted_wrt_append)

lemma flush_bld:
  assumes b: "bld env nonce level reg n b es bs cur" and "cur \<noteq> []" "seal_ready reg"
  shows "bld env nonce level reg n (flushCurrentBlock env nonce level reg b) es (bs @ [cur]) []"
proof -
  let ?pl = "blkPayload env nonce level reg" and ?b = "flushCurrentBlock env nonce level reg b"
  define p where "p = ?pl (length bs) cur"
  define k where "k = (case reg of None \<Rightarrow> 0 | Some kr \<Rightarrow> fst (ActiveKey kr))"
  define sz where "sz = (of_nat (length p + 4) :: u32)"
  have "b_block b @ blockTrailer (b_offsets b) = blockBytes cur" "length (b_index b) = length bs"
    using b map_eq_imp_length_eq [of x_key "b_index b"] by (auto simp: bld_def blockBytes_def)
  then have fl: "?b = b\<lparr>b_keyID := k, b_index := b_index b @ [\<lparr>x_key = e_key (hd cur), x_offset = int (b_offset b), x_size = sz\<rparr>],
       b_file := b_file b @ p @ put_u32 (crc32 p), b_offset := b_offset b + unat sz, b_block := [], b_first := None, b_offsets := []\<rparr>"
    using b assms(2,3)
    by (auto simp: flushCurrentBlock_def bld_def blkPayload_def p_def k_def sz_def seal_ready_def SealBlock_def Let_def split: option.splits prod.splits)
  have off: "b_offset ?b = length (b_file ?b) \<and> b_index ?b = indexOf ?pl 0 0 (bs @ [cur])" if "length (b_file ?b) < 2 ^ 32"
  proof -
    have small: "length (b_file b) < 2 ^ 32" "length p + 4 < 2 ^ 32" using that fl by auto
    then have "unat sz = length p + 4" unfolding sz_def by (intro unat_of_nat_small) simp
    then show ?thesis using b small fl by (simp add: bld_def indexOf_append p_def sz_def)
  qed
  have "blocks_sorted (bs @ [cur])" using b assms(2) by (intro blocks_sorted_snoc) (auto simp: bld_def)
  then show ?thesis using b fl off by (auto simp: bld_def fileOf_append p_def k_def split: option.splits)
qed

lemma addEntry_bld:
  assumes b: "bld env nonce level reg n b es bs cur" and srt: "key_sorted (es @ [e])" and "seal_ready reg" and ne: "es = [] \<or> cur \<noteq> []"
  shows "\<exists>bs' cur'. bld env nonce level reg n (addEntry env nonce now level reg b e) (es @ [e]) bs' cur' \<and> cur' \<noteq> []"
proof -
  define fl where "fl \<longleftrightarrow> b_first b \<noteq> None \<and> TargetBlockSize \<le> length (b_block b) \<and> e_key e \<noteq> b_prev b"
  define b1 where "b1 = (if fl then flushCurrentBlock env nonce level reg b else b)"
  define bs1 where "bs1 = (if fl then bs @ [cur] else bs)"
  define cur1 where "cur1 = (if fl then [] else cur)"
  have cur: "cur \<noteq> []" if fl using that b by (auto simp: fl_def bld_def split: if_splits)
  have b1: "bld env nonce level reg n b1 es bs1 cur1"
    using b flush_bld [OF b cur assms(3)] by (auto simp: b1_def bs1_def cur1_def)
  have le: "e_key x \<le> e_key e" if "x \<in> set es" for x using srt that by (simp add: sorted_append)
  have lt: "e_key x < e_key e" if x: "x \<in> set (concat bs1)" for x
  proof (cases fl)
    case True
    have es: "es \<noteq> []" "e_key (last es) \<noteq> e_key e" "last es \<in> set es" using True b cur by (auto simp: fl_def bld_def)
    have "x \<in> set es" using x True b by (auto simp: bs1_def bld_def)
    then have "e_key x \<le> e_key (last es)" using srt es(1) by (cases es rule: rev_cases) (auto simp: sorted_append)
    then show ?thesis using le [OF es(3)] es(2) by simp
  next
    case False
    then have x: "x \<in> set (concat bs)" using x by (simp add: bs1_def)
    then have "cur \<noteq> []" using ne b by (auto simp: bld_def)
    then have "hd cur \<in> set es" "e_key x < e_key (hd cur)" using b x by (auto simp: bld_def)
    then show ?thesis using le [of "hd cur"] by simp
  qed
  have "key_sorted (cur1 @ [e])" using b1 le by (auto simp: bld_def sorted_append)
  moreover have "addEntry env nonce now level reg b e = (let b2 = b1\<lparr>b_prev := e_key e, b_keys := b_keys b1 @ [e_key e],
       b_prefix := Option.bind (b_prefix b1) (\<lambda>f. Add (xxhash env) f (ExtractPrefix (e_key e))),
       b_tombs := (if e_deleted e \<or> expired now (e_expiresAt e) then Suc (b_tombs b1) else b_tombs b1)\<rparr>;
     b3 = (case b_first b2 of None \<Rightarrow> b2\<lparr>b_first := Some (e_key e), b_offsets := b_offsets b2 @ [0], b_count := 0\<rparr>
       | Some _ \<Rightarrow> if b_count b2 mod restartInterval = 0 then b2\<lparr>b_offsets := b_offsets b2 @ [of_nat (length (b_block b2))]\<rparr> else b2)
     in b3\<lparr>b_block := b_block b3 @ encodeRecord e, b_count := Suc (b_count b3)\<rparr>)"
    unfolding addEntry_def b1_def fl_def Let_def by (rule refl)
  ultimately have "bld env nonce level reg n (addEntry env nonce now level reg b e) (es @ [e]) bs1 (cur1 @ [e])"
    using b1 lt by (cases "cur1 = []") (auto simp: bld_def restarts_snoc addAll_snoc addAll_snoc2 restartInterval_def Let_def)
  then show ?thesis by blast
qed

lemma newBuilder_bld: "bld env nonce level reg n (newBuilder n) [] [] []"
  by (simp add: bld_def newBuilder_def blocks_sorted_def split: option.split)

lemma bld_block: "bld env nonce level reg n b es bs [] \<Longrightarrow> b_block b = []"
  by (simp add: bld_def)

lemma build_bld:
  assumes "key_sorted es" "seal_ready reg"
  shows "\<exists>bs cur. bld env nonce level reg n (foldl (addEntry env nonce now level reg) (newBuilder n) es) es bs cur \<and> (es = [] \<or> cur \<noteq> [])"
  using assms(1)
proof (induction es rule: rev_induct)
  case Nil
  then show ?case using newBuilder_bld [of env nonce level reg n] by auto
next
  case (snoc e es)
  then obtain bs cur where "bld env nonce level reg n (foldl (addEntry env nonce now level reg) (newBuilder n) es) es bs cur"
    "es = [] \<or> cur \<noteq> []" by (auto simp: sorted_append)
  then show ?case using addEntry_bld [OF _ snoc.prems assms(2)] by fastforce
qed

lemma built_bld:
  assumes "key_sorted es" "seal_ready reg"
  obtains bs where "bld env nonce level reg n (flushCurrentBlock env nonce level reg (foldl (addEntry env nonce now level reg) (newBuilder n) es)) es bs []"
proof -
  obtain bs cur where b: "bld env nonce level reg n (foldl (addEntry env nonce now level reg) (newBuilder n) es) es bs cur" "es = [] \<or> cur \<noteq> []"
    using build_bld [OF assms] by blast
  show ?thesis
  proof (cases "cur = []")
    case True
    then have "b_block (foldl (addEntry env nonce now level reg) (newBuilder n) es) = []" using bld_block b(1) by blast
    then have "flushCurrentBlock env nonce level reg (foldl (addEntry env nonce now level reg) (newBuilder n) es) =
        foldl (addEntry env nonce now level reg) (newBuilder n) es" by (simp add: flushCurrentBlock_def)
    then show ?thesis using that b True by auto
  next
    case False
    then show ?thesis using that flush_bld [OF b(1) False assms(2)] by blast
  qed
qed

section \<open>The flat index\<close>

definition ientry :: "sparseIndexEntry \<Rightarrow> bytes" where
  "ientry x = put_u16 (of_nat (length (x_key x))) @ put_u64 (of_int (x_offset x)) @ put_u32 (x_size x) @ x_key x"

fun ioffs :: "nat \<Rightarrow> sparseIndexEntry list \<Rightarrow> u32 list" where
  "ioffs n [] = []"
| "ioffs n (x # xs) = of_nat n # ioffs (n + length (ientry x)) xs"

lemma encodeIndex_ok:
  assumes "\<forall>x \<in> set xs. length (x_key x) \<le> 65535"
  shows "encodeIndex xs t eb = Some (t @ concat (map put_u32 (ioffs (length eb) xs)), eb @ concat (map ientry xs))"
  using assms by (induction xs arbitrary: t eb) (auto simp: ientry_def)

lemma length_ioffs [simp]: "length (ioffs n xs) = length xs"
  by (induction xs arbitrary: n) auto

lemma ioffs_nth: "i < length xs \<Longrightarrow> ioffs n xs ! i = of_nat (n + length (concat (map ientry (take i xs))))"
proof (induction xs arbitrary: n i)
  case (Cons x xs)
  then show ?case by (cases i) (auto simp: add.assoc)
qed simp

lemma length_ientry: "length (ientry x) = 14 + length (x_key x)"
  by (simp add: ientry_def)

lemma drop_ientries:
  assumes "i < length xs"
  shows "drop (length (concat (map ientry (take i xs)))) (concat (map ientry xs)) = ientry (xs ! i) @ concat (map ientry (drop (Suc i) xs))"
proof -
  have "concat (map ientry xs) = concat (map ientry (take i xs)) @ ientry (xs ! i) @ concat (map ientry (drop (Suc i) xs))"
    by (subst id_take_nth_drop [OF assms]) (simp del: append_take_drop_id)
  then show ?thesis by simp
qed

lemma sint_of_int_small: "0 \<le> k \<Longrightarrow> k < 2 ^ 63 \<Longrightarrow> sint (of_int k :: u64) = k"
  by (simp add: signed_of_int signed_take_bit_int_eq_self_iff)

lemma parseIndexEntry_ok:
  assumes i: "i < length xs" and small: "length (concat (map ientry xs)) < 2 ^ 32"
    and x: "length (x_key (xs ! i)) \<le> 65535" "0 \<le> x_offset (xs ! i)" "x_offset (xs ! i) < 2 ^ 63"
  shows "parseIndexEntry (put_u32 w @ concat (map put_u32 (ioffs 0 xs)) @ concat (map ientry xs)) (length xs) i =
    (x_key (xs ! i), x_offset (xs ! i), x_size (xs ! i))"
proof -
  define rel where "rel = length (concat (map ientry (take i xs)))"
  define idx where "idx = put_u32 w @ concat (map put_u32 (ioffs 0 xs)) @ concat (map ientry xs)"
  define rest where "rest = concat (map ientry (drop (Suc i) xs))"
  have d: "drop rel (concat (map ientry xs)) = ientry (xs ! i) @ rest" unfolding rel_def rest_def by (rule drop_ientries [OF i])
  have len: "rel + length (ientry (xs ! i)) + length rest = length (concat (map ientry xs))"
    using arg_cong [OF d, of length] arg_cong [OF id_take_nth_drop [OF i], of "\<lambda>ys. length (concat (map ientry ys))"]
    by (simp add: rel_def rest_def)
  have "drop (4 + length xs * 4) idx = concat (map ientry xs)" by (simp add: idx_def mult.commute)
  then have dr: "drop (4 + length xs * 4 + rel + m) idx = drop m (ientry (xs ! i) @ rest)" for m
    using d by (metis add.commute drop_drop)
  have "get_u32 (drop (4 + i * 4) idx) = ioffs 0 xs ! i" using get_put_u32s [of i "ioffs 0 xs"] i by (simp add: idx_def add.commute)
  moreover have "unat (ioffs 0 xs ! i) = rel" using ioffs_nth [OF i, of 0] small len unat_of_nat_small [of rel, where 'a = 32] by (simp add: rel_def)
  ultimately have rl: "unat (get_u32 (drop (4 + i * 4) idx)) = rel" by simp
  have kl: "unat (of_nat (length (x_key (xs ! i))) :: u16) = length (x_key (xs ! i))" using x(1) by (intro unat_of_nat_small) simp
  have off: "sint (of_int (x_offset (xs ! i)) :: u64) = x_offset (xs ! i)" using x(2,3) by (rule sint_of_int_small)
  have li: "length idx = 4 + length xs * 4 + length (concat (map ientry xs))" by (simp add: idx_def)
  have f: "get_u16 (drop (4 + length xs * 4 + rel) idx) = of_nat (length (x_key (xs ! i)))"
    "get_u64 (drop (4 + length xs * 4 + rel + 2) idx) = of_int (x_offset (xs ! i))"
    "get_u32 (drop (4 + length xs * 4 + rel + 10) idx) = x_size (xs ! i)"
    "drop (4 + length xs * 4 + rel + 14) idx = x_key (xs ! i) @ rest"
    using dr [of 0] dr [of 2] dr [of 10] dr [of 14] by (simp_all add: ientry_def)
  show ?thesis
    unfolding idx_def [symmetric] parseIndexEntry_def Let_def rl f kl off
    using len li f(4) by (simp add: length_ientry bslice_def)
qed

end
