(* ===== verification/SSTable_Layout.thy ===== *)
theory SSTable_Layout
  imports SSTable_Build
begin

text \<open>
  The layout of a table file and what it takes for a table to serve its blocks: the created table and the
  opened one have the same offsets, and every block of the file decodes to its entries.
\<close>

section \<open>What is assumed of the compressors and of GCM\<close>

definition env_ok :: "'c senv \<Rightarrow> bool" where
  "env_ok env \<longleftrightarrow>
     (\<forall>x. x \<noteq> [] \<longrightarrow> s2Encode env x \<noteq> [] \<and> s2Decode env (s2Encode env x) = Some x) \<and>
     (\<forall>x. x \<noteq> [] \<longrightarrow> zstdEncode env x \<noteq> [] \<and> zstdDecode env (zstdEncode env x) = Some x) \<and>
     gcm (gcmSeal env) (gcmOpen env)"

lemma blockBytes_nonempty: "blockBytes b \<noteq> []"
  using length_blockTrailer [of "map of_nat (restarts b)"] unfolding blockBytes_def by (metis append_is_Nil_conv list.size(3) add_is_0 zero_neq_numeral)

lemma decode_image:
  assumes env: "env_ok env" and reg: "seal_ready reg" "\<forall>i. length (nonce i) = 12"
    and s: "t_compress s = compressionTypeForLevel level" "t_encrypted s \<longleftrightarrow> reg \<noteq> None"
      "\<And>kr. reg = Some kr \<Longrightarrow> t_blockKey s = snd (ActiveKey kr)"
  shows "decodeBlock env s (blkPayload env nonce level reg i b @ put_u32 (crc32 (blkPayload env nonce level reg i b))) = Inr (blockBytes b)"
proof -
  define z where "z = fst (compressBlock env (blockBytes b) level)"
  have z: "z \<noteq> []" "\<And>x. (if t_compress s = compressSnappy then (case s2Decode env z of None \<Rightarrow> Inl ErrBlockCorrupted | Some d \<Rightarrow> Inr d)
       else if t_compress s = compressZSTD then (case zstdDecode env z of None \<Rightarrow> Inl ErrBlockCorrupted | Some d \<Rightarrow> Inr d)
       else Inr x) = (Inr (blockBytes b) :: sst_error + bytes)"
    using env blockBytes_nonempty [of b] s(1)
    by (auto simp: z_def compressBlock_def compressionTypeForLevel_def env_ok_def compressSnappy_def compressZSTD_def)
  let ?p = "blkPayload env nonce level reg i b"
  show ?thesis
  proof (cases reg)
    case None
    then have "?p = z" "\<not> t_encrypted s" using s(2) by (simp_all add: blkPayload_def z_def)
    then show ?thesis using z by (simp add: decodeBlock_def verifyBlockCRC_def)
  next
    case (Some kr)
    let ?k = "snd (ActiveKey kr)"
    have p: "?p = nonce i @ gcmSeal env ?k (nonce i) z" "t_encrypted s" "t_blockKey s = ?k"
      using s Some by (simp_all add: blkPayload_def z_def)
    have k: "aes_key_ok ?k" "length (nonce i) = 12" using reg Some by (simp_all add: seal_ready_def)
    then have "OpenBlockWithKey (gcmOpen env) ?k ?p = Inr z" using env p(1) by (simp add: OpenBlockWithKey_def env_ok_def gcm_def)
    moreover have "verifyBlockCRC (?p @ put_u32 (crc32 ?p)) = Some ?p" using k(2) p(1) by (auto simp: verifyBlockCRC_def)
    ultimately show ?thesis using p z(2) [of z] by (simp add: decodeBlock_def)
  qed
qed

section \<open>Offsets\<close>

lemma indexOf_nth:
  "i < length bs \<Longrightarrow> indexOf pl off i0 bs ! i =
     \<lparr>x_key = e_key (hd (bs ! i)), x_offset = int (off + length (fileOf pl i0 (take i bs))), x_size = of_nat (length (pl (i0 + i) (bs ! i)) + 4)\<rparr>"
proof (induction bs arbitrary: i off i0)
  case (Cons b bs)
  then show ?case by (cases i) (auto simp: add.assoc)
qed simp

lemma fileOf_nth:
  "i < length bs \<Longrightarrow> fileOf pl 0 bs = fileOf pl 0 (take i bs) @ (pl i (bs ! i) @ put_u32 (crc32 (pl i (bs ! i)))) @ fileOf pl (Suc i) (drop (Suc i) bs)"
  using arg_cong [OF id_take_nth_drop [of i bs], of "fileOf pl 0"] fileOf_append [of pl 0 "take i bs" "bs ! i # drop (Suc i) bs"]
  by (simp add: min_absorb2)

lemma fileOf_less:
  assumes "i < j" "j \<le> length bs" shows "length (fileOf pl 0 (take i bs)) < length (fileOf pl 0 (take j bs))"
proof -
  have "i < length (take j bs)" using assms by simp
  from fileOf_nth [OF this, of pl] assms show ?thesis by (simp add: min_absorb1)
qed

lemma readAt_append: "readAt (xs @ ys @ zs) (int (length xs)) (length ys) = Some ys"
  by (simp add: readAt_def bslice_def)

lemma readAt_at:
  assumes "d = xs @ ys @ zs" "off = int (length xs)" "n = length ys" shows "readAt d off n = Some ys"
  using assms readAt_append by blast

definition indexSection :: "u32 \<Rightarrow> sparseIndexEntry list \<Rightarrow> bytes" where
  "indexSection w ix = put_u32 w @ concat (map put_u32 (ioffs 0 ix)) @ concat (map ientry ix)"

text \<open>A table whose fields locate the sections of its file.\<close>

definition located :: "'c senv \<Rightarrow> (nat \<Rightarrow> entry list \<Rightarrow> bytes) \<Rightarrow> sstable \<Rightarrow> entry list list \<Rightarrow> filter \<Rightarrow> filter \<Rightarrow> bool" where
  "located env pl s bs f pf \<longleftrightarrow> t_open s \<and> t_numBlocks s = of_nat (length bs) \<and>
     (let ix = indexSection (of_nat (length bs)) (indexOf pl 0 0 bs); n = length (fileOf pl 0 bs); m = n + length ix;
          p = m + 5 + length (f_data f)
      in (\<exists>tail. t_data s = fileOf pl 0 bs @ ix @ filterSection f @ filterSection pf @ tail) \<and>
         t_indexOff s = int n \<and> t_indexLen s = int (length ix) \<and>
         t_filterOff s = int (m + 5) \<and> t_filterLen s = int (length (f_data f)) \<and> t_filterBits s = f_bits f \<and> t_filterK s = f_k f \<and>
         t_prefixOff s = int (p + 5) \<and> t_prefixLen s = int (length (f_data pf)) \<and> t_prefixBits s = f_bits pf \<and> t_prefixK s = f_k pf)"

lemma located_sections:
  assumes "located env pl s bs f pf"
  shows "readAt (t_data s) (t_indexOff s) (nat (t_indexLen s)) = Some (indexSection (of_nat (length bs)) (indexOf pl 0 0 bs))"
    "readAt (t_data s) (t_filterOff s) (nat (t_filterLen s)) = Some (f_data f)"
    "readAt (t_data s) (t_prefixOff s) (nat (t_prefixLen s)) = Some (f_data pf)"
proof -
  let ?ix = "indexSection (of_nat (length bs)) (indexOf pl 0 0 bs)"
  obtain tail where d: "t_data s = fileOf pl 0 bs @ ?ix @ filterSection f @ filterSection pf @ tail"
    using assms by (auto simp: located_def Let_def)
  show "readAt (t_data s) (t_indexOff s) (nat (t_indexLen s)) = Some ?ix"
    using assms by (intro readAt_at [of _ "fileOf pl 0 bs" _ "filterSection f @ filterSection pf @ tail"]) (auto simp: d located_def Let_def)
  show "readAt (t_data s) (t_filterOff s) (nat (t_filterLen s)) = Some (f_data f)"
    using assms by (intro readAt_at [of _ "fileOf pl 0 bs @ ?ix @ [f_k f] @ put_u32 (f_bits f)" _ "filterSection pf @ tail"])
      (auto simp: d located_def Let_def filterSection_def)
  show "readAt (t_data s) (t_prefixOff s) (nat (t_prefixLen s)) = Some (f_data pf)"
    using assms by (intro readAt_at [of _ "fileOf pl 0 bs @ ?ix @ filterSection f @ [f_k pf] @ put_u32 (f_bits pf)" _ tail])
      (auto simp: d located_def Let_def filterSection_def)
qed

lemma located_entry:
  assumes loc: "located env pl s bs f pf" and small: "length (t_data s) < 2 ^ 32"
    and keys: "\<forall>b \<in> set bs. b \<noteq> [] \<and> length (e_key (hd b)) \<le> 65535" and i: "i < length bs"
  shows "entryAt s i = (e_key (hd (bs ! i)), int (length (fileOf pl 0 (take i bs))), of_nat (length (pl i (bs ! i)) + 4))"
proof -
  let ?ix = "indexOf pl 0 0 bs"
  obtain tail where d: "t_data s = fileOf pl 0 bs @ indexSection (of_nat (length bs)) ?ix @ filterSection f @ filterSection pf @ tail"
    using loc by (auto simp: located_def Let_def)
  have lix: "length (concat (map put_u32 (ioffs 0 ?ix))) + length (concat (map ientry ?ix)) < 2 ^ 32" and lfile: "length (fileOf pl 0 bs) < 2 ^ 32"
    using small d by (auto simp: indexSection_def)
  have "length bs < 2 ^ 32" using lix by simp
  then have n: "unat (t_numBlocks s) = length ?ix" using loc by (simp add: located_def unat_of_nat_small)
  have ib: "indexBytes s = indexSection (of_nat (length bs)) ?ix" using located_sections(1) [OF loc] by (simp add: indexBytes_def)
  have "length (fileOf pl 0 (take i bs)) \<le> length (fileOf pl 0 bs)" using fileOf_nth [OF i, of pl] by simp
  then have "length (fileOf pl 0 (take i bs)) < 2 ^ 63" using lfile by simp
  then show ?thesis
    unfolding entryAt_def ib n indexSection_def
    using keys i lix indexOf_nth [OF i, of pl 0 0] by (subst parseIndexEntry_ok) simp_all
qed

lemma located_serves:
  assumes loc: "located env pl s bs f pf" and small: "length (t_data s) < 2 ^ 32"
    and keys: "\<forall>b \<in> set bs. b \<noteq> [] \<and> block_ok b \<and> length (e_key (hd b)) \<le> 65535"
    and dec: "\<And>i. i < length bs \<Longrightarrow> decodeBlock env s (pl i (bs ! i) @ put_u32 (crc32 (pl i (bs ! i)))) = Inr (blockBytes (bs ! i))"
    and f: "filter_wf f" "f_data f \<noteq> []" "\<forall>k \<in> e_key ` set (concat bs). MayContain (xxhash env) (Some f) k = Some True"
    and pf: "filter_wf pf" "f_data pf \<noteq> []" "\<forall>k \<in> e_key ` set (concat bs). MayContain (xxhash env) (Some pf) (ExtractPrefix k) = Some True"
  shows "serves env s bs"
proof -
  obtain tail where d: "t_data s = fileOf pl 0 bs @ tail" using loc by (auto simp: located_def Let_def)
  have ent: "entryAt s i = (e_key (hd (bs ! i)), int (length (fileOf pl 0 (take i bs))), of_nat (length (pl i (bs ! i)) + 4))"
    if "i < length bs" for i using located_entry [OF loc small _ that] keys by blast
  have "block_served env s i (bs ! i)" if i: "i < length bs" for i
  proof -
    let ?raw = "pl i (bs ! i) @ put_u32 (crc32 (pl i (bs ! i)))"
    have "length (pl i (bs ! i)) + 4 < 2 ^ 32" using small d fileOf_nth [OF i, of pl] by simp
    then have "unat (of_nat (length (pl i (bs ! i)) + 4) :: u32) = length ?raw" by (subst unat_of_nat_small) simp_all
    then have "readAt (t_data s) (int (length (fileOf pl 0 (take i bs)))) (unat (of_nat (length (pl i (bs ! i)) + 4) :: u32)) = Some ?raw"
      using fileOf_nth [OF i, of pl] d by (intro readAt_at [of _ "fileOf pl 0 (take i bs)" _ "fileOf pl (Suc i) (drop (Suc i) bs) @ tail"]) auto
    then show ?thesis using ent [OF i] dec [OF i] keys i unfolding block_served_def by auto
  qed
  moreover have "i = j" if "i < length bs" "j < length bs" "fst (snd (entryAt s i)) = fst (snd (entryAt s j))" for i j
  proof (rule ccontr)
    assume "i \<noteq> j"
    then consider "i < j" | "j < i" by linarith
    then show False using fileOf_less [of i j bs pl] fileOf_less [of j i bs pl] that ent by cases auto
  qed
  moreover have "length bs < 2 ^ 32"
  proof -
    have "length (indexSection (of_nat (length bs)) (indexOf pl 0 0 bs)) < 2 ^ 32" using loc small by (auto simp: located_def Let_def)
    then show ?thesis by (simp add: indexSection_def)
  qed
  then have "unat (t_numBlocks s) = length bs" using loc by (simp add: located_def unat_of_nat_small)
  moreover have "filterBytes s = f_data f" "prefixBytes s = f_data pf" using located_sections [OF loc] by (simp_all add: filterBytes_def prefixBytes_def)
  moreover have "NewFilterFromBytes (f_data f) (t_filterBits s) (t_filterK s) = f" "NewFilterFromBytes (f_data pf) (t_prefixBits s) (t_prefixK s) = pf"
    using loc NewFilterFromBytes_stored by (simp_all add: located_def Let_def)
  moreover have "0 < t_indexLen s" "0 < t_filterLen s" "0 < t_prefixLen s" "t_open s" using loc f(2) pf(2) by (auto simp: located_def Let_def indexSection_def)
  ultimately show ?thesis using located_sections [OF loc] f pf MayContain_wf unfolding serves_def by auto
qed

section \<open>The footer and what opening reads\<close>

lemma nth_drop_hd: "drop n xs = y # ys \<Longrightarrow> xs ! n = y"
  by (metis append_take_drop_id hd_drop_conv_nth drop_all leI list.distinct(1) list.sel(1))

lemma footer_fields:
  assumes "n < 2 ^ 63" "m < 2 ^ 63" "q < 2 ^ 63"
    and ftd: "ft = footer n m ct q reg k tomb"
  shows "length ft = 32" "sint (get_u64 ft) = int n" "sint (get_u64 (drop 8 ft)) = int m" "ft ! 16 = ct"
    "sint (get_u64 (drop 17 ft)) = int q" "ft ! 29 = 1 \<longleftrightarrow> reg \<noteq> None \<and> k \<noteq> 0" "get_u16 (drop 30 ft) = tomb"
    "reg \<noteq> None \<Longrightarrow> k \<noteq> 0 \<Longrightarrow> unat k < 2 ^ 32 \<Longrightarrow> ucast (get_u32 (drop 25 ft)) = k"
proof -
  let ?x = "if reg \<noteq> None \<and> k \<noteq> 0 then put_u32 (ucast k) else replicate 4 0"
  let ?y = "if reg \<noteq> None \<and> k \<noteq> 0 then 1 else 0 :: byte"
  have ft: "ft = put_u64 (of_nat n) @ put_u64 (of_nat m) @ [ct] @ put_u64 (of_nat q) @ ?x @ [?y] @ put_u16 tomb"
    by (simp add: ftd footer_def numeral_eq_Suc)
  have lx: "length ?x = 4" by simp
  have s: "sint (of_nat x :: u64) = int x" if "x < 2 ^ 63" for x using sint_of_int_small [of "int x"] that by simp
  show "length ft = 32" using lx by (simp add: ft)
  show "sint (get_u64 ft) = int n" using s [OF assms(1)] by (simp add: ft)
  show "sint (get_u64 (drop 8 ft)) = int m" using s [OF assms(2)] by (simp add: ft)
  show "ft ! 16 = ct" by (rule nth_drop_hd) (simp add: ft)
  show "sint (get_u64 (drop 17 ft)) = int q" using s [OF assms(3)] by (simp add: ft drop_Cons')
  have d: "drop 25 ft = ?x @ [?y] @ put_u16 tomb" by (simp add: ft drop_Cons')
  then have "drop 4 (drop 25 ft) = ?y # put_u16 tomb" using lx by simp
  then have d29: "drop 29 ft = ?y # put_u16 tomb" by simp
  then show "ft ! 29 = 1 \<longleftrightarrow> reg \<noteq> None \<and> k \<noteq> 0" using nth_drop_hd [OF d29] by simp
  have "drop 1 (drop 29 ft) = put_u16 tomb" unfolding d29 by simp
  then have "drop 30 ft = put_u16 tomb" by simp
  then show "get_u16 (drop 30 ft) = tomb" by simp
  assume h: "reg \<noteq> None" "k \<noteq> 0" "unat k < 2 ^ 32"
  have "ucast (ucast k :: u32) = k" using h(3) by (simp add: word_unat_eq_iff unsigned_ucast_eq unsigned_take_bit_eq take_bit_nat_eq_self)
  then show "ucast (get_u32 (drop 25 ft)) = k" using d h by simp
qed

lemma readLen32_at: "d = xs @ put_u32 w @ ys \<Longrightarrow> off = int (length xs) \<Longrightarrow> readLen32 d off = Some w"
  using readAt_at [of d xs "put_u32 w" ys off 4] by (simp add: readLen32_def)

lemma open_filters:
  assumes d: "d = xs @ filterSection f @ filterSection pf @ tail" and m: "m = length xs" "q = m + 5 + length (f_data f) + 5 + length (f_data pf)"
    and f: "f_data f \<noteq> []" "unat ((f_bits f + 7) div 8) = length (f_data f)" "f_data pf \<noteq> []" "unat ((f_bits pf + 7) div 8) = length (f_data pf)"
  shows "openFilter d (int m) (int q) = (int m + 5, int (length (f_data f)), f_bits f, f_k f)"
    "openPrefix d (int m + 5) (int (length (f_data f))) (int q) = (int m + 5 + int (length (f_data f)) + 5, int (length (f_data pf)), f_bits pf, f_k pf)"
proof -
  have "readAt d (int m) 1 = Some [f_k f]" by (rule readAt_at [of _ xs]) (auto simp: d m filterSection_def)
  moreover have "readLen32 d (int m + 1) = Some (f_bits f)" by (rule readLen32_at [of _ "xs @ [f_k f]"]) (auto simp: d m filterSection_def)
  moreover have "int m + 5 \<le> int (length d)" by (simp add: d m filterSection_def)
  ultimately show "openFilter d (int m) (int q) = (int m + 5, int (length (f_data f)), f_bits f, f_k f)"
    using f m(2) by (simp add: openFilter_def Let_def)
  have "readAt d (int m + 5 + int (length (f_data f))) 1 = Some [f_k pf]"
    by (rule readAt_at [of _ "xs @ filterSection f"]) (auto simp: d m filterSection_def)
  moreover have "readLen32 d (int m + 5 + int (length (f_data f)) + 1) = Some (f_bits pf)"
    by (rule readLen32_at [of _ "xs @ filterSection f @ [f_k pf]"]) (auto simp: d m filterSection_def)
  ultimately show "openPrefix d (int m + 5) (int (length (f_data f))) (int q) =
      (int m + 5 + int (length (f_data f)) + 5, int (length (f_data pf)), f_bits pf, f_k pf)"
    using f m(2) by (simp add: openPrefix_def Let_def)
qed

lemma openBounds_keys:
  assumes d: "d = xs @ put_u32 (of_nat (length mn)) @ mn @ put_u32 (of_nat (length mx)) @ mx @ ft" and ft: "length ft = 32"
    and q: "q = length xs" "0 < q" and len: "length mn < 2 ^ 32" "length mx < 2 ^ 32"
    and s: "mn = [] \<longrightarrow> t_minKey s = []" "mx = [] \<longrightarrow> t_maxKey s = []"
  shows "openBounds d (int q) s = s\<lparr>t_minKey := mn, t_maxKey := mx\<rparr>"
proof -
  have u: "unat (of_nat (length mn) :: u32) = length mn" "unat (of_nat (length mx) :: u32) = length mx" using len by (simp_all add: unat_of_nat_small)
  have r: "readLen32 d (int q) = Some (of_nat (length mn))" by (rule readLen32_at [of _ xs]) (auto simp: d q)
  have r2: "readLen32 d (int q + 4 + int (length mn)) = Some (of_nat (length mx))"
    by (rule readLen32_at [of _ "xs @ put_u32 (of_nat (length mn)) @ mn"]) (auto simp: d q)
  have k: "readAt d (int q + 4) (length mn) = Some mn" by (rule readAt_at [of _ "xs @ put_u32 (of_nat (length mn))"]) (auto simp: d q)
  have k2: "readAt d (int q + 4 + int (length mn) + 4) (length mx) = Some mx"
    by (rule readAt_at [of _ "xs @ put_u32 (of_nat (length mn)) @ mn @ put_u32 (of_nat (length mx))"]) (auto simp: d q)
  have lim: "int (length d) - 32 = int q + 4 + int (length mn) + 4 + int (length mx)" by (simp add: d q ft)
  show ?thesis
    unfolding openBounds_def Let_def lim r r2 option.case u nat_int k k2
    using q(2) s by (cases "mn = []"; cases "mx = []") simp_all
qed

end
