(* ===== verification/SSTable_Correct.thy ===== *)
theory SSTable_Correct
  imports SSTable_Layout Cache
begin

text \<open>
  The guarantees of a table: it is built from sorted entries, and the created table as well as the one opened
  from its file answers every lookup, full read and iteration as the entries would, through any block cache
  that keeps the interface.  Closing and removal wait for the last reference.
\<close>

section \<open>Creation\<close>

definition reg_good :: "registry option \<Rightarrow> bool" where
  "reg_good reg \<longleftrightarrow> reg_ok reg \<and>
     (case reg of None \<Rightarrow> True | Some kr \<Rightarrow> fst (ActiveKey kr) \<noteq> 0 \<and> unat (fst (ActiveKey kr)) < 2 ^ 32)"

definition input_ok :: "entry list \<Rightarrow> bool" where
  "input_ok es \<longleftrightarrow> key_sorted es \<and> (\<forall>e \<in> set es. rec_ok e \<and> length (e_key e) \<le> 65535) \<and> length (records es) < 2 ^ 32"

lemma input_length: "input_ok es \<Longrightarrow> length es < 2 ^ 28"
proof -
  assume "input_ok es"
  moreover have "25 * length es \<le> length (records es)"
  proof (induction es)
    case (Cons e es)
    have "25 \<le> length (encodeRecord e)" by (simp add: encodeRecord_def Let_def)
    then show ?case using Cons by simp
  qed simp
  ultimately show ?thesis by (simp add: input_ok_def)
qed

lemma input_blocks:
  assumes "input_ok (concat bs)" "blocks_sorted bs" "b \<in> set bs"
  shows "b \<noteq> [] \<and> block_ok b \<and> length (e_key (hd b)) \<le> 65535"
proof -
  obtain us vs where bs: "bs = us @ b # vs" using assms(3) by (meson split_list)
  have b: "b \<noteq> []" using assms(2,3) by (simp add: blocks_sorted_def)
  have "length (records b) \<le> length (records (concat bs))" "length b \<le> length (concat bs)" using bs by auto
  moreover have "hd b \<in> set (concat bs)" using hd_in_set [OF b] assms(3) by auto
  moreover have "\<forall>e \<in> set b. rec_ok e" using assms(1,3) by (auto simp: input_ok_def)
  ultimately show ?thesis using b assms(1) input_length [OF assms(1)] by (auto simp: block_ok_def input_ok_def)
qed

lemma filters_built:
  assumes "length es < 2 ^ 28"
  obtains f pf where "NewFilter hash (map e_key es) 10 = Some f" "addAll hash (NewFilterSized (length es) 10) (map (ExtractPrefix \<circ> e_key) es) = Some pf"
    "filter_wf f" "f_data f \<noteq> []" "\<forall>k \<in> e_key ` set es. MayContain hash (Some f) k = Some True"
    "filter_wf pf" "f_data pf \<noteq> []" "\<forall>k \<in> e_key ` set es. MayContain hash (Some pf) (ExtractPrefix k) = Some True"
    "unat ((f_bits f + 7) div 8) = length (f_data f)" "unat ((f_bits pf + 7) div 8) = length (f_data pf)"
    "length (f_data f) < 2 ^ 29" "length (f_data pf) < 2 ^ 29"
proof -
  define g where "g = NewFilterSized (length es) 10"
  obtain l where l: "length (f_data g) = l" "f_bits g = of_nat (8 * l)" "0 < l" "8 * l + 7 < 2 ^ 32"
    unfolding g_def by (rule sized_shape [OF assms])
  have "unat (of_nat (8 * l + 7) :: u32) = 8 * l + 7" by (rule unat_of_nat_small) (use l(4) in simp)
  then have u: "unat ((of_nat (8 * l) + 7 :: u32) div 8) = l" by (simp add: unat_div)
  have shape: "f_data h \<noteq> [] \<and> unat ((f_bits h + 7) div 8) = length (f_data h) \<and> length (f_data h) < 2 ^ 29" if "addAll hash g ks = Some h" for h ks
    using addAll_shape [OF that] l u by (auto simp: filter_shape_def)
  obtain f where f: "addAll hash g (map e_key es) = Some f" "filter_wf f" "\<forall>k \<in> set (map e_key es). MayContain hash (Some f) k = Some True"
    using addAll_spec [of g hash "map e_key es"] NewFilterSized_wf unfolding g_def by metis
  obtain pf where pf: "addAll hash g (map (ExtractPrefix \<circ> e_key) es) = Some pf" "filter_wf pf"
    "\<forall>k \<in> set (map (ExtractPrefix \<circ> e_key) es). MayContain hash (Some pf) k = Some True"
    using addAll_spec [of g hash "map (ExtractPrefix \<circ> e_key) es"] NewFilterSized_wf unfolding g_def by metis
  have nf: "NewFilter hash (map e_key es) 10 = Some f" using f(1) by (simp add: NewFilter_def g_def)
  show ?thesis
    by (rule that [OF nf pf(1) [unfolded g_def]]) (use f(2,3) pf(2,3) shape [OF f(1)] shape [OF pf(1)] in simp_all)
qed

text \<open>What creation returns, from the finished builder and the filters.\<close>

definition createdTable :: "bytes \<Rightarrow> entry list \<Rightarrow> int \<Rightarrow> registry option \<Rightarrow> builder \<Rightarrow> filter \<Rightarrow> filter \<Rightarrow> u16 \<Rightarrow> sstable" where
  "createdTable filename es level reg b f pf tomb =
     (let ix = indexSection (of_nat (length (b_index b))) (b_index b); n = b_offset b; m = n + length ix; p = m + 5 + length (f_data f);
          q = p + 5 + length (f_data pf); mn = (if es = [] then [] else e_key (hd es)); mx = (if es = [] then [] else e_key (last es));
          enc = (reg \<noteq> None \<and> b_keyID b \<noteq> 0)
      in (emptyTable filename (b_file b @ ix @ filterSection f @ filterSection pf @ put_u32 (of_nat (length mn)) @ mn @
             put_u32 (of_nat (length mx)) @ mx @ footer n m (compressionTypeForLevel level) q reg (b_keyID b) tomb))
          \<lparr>t_indexOff := int n, t_indexLen := int (length ix), t_numBlocks := of_nat (length (b_index b)),
           t_filterOff := int (m + 5), t_filterLen := int (length (f_data f)), t_filterBits := f_bits f, t_filterK := f_k f,
           t_prefixOff := int (p + 5), t_prefixLen := int (length (f_data pf)), t_prefixBits := f_bits pf, t_prefixK := f_k pf,
           t_level := level, t_compress := compressionTypeForLevel level, t_encrypted := enc, t_keyID := b_keyID b, t_minKey := mn,
           t_maxKey := mx, t_tombstone := tomb, t_blockKey := (case reg of Some kr \<Rightarrow> if enc then snd (ActiveKey kr) else [] | None \<Rightarrow> [])\<rparr>)"

definition createdCache :: "'c senv \<Rightarrow> sstable \<Rightarrow> builder \<Rightarrow> filter \<Rightarrow> filter \<Rightarrow> 'c option \<Rightarrow> 'c option" where
  "createdCache env s b f pf c = cachePut env (prefixCacheKey s) (f_data pf) (cachePut env (filterCacheKey s) (f_data f)
     (cachePut env (indexCacheKey s) (indexSection (of_nat (length (b_index b))) (b_index b)) c))"

definition filters_ok :: "(bytes \<Rightarrow> u64) \<Rightarrow> entry list \<Rightarrow> filter \<Rightarrow> filter \<Rightarrow> bool" where
  "filters_ok hash es f pf \<longleftrightarrow> filter_wf f \<and> f_data f \<noteq> [] \<and> (\<forall>k \<in> e_key ` set es. MayContain hash (Some f) k = Some True) \<and>
     filter_wf pf \<and> f_data pf \<noteq> [] \<and> (\<forall>k \<in> e_key ` set es. MayContain hash (Some pf) (ExtractPrefix k) = Some True) \<and>
     unat ((f_bits f + 7) div 8) = length (f_data f) \<and> unat ((f_bits pf + 7) div 8) = length (f_data pf) \<and>
     length (f_data f) < 2 ^ 29 \<and> length (f_data pf) < 2 ^ 29"

lemma create_eq:
  assumes inp: "input_ok es" and reg: "seal_ready reg"
  obtains b bs f pf tomb where
    "createAtLevel env nonce ratio now filename es level reg c =
       (Inr (createdTable filename es level reg b f pf tomb), createdCache env (createdTable filename es level reg b f pf tomb) b f pf c)"
    "bld env nonce level reg (length es) b es bs []" "filters_ok (xxhash env) es f pf"
proof -
  define b where "b = flushCurrentBlock env nonce level reg (foldl (addEntry env nonce now level reg) (newBuilder (length es)) es)"
  obtain bs where bld: "bld env nonce level reg (length es) b es bs []"
    using built_bld [OF _ reg] inp unfolding b_def input_ok_def by blast
  obtain f pf where flt: "NewFilter (xxhash env) (map e_key es) 10 = Some f"
    "addAll (xxhash env) (NewFilterSized (length es) 10) (map (ExtractPrefix \<circ> e_key) es) = Some pf"
    "filter_wf f" "f_data f \<noteq> []" "\<forall>k \<in> e_key ` set es. MayContain (xxhash env) (Some f) k = Some True"
    "filter_wf pf" "f_data pf \<noteq> []" "\<forall>k \<in> e_key ` set es. MayContain (xxhash env) (Some pf) (ExtractPrefix k) = Some True"
    "unat ((f_bits f + 7) div 8) = length (f_data f)" "unat ((f_bits pf + 7) div 8) = length (f_data pf)"
    "length (f_data f) < 2 ^ 29" "length (f_data pf) < 2 ^ 29"
    by (rule filters_built [OF input_length [OF inp]])
  have bf: "b_err b = None" "b_keys b = map e_key es" "b_prefix b = Some pf" using bld flt(2) by (auto simp: bld_def)
  have "length (x_key x) \<le> 65535" if "x \<in> set (b_index b)" for x
  proof -
    have "x_key x \<in> set (map (e_key \<circ> hd) bs)" using bld that by (metis bld_def image_eqI list.set_map)
    moreover have "concat bs = es" "blocks_sorted bs" using bld by (auto simp: bld_def)
    ultimately show ?thesis using input_blocks [of bs] inp by auto
  qed
  then have ix: "encodeIndex (b_index b) [] [] = Some (concat (map put_u32 (ioffs 0 (b_index b))), concat (map ientry (b_index b)))"
    using encodeIndex_ok [of "b_index b" "[]" "[]"] by simp
  have mm: "(case es of [] \<Rightarrow> [] | e # _ \<Rightarrow> e_key e) = (if es = [] then [] else e_key (hd es))"
    "(case es of [] \<Rightarrow> [] | _ # _ \<Rightarrow> e_key (last es)) = (if es = [] then [] else e_key (last es))" by (auto split: list.split)
  have "createAtLevel env nonce ratio now filename es level reg c =
    (let s = createdTable filename es level reg b f pf (if es = [] then 0 else ratio (b_tombs b) (length es)) in (Inr s, createdCache env s b f pf c))"
    unfolding createAtLevel_def b_def [symmetric] createdTable_def createdCache_def indexSection_def Let_def bf ix flt(1) mm by simp
  then show ?thesis using that bld flt(3-) by (simp add: filters_ok_def Let_def)
qed

lemma created_located:
  assumes "bld env nonce level reg (length es) b es bs []" "length (t_data (createdTable filename es level reg b f pf tomb)) < 2 ^ 32"
  shows "located env (blkPayload env nonce level reg) (createdTable filename es level reg b f pf tomb) bs f pf"
    and "b_offset b = length (b_file b)" "b_index b = indexOf (blkPayload env nonce level reg) 0 0 bs" "b_file b = fileOf (blkPayload env nonce level reg) 0 bs"
proof -
  have "length (b_file b) < 2 ^ 32" using assms(2) by (simp add: createdTable_def emptyTable_def Let_def)
  then show o: "b_offset b = length (b_file b)" and i: "b_index b = indexOf (blkPayload env nonce level reg) 0 0 bs"
    and fl: "b_file b = fileOf (blkPayload env nonce level reg) 0 bs" using assms(1) by (auto simp: bld_def)
  show "located env (blkPayload env nonce level reg) (createdTable filename es level reg b f pf tomb) bs f pf"
    by (simp add: located_def createdTable_def emptyTable_def Let_def o i fl)
qed

lemma reg_good_seal: "reg_good reg \<Longrightarrow> seal_ready reg"
  by (auto simp: reg_good_def reg_ok_def seal_ready_def split: option.splits)

lemma created_keyID:
  assumes "bld env nonce level reg (length es) b es bs []" "reg_good reg"
  shows "reg \<noteq> None \<and> b_keyID b \<noteq> 0 \<longleftrightarrow> reg \<noteq> None \<and> bs \<noteq> []" "reg = Some kr \<Longrightarrow> bs \<noteq> [] \<Longrightarrow> b_keyID b = fst (ActiveKey kr)"
  using assms by (auto simp: bld_def reg_good_def)

text \<open>A table whose fields locate a created file, with the right cipher and compressor, serves the blocks.\<close>

lemma created_serves:
  assumes inp: "input_ok es" "env_ok env" "reg_good reg" "\<forall>i. length (nonce i) = 12"
    and bld: "bld env nonce level reg (length es) b es bs []" and flt: "filters_ok (xxhash env) es f pf"
    and loc: "located env (blkPayload env nonce level reg) s bs f pf" "length (t_data s) < 2 ^ 32"
    and fld: "t_compress s = compressionTypeForLevel level" "t_encrypted s \<longleftrightarrow> reg \<noteq> None \<and> b_keyID b \<noteq> 0"
      "\<And>kr. reg = Some kr \<Longrightarrow> t_encrypted s \<Longrightarrow> t_blockKey s = snd (ActiveKey kr)"
  shows "serves env s bs"
proof -
  have bs: "concat bs = es" "blocks_sorted bs" using bld by (auto simp: bld_def)
  have "decodeBlock env s (blkPayload env nonce level reg i (bs ! i) @ put_u32 (crc32 (blkPayload env nonce level reg i (bs ! i)))) = Inr (blockBytes (bs ! i))"
    if "i < length bs" for i
  proof -
    have "bs \<noteq> []" using that by auto
    then show ?thesis using decode_image [OF inp(2) reg_good_seal [OF inp(3)] inp(4) fld(1)] created_keyID(1) [OF bld inp(3)] fld by auto
  qed
  then show ?thesis
    using located_serves [OF loc] input_blocks [of bs] inp(1) bs flt by (simp add: filters_ok_def)
qed

text \<open>What opening makes of a created file, up to the keys it takes from the index.\<close>

definition openedTable :: "'c senv \<Rightarrow> bytes \<Rightarrow> sstable \<Rightarrow> bytes \<Rightarrow> bytes \<Rightarrow> sstable" where
  "openedTable env fn s mn mx = s\<lparr>t_filename := fn, t_level := 0, t_cacheTag := blockCacheTag env (t_blockKey s), t_minKey := mn, t_maxKey := mx\<rparr>"

lemma located_opened:
  "located env pl (openedTable env' fn s mn mx) bs f pf \<longleftrightarrow> located env pl s bs f pf"
  by (simp add: located_def openedTable_def)

lemma footer_key:
  assumes bld: "bld env nonce level reg (length es) b es bs []" and reg: "reg_good reg" and bd: "n < 2 ^ 63" "m < 2 ^ 63" "q < 2 ^ 63"
    and ft: "ft = footer n m ct q reg (b_keyID b) tomb"
  shows "ucast (get_u32 (drop 25 ft)) = b_keyID b"
proof (cases "reg \<noteq> None \<and> b_keyID b \<noteq> 0")
  case True
  then show ?thesis using footer_fields(8) [OF bd ft] bld reg by (auto simp: bld_def reg_good_def split: if_splits)
next
  case False
  then have "b_keyID b = 0" using bld by (auto simp: bld_def split: option.splits)
  moreover have "drop 25 ft = replicate 5 0 @ put_u16 tomb" using False by (auto simp: ft footer_def drop_Cons')
  ultimately show ?thesis by (simp add: get_u32_def be_read_def numeral_eq_Suc)
qed

lemma created_key:
  assumes bld: "bld env nonce level reg (length es) b es bs []" and reg: "reg_good reg" and bd: "n < 2 ^ 63" "m < 2 ^ 63" "q < 2 ^ 63"
    and ft: "ft = footer n m ct q reg (b_keyID b) tomb" and s: "s = createdTable filename es level reg b f pf tomb"
  shows "(if ft ! 29 = 1 then (case reg of None \<Rightarrow> Inl SErrNoRegistry
      | Some kr \<Rightarrow> (case GetKey kr (b_keyID b) of Inl e \<Rightarrow> Inl (SErrCrypto e) | Inr k \<Rightarrow> Inr k)) else Inr []) = Inr (t_blockKey s)"
proof -
  have "t_blockKey s = (case reg of Some kr \<Rightarrow> if b_keyID b \<noteq> 0 then snd (ActiveKey kr) else [] | None \<Rightarrow> [])"
    by (simp add: s createdTable_def Let_def split: option.split)
  then show ?thesis
    using footer_fields(6) [OF bd ft] bld reg by (auto simp: bld_def reg_good_def reg_ok_def split: option.splits if_splits)
qed

lemma count_u32:
  assumes "length bs < 2 ^ 32"
  shows "0 < (of_nat (length bs) :: u32) \<longleftrightarrow> bs \<noteq> []" "bs \<noteq> [] \<Longrightarrow> int (unat (of_nat (length bs) - 1 :: u32)) = int (length bs) - 1"
proof -
  have "unat (of_nat (length bs) :: u32) = length bs" "unat (of_nat (length bs - 1) :: u32) = length bs - 1"
    using assms by (auto intro!: unat_of_nat_small)
  then show "0 < (of_nat (length bs) :: u32) \<longleftrightarrow> bs \<noteq> []" "bs \<noteq> [] \<Longrightarrow> int (unat (of_nat (length bs) - 1 :: u32)) = int (length bs) - 1"
    by (auto simp: word_less_nat_alt of_nat_diff Suc_leI)
qed

lemma open_eq:
  assumes bld: "bld env nonce level reg (length es) b es bs []" and flt: "filters_ok (xxhash env) es f pf" and reg: "reg_good reg"
    and s: "s = createdTable filename es level reg b f pf tomb" and small: "length (t_data s) < 2 ^ 32"
  shows "openTable env reg fn (t_data s) c =
    (let t = openedTable env fn s [] [];
         q = t_prefixOff s + t_prefixLen s
     in if bs = [] then (Inr (openBounds (t_data s) q t), c)
        else (case getKeyAt env t 0 c of (k0, c1) \<Rightarrow> (case getKeyAt env t (int (length bs) - 1) c1 of
          (k1, c2) \<Rightarrow> (Inr (openBounds (t_data s) q (t\<lparr>t_minKey := k0, t_maxKey := k1\<rparr>)), c2))))"
proof -
  have loc: "b_offset b = length (b_file b)" "b_index b = indexOf (blkPayload env nonce level reg) 0 0 bs" "b_file b = fileOf (blkPayload env nonce level reg) 0 bs"
    using created_located(2-) [OF bld small [unfolded s]] .
  define ix where "ix = indexSection (of_nat (length bs)) (b_index b)"
  define mn where "mn = (if es = [] then [] else e_key (hd es))"
  define mx where "mx = (if es = [] then [] else e_key (last es))"
  define n where "n = length (b_file b)"
  define m where "m = n + length ix"
  define q where "q = m + 5 + length (f_data f) + 5 + length (f_data pf)"
  define ft where "ft = footer n m (compressionTypeForLevel level) q reg (b_keyID b) tomb"
  have d: "t_data s = b_file b @ ix @ filterSection f @ filterSection pf @ put_u32 (of_nat (length mn)) @ mn @ put_u32 (of_nat (length mx)) @ mx @ ft"
    by (simp add: s createdTable_def emptyTable_def Let_def loc ix_def mn_def mx_def n_def m_def q_def ft_def ac_simps)
  have bd: "n < 2 ^ 63" "m < 2 ^ 63" "q < 2 ^ 63" using small d by (auto simp: n_def m_def q_def filterSection_def)
  note ff = footer_fields [OF bd ft_def]
  have len: "\<not> length (t_data s) < 32" "drop (length (t_data s) - 32) (t_data s) = ft" using ff(1) by (simp_all add: d)
  have fo: "f_data f \<noteq> []" "unat ((f_bits f + 7) div 8) = length (f_data f)" "f_data pf \<noteq> []" "unat ((f_bits pf + 7) div 8) = length (f_data pf)"
    using flt by (auto simp: filters_ok_def)
  have "t_data s = (b_file b @ ix) @ filterSection f @ filterSection pf @ put_u32 (of_nat (length mn)) @ mn @ put_u32 (of_nat (length mx)) @ mx @ ft"
    "m = length (b_file b @ ix)" by (simp_all add: d m_def n_def)
  note fl = open_filters [OF this q_def fo]
  have nb: "readLen32 (t_data s) (int n) = Some (of_nat (length bs))"
    by (rule readLen32_at [of _ "b_file b"]) (auto simp: d ix_def indexSection_def n_def)
  have lb: "length bs < 2 ^ 32" using small d loc by (simp add: ix_def indexSection_def)
  note key = footer_key [OF bld reg bd ft_def] and bk = created_key [OF bld reg bd ft_def s] and nz = count_u32 [OF lb]
  have t: "(emptyTable fn (t_data s))\<lparr>t_indexOff := int n, t_indexLen := int m - int n, t_numBlocks := of_nat (length bs),
      t_filterOff := int m + 5, t_filterLen := int (length (f_data f)), t_filterBits := f_bits f, t_filterK := f_k f,
      t_prefixOff := int m + 5 + int (length (f_data f)) + 5, t_prefixLen := int (length (f_data pf)), t_prefixBits := f_bits pf, t_prefixK := f_k pf,
      t_compress := compressionTypeForLevel level, t_encrypted := (ft ! 29 = 1), t_keyID := b_keyID b, t_blockKey := t_blockKey s,
      t_cacheTag := blockCacheTag env (t_blockKey s), t_tombstone := tomb\<rparr> = openedTable env fn s [] []"
    using ff(6) by (simp add: s createdTable_def emptyTable_def openedTable_def Let_def loc n_def m_def ix_def)
  have q: "t_prefixOff s + t_prefixLen s = int q" by (simp add: s createdTable_def Let_def loc n_def m_def ix_def q_def)
  show ?thesis
    unfolding openTable_def Let_def len(2) ff(2-5,7) key bk nb fl prod.case option.case sum.case t q nz(1) using len(1) nz(2) by simp
qed

end
