(* ===== verification/SSTable_Props.thy ===== *)
theory SSTable_Props
  imports SSTable_Correct LruCache
begin

text \<open>
  The properties of SSTables, for every table that \<open>createAtLevel\<close> returned or that was opened from its file,
  and the LRU cache as an instance of the cache interface.
\<close>

section \<open>Tables of a list of entries\<close>

definition sst_of :: "'c senv \<Rightarrow> registry option \<Rightarrow> entry list \<Rightarrow> sstable \<Rightarrow> bool" where
  "sst_of env reg es s \<longleftrightarrow>
     (\<exists>nonce ratio now filename level c c1 s0. (\<forall>i. length (nonce i) = 12) \<and>
        createAtLevel env nonce ratio now filename es level reg c = (Inr s0, c1) \<and> length (t_data s0) < 2 ^ 32 \<and>
        (s = s0 \<or> (\<exists>fn c2 c3. openTable env reg fn (t_data s0) c2 = (Inr s, c3))))"

text \<open>Bounds and references do not matter to what a table serves.\<close>

definition core :: "sstable \<Rightarrow> sstable" where
  "core s = s\<lparr>t_minKey := [], t_maxKey := [], t_refs := 0\<rparr>"

lemma core_openBounds: "core (openBounds d q s) = core s"
  by (simp add: openBounds_def core_def Let_def split: option.split)

lemma core_simps [simp]: "core (tIncrRef s) = core s" "core (s\<lparr>t_minKey := a, t_maxKey := b\<rparr>) = core s"
  by (simp_all add: core_def tIncrRef_def)

lemma core_fields:
  assumes "core s = core t"
  shows "t_data s = t_data t" "t_open s = t_open t" "t_filename s = t_filename t" "t_cacheTag s = t_cacheTag t"
    "t_indexOff s = t_indexOff t" "t_indexLen s = t_indexLen t" "t_numBlocks s = t_numBlocks t" "t_filterOff s = t_filterOff t"
    "t_filterLen s = t_filterLen t" "t_filterBits s = t_filterBits t" "t_filterK s = t_filterK t" "t_prefixOff s = t_prefixOff t"
    "t_prefixLen s = t_prefixLen t" "t_prefixBits s = t_prefixBits t" "t_prefixK s = t_prefixK t" "t_compress s = t_compress t"
    "t_encrypted s = t_encrypted t" "t_blockKey s = t_blockKey t" "t_closed s = t_closed t" "t_removePending s = t_removePending t"
  using assms by (cases s; cases t; simp add: core_def)+

lemma core_same:
  assumes "core s = core t"
  shows "serves env s bs \<longleftrightarrow> serves env t bs" "right_for env s = right_for env t" "name_ok s \<longleftrightarrow> name_ok t"
    "covers env s bs right \<longleftrightarrow> covers env t bs right"
proof -
  note c = core_fields [OF assms]
  have b: "indexBytes s = indexBytes t" "filterBytes s = filterBytes t" "prefixBytes s = prefixBytes t"
    "entryAt s = entryAt t" "decodeBlock env s = decodeBlock env t"
    unfolding indexBytes_def filterBytes_def prefixBytes_def entryAt_def decodeBlock_def c fun_eq_iff by simp_all
  show "serves env s bs \<longleftrightarrow> serves env t bs" by (simp add: serves_def block_served_def b c)
  show "right_for env s = right_for env t"
    by (intro ext) (simp add: right_for_def b c indexCacheKey_def filterCacheKey_def prefixCacheKey_def blockCacheKey_def)
  show "name_ok s \<longleftrightarrow> name_ok t" by (simp add: name_ok_def c)
  show "covers env s bs right \<longleftrightarrow> covers env t bs right"
    by (simp add: covers_def b c indexCacheKey_def filterCacheKey_def prefixCacheKey_def blockCacheKey_def)
qed

lemma created_both:
  assumes inp: "input_ok es" "env_ok env" "reg_good reg" "\<forall>i. length (nonce i) = 12"
    and b: "s = createdTable filename es level reg b f pf tomb" "bld env nonce level reg (length es) b es bs []" "filters_ok (xxhash env) es f pf"
    and small: "length (t_data s) < 2 ^ 32"
  shows "serves env s bs" "serves env (openedTable env fn s [] []) bs"
proof -
  have loc: "located env (blkPayload env nonce level reg) s bs f pf" using created_located(1) [OF b(2)] small b(1) by blast
  have fld: "t_compress s = compressionTypeForLevel level" "t_encrypted s \<longleftrightarrow> reg \<noteq> None \<and> b_keyID b \<noteq> 0"
    "\<And>kr. reg = Some kr \<Longrightarrow> t_encrypted s \<Longrightarrow> t_blockKey s = snd (ActiveKey kr)"
    by (auto simp: b(1) createdTable_def Let_def)
  note srv = created_serves [OF inp b(2,3)]
  show "serves env s bs" by (rule srv [OF loc small fld])
  show "serves env (openedTable env fn s [] []) bs"
    by (rule srv) (use loc small fld in \<open>simp_all add: located_opened openedTable_def located_def\<close>)
qed

lemma sst_of_serves:
  assumes "sst_of env reg es s" "input_ok es" "env_ok env" "reg_good reg"
  obtains bs where "serves env s bs" "concat bs = es" "blocks_sorted bs" "tDecrRef (tIncrRef s) = s"
proof -
  obtain nonce ratio now filename level c c1 s0 where cr: "\<forall>i. length (nonce i) = 12"
    "createAtLevel env nonce ratio now filename es level reg c = (Inr s0, c1)" "length (t_data s0) < 2 ^ 32"
    "s = s0 \<or> (\<exists>fn c2 c3. openTable env reg fn (t_data s0) c2 = (Inr s, c3))"
    using assms(1) unfolding sst_of_def by blast
  obtain b bs f pf tomb where b: "s0 = createdTable filename es level reg b f pf tomb" "bld env nonce level reg (length es) b es bs []"
    "filters_ok (xxhash env) es f pf"
    using create_eq [OF assms(2) reg_good_seal [OF assms(4)], of env nonce ratio now filename level c] cr(2) by (metis Pair_inject sum.inject(2))
  note srv = created_both [OF assms(2-4) cr(1) b cr(3)]
  have bs: "concat bs = es" "blocks_sorted bs" using b(2) by (auto simp: bld_def)
  have refs: "tDecrRef (tIncrRef t) = t" if "t_closed t = t_closed s0" "t_removePending t = t_removePending s0" for t
    using that by (simp add: b(1) createdTable_def emptyTable_def Let_def tDecrRef_def tIncrRef_def)
  from cr(4) show ?thesis
  proof
    assume "s = s0"
    then show ?thesis using that srv(1) bs refs by blast
  next
    assume "\<exists>fn c2 c3. openTable env reg fn (t_data s0) c2 = (Inr s, c3)"
    then obtain fn c2 c3 where o: "openTable env reg fn (t_data s0) c2 = (Inr s, c3)" by blast
    let ?t = "openedTable env fn s0 [] []"
    have c: "core s = core ?t"
      using o open_eq [OF b(2,3) assms(4) b(1) cr(3), of fn c2] by (auto simp: Let_def core_openBounds split: if_splits prod.splits)
    have "serves env s bs \<longleftrightarrow> serves env ?t bs" by (rule core_same(1) [OF c])
    moreover have "t_closed ?t = t_closed s0" "t_removePending ?t = t_removePending s0" by (simp_all add: openedTable_def)
    then have "tDecrRef (tIncrRef s) = s" using refs core_fields(19,20) [OF c] by simp
    ultimately show ?thesis using that bs srv(2) by blast
  qed
qed

text \<open>The documented bounds on what compressors and AES-GCM add keep a table within 32 bits.\<close>

definition codecs_bounded :: "'c senv \<Rightarrow> bool" where
  "codecs_bounded env \<longleftrightarrow> (\<forall>x. length (s2Encode env x) \<le> 2 * length x + 64) \<and> (\<forall>x. length (zstdEncode env x) \<le> 2 * length x + 64)"

lemma length_payload:
  assumes "codecs_bounded env" "env_ok env" "reg_good reg" "\<forall>i. length (nonce i) = 12"
  shows "length (blkPayload env nonce level reg i b) \<le> 2 * length (blockBytes b) + 92"
proof -
  have z: "length (fst (compressBlock env (blockBytes b) level)) \<le> 2 * length (blockBytes b) + 64"
    using assms(1) by (simp add: compressBlock_def codecs_bounded_def)
  show ?thesis
  proof (cases reg)
    case None
    then show ?thesis using z by (simp add: blkPayload_def Let_def)
  next
    case (Some kr)
    have "length (gcmSeal env (snd (ActiveKey kr)) (nonce i) x) = length x + 16" for x
      using assms(2-4) reg_good_seal [OF assms(3)] Some by (simp add: env_ok_def gcm_def seal_ready_def)
    then show ?thesis using z Some assms(4) by (simp add: blkPayload_def Let_def)
  qed
qed

lemma length_fileOf:
  assumes "\<And>i b. length (pl i b) \<le> 2 * length (blockBytes b) + 92" "\<forall>b \<in> set bs. b \<noteq> []"
  shows "length (fileOf pl i bs) \<le> 2 * length (records (concat bs)) + 120 * length (concat bs)"
  using assms(2)
proof (induction bs arbitrary: i)
  case (Cons b bs)
  have "(length b + 15) div 16 \<le> length b" "1 \<le> length b" using Cons.prems by (cases b; simp)+
  then have "length (pl i b) + 4 \<le> 2 * length (records b) + 120 * length b"
    using assms(1) [of i b] by (simp add: blockBytes_def)
  then show ?case using Cons.IH [of "Suc i"] Cons.prems by simp
qed simp

lemma length_ioffs_bytes [simp]: "length (concat (map put_u32 (ioffs n xs))) = 4 * length xs"
  by (induction xs arbitrary: n) auto

lemma length_encodeRecord: "25 + length (e_key e) \<le> length (encodeRecord e)"
  by (simp add: encodeRecord_def Let_def)

lemma length_indexEntries:
  assumes "\<forall>b \<in> set bs. b \<noteq> []"
  shows "length (concat (map ientry (indexOf pl off i bs))) + 11 * length bs \<le> length (records (concat bs))"
  using assms
proof (induction bs arbitrary: off i)
  case (Cons b bs)
  obtain e es where "b = e # es" using Cons.prems by (cases b) auto
  then show ?case using Cons.IH [of "off + length (pl i b) + 4" "Suc i"] Cons.prems length_encodeRecord [of e]
    by (simp add: ientry_def)
qed simp

lemma length_records: "25 * length es \<le> length (records es)"
proof (induction es)
  case (Cons e es)
  then show ?case using length_encodeRecord [of e] by simp
qed simp

lemma length_blocks: "\<forall>b \<in> set bs. b \<noteq> [] \<Longrightarrow> length bs \<le> length (concat bs)"
proof (induction bs)
  case (Cons b bs)
  then show ?case by (cases b) auto
qed simp

lemma created_small:
  assumes bld: "bld env nonce level reg (length es) b es bs []" and flt: "filters_ok (xxhash env) es f pf"
    and env: "env_ok env" "codecs_bounded env" and reg: "reg_good reg" "\<forall>i. length (nonce i) = 12"
    and inp: "input_ok es" "length (records es) < 2 ^ 27"
  shows "length (t_data (createdTable filename es level reg b f pf tomb)) < 2 ^ 32"
proof -
  let ?pl = "blkPayload env nonce level reg"
  have bs: "concat bs = es" "\<forall>b \<in> set bs. b \<noteq> []" "b_file b = fileOf ?pl 0 bs" using bld by (auto simp: bld_def blocks_sorted_def)
  have fl: "length (b_file b) \<le> 2 * length (records es) + 120 * length es"
    using length_fileOf [of ?pl bs 0] length_payload [OF env(2,1) reg] bs by simp
  have n: "25 * length es \<le> length (records es)" "length bs \<le> length es" using length_records length_blocks [OF bs(2)] bs(1) by simp_all
  then have "length (b_file b) < 2 ^ 32" using fl inp(2) by simp
  then have ix: "b_index b = indexOf ?pl 0 0 bs" using bld by (auto simp: bld_def)
  have li: "length (indexSection (of_nat (length (b_index b))) (b_index b)) \<le> 4 + 4 * length bs + length (records es)"
    using length_indexEntries [OF bs(2), of ?pl 0 0] bs(1) by (simp add: indexSection_def ix)
  have k: "length (if es = [] then [] else e_key (hd es)) \<le> 65535" "length (if es = [] then [] else e_key (last es)) \<le> 65535"
    using inp(1) by (auto simp: input_ok_def)
  define mn where "mn = (if es = [] then [] else e_key (hd es))"
  define mx where "mx = (if es = [] then [] else e_key (last es))"
  have "length (t_data (createdTable filename es level reg b f pf tomb)) = length (b_file b) +
    length (indexSection (of_nat (length (b_index b))) (b_index b)) + length (f_data f) + length (f_data pf) + length mn + length mx + 50"
    by (simp add: createdTable_def emptyTable_def Let_def filterSection_def footer_def mn_def [symmetric] mx_def [symmetric])
  moreover have "length (f_data f) < 2 ^ 29" "length (f_data pf) < 2 ^ 29" using flt by (simp_all add: filters_ok_def)
  moreover have "(2 :: nat) ^ 27 = 134217728" "(2 :: nat) ^ 29 = 536870912" "(2 :: nat) ^ 32 = 4294967296" by simp_all
  ultimately show ?thesis using fl li k [folded mn_def mx_def] n inp(2) by linarith
qed

definition fresh :: "sstable \<Rightarrow> bool" where
  "fresh s \<longleftrightarrow> t_refs s = 0 \<and> t_open s \<and> \<not> t_closed s \<and> \<not> t_removePending s \<and> \<not> t_removed s"

lemma create_fresh: "createAtLevel env nonce ratio now filename es level reg c = (Inr s, c1) \<Longrightarrow> fresh s"
  by (auto simp: createAtLevel_def Let_def fresh_def emptyTable_def split: option.splits)

lemma openBounds_fresh [simp]: "fresh (openBounds d q s) \<longleftrightarrow> fresh s"
  by (simp add: openBounds_def Let_def fresh_def split: option.split)

lemma open_fresh: "openTable env reg fn d c = (Inr s, c1) \<Longrightarrow> fresh s"
  by (auto simp: openTable_def Let_def split: option.splits prod.splits sum.splits if_splits) (auto simp: fresh_def emptyTable_def)

lemma sst_of_fresh: "sst_of env reg es s \<Longrightarrow> fresh s"
  unfolding sst_of_def using create_fresh open_fresh by metis

section \<open>Reads\<close>

text \<open>A table of the entries \<open>es\<close>, and a cache that holds nothing wrong of it.\<close>

definition sst_ready :: "'c senv \<Rightarrow> ('c \<Rightarrow> bool) \<Rightarrow> ('c \<Rightarrow> bytes \<Rightarrow> bytes option) \<Rightarrow> registry option \<Rightarrow> entry list \<Rightarrow> sstable \<Rightarrow> 'c option \<Rightarrow> bool" where
  "sst_ready env cinv view reg es s c \<longleftrightarrow> block_cache env cinv view \<and> env_ok env \<and> reg_good reg \<and> input_ok es \<and>
     sst_of env reg es s \<and> name_ok s \<and> agrees cinv view (right_for env s) c"

text \<open>The same for a cache that other tables share: \<open>right\<close> says what it may hold.\<close>

definition sst_serving :: "'c senv \<Rightarrow> ('c \<Rightarrow> bool) \<Rightarrow> ('c \<Rightarrow> bytes \<Rightarrow> bytes option) \<Rightarrow> (bytes \<Rightarrow> bytes \<Rightarrow> bool) \<Rightarrow> registry option \<Rightarrow>
    entry list \<Rightarrow> sstable \<Rightarrow> bool" where
  "sst_serving env cinv view right reg es s \<longleftrightarrow> block_cache env cinv view \<and> env_ok env \<and> reg_good reg \<and> input_ok es \<and>
     sst_of env reg es s \<and> (\<forall>bs. serves env s bs \<longrightarrow> covers env s bs right)"

lemma ready_serving:
  "sst_ready env cinv view reg es s c \<longleftrightarrow>
     name_ok s \<and> sst_serving env cinv view (right_for env s) reg es s \<and> agrees cinv view (right_for env s) c"
  using right_for_covers [of env s] by (auto simp: sst_ready_def sst_serving_def)

lemma serving_blocks:
  assumes "sst_serving env cinv view right reg es s"
  obtains bs where "block_cache env cinv view" "serves env s bs" "serves env (tIncrRef s) bs" "concat bs = es" "blocks_sorted bs"
    "tDecrRef (tIncrRef s) = s" "covers env s bs right" "covers env (tIncrRef s) bs right"
    "\<forall>b \<in> set bs. b \<noteq> [] \<and> block_ok b \<and> key_sorted b"
proof -
  note r = assms [unfolded sst_serving_def]
  obtain bs where bs: "serves env s bs" "concat bs = es" "blocks_sorted bs" "tDecrRef (tIncrRef s) = s"
    using sst_of_serves r by metis
  have "block_ok b" if "b \<in> set bs" for b using that bs(1) by (auto simp: serves_def block_served_def in_set_conv_nth)
  then show ?thesis
    using that bs r core_same(1) [of "tIncrRef s" s env] core_same(4) [of "tIncrRef s" s env] by (simp add: blocks_sorted_def)
qed

definition one_restart :: "bytes \<Rightarrow> entry list \<Rightarrow> bool" where
  "one_restart k es \<longleftrightarrow> length (filter (\<lambda>e. e_key e = k) es) \<le> 1 \<or> length es \<le> 16"

lemma one_restart_block:
  assumes "one_restart k (concat bs)" "b \<in> set bs" shows "no_straddle k b"
proof -
  obtain us vs where "bs = us @ b # vs" using assms(2) by (meson split_list)
  then have "length (filter (\<lambda>e. e_key e = k) b) \<le> 1 \<or> length b \<le> 16" using assms(1) by (auto simp: one_restart_def)
  then show ?thesis using no_straddle_single by (auto simp: no_straddle_def)
qed

lemma lookup_serving:
  assumes srv: "sst_serving env cinv view right reg es s" and c: "agrees cinv view right c"
    and scan: "\<And>b. b \<noteq> [] \<Longrightarrow> block_ok b \<Longrightarrow> key_sorted b \<Longrightarrow> no_straddle k b \<Longrightarrow>
      scan (blockBytes b) = scanResult now (best_of (filter accept (map wire b)))"
    and acc: "\<And>e. accept e \<Longrightarrow> e_key e = k" and one: "one_restart k es"
  shows "\<exists>c1. (case lookupTable env scan (tIncrRef s) k c of (r, c1) \<Rightarrow> (r, tDecrRef (tIncrRef s), c1)) =
      (Inr (scanResult now (best_of (filter accept (map wire es)))), s, c1) \<and> agrees cinv view right c1"
proof -
  obtain bs where bc: "block_cache env cinv view" and "serves env s bs" and bs: "serves env (tIncrRef s) bs" "concat bs = es" "blocks_sorted bs"
    "tDecrRef (tIncrRef s) = s" and "covers env s bs right" and cv: "covers env (tIncrRef s) bs right"
    and bl: "\<forall>b \<in> set bs. b \<noteq> [] \<and> block_ok b \<and> key_sorted b"
    by (rule serving_blocks [OF srv])
  have "\<exists>c1. lookupTable env scan (tIncrRef s) k c = (Inr (scanResult now (best_of (filter accept (map wire (concat bs))))), c1) \<and>
     agrees cinv view right c1"
    by (rule block_cache.lookupTable_ok [OF bc bs(1) cv bs(3) c _ acc]) (use scan bs(2) bl one_restart_block [of k bs] one in blast)
  then show ?thesis using bs(2,4) by auto
qed

lemma get_serving:
  assumes "sst_serving env cinv view right reg es s" "agrees cinv view right c" "one_restart k es"
  shows "\<exists>c1. tGet env now s k c = (Inr (scanResult now (latest_entry (map wire es) k)), s, c1) \<and> agrees cinv view right c1"
    "\<exists>c1. tGetByVersion env now s k ts c = (Inr (scanResult now (snapshot_entry (map wire es) k ts)), s, c1) \<and> agrees cinv view right c1"
  unfolding tGet_def tGetByVersion_def latest_entry_def snapshot_entry_def
  by (intro lookup_serving [OF assms(1,2) _ _ assms(3)]; simp add: block_lookup [unfolded snapshot_entry_def])+

lemma readAll_serving:
  assumes "sst_serving env cinv view right reg es s" "agrees cinv view right c"
  shows "\<exists>c1. ReadAll env s c = (Inr (map wire es), c1) \<and> agrees cinv view right c1"
proof -
  obtain bs where bs: "block_cache env cinv view" "serves env s bs" "concat bs = es" "covers env s bs right"
    by (rule serving_blocks [OF assms(1)])
  have n: "unat (t_numBlocks s) = length bs" using bs(2) by (simp add: serves_def)
  from block_cache.readAllLoop_ok [OF bs(1,2,4) assms(2), of 0 "[]"] show ?thesis using bs(3) by (auto simp: ReadAll_def n)
qed


text \<open>C35: \<open>ReadAll\<close>, which compaction reads its inputs with, returns exactly the entries the table was built from, in
  order, deletion markers without their values.\<close>

theorem sst_read_all:
  assumes "sst_ready env cinv view reg es s c"
  shows "\<exists>c1. ReadAll env s c = (Inr (map wire es), c1) \<and> sst_ready env cinv view reg es s c1"
  using assms readAll_serving unfolding ready_serving by meson

section \<open>Iteration\<close>

text \<open>The entries that up to \<open>n\<close> calls of \<open>Next\<close> yield.\<close>

fun drainIter :: "'c senv \<Rightarrow> sstable \<Rightarrow> nat \<Rightarrow> sst_iter \<Rightarrow> 'c option \<Rightarrow> entry list \<times> 'c option" where
  "drainIter env s 0 it c = ([], c)"
| "drainIter env s (Suc n) it c =
     (case tNext env s it c of
        (False, it1, c1) \<Rightarrow> ([], c1)
      | (True, it1, c1) \<Rightarrow> (case drainIter env s n it1 c1 of (es, c2) \<Rightarrow> (cur_entry it1 # es, c2)))"

lemma drainIter_ok:
  assumes "block_cache env cinv view" "serves env s bs" "covers env s bs right"
  shows "agrees cinv view right c \<Longrightarrow> iter_rem bs it rs \<Longrightarrow>
    \<exists>c1. drainIter env s n it c = (map wire (take n rs), c1) \<and> agrees cinv view right c1"
proof (induction n arbitrary: it rs c)
  case (Suc n)
  note nx = block_cache.tNext_ok [OF assms Suc.prems]
  show ?case
  proof (cases rs)
    case Nil
    then show ?thesis using nx by auto
  next
    case (Cons e rs')
    then obtain it1 c1 where "tNext env s it c = (True, it1, c1)" "cur_entry it1 = wire e" "iter_rem bs it1 rs'"
      "agrees cinv view right c1" using nx by auto
    then show ?thesis using Suc.IH [of c1 it1 rs'] Cons by auto
  qed
qed simp

lemma iterate_serving:
  assumes "sst_serving env cinv view right reg es s" "agrees cinv view right c"
  shows "\<exists>c1. drainIter env (snd (NewIterator s)) n (fst (NewIterator s)) c = (map wire (take n es), c1) \<and> agrees cinv view right c1"
proof -
  obtain bs where bc: "block_cache env cinv view" and "serves env s bs" and bs: "serves env (tIncrRef s) bs" "concat bs = es"
    and "blocks_sorted bs" "tDecrRef (tIncrRef s) = s" "covers env s bs right" and cv: "covers env (tIncrRef s) bs right"
    by (rule serving_blocks [OF assms(1)])
  have "iter_rem bs (fst (NewIterator s)) es" by (simp add: iter_rem_def NewIterator_def bs(2))
  from drainIter_ok [OF bc bs(1) cv assms(2) this, of n] show ?thesis by (auto simp: NewIterator_def)
qed

lemma seek_serving:
  assumes "sst_serving env cinv view right reg es s" "agrees cinv view right c"
  shows "\<exists>it1 c1. tSeek env s key it c = (it1, c1) \<and> agrees cinv view right c1 \<and>
    i_valid it1 = (dropWhile (\<lambda>e. e_key e < key) es \<noteq> []) \<and>
    (i_valid it1 \<longrightarrow> cur_entry it1 # fst (drainIter env s n it1 c1) = map wire (take (Suc n) (dropWhile (\<lambda>e. e_key e < key) es)))"
proof -
  obtain bs where bs: "block_cache env cinv view" "serves env s bs" "concat bs = es" "blocks_sorted bs" "covers env s bs right"
    by (rule serving_blocks [OF assms(1)])
  note sk = block_cache.tSeek_ok [OF bs(1,2,5,4) assms(2), of key it, unfolded bs(3)]
  show ?thesis
  proof (cases "dropWhile (\<lambda>e. e_key e < key) es")
    case Nil
    then show ?thesis using sk [unfolded Nil] unfolding Nil by auto
  next
    case (Cons e rs)
    then obtain it1 c1 where it: "tSeek env s key it c = (it1, c1)" "i_valid it1" "cur_entry it1 = wire e" "iter_rem bs it1 rs"
      "agrees cinv view right c1" using sk [unfolded Cons] by auto
    then show ?thesis using drainIter_ok [OF bs(1,2,5) it(5,4), of n] unfolding Cons by auto
  qed
qed

text \<open>C36: a new iterator yields the entries of the table one by one, in order, and then ends: any number of calls of
  \<open>Next\<close> beyond the number of entries gives all of them, fewer give the first ones.\<close>

theorem sst_iterate:
  assumes "sst_ready env cinv view reg es s c"
  shows "\<exists>c1. drainIter env (snd (NewIterator s)) n (fst (NewIterator s)) c = (map wire (take n es), c1) \<and> sst_ready env cinv view reg es s c1"
  using assms iterate_serving unfolding ready_serving by meson

text \<open>C37: \<open>Seek\<close> positions any iterator of the table at the first entry whose key is not less than the one asked for, from
  which \<open>Next\<close> goes on in order, and leaves it invalid when there is none.\<close>

theorem sst_seek:
  assumes "sst_ready env cinv view reg es s c"
  shows "\<exists>it1 c1. tSeek env s key it c = (it1, c1) \<and> sst_ready env cinv view reg es s c1 \<and>
    i_valid it1 = (dropWhile (\<lambda>e. e_key e < key) es \<noteq> []) \<and>
    (i_valid it1 \<longrightarrow> cur_entry it1 # fst (drainIter env s n it1 c1) = map wire (take (Suc n) (dropWhile (\<lambda>e. e_key e < key) es)))"
  using assms seek_serving [of env cinv view "right_for env s" reg es s c key it n] unfolding ready_serving by meson

section \<open>Creating and opening\<close>

lemma created_cache:
  assumes bc: "block_cache env cinv view" and s: "s = createdTable filename es level reg b f pf tomb" "covers env s bs right"
    and bld: "bld env nonce level reg (length es) b es bs []" "length (t_data s) < 2 ^ 32" and c: "agrees cinv view right c"
  shows "agrees cinv view right (createdCache env s b f pf c)"
proof -
  note loc = created_located [OF bld(1) bld(2) [unfolded s(1)], folded s(1)]
  have "indexBytes s = indexSection (of_nat (length (b_index b))) (b_index b)" "filterBytes s = f_data f" "prefixBytes s = f_data pf"
    using located_sections [OF loc(1)] by (simp_all add: indexBytes_def filterBytes_def prefixBytes_def loc(3))
  then show ?thesis
    unfolding createdCache_def by (intro block_cache.cachePut_agrees [OF bc] c) (simp_all add: covers_keys [OF s(2)])
qed

lemma create_serving:
  assumes "block_cache env cinv view" and "env_ok env" "codecs_bounded env" and "reg_good reg" "\<forall>i. length (nonce i) = 12"
    and "input_ok es" "length (records es) < 2 ^ 27"
  shows "\<exists>s c1. createAtLevel env nonce ratio now filename es level reg c = (Inr s, c1) \<and> t_filename s = filename \<and>
    t_minKey s = (if es = [] then [] else e_key (hd es)) \<and> t_maxKey s = (if es = [] then [] else e_key (last es)) \<and>
    length (t_data s) < 2 ^ 32 \<and> sst_of env reg es s \<and>
    (\<forall>right. (\<forall>bs. serves env s bs \<longrightarrow> covers env s bs right) \<and> agrees cinv view right c \<longrightarrow> agrees cinv view right c1)"
proof -
  obtain b bs f pf tomb where cr: "createAtLevel env nonce ratio now filename es level reg c =
       (Inr (createdTable filename es level reg b f pf tomb), createdCache env (createdTable filename es level reg b f pf tomb) b f pf c)"
    "bld env nonce level reg (length es) b es bs []" "filters_ok (xxhash env) es f pf"
    by (rule create_eq [OF assms(6) reg_good_seal [OF assms(4)]])
  define s where "s = createdTable filename es level reg b f pf tomb"
  have small: "length (t_data s) < 2 ^ 32" unfolding s_def by (rule created_small [OF cr(2,3) assms(2-7)])
  have "sst_of env reg es s" unfolding sst_of_def using assms(5) cr(1) small s_def by blast
  moreover have srv: "serves env s bs" by (rule created_both [OF assms(6,2,4,5) s_def cr(2,3) small])
  have "agrees cinv view right (createdCache env s b f pf c)"
    if "\<forall>bs. serves env s bs \<longrightarrow> covers env s bs right" "agrees cinv view right c" for right
    using created_cache [OF assms(1) s_def _ cr(2) small that(2)] that(1) srv by blast
  moreover have "t_minKey s = (if es = [] then [] else e_key (hd es))" "t_maxKey s = (if es = [] then [] else e_key (last es))"
    "t_filename s = filename" by (simp_all add: s_def createdTable_def emptyTable_def Let_def)
  ultimately show ?thesis using cr(1) small unfolding s_def [symmetric] by blast
qed

lemma create_ready:
  assumes "block_cache env cinv view" and "env_ok env" "codecs_bounded env" and "reg_good reg" "\<forall>i. length (nonce i) = 12"
    and "input_ok es" "length (records es) < 2 ^ 27" and "filename \<noteq> []" "last filename = of_char (CHR ''t'')"
  shows "\<exists>s c1. createAtLevel env nonce ratio now filename es level reg c = (Inr s, c1) \<and>
    t_minKey s = (if es = [] then [] else e_key (hd es)) \<and> t_maxKey s = (if es = [] then [] else e_key (last es)) \<and>
    length (t_data s) < 2 ^ 32 \<and> sst_of env reg es s \<and> (agrees cinv view (right_for env s) c \<longrightarrow> sst_ready env cinv view reg es s c1)"
proof -
  obtain s c1 where s: "createAtLevel env nonce ratio now filename es level reg c = (Inr s, c1)" "t_filename s = filename"
    "t_minKey s = (if es = [] then [] else e_key (hd es))" "t_maxKey s = (if es = [] then [] else e_key (last es))"
    "length (t_data s) < 2 ^ 32" "sst_of env reg es s"
    "\<And>right. (\<forall>bs. serves env s bs \<longrightarrow> covers env s bs right) \<Longrightarrow> agrees cinv view right c \<Longrightarrow> agrees cinv view right c1"
    using create_serving [OF assms(1-7), of ratio now filename level c] by blast
  have nm: "name_ok s" using assms(8,9) s(2) by (simp add: name_ok_def)
  have "sst_ready env cinv view reg es s c1" if "agrees cinv view (right_for env s) c"
  proof -
    have "\<forall>bs. serves env s bs \<longrightarrow> covers env s bs (right_for env s)" using right_for_covers nm by blast
    then show ?thesis using s(7) [of "right_for env s"] nm that assms s(6) by (simp add: sst_ready_def)
  qed
  then show ?thesis using s by blast
qed


lemma created_bounds:
  assumes s: "s = createdTable filename es level reg b f pf tomb" and bld: "bld env nonce level reg (length es) b es bs []"
    and small: "length (t_data s) < 2 ^ 32" and inp: "input_ok es"
    and mm: "mn = (if es = [] then [] else e_key (hd es))" "mx = (if es = [] then [] else e_key (last es))"
    and u: "mn = [] \<Longrightarrow> t_minKey u = []" "mx = [] \<Longrightarrow> t_maxKey u = []"
  shows "openBounds (t_data s) (t_prefixOff s + t_prefixLen s) u = u\<lparr>t_minKey := mn, t_maxKey := mx\<rparr>"
proof -
  define ix where "ix = indexSection (of_nat (length (b_index b))) (b_index b)"
  define xs where "xs = b_file b @ ix @ filterSection f @ filterSection pf"
  have o: "b_offset b = length (b_file b)" by (rule created_located(2) [OF bld small [unfolded s]])
  have d: "\<exists>ft. t_data s = xs @ put_u32 (of_nat (length mn)) @ mn @ put_u32 (of_nat (length mx)) @ mx @ ft \<and> length ft = 32"
    unfolding s createdTable_def mm [symmetric] xs_def ix_def by (auto simp: emptyTable_def Let_def footer_def)
  have q: "t_prefixOff s + t_prefixLen s = int (length xs)" "0 < length xs"
    by (auto simp: s createdTable_def Let_def o xs_def ix_def filterSection_def)
  have "length mn < 2 ^ 32" "length mx < 2 ^ 32" using inp mm by (auto simp: input_ok_def rec_ok_def)
  then show ?thesis using d q u openBounds_keys [of "t_data s" xs mn mx _ "length xs" u] by auto
qed

lemma getKeyAt_ok:
  assumes "block_cache env cinv view" "serves env s bs" "covers env s bs right" "agrees cinv view right c" "i < length bs"
  shows "\<exists>c1. getKeyAt env s (int i) c = (e_key (hd (bs ! i)), c1) \<and> agrees cinv view right c1"
proof -
  obtain k off sz where e: "entryAt s i = (k, off, sz)" by (cases "entryAt s i") auto
  then have "k = e_key (hd (bs ! i))" using serves_block [OF assms(2,5) e] by blast
  then show ?thesis using block_cache.getEntryAt_ok [OF assms] e by (auto simp: getKeyAt_def)
qed

lemma end_keys:
  assumes "blocks_sorted bs" "bs \<noteq> []" "concat bs = es"
  shows "es \<noteq> [] \<and> e_key (hd es) = e_key (hd (bs ! 0)) \<and> e_key (hd (bs ! (length bs - 1))) \<le> e_key (last es)"
proof -
  obtain b cs where b: "bs = b # cs" "b \<noteq> []" using assms(1,2) by (cases bs) (auto simp: blocks_sorted_def)
  obtain ds l where l: "bs = ds @ [l]" using assms(2) by (meson rev_exhaust)
  then have "l \<noteq> []" "key_sorted l" using assms(1) by (auto simp: blocks_sorted_def)
  then have "e_key (hd l) \<le> e_key (last l)" by (cases l) auto
  moreover have "last es = last l" using assms(3) l \<open>l \<noteq> []\<close> by auto
  moreover have "bs ! (length bs - 1) = l" by (simp add: l)
  ultimately show ?thesis using b assms(3) by auto
qed

text \<open>C39: a table opened from the file of a created one, after a restart or by a restore, has the same first and last key
  and is a table of the same entries: every property of reads holds of it.\<close>

theorem sst_reopen:
  assumes "block_cache env cinv view" and "env_ok env" and "reg_good reg" "\<forall>i. length (nonce i) = 12" and "input_ok es"
    and "createAtLevel env nonce ratio now filename es level reg c0 = (Inr s, c1)" "length (t_data s) < 2 ^ 32"
    and "fn \<noteq> []" "last fn = of_char (CHR ''t'')"
  shows "\<exists>t c2. openTable env reg fn (t_data s) c = (Inr t, c2) \<and> sst_of env reg es t \<and>
    (agrees cinv view (right_for env t) c \<longrightarrow> t_minKey t = t_minKey s \<and> t_maxKey t = t_maxKey s \<and> sst_ready env cinv view reg es t c2)"
proof -
  obtain b bs f pf tomb where cr: "s = createdTable filename es level reg b f pf tomb"
    "bld env nonce level reg (length es) b es bs []" "filters_ok (xxhash env) es f pf"
    using create_eq [OF assms(5) reg_good_seal [OF assms(3)], of env nonce ratio now filename level c0] assms(6)
    by (metis Pair_inject sum.inject(2))
  let ?t = "openedTable env fn s [] []"
  let ?mn = "if es = [] then [] else e_key (hd es)" and ?mx = "if es = [] then [] else e_key (last es)"
  have st: "t_minKey s = ?mn" "t_maxKey s = ?mx" by (simp_all add: cr(1) createdTable_def Let_def)
  have nm: "name_ok ?t" using assms(8,9) by (simp add: name_ok_def openedTable_def)
  have srv: "serves env ?t bs" by (rule created_both [OF assms(5,2,3,4) cr assms(7)])
  note op = open_eq [OF cr(2,3) assms(3) cr(1) assms(7), of fn c]
  note bnd = created_bounds [OF cr(1,2) assms(7,5) refl refl]
  have fin: ?thesis if t: "openTable env reg fn (t_data s) c = (Inr t, c2)" "core t = core ?t"
    and ok: "agrees cinv view (right_for env ?t) c \<Longrightarrow> t_minKey t = ?mn \<and> t_maxKey t = ?mx \<and> agrees cinv view (right_for env ?t) c2" for t c2
  proof -
    have "sst_of env reg es t" unfolding sst_of_def using assms(4,6,7) t(1) by blast
    moreover have "name_ok t" using nm core_same(3) [OF t(2)] by simp
    ultimately show ?thesis using t(1) ok assms(1-5) core_same(2) [OF t(2), of env] st by (auto simp: sst_ready_def)
  qed
  show ?thesis
  proof (cases "bs = []")
    case True
    then have "es = []" using cr(2) by (simp add: bld_def)
    then show ?thesis using fin [of "openBounds (t_data s) (t_prefixOff s + t_prefixLen s) ?t" c] op True bnd [of ?t]
      by (simp add: core_openBounds openedTable_def)
  next
    case False
    obtain k0 c1 where k0: "getKeyAt env ?t 0 c = (k0, c1)" by fastforce
    obtain k1 c2 where k1: "getKeyAt env ?t (int (length bs) - 1) c1 = (k1, c2)" by fastforce
    let ?u = "?t\<lparr>t_minKey := k0, t_maxKey := k1\<rparr>"
    show ?thesis
    proof (rule fin [of "openBounds (t_data s) (t_prefixOff s + t_prefixLen s) ?u" c2])
      assume "agrees cinv view (right_for env ?t) c"
      then have k: "k0 = e_key (hd (bs ! 0))" "k1 = e_key (hd (bs ! (length bs - 1)))" "agrees cinv view (right_for env ?t) c2"
        using getKeyAt_ok [OF assms(1) srv right_for_covers [OF srv nm], of c 0]
          getKeyAt_ok [OF assms(1) srv right_for_covers [OF srv nm], of c1 "length bs - 1"] k0 k1 False
        by (auto simp: of_nat_diff Suc_leI)
      have "?mn = k0" and le: "k1 \<le> ?mx" using end_keys [OF _ False] cr(2) k(1,2) by (auto simp: bld_def)
      moreover have "k1 = []" if "?mx = []" using le unfolding that by simp
      ultimately show "t_minKey (openBounds (t_data s) (t_prefixOff s + t_prefixLen s) ?u) = ?mn \<and>
          t_maxKey (openBounds (t_data s) (t_prefixOff s + t_prefixLen s) ?u) = ?mx \<and> agrees cinv view (right_for env ?t) c2"
        using k(3) bnd [of ?u] by simp
    qed (use op k0 k1 False in \<open>simp_all add: core_openBounds Let_def\<close>)
  qed
qed

section \<open>The prefix filter\<close>

text \<open>C40: the prefix filter never answers no for the prefix of a key that the table holds, and its bit accesses stay in
  range whatever prefix is asked for, so a prefix scan that skips a table on its answer loses nothing.\<close>

theorem sst_prefix_filter:
  assumes "sst_ready env cinv view reg es s c"
  shows "\<exists>ans c1. MayContainPrefix env s p c = (Some ans, c1) \<and> sst_ready env cinv view reg es s c1 \<and>
    (\<forall>e \<in> set es. ExtractPrefix (e_key e) = p \<longrightarrow> ans)"
proof -
  note r = assms [unfolded ready_serving]
  obtain bs where bc: "block_cache env cinv view" and bs: "serves env s bs" "concat bs = es" and cv: "covers env s bs (right_for env s)"
    by (rule serving_blocks) (use r in blast)
  obtain ans where a: "MayContain (xxhash env) (Some (NewFilterFromBytes (prefixBytes s) (t_prefixBits s) (t_prefixK s))) p = Some ans"
    using serves_filter(3) [OF bs(1), of p] by blast
  have "ans" if "e \<in> set es" "ExtractPrefix (e_key e) = p" for e
    using serves_filter(4) [OF bs(1), of "e_key e"] that bs(2) a by simp
  then show ?thesis
    using block_cache.getPrefixFilter_ok [OF bc bs(1) cv, of c] a r unfolding ready_serving by (auto simp: MayContainPrefix_def)
qed

section \<open>References\<close>

datatype ref_op = OpIncr | OpDecr | OpClose | OpRemove

fun ref_step :: "ref_op \<Rightarrow> sstable \<Rightarrow> sstable" where
  "ref_step OpIncr s = tIncrRef s"
| "ref_step OpDecr s = tDecrRef s"
| "ref_step OpClose s = tClose s"
| "ref_step OpRemove s = MarkRemove s"

definition ref_run :: "ref_op list \<Rightarrow> sstable \<Rightarrow> sstable" where
  "ref_run ops s = foldl (\<lambda>t p. ref_step p t) s ops"

definition refs_of :: "ref_op list \<Rightarrow> int" where
  "refs_of ops = int (length (filter (\<lambda>p. p = OpIncr) ops)) - int (length (filter (\<lambda>p. p = OpDecr) ops))"

lemmas ref_defs = tIncrRef_def tDecrRef_def tClose_def MarkRemove_def closeLocked_def

text \<open>Some point of the sequence at which the table was closed, or marked for removal, and nobody held a reference.\<close>

definition idle :: "ref_op list \<Rightarrow> bool" where
  "idle ops \<longleftrightarrow> refs_of ops \<le> 0 \<and> (OpClose \<in> set ops \<or> OpRemove \<in> set ops)"

definition released :: "ref_op list \<Rightarrow> bool" where
  "released ops \<longleftrightarrow> (\<exists>n \<le> length ops. idle (take n ops))"

lemma released_snoc: "released (ops @ [x]) \<longleftrightarrow> released ops \<or> idle (ops @ [x])"
  by (auto simp: released_def le_Suc_eq)

lemma released_now: "idle ops \<Longrightarrow> released ops"
  by (auto simp: released_def intro!: exI [of _ "length ops"])

definition ref_inv :: "ref_op list \<Rightarrow> sstable \<Rightarrow> bool" where
  "ref_inv ops t \<longleftrightarrow> t_refs t = refs_of ops \<and> (t_removePending t \<longleftrightarrow> OpRemove \<in> set ops) \<and>
     (t_closed t \<longleftrightarrow> OpClose \<in> set ops \<or> OpRemove \<in> set ops) \<and> (t_open t \<longleftrightarrow> \<not> released ops) \<and>
     (t_removed t \<longrightarrow> \<not> t_open t \<and> OpRemove \<in> set ops) \<and> (\<not> t_open t \<and> OpClose \<notin> set ops \<longrightarrow> t_removed t)"

lemma refs_of_snoc [simp]:
  "refs_of (ops @ [OpIncr]) = refs_of ops + 1" "refs_of (ops @ [OpDecr]) = refs_of ops - 1"
  "refs_of (ops @ [OpClose]) = refs_of ops" "refs_of (ops @ [OpRemove]) = refs_of ops"
  by (simp_all add: refs_of_def)

lemma ref_inv_step:
  assumes "ref_inv ops t" shows "ref_inv (ops @ [x]) (ref_step x t)"
proof -
  have i: "refs_of ops \<le> 0 \<Longrightarrow> OpClose \<in> set ops \<or> OpRemove \<in> set ops \<Longrightarrow> released ops"
    using released_now by (auto simp: idle_def)
  show ?thesis using assms i unfolding ref_inv_def released_snoc by (cases x) (auto simp: ref_defs idle_def Let_def)
qed

text \<open>C10: whatever sequence of taking and dropping references, closing and marking for removal a table goes through,
  its file stays open exactly until a moment when the table is closed or marked and no reference is held; the file is
  only removed once it is marked, and a table that is marked and never merely closed is removed at that moment.\<close>

theorem sst_refs_safe:
  assumes "sst_of env reg es s"
  shows "let t = ref_run ops s in t_refs t = refs_of ops \<and> (t_open t \<longleftrightarrow> \<not> released ops) \<and>
    (t_removed t \<longrightarrow> released ops \<and> OpRemove \<in> set ops) \<and> (released ops \<and> OpClose \<notin> set ops \<longrightarrow> t_removed t)"
proof -
  have "ref_inv ops (ref_run ops s)"
  proof (induction ops rule: rev_induct)
    case Nil
    then show ?case using sst_of_fresh [OF assms] by (simp add: fresh_def ref_inv_def ref_run_def refs_of_def released_def idle_def)
  next
    case (snoc x ops)
    then show ?case using ref_inv_step by (simp add: ref_run_def)
  qed
  then show ?thesis by (auto simp: ref_inv_def Let_def)
qed

section \<open>Concrete instances\<close>

text \<open>A table of two keys, one with two versions and one deleted, behind a new LRU cache; compressors that leave their
  input alone and a sealing function that only adds sixteen bytes stand for the packages the code calls.\<close>

definition exBase :: "shard list senv" where
  "exBase = \<lparr>xxhash = (\<lambda>k. of_nat (length k)), cGet = (\<lambda>c k. (None, c)), cPut = (\<lambda>c k v. c), s2Encode = (\<lambda>x. x),
     s2Decode = Some, zstdEncode = (\<lambda>x. x), zstdDecode = Some, gcmSeal = (\<lambda>k n p. p @ replicate 16 0),
     gcmOpen = (\<lambda>k n c. Some (take (length c - 16) c)), sha256 = (\<lambda>x. x)\<rparr>"

abbreviation exEnv :: "shard list senv" where
  "exEnv \<equiv> lruEnv (\<lambda>k. of_nat (length k)) exBase"

abbreviation exReady :: "entry list \<Rightarrow> sstable \<Rightarrow> shard list option \<Rightarrow> bool" where
  "exReady \<equiv> sst_ready exEnv lruInv (lruView (\<lambda>k. of_nat (length k))) None"

definition exEntries :: "entry list" where
  "exEntries =
     [\<lparr>e_key = [1], e_value = [7], e_deleted = False, e_expiresAt = 0, e_version = 2\<rparr>,
      \<lparr>e_key = [1], e_value = [6], e_deleted = False, e_expiresAt = 0, e_version = 1\<rparr>,
      \<lparr>e_key = [2], e_value = [], e_deleted = True, e_expiresAt = 0, e_version = 3\<rparr>]"

lemma exEnv_ok: "env_ok exEnv" "codecs_bounded exEnv"
  by (simp_all add: env_ok_def codecs_bounded_def lruEnv_def exBase_def gcm_def)

lemma exEntries_ok: "input_ok exEntries" "length (records exEntries) < 2 ^ 27" "one_restart k exEntries"
  by (simp_all add: input_ok_def exEntries_def rec_ok_def one_restart_def encodeRecord_def Let_def)

lemma new_cache_agrees: "agrees lruInv (lruView hash) right (Some (NewLRUCache n))"
proof -
  let ?a = "map (\<lambda>s. (sh_cap s, [])) (NewLRUCache n) :: acache"
  have r: "cache_rel (NewLRUCache n) ?a" by (rule NewLRUCache_rel)
  have "aview hash ?a k = None" for k using cache_rel_shard(1) [OF r] cache_rel_shard(2) [OF r, of hash k] by (simp add: aview_def)
  then show ?thesis using lruView_abs [OF r] r by (auto simp: agrees_def lruInv_def)
qed

lemma exMisc: "reg_good None" "last [0x74 :: byte] = of_char (CHR ''t'')" "[0x74 :: byte] \<noteq> []" "\<forall>i :: nat. length (replicate 12 (0 :: byte)) = 12"
  by (simp_all add: reg_good_def reg_ok_def of_char_def)

abbreviation exCreate :: "(sst_error + sstable) \<times> shard list option" where
  "exCreate \<equiv> createAtLevel exEnv (\<lambda>_. replicate 12 0) (\<lambda>_ _. 0) 0 [0x74] exEntries 1 None (Some (NewLRUCache 4))"

lemma ex_created:
  obtains s c where "exCreate = (Inr s, c)" "exReady exEntries s c" "length (t_data s) < 2 ^ 32"
  using create_ready [OF lru_block_cache exEnv_ok exMisc(1,4) exEntries_ok(1,2) exMisc(3,2), of "\<lambda>_ _. 0" 0 1 "Some (NewLRUCache 4)"]
    new_cache_agrees by blast



lemma sst_read_all_witness:
  "\<exists>s c c1. exReady exEntries s c \<and> ReadAll exEnv s c = (Inr exEntries, c1)"
proof -
  obtain s c where s: "exReady exEntries s c" by (rule ex_created)
  have "map wire exEntries = exEntries" by (simp add: exEntries_def wire_def)
  then show ?thesis using sst_read_all [OF s] s by metis
qed

lemma sst_iterate_witness:
  "\<exists>s c c1. exReady exEntries s c \<and> drainIter exEnv (snd (NewIterator s)) 4 (fst (NewIterator s)) c = (exEntries, c1)"
proof -
  obtain s c where s: "exReady exEntries s c" by (rule ex_created)
  have "map wire (take 4 exEntries) = exEntries" by (simp add: exEntries_def wire_def)
  then show ?thesis using sst_iterate [OF s, of 4] s by metis
qed

lemma sst_seek_witness:
  "\<exists>s c it1 c1. exReady exEntries s c \<and> tSeek exEnv s [1, 5] (fst (NewIterator s)) c = (it1, c1) \<and> i_valid it1 \<and>
     cur_entry it1 = last exEntries"
proof -
  obtain s c where s: "exReady exEntries s c" by (rule ex_created)
  have "dropWhile (\<lambda>e. e_key e < [1, 5]) exEntries = [last exEntries]" "wire (last exEntries) = last exEntries"
    by (simp_all add: exEntries_def wire_def)
  then show ?thesis using sst_seek [OF s, of "[1, 5]" "fst (NewIterator s)" 0] s by fastforce
qed

lemma sst_reopen_witness:
  "\<exists>s c t c2. exCreate = (Inr s, c) \<and> openTable exEnv None [0x74] (t_data s) (Some (NewLRUCache 4)) = (Inr t, c2) \<and>
     t_minKey t = t_minKey s \<and> t_maxKey t = t_maxKey s"
proof -
  obtain s c where s: "exCreate = (Inr s, c)" "exReady exEntries s c" "length (t_data s) < 2 ^ 32" by (rule ex_created)
  show ?thesis
    using sst_reopen [OF lru_block_cache exEnv_ok(1) exMisc(1,4) exEntries_ok(1) s(1,3) exMisc(3,2), of "Some (NewLRUCache 4)"]
      new_cache_agrees s(1) by blast
qed

lemma sst_prefix_filter_witness:
  "\<exists>s c c1. exReady exEntries s c \<and> MayContainPrefix exEnv s (ExtractPrefix [2]) c = (Some True, c1)"
proof -
  obtain s c where s: "exReady exEntries s c" by (rule ex_created)
  show ?thesis using sst_prefix_filter [OF s, of "ExtractPrefix [2]"] s by (fastforce simp: exEntries_def)
qed

lemma sst_refs_safe_witness:
  "\<exists>s. sst_of exEnv None exEntries s \<and> \<not> t_removed (ref_run [OpIncr, OpRemove] s) \<and> t_removed (ref_run [OpIncr, OpRemove, OpDecr] s)"
proof -
  obtain s c where "exReady exEntries s c" by (rule ex_created)
  then have s: "sst_of exEnv None exEntries s" by (simp add: sst_ready_def)
  have "\<not> released [OpIncr, OpRemove]" "released [OpIncr, OpRemove, OpDecr]"
    using released_snoc [of "[]" OpIncr] released_snoc [of "[OpIncr]" OpRemove] released_snoc [of "[OpIncr, OpRemove]" OpDecr]
    by (simp_all add: idle_def refs_of_def released_def [of "[]"])
  then show ?thesis
    using sst_refs_safe [OF s, of "[OpIncr, OpRemove]"] sst_refs_safe [OF s, of "[OpIncr, OpRemove, OpDecr]"] s by (auto simp: Let_def)
qed

end
