(* ===== verification/Manifest.thy ===== *)
theory Manifest
  imports Strconv
begin

text \<open>
  The manifest (\<open>engine_flush.go\<close>): the log of added and deleted tables.  The file is its contents, opened for
  appending; a crash keeps some prefix of it.
\<close>

section \<open>Table file names\<close>

definition basename :: "bytes \<Rightarrow> bytes" where
  "basename p =
     (if p = [] then lit ''.''
      else (let p1 = rev (dropWhile (\<lambda>c. c = 0x2F) (rev p)); b = rev (takeWhile (\<lambda>c. c \<noteq> 0x2F) (rev p1))
            in if b = [] then lit ''/'' else b))"

definition TrimSuffix :: "bytes \<Rightarrow> bytes \<Rightarrow> bytes" where
  "TrimSuffix s suf = (if suf = drop (length s - length suf) s \<and> length suf \<le> length s then take (length s - length suf) s else s)"

definition sstFileName :: "bytes \<Rightarrow> u64 \<Rightarrow> bytes" where
  "sstFileName dataDir seq = dataDir @ lit ''/'' @ fmt06 (unat seq) @ lit ''.sst''"

definition tableSeq :: "bytes \<Rightarrow> u64 option" where
  "tableSeq filename = ParseUint (TrimSuffix (basename filename) (lit ''.sst''))"

definition sstSeqNum :: "bytes \<Rightarrow> u64" where
  "sstSeqNum filename = (case tableSeq filename of None \<Rightarrow> 0 | Some s \<Rightarrow> s)"

section \<open>Records\<close>

definition encodeManifestRecord :: "byte \<Rightarrow> nat \<Rightarrow> u64 \<Rightarrow> bytes \<Rightarrow> bytes \<Rightarrow> bytes" where
  "encodeManifestRecord action level seqNum minKey maxKey =
     [action, of_nat level] @ put_u64 seqNum @ put_u32 (of_nat (length minKey)) @ put_u32 (of_nat (length maxKey)) @ minKey @ maxKey"

definition manifestFrame :: "bytes \<Rightarrow> bytes" where
  "manifestFrame d = put_u32 (of_nat (length d)) @ put_u32 (crc32 d) @ d"

definition actAdd :: byte where "actAdd = of_char (CHR ''A'')"
definition actDel :: byte where "actDel = of_char (CHR ''D'')"

text \<open>A nil manifest is \<open>None\<close>.\<close>

definition appendManifest :: "byte \<Rightarrow> nat \<Rightarrow> u64 \<Rightarrow> bytes \<Rightarrow> bytes \<Rightarrow> bytes option \<Rightarrow> bytes option" where
  "appendManifest action level seqNum minKey maxKey mf =
     map_option (\<lambda>f. f @ manifestFrame (encodeManifestRecord action level seqNum minKey maxKey)) mf"

section \<open>Reading\<close>

definition applyRecord :: "bytes \<Rightarrow> (u64 \<Rightarrow> nat option) \<Rightarrow> u64 \<Rightarrow> nat option" where
  "applyRecord d levels =
     (if length d < 18 then levels
      else (let level = unat (d ! 1); seqNum = get_u64 (drop 2 d)
            in if d ! 0 = actAdd then levels(seqNum \<mapsto> level)
               else if d ! 0 = actDel then levels(seqNum := None)
               else levels))"

text \<open>The loop over the rest of the file; the second result is \<open>lastValidOffset\<close>.\<close>

function readRecords :: "bytes \<Rightarrow> (u64 \<Rightarrow> nat option) \<Rightarrow> nat \<Rightarrow> (u64 \<Rightarrow> nat option) \<times> nat" where
  "readRecords rest levels lastValid =
     (if length rest < 4 then (levels, lastValid)
      else (let dataLen = unat (get_u32 rest)
            in if 10 * 1024 * 1024 < dataLen then (levels, lastValid)
               else if length rest < 8 then (levels, lastValid)
               else (let d = bslice 8 (8 + dataLen) rest
                     in if length rest < 8 + dataLen then (levels, lastValid)
                        else if crc32 d \<noteq> get_u32 (drop 4 rest) then (levels, lastValid)
                        else readRecords (drop (8 + dataLen) rest) (applyRecord d levels) (8 + dataLen))))"
  by pat_completeness auto
termination
  by (relation "measure (\<lambda>(rest, _, _). length rest)") auto

declare readRecords.simps [simp del]

definition readManifest :: "bytes option \<Rightarrow> (u64 \<Rightarrow> nat option) \<times> bytes option" where
  "readManifest mf =
     (case mf of
        None \<Rightarrow> (Map.empty, None)
      | Some f \<Rightarrow>
          (let (levels, lastValid) = readRecords f Map.empty 0
           in (levels, Some (if 0 < lastValid then take lastValid f else f))))"

section \<open>Rewriting\<close>

text \<open>Per level the file name and the bounds of each table.\<close>

definition sstInfos :: "(bytes \<times> bytes \<times> bytes) list list \<Rightarrow> (u64 \<times> nat \<times> bytes \<times> bytes) list" where
  "sstInfos levels =
     concat (map (\<lambda>(lvl, tables). concat (map (\<lambda>(filename, minKey, maxKey).
         case tableSeq filename of None \<Rightarrow> [] | Some seq \<Rightarrow> [(seq, lvl, minKey, maxKey)]) tables)) (enumerate 0 levels))"

definition compactManifest :: "(bytes \<times> bytes \<times> bytes) list list \<Rightarrow> bytes option \<Rightarrow> bytes option" where
  "compactManifest levels mf =
     map_option (\<lambda>_. concat (map (\<lambda>(seq, lvl, minKey, maxKey). manifestFrame (encodeManifestRecord actAdd lvl seq minKey maxKey))
       (sstInfos levels))) mf"

end
