(* ===== verification/Manifest_Correct.thy ===== *)
theory Manifest_Correct
  imports Manifest "HOL-Library.Sublist"
begin

text \<open>
  The manifest read back: after any sequence of additions and deletions, and after a crash that tears the last
  record, reading gives the tables and levels that the complete records say.
\<close>

section \<open>File names\<close>

lemma fmt06_no_slash: "0x2F \<notin> set (fmt06 n)"
  using fmtNat_digits [of n] by (auto simp: fmt06_def)

lemma fmt06_nonempty: "fmt06 n \<noteq> []"
  using fmtNat_digits [of n] by (simp add: fmt06_def)

lemma sstSeqNum_fileName [simp]: "tableSeq (sstFileName dir seq) = Some seq" "sstSeqNum (sstFileName dir seq) = seq"
proof -
  let ?b = "fmt06 (unat seq) @ lit ''.sst''"
  have lit: "lit ''.sst'' = [0x2E, 0x73, 0x73, 0x74]" "lit ''/'' = [0x2F]" by (simp_all add: lit_def of_char_def)
  have ns: "0x2F \<notin> set ?b" using fmt06_no_slash [of "unat seq"] by (simp add: lit)
  have "rev (takeWhile (\<lambda>c. c \<noteq> 0x2F) (rev ?b @ 0x2F # rev dir)) = ?b"
    using ns by (subst takeWhile_append2) (auto simp: lit)
  then have "basename (sstFileName dir seq) = ?b"
    by (simp add: basename_def sstFileName_def lit Let_def)
  then have "TrimSuffix (basename (sstFileName dir seq)) (lit ''.sst'') = fmt06 (unat seq)"
    by (simp add: TrimSuffix_def)
  then show "tableSeq (sstFileName dir seq) = Some seq" by (simp add: tableSeq_def ParseUint_fmt06)
  then show "sstSeqNum (sstFileName dir seq) = seq" by (simp add: sstSeqNum_def)
qed

section \<open>Replay\<close>

record mrec =
  m_action :: byte
  m_level :: nat
  m_seq :: u64
  m_min :: bytes
  m_max :: bytes

definition mrec_bytes :: "mrec \<Rightarrow> bytes" where
  "mrec_bytes r = encodeManifestRecord (m_action r) (m_level r) (m_seq r) (m_min r) (m_max r)"

definition mrec_ok :: "mrec \<Rightarrow> bool" where
  "mrec_ok r \<longleftrightarrow> m_level r < 256 \<and> length (m_min r) + length (m_max r) \<le> 10 * 1024 * 1024 - 18"

definition mapply :: "(u64 \<Rightarrow> nat option) \<Rightarrow> mrec \<Rightarrow> u64 \<Rightarrow> nat option" where
  "mapply levels r =
     (if m_action r = actAdd then levels(m_seq r \<mapsto> m_level r)
      else if m_action r = actDel then levels(m_seq r := None) else levels)"

abbreviation mfile :: "mrec list \<Rightarrow> bytes" where
  "mfile rs \<equiv> concat (map (\<lambda>r. manifestFrame (mrec_bytes r)) rs)"

lemma length_mrec [simp]: "length (mrec_bytes r) = 18 + length (m_min r) + length (m_max r)"
  by (simp add: mrec_bytes_def encodeManifestRecord_def)

lemma length_frame [simp]: "length (manifestFrame d) = 8 + length d"
  by (simp add: manifestFrame_def)

lemma applyRecord_mrec: "m_level r < 256 \<Longrightarrow> applyRecord (mrec_bytes r) levels = mapply levels r"
  using unat_of_nat_small [of "m_level r", where 'a = 8]
  by (simp add: applyRecord_def mapply_def mrec_bytes_def encodeManifestRecord_def Let_def)

lemma readRecords_frame:
  assumes "mrec_ok r"
  shows "readRecords (manifestFrame (mrec_bytes r) @ rest) levels lv = readRecords rest (mapply levels r) (length (manifestFrame (mrec_bytes r)))"
proof -
  let ?n = "length (mrec_bytes r)"
  have n: "?n \<le> 10 * 1024 * 1024" using assms by (simp add: mrec_ok_def)
  then have u: "unat (of_nat ?n :: u32) = ?n" by (intro unat_of_nat_small) simp
  have g: "get_u32 (manifestFrame (mrec_bytes r) @ rest) = of_nat ?n" "get_u32 (drop 4 (manifestFrame (mrec_bytes r)) @ rest) = crc32 (mrec_bytes r)"
    by (simp_all add: manifestFrame_def del: length_mrec)
  have b: "bslice 8 (8 + ?n) (manifestFrame (mrec_bytes r) @ rest) = mrec_bytes r" "drop (8 + ?n) (manifestFrame (mrec_bytes r) @ rest) = rest"
    by (simp_all add: manifestFrame_def bslice_def del: length_mrec)
  show ?thesis
    using n assms by (subst readRecords.simps) (simp add: g u b applyRecord_mrec mrec_ok_def Let_def del: length_mrec)
qed

lemma readRecords_torn:
  assumes "mrec_ok r" "prefix q (manifestFrame (mrec_bytes r))" "q \<noteq> manifestFrame (mrec_bytes r)"
  shows "readRecords q levels lv = (levels, lv)"
proof -
  let ?n = "length (mrec_bytes r)"
  have n: "?n \<le> 10 * 1024 * 1024" using assms by (simp add: mrec_ok_def)
  then have u: "unat (of_nat ?n :: u32) = ?n" by (intro unat_of_nat_small) simp
  have l: "length q < 8 + ?n" using assms(2,3) by (metis length_frame prefix_length_le prefix_order.less_le prefix_length_less)
  have q: "q = take (length q) (manifestFrame (mrec_bytes r))" using assms(2) by (auto simp: prefix_def)
  have "get_u32 q = of_nat ?n" if "4 \<le> length q"
  proof -
    have "take 4 q = put_u32 (of_nat ?n)" by (subst q) (use that in \<open>simp add: manifestFrame_def del: length_mrec\<close>)
    then have "q = put_u32 (of_nat ?n) @ drop 4 q" by (metis append_take_drop_id)
    then show ?thesis by (metis get_put_u32)
  qed
  then show ?thesis using l u by (subst readRecords.simps) (simp add: Let_def del: length_mrec)
qed

lemma readRecords_all:
  assumes "\<forall>r \<in> set rs. mrec_ok r"
  shows "readRecords (mfile rs @ rest) levels lv =
    readRecords rest (foldl mapply levels rs) (if rs = [] then lv else length (manifestFrame (mrec_bytes (last rs))))"
  using assms
proof (induction rs arbitrary: levels lv)
  case (Cons r rs)
  then show ?case using readRecords_frame [of r "mfile rs @ rest" levels lv] by auto
qed simp

text \<open>The records that lie completely in a prefix of the file, and what is left of it.\<close>

lemma torn_split:
  assumes "prefix p (mfile rs)"
  obtains k q where "k \<le> length rs" "p = mfile (take k rs) @ q"
    "k < length rs \<Longrightarrow> prefix q (manifestFrame (mrec_bytes (rs ! k))) \<and> q \<noteq> manifestFrame (mrec_bytes (rs ! k))" "k = length rs \<Longrightarrow> q = []"
  using assms
proof (induction rs arbitrary: p thesis)
  case Nil
  then show ?case by auto
next
  case (Cons r rs)
  let ?f = "manifestFrame (mrec_bytes r)"
  show ?case
  proof (cases "prefix ?f p")
    case True
    then obtain p' where p': "p = ?f @ p'" by (auto simp: prefix_def)
    then have "prefix p' (mfile rs)" using Cons.prems(2) by simp
    then obtain k q where k: "k \<le> length rs" "p' = mfile (take k rs) @ q"
      "k < length rs \<Longrightarrow> prefix q (manifestFrame (mrec_bytes (rs ! k))) \<and> q \<noteq> manifestFrame (mrec_bytes (rs ! k))" "k = length rs \<Longrightarrow> q = []"
      using Cons.IH by blast
    then show ?thesis by (intro Cons.prems(1) [of "Suc k" q]) (auto simp: p')
  next
    case False
    then have "prefix p ?f" using Cons.prems(2) by (metis concat.simps(2) list.simps(9) prefixI prefix_same_cases)
    then show ?thesis using False by (intro Cons.prems(1) [of 0 p]) auto
  qed
qed

definition appendAll :: "mrec list \<Rightarrow> bytes option" where
  "appendAll rs = foldl (\<lambda>mf r. appendManifest (m_action r) (m_level r) (m_seq r) (m_min r) (m_max r) mf) (Some []) rs"

lemma appendAll_mfile: "appendAll rs = Some (mfile rs)"
  by (induction rs rule: rev_induct) (auto simp: appendAll_def appendManifest_def mrec_bytes_def)

section \<open>Properties\<close>

text \<open>C14: Whatever additions and deletions of tables were logged, and wherever a crash cuts the file, reading the
  manifest yields the levels that the records lying completely before the cut describe, in order, the last one of a
  table deciding.\<close>

theorem manifest_replay:
  assumes "\<forall>r \<in> set rs. mrec_ok r" and "appendAll rs = Some f" and "prefix p f"
  shows "\<exists>k \<le> length rs. fst (readManifest (Some p)) = foldl mapply Map.empty (take k rs) \<and>
    length (mfile (take k rs)) \<le> length p \<and> (k < length rs \<longrightarrow> length p < length (mfile (take (Suc k) rs)))"
proof -
  have "prefix p (mfile rs)" using assms(2,3) by (simp add: appendAll_mfile)
  then obtain k q where k: "k \<le> length rs" "p = mfile (take k rs) @ q"
    "k < length rs \<Longrightarrow> prefix q (manifestFrame (mrec_bytes (rs ! k))) \<and> q \<noteq> manifestFrame (mrec_bytes (rs ! k))" "k = length rs \<Longrightarrow> q = []"
    by (rule torn_split) blast
  have ok: "\<forall>r \<in> set (take k rs). mrec_ok r" using assms(1) by (meson in_set_takeD)
  have "fst (readRecords q levels lv) = levels" for levels lv
  proof (cases "k < length rs")
    case True
    then show ?thesis using k(3) readRecords_torn [of "rs ! k" q levels lv] assms(1) by simp
  next
    case False
    then show ?thesis using k(1,4) by (simp add: readRecords.simps)
  qed
  then have "fst (readManifest (Some p)) = foldl mapply Map.empty (take k rs)"
    by (simp add: readManifest_def k(2) readRecords_all [OF ok] case_prod_beta)
  moreover have "length p < length (mfile (take (Suc k) rs))" if "k < length rs"
  proof -
    have "length q < length (manifestFrame (mrec_bytes (rs ! k)))"
      using k(3) [OF that] by (metis prefix_length_less prefix_order.less_le)
    then show ?thesis using that by (simp add: k(2) take_Suc_conv_app_nth del: length_frame)
  qed
  ultimately show ?thesis using k(1,2) by auto
qed

theorem manifest_replay_witness:
  "fst (readManifest (Some (take 30 (mfile [\<lparr>m_action = actAdd, m_level = 0, m_seq = 7, m_min = [1], m_max = [2]\<rparr>,
       \<lparr>m_action = actDel, m_level = 0, m_seq = 7, m_min = [1], m_max = [2]\<rparr>])))) = [7 \<mapsto> 0]"
proof -
  let ?rs = "[\<lparr>m_action = actAdd, m_level = 0, m_seq = 7, m_min = [1], m_max = [2]\<rparr>,
       \<lparr>m_action = actDel, m_level = 0, m_seq = 7, m_min = [1], m_max = [2]\<rparr>] :: mrec list"
  have "\<forall>r \<in> set ?rs. mrec_ok r" by (simp add: mrec_ok_def)
  then obtain k where k: "k \<le> length ?rs" "fst (readManifest (Some (take 30 (mfile ?rs)))) = foldl mapply Map.empty (take k ?rs)"
    "length (mfile (take k ?rs)) \<le> length (take 30 (mfile ?rs))"
    "k < length ?rs \<longrightarrow> length (take 30 (mfile ?rs)) < length (mfile (take (Suc k) ?rs))"
    using manifest_replay [OF _ appendAll_mfile take_is_prefix, of ?rs 30] by blast
  consider "k = 0" | "k = 1" | "k = 2" using k(1) by fastforce
  then have "k = 1" using k(3,4) by cases auto
  then show ?thesis using k(2) by (simp add: mapply_def)
qed

text \<open>Reading also truncates: the offset it keeps is the length of the last record and not the end of the valid part,
  so of two records of equal length only the first is left for the next restart.\<close>

lemma readManifest_truncates:
  assumes "\<forall>r \<in> set rs. mrec_ok r" "rs \<noteq> []"
  shows "snd (readManifest (Some (mfile rs))) = Some (take (length (manifestFrame (mrec_bytes (last rs)))) (mfile rs))"
  using readRecords_all [OF assms(1), of "[]" Map.empty 0] assms(2) by (simp add: readManifest_def readRecords.simps)

lemma manifest_second_read_loses:
  assumes "mrec_ok a" "mrec_ok b" "length (mrec_bytes a) = length (mrec_bytes b)"
  shows "fst (readManifest (Some (mfile [a, b]))) = mapply (mapply Map.empty a) b"
    and "fst (readManifest (snd (readManifest (Some (mfile [a, b]))))) = mapply Map.empty a"
proof -
  have ok: "\<forall>r \<in> set [a, b]. mrec_ok r" "\<forall>r \<in> set [a]. mrec_ok r" using assms by auto
  show "fst (readManifest (Some (mfile [a, b]))) = mapply (mapply Map.empty a) b"
    using readRecords_all [OF ok(1), of "[]" Map.empty 0] by (simp add: readManifest_def readRecords.simps)
  have "take (length (manifestFrame (mrec_bytes b))) (mfile [a, b]) = mfile [a]" using assms(3) by (simp del: length_mrec)
  then have "snd (readManifest (Some (mfile [a, b]))) = Some (mfile [a])"
    using readManifest_truncates [OF ok(1)] by (simp del: length_frame)
  then show "fst (readManifest (snd (readManifest (Some (mfile [a, b]))))) = mapply Map.empty a"
    using readRecords_all [OF ok(2), of "[]" Map.empty 0] by (simp add: readManifest_def readRecords.simps)
qed

end
