(* ===== verification/Tables.thy ===== *)
theory Tables
  imports SSTable_Props Manifest_Correct Iterator
begin

text \<open>
  The tables of one data directory.  They are named by a counter that only grows and share one block cache; a table
  created under the next name disturbs none of the others.
\<close>

section \<open>Names\<close>

lemma lit_name: "lit ''.sst'' = [0x2E, 0x73, 0x73, 0x74]" "lit ''/'' = [0x2F]"
  by (simp_all add: lit_def of_char_def)

lemma name_ends: "sstFileName dir q \<noteq> []" "last (sstFileName dir q) = 0x74"
  by (simp_all add: sstFileName_def lit_name)

lemma name_prefix_inject:
  assumes "prefix (sstFileName dir a) (sstFileName dir b @ rest)" shows "a = b"
proof -
  have d: "\<forall>c \<in> set (fmt06 n). isDigit c" for n using fmtNat_digits [of n] by (auto simp: fmt06_def isDigit_def)
  have "takeWhile isDigit (fmt06 (unat a) @ 0x2E # x) = fmt06 (unat a)" for a :: u64 and x
    using d [of "unat a"] by (subst takeWhile_append2) (auto simp: isDigit_def)
  moreover obtain y where "fmt06 (unat b) @ 0x2E # [0x73, 0x73, 0x74] @ rest = (fmt06 (unat a) @ 0x2E # [0x73, 0x73, 0x74]) @ y"
    using assms by (auto simp: sstFileName_def lit_name prefix_def)
  ultimately have "fmt06 (unat a) = fmt06 (unat b)" by (metis append_Cons append_assoc)
  then show ?thesis using ParseUint_fmt06 by (metis option.inject)
qed

lemma name_inject [simp]: "sstFileName dir a = sstFileName dir b \<longleftrightarrow> a = b"
  using name_prefix_inject [of dir a b "[]"] by auto

section \<open>Sharing the cache\<close>

text \<open>The cache keys of tables that do not exist yet.\<close>

definition tableKey :: "bytes \<Rightarrow> u64 \<Rightarrow> bytes \<Rightarrow> bool" where
  "tableKey dir q k \<longleftrightarrow>
     k \<in> {lit ''index:'' @ sstFileName dir q, lit ''filter:'' @ sstFileName dir q, lit ''prefix:'' @ sstFileName dir q} \<or>
     (\<exists>rest. rest \<noteq> [] \<and> isDigit (last rest) \<and> k = sstFileName dir q @ rest)"

definition futureKey :: "bytes \<Rightarrow> u64 \<Rightarrow> bytes \<Rightarrow> bool" where
  "futureKey dir n k \<longleftrightarrow> (\<exists>q. n < q \<and> tableKey dir q k)"

lemma futureKey_mono: "n \<le> m \<Longrightarrow> futureKey dir m k \<Longrightarrow> futureKey dir n k"
  unfolding futureKey_def by (meson le_less_trans)

definition dir_right :: "'c senv \<Rightarrow> bytes \<Rightarrow> sstable set \<Rightarrow> u64 \<Rightarrow> bytes \<Rightarrow> bytes \<Rightarrow> bool" where
  "dir_right env dir T n k v \<longleftrightarrow> right_all env T k v \<and> \<not> futureKey dir n k"

definition dir_tables :: "bytes \<Rightarrow> u64 \<Rightarrow> sstable set \<Rightarrow> bool" where
  "dir_tables dir n T \<longleftrightarrow> inj_on t_filename T \<and> (\<forall>t \<in> T. \<exists>q. q \<le> n \<and> t_filename t = sstFileName dir q)"

lemma dir_names_apart: "dir_tables dir n T \<Longrightarrow> names_apart T"
proof -
  assume T: "dir_tables dir n T"
  have "name_ok t" if "t \<in> T" for t
    using T that name_ends [of dir] by (auto simp: dir_tables_def name_ok_def)
  moreover have "s = t" if st: "s \<in> T" "t \<in> T" "prefix (t_filename s) (t_filename t)" for s t
  proof -
    obtain a b where "t_filename s = sstFileName dir a" "t_filename t = sstFileName dir b"
      using T st(1,2) unfolding dir_tables_def by blast
    then have "t_filename s = t_filename t" using st(3) name_prefix_inject [of dir a b "[]"] by simp
    then show ?thesis using T st by (auto simp: dir_tables_def inj_on_def)
  qed
  ultimately show ?thesis by (simp add: names_apart_def)
qed

lemma present_keys_not_future:
  assumes "t_filename t = sstFileName dir q" "q \<le> n"
  shows "\<not> futureKey dir n (indexCacheKey t)" "\<not> futureKey dir n (filterCacheKey t)" "\<not> futureKey dir n (prefixCacheKey t)"
    "\<not> futureKey dir n (blockCacheKey t off)"
proof -
  have e: "last (p @ sstFileName dir r) = 0x74" for p r using name_ends [of dir r] by simp
  have nd: "\<not> isDigit 0x74" by (simp add: isDigit_def)
  have rest: "p @ sstFileName dir q \<noteq> sstFileName dir r @ rest" if "rest \<noteq> []" "isDigit (last rest)" for p r rest
    using e [of p q] nd that by (metis last_appendR)
  have pre: "lit ''index:'' @ x \<noteq> lit ''filter:'' @ y" "lit ''index:'' @ x \<noteq> lit ''prefix:'' @ y" "lit ''filter:'' @ x \<noteq> lit ''prefix:'' @ y" for x y
    by (simp_all add: lit_def)
  show "\<not> futureKey dir n (indexCacheKey t)" "\<not> futureKey dir n (filterCacheKey t)" "\<not> futureKey dir n (prefixCacheKey t)"
    using assms rest by (auto simp: futureKey_def tableKey_def indexCacheKey_def filterCacheKey_def prefixCacheKey_def pre pre [symmetric])
  have dl: "isDigit (last (blockCacheKey t off))" using last_fmtInt [of off] by (simp add: blockCacheKey_def isDigit_def)
  have "blockCacheKey t off \<noteq> p @ sstFileName dir r" for p r using dl nd e [of p r] by metis
  moreover have "blockCacheKey t off \<noteq> sstFileName dir r @ rest" if "n < r" for r rest
  proof
    assume "blockCacheKey t off = sstFileName dir r @ rest"
    then have "prefix (sstFileName dir q) (sstFileName dir r @ rest)" using assms(1) by (metis blockCacheKey_def prefixI)
    then show False using name_prefix_inject that assms(2) by fastforce
  qed
  ultimately show "\<not> futureKey dir n (blockCacheKey t off)" by (auto simp: futureKey_def tableKey_def)
qed

lemma dir_covers:
  assumes "dir_tables dir n T" "t \<in> T" "serves env t bs"
  shows "covers env t bs (dir_right env dir T n)"
proof -
  obtain q where q: "t_filename t = sstFileName dir q" "q \<le> n" using assms(1,2) by (auto simp: dir_tables_def)
  show ?thesis
    using right_all_covers [OF dir_names_apart [OF assms(1)] assms(2,3)] present_keys_not_future [OF q]
    by (simp add: covers_def dir_right_def)
qed

lemma agrees_mono: "agrees cinv view right c \<Longrightarrow> (\<And>k v. right k v \<Longrightarrow> right' k v) \<Longrightarrow> agrees cinv view right' c"
  by (auto simp: agrees_def split: option.splits)

lemma future_covers_new:
  assumes "t_filename t = sstFileName dir q" "n < q" "\<not> futureKey dir n k"
  shows "right_for env t k v"
proof -
  have "isDigit (last (lit '':'' @ fmtInt off))" "lit '':'' @ fmtInt off \<noteq> []" for off
    using last_fmtInt [of off] by (simp_all add: isDigit_def)
  then have "futureKey dir n (blockCacheKey t off)" for off
    unfolding futureKey_def tableKey_def blockCacheKey_def using assms(1,2)
    by (intro exI [of _ q] conjI disjI2 exI [of _ "t_cacheTag t @ lit '':'' @ fmtInt off"]) auto
  moreover have "futureKey dir n (indexCacheKey t)" "futureKey dir n (filterCacheKey t)" "futureKey dir n (prefixCacheKey t)"
    using assms(1,2) by (auto simp: futureKey_def tableKey_def indexCacheKey_def filterCacheKey_def prefixCacheKey_def)
  ultimately show ?thesis using assms(3) by (auto simp: right_for_def)
qed

text \<open>A table created under the next name.\<close>

lemma dir_create:
  assumes "block_cache env cinv view" and "env_ok env" "codecs_bounded env" and "reg_good reg" "\<forall>i. length (nonce i) = 12"
    and "input_ok es" "length (records es) < 2 ^ 27"
    and T: "dir_tables dir n T" and n: "n < n + 1" and c: "agrees cinv view (dir_right env dir T n) c"
  shows "\<exists>s c1. createAtLevel env nonce ratio now (sstFileName dir (n + 1)) es level reg c = (Inr s, c1) \<and>
    t_filename s = sstFileName dir (n + 1) \<and> sst_of env reg es s \<and>
    t_minKey s = (if es = [] then [] else e_key (hd es)) \<and> t_maxKey s = (if es = [] then [] else e_key (last es)) \<and>
    dir_tables dir (n + 1) (insert s T) \<and> agrees cinv view (dir_right env dir (insert s T) (n + 1)) c1"
proof -
  obtain s c1 where s: "createAtLevel env nonce ratio now (sstFileName dir (n + 1)) es level reg c = (Inr s, c1)"
    "t_filename s = sstFileName dir (n + 1)" "sst_of env reg es s"
    "t_minKey s = (if es = [] then [] else e_key (hd es))" "t_maxKey s = (if es = [] then [] else e_key (last es))"
    "\<And>right. (\<forall>bs. serves env s bs \<longrightarrow> covers env s bs right) \<Longrightarrow> agrees cinv view right c \<Longrightarrow> agrees cinv view right c1"
    using create_serving [OF assms(1-7), of ratio now "sstFileName dir (n + 1)" level c] by blast
  have D: "dir_tables dir (n + 1) (insert s T)"
  proof -
    have "t_filename s \<notin> t_filename ` T" using T n s(2) by (auto simp: dir_tables_def)
    then show ?thesis using T n s(2) by (auto simp: dir_tables_def)
  qed
  have "agrees cinv view (dir_right env dir (insert s T) (n + 1)) c"
  proof (rule agrees_mono [OF c])
    fix k v assume r: "dir_right env dir T n k v"
    then have "right_for env s k v" using future_covers_new [OF s(2) n] unfolding dir_right_def by blast
    moreover have "\<not> futureKey dir (n + 1) k" using r n futureKey_mono [of n "n + 1"] unfolding dir_right_def by auto
    ultimately show "dir_right env dir (insert s T) (n + 1) k v" using r by (simp add: dir_right_def right_all_def)
  qed
  then show ?thesis using s D dir_covers [OF D insertI1] by blast
qed

lemma dir_tables_subset: "dir_tables dir n T \<Longrightarrow> S \<subseteq> T \<Longrightarrow> dir_tables dir n S"
  by (auto simp: dir_tables_def inj_on_def)

lemma dir_right_subset: "dir_right env dir T n k v \<Longrightarrow> S \<subseteq> T \<Longrightarrow> dir_right env dir S n k v"
  by (auto simp: dir_right_def right_all_def)

section \<open>A directory of tables\<close>

text \<open>A table of entries sorted by key and, within a key, from the newest version to the oldest.\<close>

definition table_of :: "'c senv \<Rightarrow> registry option \<Rightarrow> entry list \<Rightarrow> sstable \<Rightarrow> bool" where
  "table_of env reg es t \<longleftrightarrow> input_ok es \<and> es \<noteq> [] \<and> sorted_wrt version_ord es \<and> sst_of env reg es t \<and>
     t_minKey t = e_key (hd es) \<and> t_maxKey t = e_key (last es)"

text \<open>The tables \<open>T\<close> of a directory with the entries \<open>content\<close> gives for each, the file counter \<open>n\<close> and the shared cache.\<close>

definition stored :: "'c senv \<Rightarrow> ('c \<Rightarrow> bool) \<Rightarrow> ('c \<Rightarrow> bytes \<Rightarrow> bytes option) \<Rightarrow> registry option \<Rightarrow> bytes \<Rightarrow>
    (sstable \<Rightarrow> entry list) \<Rightarrow> sstable set \<Rightarrow> u64 \<Rightarrow> 'c option \<Rightarrow> bool" where
  "stored env cinv view reg dir content T n c \<longleftrightarrow>
     block_cache env cinv view \<and> env_ok env \<and> codecs_bounded env \<and> reg_good reg \<and> dir_tables dir n T \<and>
     (\<forall>t \<in> T. table_of env reg (content t) t) \<and> agrees cinv view (dir_right env dir T n) c"

lemma stored_serving:
  assumes "stored env cinv view reg dir content T n c" "t \<in> T"
  shows "sst_serving env cinv view (dir_right env dir T n) reg (content t) t" "agrees cinv view (dir_right env dir T n) c"
  using assms dir_covers [of dir n T t env] by (auto simp: stored_def table_of_def sst_serving_def)

lemma stored_cache: "stored env cinv view reg dir content T n c \<Longrightarrow> agrees cinv view (dir_right env dir T n) c1 \<Longrightarrow>
    stored env cinv view reg dir content T n c1"
  by (simp add: stored_def)

lemma stored_read:
  assumes "stored env cinv view reg dir content T n c" "t \<in> T"
  shows "one_restart k (content t) \<Longrightarrow> \<exists>c1. tGet env now t k c = (Inr (scanResult now (latest_entry (map wire (content t)) k)), t, c1) \<and>
      stored env cinv view reg dir content T n c1"
    "one_restart k (content t) \<Longrightarrow> \<exists>c1. tGetByVersion env now t k ts c =
      (Inr (scanResult now (snapshot_entry (map wire (content t)) k ts)), t, c1) \<and> stored env cinv view reg dir content T n c1"
    "\<exists>c1. ReadAll env t c = (Inr (map wire (content t)), c1) \<and> stored env cinv view reg dir content T n c1"
  using get_serving [OF stored_serving [OF assms]] readAll_serving [OF stored_serving [OF assms]] stored_cache [OF assms(1)] by metis+

lemma stored_create:
  assumes st: "stored env cinv view reg dir content T n c" and nonce: "\<forall>i. length (nonce i) = 12" and n: "n < n + 1"
    and es: "input_ok es" "es \<noteq> []" "sorted_wrt version_ord es" "length (records es) < 2 ^ 27"
  shows "\<exists>s c1. createAtLevel env nonce ratio now (sstFileName dir (n + 1)) es level reg c = (Inr s, c1) \<and> s \<notin> T \<and>
    t_filename s = sstFileName dir (n + 1) \<and> stored env cinv view reg dir (content(s := es)) (insert s T) (n + 1) c1"
proof -
  note S = st [unfolded stored_def]
  obtain s c1 where s: "createAtLevel env nonce ratio now (sstFileName dir (n + 1)) es level reg c = (Inr s, c1)"
    "t_filename s = sstFileName dir (n + 1)" "sst_of env reg es s" "t_minKey s = e_key (hd es)" "t_maxKey s = e_key (last es)"
    "dir_tables dir (n + 1) (insert s T)" "agrees cinv view (dir_right env dir (insert s T) (n + 1)) c1"
    using dir_create [of env cinv view reg nonce es dir n T c ratio now level] S es nonce n by auto
  have new: "s \<notin> T" using S n s(2) by (auto simp: dir_tables_def)
  then have "table_of env reg ((content(s := es)) t) t" if "t \<in> insert s T" for t
    using that S s es by (cases "t = s") (auto simp: table_of_def)
  then show ?thesis using S s new unfolding stored_def by blast
qed

lemma stored_subset:
  assumes "stored env cinv view reg dir content T n c" "S \<subseteq> T"
  shows "stored env cinv view reg dir content S n c"
proof -
  have "agrees cinv view (dir_right env dir S n) c"
    using assms agrees_mono dir_right_subset by (metis (mono_tags, lifting) stored_def)
  then show ?thesis using assms dir_tables_subset [of dir n T S] by (auto simp: stored_def)
qed

lemma stored_bounds:
  assumes "stored env cinv view reg dir content T n c" "t \<in> T" "e \<in> set (content t)"
  shows "t_minKey t \<le> e_key e" "e_key e \<le> t_maxKey t"
proof -
  have t: "table_of env reg (content t) t" using assms by (simp add: stored_def)
  have le: "version_ord a b \<Longrightarrow> e_key a \<le> e_key b" for a b by (auto simp: version_ord_def)
  obtain xs ys where sp: "content t = xs @ e # ys" using assms(3) by (meson split_list)
  have "sorted_wrt version_ord (xs @ e # ys)" using t sp by (simp add: table_of_def)
  then show "t_minKey t \<le> e_key e" "e_key e \<le> t_maxKey t"
    using t by (cases xs; cases ys rule: rev_cases; auto simp: table_of_def sp sorted_wrt_append le)+
qed

end
