(* ===== verification/Versions.thy ===== *)
theory Versions
  imports Mvcc "HOL-Library.Sublist"
begin

text \<open>
  Collections of versions spread over several tables: what a reader gets from one, when two of them answer alike,
  and how a search from newer to older tables relates to the collection as a whole.
\<close>

definition deadAt :: "i64 \<Rightarrow> entry \<Rightarrow> bool" where
  "deadAt now e \<longleftrightarrow> e_deleted e \<or> expired now (e_expiresAt e)"

text \<open>The value and the expiry of a version that is neither deleted nor expired.\<close>

definition live :: "i64 \<Rightarrow> entry option \<Rightarrow> (bytes \<times> i64) option" where
  "live now best = (case best of None \<Rightarrow> None | Some e \<Rightarrow> if deadAt now e then None else Some (e_value e, e_expiresAt e))"

definition reads :: "i64 \<Rightarrow> entry list \<Rightarrow> bytes \<Rightarrow> u64 \<Rightarrow> (bytes \<times> i64) option" where
  "reads now es k ts = live now (snapshot_entry es k ts)"

lemma live_simps [simp]: "live now None = None" "live now (Some e) = (if deadAt now e then None else Some (e_value e, e_expiresAt e))"
  by (simp_all add: live_def)

lemma deadAt_mono: "deadAt now e \<Longrightarrow> sint now \<le> sint now' \<Longrightarrow> deadAt now' e"
  by (auto simp: deadAt_def expired_def)

text \<open>One version of a key is one entry, however often it occurs.\<close>

definition consistent :: "entry list \<Rightarrow> bool" where
  "consistent es \<longleftrightarrow> inj_on (\<lambda>e. (e_key e, e_version e)) (set es)"

lemma consistentD: "consistent es \<Longrightarrow> x \<in> set es \<Longrightarrow> y \<in> set es \<Longrightarrow> e_key x = e_key y \<Longrightarrow> e_version x = e_version y \<Longrightarrow> x = y"
  by (auto simp: consistent_def inj_on_def)

lemma consistent_subset: "consistent es \<Longrightarrow> set fs \<subseteq> set es \<Longrightarrow> consistent fs"
  unfolding consistent_def by (rule inj_on_subset)

lemma snapshot_set_cong:
  assumes "set xs = set ys" "consistent xs"
  shows "snapshot_entry xs k ts = snapshot_entry ys k ts"
  unfolding snapshot_entry_def
proof (rule best_of_set_cong)
  show "set (filter (\<lambda>e. e_key e = k \<and> e_version e \<le> ts) xs) = set (filter (\<lambda>e. e_key e = k \<and> e_version e \<le> ts) ys)"
    using assms(1) by auto
  show "inj_on e_version (set (filter (\<lambda>e. e_key e = k \<and> e_version e \<le> ts) xs))"
    using assms(2) by (auto intro!: inj_onI dest: consistentD)
qed

text \<open>Functions on entries that keep key and version.\<close>

definition keeps :: "(entry \<Rightarrow> entry) \<Rightarrow> bool" where
  "keeps f \<longleftrightarrow> (\<forall>e. e_key (f e) = e_key e \<and> e_version (f e) = e_version e)"

lemma best_of_map: "keeps f \<Longrightarrow> best_of (map f es) = map_option f (best_of es)"
proof -
  assume f: "keeps f"
  have "foldl better (map_option f b) (map f es) = map_option f (foldl better b es)" for b
  proof (induction es arbitrary: b)
    case (Cons e es)
    have "better (map_option f b) (f e) = map_option f (better b e)" using f by (auto simp: better_def keeps_def split: option.split)
    then show ?case using Cons.IH by simp
  qed simp
  from this [of None] show ?thesis by (simp add: best_of_def)
qed

lemma snapshot_map:
  assumes "keeps f" shows "snapshot_entry (map f es) k ts = map_option f (snapshot_entry es k ts)"
proof -
  have "filter (\<lambda>e. e_key e = k \<and> e_version e \<le> ts) (map f es) = map f (filter (\<lambda>e. e_key e = k \<and> e_version e \<le> ts) es)"
    using assms by (simp add: filter_map comp_def keeps_def)
  then show ?thesis by (simp add: snapshot_entry_def best_of_map [OF assms])
qed

lemma reads_map: "keeps f \<Longrightarrow> (\<And>e. live now (Some (f e)) = live now (Some e)) \<Longrightarrow> reads now (map f es) k ts = reads now es k ts"
  by (cases "snapshot_entry es k ts") (simp_all add: reads_def snapshot_map)

lemma reads_filter_key: "reads now (filter (\<lambda>e. e_key e = k) es) k ts = reads now es k ts"
  by (simp add: reads_def snapshot_entry_filter_key)

lemma consistent_map:
  assumes "keeps f" "consistent es" shows "consistent (map f es)"
proof -
  have "f x = f y" if "x \<in> set es" "y \<in> set es" "e_key (f x) = e_key (f y)" "e_version (f x) = e_version (f y)" for x y
    using consistentD [OF assms(2) that(1,2)] that(3,4) assms(1) by (simp add: keeps_def)
  then show ?thesis by (auto simp: consistent_def inj_on_def)
qed

section \<open>From the newest version down\<close>

definition newest_first :: "entry list \<Rightarrow> bool" where
  "newest_first es \<longleftrightarrow> sorted_wrt (\<lambda>a b. e_version b \<le> e_version a) es"

lemma best_of_newest_first: "newest_first es \<Longrightarrow> best_of es = (case es of [] \<Rightarrow> None | e # _ \<Rightarrow> Some e)"
  by (cases es) (auto simp: newest_first_def best_of_Cons intro!: foldl_better_keep)

lemma best_of_find:
  assumes "newest_first es" shows "best_of (filter P es) = find P es"
proof -
  have "newest_first (filter P es)" using assms by (simp add: newest_first_def sorted_wrt_filter)
  moreover have "find P es = (case filter P es of [] \<Rightarrow> None | e # _ \<Rightarrow> Some e)" by (induction es) auto
  ultimately show ?thesis by (simp add: best_of_newest_first)
qed

section \<open>Tables from newer to older\<close>

text \<open>Every version of a key in one table is above every version of it in another.\<close>

definition newer :: "entry list \<Rightarrow> entry list \<Rightarrow> bool" where
  "newer xs ys \<longleftrightarrow> (\<forall>x \<in> set xs. \<forall>y \<in> set ys. e_key x = e_key y \<longrightarrow> e_version y < e_version x)"

text \<open>Two tables without a common key.\<close>

definition apart :: "entry list \<Rightarrow> entry list \<Rightarrow> bool" where
  "apart xs ys \<longleftrightarrow> (\<forall>x \<in> set xs. \<forall>y \<in> set ys. e_key x \<noteq> e_key y)"

lemma apart_newer: "apart xs ys \<Longrightarrow> newer xs ys"
  by (auto simp: apart_def newer_def)

lemma apart_sym: "apart xs ys \<Longrightarrow> apart ys xs"
  by (metis apart_def)

definition recency :: "entry list list \<Rightarrow> bool" where
  "recency layers \<longleftrightarrow> sorted_wrt newer layers"

fun firstFound :: "entry list list \<Rightarrow> bytes \<Rightarrow> u64 \<Rightarrow> entry option" where
  "firstFound [] k ts = None"
| "firstFound (es # layers) k ts = (case snapshot_entry es k ts of None \<Rightarrow> firstFound layers k ts | Some e \<Rightarrow> Some e)"

lemma snapshot_append:
  assumes "\<forall>x \<in> set xs. \<forall>y \<in> set ys. e_key x = k \<longrightarrow> e_key y = k \<longrightarrow> e_version y \<le> e_version x"
  shows "snapshot_entry (xs @ ys) k ts = (case snapshot_entry xs k ts of None \<Rightarrow> snapshot_entry ys k ts | Some e \<Rightarrow> Some e)"
proof (cases "snapshot_entry xs k ts")
  case None
  then show ?thesis by (simp add: snapshot_entry_def)
next
  case (Some e)
  note e = snapshot_entry_SomeD [OF Some]
  have "foldl better (Some e) (filter (\<lambda>e. e_key e = k \<and> e_version e \<le> ts) ys) = Some e"
    by (rule foldl_better_keep) (use assms e(1,2) in auto)
  then show ?thesis using Some by (simp add: snapshot_entry_def best_of_append)
qed

lemma firstFound_concat: "recency layers \<Longrightarrow> firstFound layers k ts = snapshot_entry (concat layers) k ts"
proof (induction layers)
  case (Cons es layers)
  have "snapshot_entry (es @ concat layers) k ts = (case snapshot_entry es k ts of None \<Rightarrow> snapshot_entry (concat layers) k ts | Some e \<Rightarrow> Some e)"
    by (rule snapshot_append) (use Cons.prems in \<open>auto simp: recency_def newer_def less_imp_le\<close>)
  moreover have "recency layers" using Cons.prems by (simp add: recency_def)
  ultimately show ?case using Cons.IH by (simp split: option.split)
qed (simp add: snapshot_entry_def)

end
