(* ===== verification/Compaction.thy ===== *)
theory Compaction
  imports Manifest SSTable Iterator Vlog Versions
begin

text \<open>
  Compaction (\<open>engine_compaction.go\<close>, and the level limits of \<open>engine_write.go\<close>).  The tables of the levels, the file
  counter, the block cache, the manifest and the discard statistics are the part of the engine it works on.  Tables
  are identified by their file names; times, the timestamps of the oracle and file sizes are arguments.
\<close>

section \<open>State\<close>

record 'c ectx =
  x_env :: "'c senv"
  x_dir :: bytes
  x_reg :: "registry option"
  x_nonce :: "u64 \<Rightarrow> nat \<Rightarrow> bytes"
  x_ratio :: "nat \<Rightarrow> nat \<Rightarrow> u16"
  x_sortVersions :: "entry list \<Rightarrow> entry list"
  x_sortTables :: "sstable list \<Rightarrow> sstable list"
  x_fuel :: nat
  x_memTableSize :: int
  x_levelSizeRatio :: int
  x_compactionThreshold :: int
  x_mostlyDead :: "sstable \<Rightarrow> bool"
  x_scoreGreater :: "int \<times> int \<Rightarrow> int \<times> int \<Rightarrow> bool"

record 'c lsm =
  l_levels :: "sstable list list"
  l_nextSeq :: u64
  l_cache :: "'c option"
  l_manifest :: "bytes option"
  l_discardStats :: discardStats
  l_vlogDiscards :: "discardStats option"
  l_dropped :: "sstable list"

definition MaxLevels :: nat where "MaxLevels = 5"

definition level :: "'c lsm \<Rightarrow> nat \<Rightarrow> sstable list" where
  "level l i = (if i < length (l_levels l) then l_levels l ! i else [])"

section \<open>Value pointers and discards\<close>

definition valFlagInline :: byte where "valFlagInline = 0"
definition valFlagPointer :: byte where "valFlagPointer = 1"
definition valPtrSize :: nat where "valPtrSize = 16"

definition isValuePointer :: "bytes \<Rightarrow> bool" where
  "isValuePointer b \<longleftrightarrow> length b = 1 + valPtrSize \<and> hd b = valFlagPointer"

definition decodeValuePtr :: "bytes \<Rightarrow> ValuePointer" where
  "decodeValuePtr b = \<lparr>vp_fid = get_u32 (drop 1 b), vp_offset = get_u64 (drop 5 b), vp_size = get_u32 (drop 13 b)\<rparr>"

definition addDiscard :: "bytes \<Rightarrow> 'c lsm \<Rightarrow> 'c lsm" where
  "addDiscard v l =
     (if isValuePointer v then
        (let vp = decodeValuePtr v in l\<lparr>l_discardStats := AddDiscard (vp_fid vp) (ucast (vp_size vp)) (l_discardStats l)\<rparr>)
      else l)"

definition addCompactionDiscard :: "bytes \<Rightarrow> 'c lsm \<Rightarrow> 'c lsm" where
  "addCompactionDiscard v l =
     addDiscard v
       (if isValuePointer v then
          (let vp = decodeValuePtr v in l\<lparr>l_vlogDiscards := map_option (AddDiscard (vp_fid vp) (ucast (vp_size vp))) (l_vlogDiscards l)\<rparr>)
        else l)"

section \<open>The table writer\<close>

definition compactionTableBytes :: nat where "compactionTableBytes = 8 * 1024 * 1024"

record lwriter =
  w_level :: nat
  w_buf :: "entry list"
  w_bytes :: nat
  w_tables :: "sstable list"

definition w_add :: "lwriter \<Rightarrow> entry \<Rightarrow> lwriter" where
  "w_add w e = w\<lparr>w_buf := w_buf w @ [e], w_bytes := w_bytes w + length (e_key e) + length (e_value e) + 33\<rparr>"

definition w_flush :: "'c ectx \<Rightarrow> i64 \<Rightarrow> lwriter \<Rightarrow> 'c lsm \<Rightarrow> lwriter \<times> 'c lsm" where
  "w_flush x now w l =
     (if w_buf w = [] then (w, l)
      else (let seq = l_nextSeq l + 1;
                (r, c) = createAtLevel (x_env x) (x_nonce x seq) (x_ratio x) now (sstFileName (x_dir x) seq) (w_buf w) (int (w_level w))
                  (x_reg x) (l_cache l)
            in (w\<lparr>w_buf := [], w_bytes := 0, w_tables := w_tables w @ (case r of Inl _ \<Rightarrow> [] | Inr t \<Rightarrow> [t])\<rparr>,
                l\<lparr>l_nextSeq := seq, l_cache := c\<rparr>)))"

definition w_maybeFlush :: "'c ectx \<Rightarrow> i64 \<Rightarrow> lwriter \<Rightarrow> 'c lsm \<Rightarrow> lwriter \<times> 'c lsm" where
  "w_maybeFlush x now w l = (if compactionTableBytes \<le> w_bytes w then w_flush x now w l else (w, l))"

definition w_finish :: "'c ectx \<Rightarrow> i64 \<Rightarrow> lwriter \<Rightarrow> 'c lsm \<Rightarrow> sstable list \<times> 'c lsm" where
  "w_finish x now w l = (case w_flush x now w l of (w1, l1) \<Rightarrow> (w_tables w1, l1))"

section \<open>Merging\<close>

definition keyMayExistBelow :: "'c lsm \<Rightarrow> nat \<Rightarrow> bytes \<Rightarrow> bool" where
  "keyMayExistBelow l targetLevel key \<longleftrightarrow>
     (\<exists>lvl \<in> set [targetLevel + 1..<MaxLevels]. \<exists>t \<in> set (level l lvl). t_minKey t \<le> key \<and> key \<le> t_maxKey t)"

definition rangesOverlap :: "sstable \<Rightarrow> sstable \<Rightarrow> bool" where
  "rangesOverlap a b \<longleftrightarrow> t_minKey a \<le> t_maxKey b \<and> t_minKey b \<le> t_maxKey a"

text \<open>The choice among the versions of one key, newest first: the kept ones and the values that are given up.\<close>

fun keepLoop :: "u64 \<Rightarrow> entry list \<Rightarrow> entry list \<Rightarrow> bool \<Rightarrow> bytes list \<Rightarrow> entry list \<times> bytes list" where
  "keepLoop minReadTs [] kept keptOlder disc = (kept, disc)"
| "keepLoop minReadTs (g # gs) kept keptOlder disc =
     (if kept \<noteq> [] \<and> e_version (last kept) = e_version g then keepLoop minReadTs gs kept keptOlder disc
      else if minReadTs < e_version g then keepLoop minReadTs gs (kept @ [g]) keptOlder disc
      else if \<not> keptOlder then keepLoop minReadTs gs (kept @ [g]) True disc
      else keepLoop minReadTs gs kept keptOlder (disc @ [e_value g]))"

record dparams =
  d_now :: i64
  d_minReadTs :: u64
  d_nextTs :: u64
  d_gcTs :: u64
  d_target :: nat

definition droppable :: "dparams \<Rightarrow> 'c lsm \<Rightarrow> entry list \<Rightarrow> bool" where
  "droppable p l kept \<longleftrightarrow>
     length kept = 1 \<and> deadAt (d_now p) (hd kept) \<and> d_target p = MaxLevels - 1 \<and> \<not> d_minReadTs p < d_nextTs p \<and> d_gcTs p = 0 \<and>
     \<not> keyMayExistBelow l (d_target p) (e_key (hd kept))"

definition markDead :: "i64 \<Rightarrow> entry \<Rightarrow> entry" where
  "markDead now e = (if deadAt now e then e\<lparr>e_deleted := True\<rparr> else e)"

definition processGroup :: "'c ectx \<Rightarrow> dparams \<Rightarrow> lwriter \<times> 'c lsm \<Rightarrow> entry list \<Rightarrow> lwriter \<times> 'c lsm" where
  "processGroup x p wl grp =
     (case wl of (w, l) \<Rightarrow>
        (let (kept, disc) = keepLoop (d_minReadTs p) (x_sortVersions x grp) [] False [];
             l1 = foldl (\<lambda>l v. addCompactionDiscard v l) l disc
         in if droppable p l1 kept then (w, addCompactionDiscard (e_value (hd kept)) l1)
            else w_maybeFlush x (d_now p) (foldl w_add w (map (markDead (d_now p)) kept)) l1))"

text \<open>The runs of equal keys that the outer loop collects.\<close>

function groupRuns :: "entry list \<Rightarrow> entry list list" where
  "groupRuns [] = []"
| "groupRuns (e # es) = (e # takeWhile (\<lambda>f. e_key f = e_key e) es) # groupRuns (dropWhile (\<lambda>f. e_key f = e_key e) es)"
  by pat_completeness auto
termination
  by (relation "measure length") (auto simp: le_imp_less_Suc length_dropWhile_le)

definition drainMergedIterator :: "'c ectx \<Rightarrow> dparams \<Rightarrow> entry list list \<Rightarrow> lwriter \<Rightarrow> 'c lsm \<Rightarrow> (lwriter \<times> 'c lsm) option" where
  "drainMergedIterator x p iters w l =
     map_option (\<lambda>es. foldl (processGroup x p) (w, l) (groupRuns es))
       (mv_drain (Suc (length (concat iters))) (NewMergedVersionIterator iters))"

text \<open>The entries an iterator yields after \<open>Seek([]byte(""))\<close>; \<open>None\<close> when the fuel does not suffice.\<close>

fun iterRest :: "'c senv \<Rightarrow> sstable \<Rightarrow> nat \<Rightarrow> sst_iter \<Rightarrow> 'c option \<Rightarrow> (entry list \<times> 'c option) option" where
  "iterRest env s 0 it c = None"
| "iterRest env s (Suc n) it c =
     (if \<not> i_valid it then Some ([], c)
      else (let e = \<lparr>e_key = i_key it, e_value = i_value it, e_deleted = i_deleted it, e_expiresAt = i_expAt it, e_version = i_version it\<rparr>
            in case tNext env s it c of
                 (False, it1, c1) \<Rightarrow> Some ([e], c1)
               | (True, it1, c1) \<Rightarrow> map_option (\<lambda>(es, c2). (e # es, c2)) (iterRest env s n it1 c1)))"

definition seekAll :: "'c ectx \<Rightarrow> sstable \<Rightarrow> 'c option \<Rightarrow> (entry list \<times> 'c option) option" where
  "seekAll x t c =
     (let (it, t1) = NewIterator t; (it1, c1) = tSeek (x_env x) t1 [] it c in iterRest (x_env x) t1 (x_fuel x) it1 c1)"

fun seekTables :: "'c ectx \<Rightarrow> sstable list \<Rightarrow> 'c option \<Rightarrow> (entry list list \<times> 'c option) option" where
  "seekTables x [] c = Some ([], c)"
| "seekTables x (t # ts) c =
     (case seekAll x t c of
        None \<Rightarrow> None
      | Some (es, c1) \<Rightarrow> map_option (\<lambda>(ess, c2). (es # ess, c2)) (seekTables x ts c1))"

section \<open>Installing the result\<close>

definition without :: "sstable list \<Rightarrow> sstable list \<Rightarrow> sstable list" where
  "without ts remove = filter (\<lambda>t. t_filename t \<notin> t_filename ` set remove) ts"

definition removeFromLevel :: "nat \<Rightarrow> sstable list \<Rightarrow> 'c lsm \<Rightarrow> 'c lsm" where
  "removeFromLevel lvl remove l = l\<lparr>l_levels := (l_levels l)[lvl := without (level l lvl) remove]\<rparr>"

definition discardSSTablePointers :: "'c ectx \<Rightarrow> sstable \<Rightarrow> 'c lsm \<Rightarrow> 'c lsm" where
  "discardSSTablePointers x t l =
     (case ReadAll (x_env x) t (l_cache l) of
        (Inl _, c) \<Rightarrow> l\<lparr>l_cache := c\<rparr>
      | (Inr es, c) \<Rightarrow> foldl (\<lambda>l e. addDiscard (e_value e) l) (l\<lparr>l_cache := c\<rparr>) es)"

definition logTable :: "byte \<Rightarrow> nat \<Rightarrow> sstable \<Rightarrow> 'c lsm \<Rightarrow> 'c lsm" where
  "logTable action lvl t l =
     l\<lparr>l_manifest := appendManifest action lvl (sstSeqNum (t_filename t)) (t_minKey t) (t_maxKey t) (l_manifest l)\<rparr>"

definition retireTable :: "'c ectx \<Rightarrow> nat \<Rightarrow> 'c lsm \<Rightarrow> sstable \<Rightarrow> 'c lsm" where
  "retireTable x lvl l t =
     (let l1 = discardSSTablePointers x t (logTable actDel lvl t l) in l1\<lparr>l_dropped := l_dropped l1 @ [MarkRemove t]\<rparr>)"

definition installTables :: "'c ectx \<Rightarrow> nat \<Rightarrow> sstable list \<Rightarrow> sstable list \<Rightarrow> 'c lsm \<Rightarrow> 'c lsm" where
  "installTables x lvl remove newTables l =
     l\<lparr>l_levels := (l_levels l)[lvl := x_sortTables x (without (level l lvl) remove @ newTables)]\<rparr>"

text \<open>What \<open>compactLevel0\<close> and \<open>compactLevelTable\<close> have in common: merge the overlapping tables of the target level and
  the tables from above, write new tables, replace, log.\<close>

definition mergeInto :: "'c ectx \<Rightarrow> dparams \<Rightarrow> nat \<Rightarrow> sstable list \<Rightarrow> sstable list \<Rightarrow> 'c lsm \<Rightarrow> 'c lsm option" where
  "mergeInto x p fromLevel picked overlaps l =
     (case seekTables x (overlaps @ picked) (l_cache l) of
        None \<Rightarrow> None
      | Some (iters, c) \<Rightarrow>
          (case drainMergedIterator x p iters \<lparr>w_level = d_target p, w_buf = [], w_bytes = 0, w_tables = []\<rparr> (l\<lparr>l_cache := c\<rparr>) of
             None \<Rightarrow> None
           | Some (w, l1) \<Rightarrow>
               (let (newTables, l2) = w_finish x (d_now p) w l1;
                    l3 = removeFromLevel fromLevel picked (installTables x (d_target p) overlaps newTables l2);
                    l4 = foldl (retireTable x fromLevel) (foldl (retireTable x (d_target p)) l3 overlaps) picked
                in Some (foldl (\<lambda>l t. logTable actAdd (d_target p) t l) l4 newTables))))"

section \<open>Choosing what to compact\<close>

definition totalLevelSize :: "'c lsm \<Rightarrow> nat \<Rightarrow> int" where
  "totalLevelSize l lvl = sum_list (map (\<lambda>t. int (length (t_data t))) (level l lvl))"

definition levelRatio :: "'c ectx \<Rightarrow> int" where
  "levelRatio x = (if 0 < x_levelSizeRatio x then x_levelSizeRatio x else 10)"

text \<open>The loop from the last level up; the limits of the levels below are at the head of the list.\<close>

fun limitsFrom :: "int \<Rightarrow> int \<Rightarrow> nat \<Rightarrow> int list \<Rightarrow> nat \<Rightarrow> int list \<times> nat" where
  "limitsFrom baseBytes ratio 0 limits baseLevel = (0 # limits, baseLevel)"
| "limitsFrom baseBytes ratio (Suc lvl) limits baseLevel =
     (let target = hd limits div ratio
      in if target \<le> baseBytes then limitsFrom baseBytes ratio lvl (0 # limits) baseLevel
         else limitsFrom baseBytes ratio lvl (target # limits) (Suc lvl))"

definition calcLevelLimits :: "'c ectx \<Rightarrow> 'c lsm \<Rightarrow> int list \<times> nat" where
  "calcLevelLimits x l =
     (let baseBytes = x_memTableSize x; ratio = levelRatio x; sz = totalLevelSize l (MaxLevels - 1);
          lmaxSize = (if sz < baseBytes * ratio then baseBytes * ratio else sz)
      in limitsFrom baseBytes ratio (MaxLevels - 2) [lmaxSize] (MaxLevels - 1))"

definition findBaseLevel :: "'c ectx \<Rightarrow> 'c lsm \<Rightarrow> nat" where
  "findBaseLevel x l = snd (calcLevelLimits x l)"

definition compactLevel0 :: "'c ectx \<Rightarrow> dparams \<Rightarrow> 'c lsm \<Rightarrow> 'c lsm option" where
  "compactLevel0 x p l =
     (let toCompactL0 = level l 0
      in if toCompactL0 = [] then Some l
         else (let baseLevel = findBaseLevel x l;
                   overlapsBase = filter (\<lambda>t. \<exists>l0Tbl \<in> set toCompactL0. rangesOverlap l0Tbl t) (level l baseLevel)
               in mergeInto x (p\<lparr>d_target := baseLevel\<rparr>) 0 toCompactL0 overlapsBase l))"

definition compactLevelTable :: "'c ectx \<Rightarrow> dparams \<Rightarrow> nat \<Rightarrow> sstable \<Rightarrow> 'c lsm \<Rightarrow> 'c lsm option" where
  "compactLevelTable x p fromLevel pick l =
     (if MaxLevels - 1 \<le> fromLevel then Some l
      else (let toLevel = fromLevel + 1; overlaps = filter (rangesOverlap pick) (level l toLevel)
            in mergeInto x (p\<lparr>d_target := toLevel\<rparr>) fromLevel [pick] overlaps l))"

definition compactLevel :: "'c ectx \<Rightarrow> dparams \<Rightarrow> nat \<Rightarrow> 'c lsm \<Rightarrow> 'c lsm option" where
  "compactLevel x p fromLevel l =
     (if MaxLevels - 1 \<le> fromLevel then Some l
      else if level l fromLevel = [] then Some l
      else compactLevelTable x p fromLevel (hd (level l fromLevel)) l)"

text \<open>The floating-point comparisons \<open>TombstoneRatio() > tombstoneCompactionRatio\<close> and \<open>a / b > c / d\<close> are fields of the
  context.\<close>

definition tombstoneVictim :: "'c ectx \<Rightarrow> 'c lsm \<Rightarrow> (nat \<times> sstable) option" where
  "tombstoneVictim x l =
     (case filter (\<lambda>lvl. \<exists>t \<in> set (level l lvl). x_mostlyDead x t) (rev [0..<MaxLevels - 1]) of
        [] \<Rightarrow> None
      | lvl # _ \<Rightarrow> Some (lvl, hd (filter (x_mostlyDead x) (level l lvl))))"

definition bestLevel :: "'c ectx \<Rightarrow> 'c lsm \<Rightarrow> nat option" where
  "bestLevel x l =
     (let threshold = max 1 (x_compactionThreshold x); l0Count = int (length (level l 0));
          start = (if threshold \<le> l0Count then (Some 0, (l0Count, threshold)) else (None, (1, 1)));
          limits = fst (calcLevelLimits x l)
      in fst (foldl (\<lambda>(best, score) lvl.
                if limits ! lvl \<le> 0 then (best, score)
                else if x_scoreGreater x (totalLevelSize l lvl, limits ! lvl) score then (Some lvl, (totalLevelSize l lvl, limits ! lvl))
                else (best, score)) start [1..<MaxLevels - 1]))"

definition Compact :: "'c ectx \<Rightarrow> dparams \<Rightarrow> 'c lsm \<Rightarrow> 'c lsm option" where
  "Compact x p l =
     (case tombstoneVictim x l of
        Some (lvl, victim) \<Rightarrow> if lvl = 0 then compactLevel0 x p l else compactLevelTable x p lvl victim l
      | None \<Rightarrow>
          (case bestLevel x l of
             None \<Rightarrow> Some l
           | Some lvl \<Rightarrow> if lvl = 0 then compactLevel0 x p l else compactLevel x p lvl l))"

end
