(* ===== verification/Compaction_Correct.thy ===== *)
theory Compaction_Correct
  imports Compaction Tables
begin

text \<open>
  Compaction keeps what readers see: every read at a timestamp that an active or later reader can have gets the same
  answer from the tables written as from the tables merged.
\<close>

section \<open>The versions kept of one key\<close>

lemma keepLoop_find:
  assumes "m \<le> ts" "older \<longrightarrow> (\<exists>e \<in> set kept. e_version e \<le> m)"
  shows "find (\<lambda>e. e_version e \<le> ts) (fst (keepLoop m gs kept older disc)) = find (\<lambda>e. e_version e \<le> ts) (kept @ gs)"
  using assms
proof (induction m gs kept older disc rule: keepLoop.induct)
  case (2 m g gs kept older disc)
  note ts = 2(5) and old = 2(6)
  have fa: "find P (xs @ ys) = (case find P xs of None \<Rightarrow> find P ys | Some e \<Rightarrow> Some e)" for P :: "entry \<Rightarrow> bool" and xs ys
    by (induction xs) auto
  have found: "find (\<lambda>e. e_version e \<le> ts) kept \<noteq> None" if "e \<in> set kept" "e_version e \<le> ts" for e
    using that by (auto simp: find_None_iff)
  show ?case
  proof (cases "kept \<noteq> [] \<and> e_version (last kept) = e_version g")
    case True
    have "find (\<lambda>e. e_version e \<le> ts) (kept @ g # gs) = find (\<lambda>e. e_version e \<le> ts) (kept @ gs)"
      using found [of "last kept"] True by (auto simp: fa split: option.split)
    then show ?thesis using True 2 by simp
  next
    case False
    have "find (\<lambda>e. e_version e \<le> ts) (kept @ g # gs) = find (\<lambda>e. e_version e \<le> ts) (kept @ gs)" if o: "older" "\<not> m < e_version g"
    proof -
      obtain e where "e \<in> set kept" "e_version e \<le> ts" using o(1) old ts by force
      then obtain y where "find (\<lambda>e. e_version e \<le> ts) kept = Some y" using found [of e] by (cases "find (\<lambda>e. e_version e \<le> ts) kept") simp_all
      then show ?thesis by (simp add: fa)
    qed
    then show ?thesis using False 2 by (auto simp: not_less)
  qed
qed simp

lemma keepLoop_subseq: "subseq (fst (keepLoop m gs kept older disc)) (kept @ gs)"
proof (induction m gs kept older disc rule: keepLoop.induct)
  case (2 m g gs kept older disc)
  have "subseq (kept @ gs) (kept @ g # gs)" by (simp add: subseq_append' list_emb_Cons)
  then show ?case using 2 by (auto intro: subseq_order.trans)
qed simp

lemma keepLoop_Nil: "gs \<noteq> [] \<Longrightarrow> fst (keepLoop m gs [] False []) \<noteq> []"
proof -
  have mono: "kept \<noteq> [] \<Longrightarrow> fst (keepLoop m gs kept older disc) \<noteq> []" for gs kept older disc
    by (induction m gs kept older disc rule: keepLoop.induct) auto
  show "gs \<noteq> [] \<Longrightarrow> fst (keepLoop m gs [] False []) \<noteq> []" by (cases gs) (auto simp: mono)
qed

lemma subseq_set: "subseq xs ys \<Longrightarrow> set xs \<subseteq> set ys"
  by (induction rule: list_emb.induct) auto

lemma sorted_wrt_subseq: "subseq xs ys \<Longrightarrow> sorted_wrt R ys \<Longrightarrow> sorted_wrt R xs"
  by (induction rule: list_emb.induct) (auto dest: subseq_set)

definition sort_versions :: "(entry list \<Rightarrow> entry list) \<Rightarrow> bool" where
  "sort_versions srt \<longleftrightarrow> slice_sort (\<lambda>a b. e_version b < e_version a) srt"

definition keptOf :: "(entry list \<Rightarrow> entry list) \<Rightarrow> u64 \<Rightarrow> entry list \<Rightarrow> entry list" where
  "keptOf srt m grp = fst (keepLoop m (srt grp) [] False [])"

lemma keptOf_facts:
  assumes "sort_versions srt"
  shows "newest_first (keptOf srt m grp)" "set (keptOf srt m grp) \<subseteq> set grp" "grp \<noteq> [] \<Longrightarrow> keptOf srt m grp \<noteq> []"
proof -
  have srt: "newest_first (srt grp)" "set (srt grp) = set grp"
    using assms slice_sortD [of "\<lambda>a b. e_version b < e_version a" srt grp] by (auto simp: sort_versions_def newest_first_def not_less)
  have sub: "subseq (keptOf srt m grp) (srt grp)" using keepLoop_subseq [of m "srt grp" "[]"] by (simp add: keptOf_def)
  then show "newest_first (keptOf srt m grp)" using srt(1) unfolding newest_first_def by (rule sorted_wrt_subseq)
  show "set (keptOf srt m grp) \<subseteq> set grp" using sub srt(2) using subseq_set by blast
  show "keptOf srt m grp \<noteq> []" if "grp \<noteq> []"
    using that srt(2) keepLoop_Nil [of "srt grp" m] by (metis keptOf_def set_empty)
qed

lemma keptOf_reads:
  assumes "sort_versions srt" "consistent grp" "\<forall>e \<in> set grp. e_key e = k" "m \<le> ts"
  shows "snapshot_entry (keptOf srt m grp) k ts = snapshot_entry grp k ts"
proof -
  have srt: "newest_first (srt grp)" "set (srt grp) = set grp"
    using assms(1) slice_sortD [of "\<lambda>a b. e_version b < e_version a" srt grp] by (auto simp: sort_versions_def newest_first_def not_less)
  have sn: "snapshot_entry es k ts = find (\<lambda>e. e_version e \<le> ts) es" if "newest_first es" "set es \<subseteq> set grp" for es
  proof -
    have "filter (\<lambda>e. e_key e = k \<and> e_version e \<le> ts) es = filter (\<lambda>e. e_version e \<le> ts) es"
      using that(2) assms(3) by (auto intro: filter_cong)
    then show ?thesis using best_of_find [OF that(1)] by (simp add: snapshot_entry_def)
  qed
  have "snapshot_entry (keptOf srt m grp) k ts = find (\<lambda>e. e_version e \<le> ts) (srt grp)"
    using sn [OF keptOf_facts(1,2) [OF assms(1)]] keepLoop_find [OF assms(4), of False "[]" "srt grp" "[]"] by (simp add: keptOf_def)
  also have "\<dots> = snapshot_entry (srt grp) k ts" using sn [OF srt(1)] srt(2) by simp
  also have "\<dots> = snapshot_entry grp k ts"
    by (rule snapshot_set_cong) (use srt(2) assms(2) in \<open>auto intro: consistent_subset\<close>)
  finally show ?thesis .
qed

lemma markDead_keeps: "keeps (markDead now)"
  by (simp add: keeps_def markDead_def)

lemma markDead_live: "sint now \<le> sint now' \<Longrightarrow> live now' (Some (markDead now e)) = live now' (Some e)"
  using deadAt_mono [of now e now'] by (auto simp: markDead_def deadAt_def)

text \<open>What one group writes.\<close>

definition emit :: "(entry list \<Rightarrow> entry list) \<Rightarrow> dparams \<Rightarrow> 'c lsm \<Rightarrow> entry list \<Rightarrow> entry list" where
  "emit srt p l grp =
     (let kept = keptOf srt (d_minReadTs p) grp in if droppable p l kept then [] else map (markDead (d_now p)) kept)"

lemma emit_reads:
  assumes srt: "sort_versions srt" and grp: "consistent grp" "\<forall>e \<in> set grp. e_key e = k"
    and t: "d_minReadTs p \<le> ts" "sint (d_now p) \<le> sint now"
  shows "reads now (emit srt p l grp) k ts = reads now grp k ts"
proof (cases "droppable p l (keptOf srt (d_minReadTs p) grp)")
  case True
  then obtain h where h: "keptOf srt (d_minReadTs p) grp = [h]" "deadAt (d_now p) h"
    by (auto simp: droppable_def length_Suc_conv)
  have "live now (snapshot_entry [h] k ts) = None"
    using deadAt_mono [OF h(2) t(2)] by (simp add: snapshot_entry_def best_of_def better_def)
  then show ?thesis using keptOf_reads [OF srt grp t(1)] True h(1) by (simp add: reads_def emit_def snapshot_entry_def)
next
  case False
  then have "emit srt p l grp = map (markDead (d_now p)) (keptOf srt (d_minReadTs p) grp)" by (simp add: emit_def Let_def)
  then have "reads now (emit srt p l grp) k ts = reads now (keptOf srt (d_minReadTs p) grp) k ts"
    using reads_map [OF markDead_keeps markDead_live [OF t(2)]] by simp
  then show ?thesis using keptOf_reads [OF srt grp t(1)] by (simp add: reads_def)
qed

lemma emit_keys: "sort_versions srt \<Longrightarrow> e \<in> set (emit srt p l grp) \<Longrightarrow> \<exists>g \<in> set grp. e = markDead (d_now p) g"
  using keptOf_facts(2) [of srt "d_minReadTs p" grp] by (auto simp: emit_def Let_def split: if_splits)

section \<open>All groups\<close>

lemma version_ord_key: "version_ord a b \<Longrightarrow> e_key a \<le> e_key b"
  by (auto simp: version_ord_def)

lemma run_split:
  fixes e :: entry
  defines "t \<equiv> takeWhile (\<lambda>f. e_key f = e_key e)" and "d \<equiv> dropWhile (\<lambda>f. e_key f = e_key e)"
  assumes "sorted_wrt version_ord (e # es)"
  shows "sorted_wrt version_ord (d es)" "\<forall>x \<in> set (d es). e_key e < e_key x" "\<And>x. x \<in> set (e # t es) \<Longrightarrow> e_key x = e_key e" "es = t es @ d es"
proof -
  show es: "es = t es @ d es" by (simp add: t_def d_def)
  have "sorted_wrt version_ord (t es @ d es)" using assms(3) es by simp
  then show sd: "sorted_wrt version_ord (d es)" by (simp add: sorted_wrt_append)
  show "e_key x = e_key e" if "x \<in> set (e # t es)" for x using that by (auto simp: t_def dest: set_takeWhileD)
  show "\<forall>x \<in> set (d es). e_key e < e_key x"
  proof (cases "d es")
    case (Cons y ys)
    have "e_key y \<noteq> e_key e" using Cons by (simp add: d_def dropWhile_eq_Cons_conv)
    moreover have "y \<in> set es" using Cons by (metis d_def list.set_intros(1) set_dropWhileD)
    then have "version_ord e y" using assms(3) by simp
    ultimately have y: "e_key e < e_key y" by (auto simp: version_ord_def)
    have "e_key y \<le> e_key x" if "x \<in> set ys" for x using that sd version_ord_key by (simp add: Cons)
    then show ?thesis using y less_le_trans by (auto simp: Cons)
  qed simp
qed

lemma groupRuns_filter:
  assumes "sorted_wrt version_ord es" "\<And>g e. e \<in> set (f g) \<Longrightarrow> \<exists>x \<in> set g. e_key e = e_key x" "f [] = []"
  shows "filter (\<lambda>e. e_key e = k) (concat (map f (groupRuns es))) = f (filter (\<lambda>e. e_key e = k) es)"
  using assms(1)
proof (induction es rule: groupRuns.induct)
  case (2 e es)
  let ?t = "takeWhile (\<lambda>f. e_key f = e_key e) es" and ?d = "dropWhile (\<lambda>f. e_key f = e_key e) es"
  note sp = run_split [OF 2(2)]
  have rest: "filter (\<lambda>x. e_key x = k) (concat (map f (groupRuns ?d))) = f (filter (\<lambda>x. e_key x = k) ?d)" by (rule 2(1) [OF sp(1)])
  have own: "e_key x = e_key e" if "x \<in> set (f (e # ?t))" for x using assms(2) [OF that] sp(3) by metis
  have fl: "filter (\<lambda>x. e_key x = k) (e # es) = (if e_key e = k then [e] else []) @ filter (\<lambda>x. e_key x = k) ?t @ filter (\<lambda>x. e_key x = k) ?d"
    using filter_append [of "\<lambda>x. e_key x = k" ?t ?d] by (simp only: takeWhile_dropWhile_id) simp
  show ?case
  proof (cases "e_key e = k")
    case True
    have d: "filter (\<lambda>x. e_key x = k) ?d = []" using sp(2) True by (auto simp: filter_empty_conv)
    have ft: "filter (\<lambda>x. e_key x = k) ?t = ?t" and ff: "filter (\<lambda>x. e_key x = k) (f (e # ?t)) = f (e # ?t)"
      using own True by (auto simp: filter_id_conv dest: set_takeWhileD)
    have "filter (\<lambda>x. e_key x = k) (e # es) = e # ?t" unfolding fl d ft using True by simp
    then show ?thesis by (simp only: groupRuns.simps list.map concat.simps filter_append rest d assms(3) ff append_Nil2)
  next
    case False
    have ft: "filter (\<lambda>x. e_key x = k) ?t = []" and ff: "filter (\<lambda>x. e_key x = k) (f (e # ?t)) = []"
      using own False by (auto simp: filter_empty_conv dest: set_takeWhileD)
    have "filter (\<lambda>x. e_key x = k) (e # es) = filter (\<lambda>x. e_key x = k) ?d" unfolding fl ft using False by simp
    then show ?thesis by (simp only: groupRuns.simps list.map concat.simps filter_append rest ff append_Nil)
  qed
qed (simp add: assms(3))

lemma groupRuns_sorted:
  assumes "sorted_wrt version_ord es" "\<And>g e. e \<in> set (f g) \<Longrightarrow> \<exists>x \<in> set g. e_key e = e_key x"
    and "\<And>g. (\<forall>a \<in> set g. \<forall>b \<in> set g. e_key a = e_key b) \<Longrightarrow> sorted_wrt version_ord (f g)"
  shows "sorted_wrt version_ord (concat (map f (groupRuns es))) \<and>
    (\<forall>e \<in> set (concat (map f (groupRuns es))). \<exists>x \<in> set es. e_key e = e_key x)"
  using assms(1)
proof (induction es rule: groupRuns.induct)
  case (2 e es)
  let ?t = "takeWhile (\<lambda>f. e_key f = e_key e) es" and ?d = "dropWhile (\<lambda>f. e_key f = e_key e) es"
  note sp = run_split [OF 2(2)]
  note IH = 2(1) [OF sp(1)]
  have own: "e_key x = e_key e" if "x \<in> set (f (e # ?t))" for x using assms(2) [OF that] sp(3) by metis
  have "\<forall>a \<in> set (e # ?t). \<forall>b \<in> set (e # ?t). e_key a = e_key b" using sp(3) by metis
  then have sf: "sorted_wrt version_ord (f (e # ?t))" by (rule assms(3))
  have cr: "version_ord x y" if x: "x \<in> set (f (e # ?t))" and y: "y \<in> set (concat (map f (groupRuns ?d)))" for x y
  proof -
    obtain z where "z \<in> set ?d" "e_key y = e_key z" using IH y by blast
    then show ?thesis using own [OF x] sp(2) by (simp add: version_ord_def)
  qed
  have "sorted_wrt version_ord (concat (map f (groupRuns (e # es))))"
    unfolding groupRuns.simps list.map concat.simps sorted_wrt_append using sf cr IH by blast
  moreover have "\<exists>x \<in> set (e # es). e_key y = e_key x" if "y \<in> set (concat (map f (groupRuns (e # es))))" for y
  proof (cases "y \<in> set (f (e # ?t))")
    case True
    show ?thesis using own [OF True] by (intro bexI [of _ e]) simp_all
  next
    case False
    then have "y \<in> set (concat (map f (groupRuns ?d)))" using that by simp
    then show ?thesis using IH by (meson list.set_intros(2) set_dropWhileD)
  qed
  ultimately show ?case by blast
qed simp

lemma concat_groupRuns: "concat (groupRuns es) = es"
  by (induction es rule: groupRuns.induct) simp_all

lemma groupRuns_subseq: "g \<in> set (groupRuns es) \<Longrightarrow> subseq g es \<and> (\<exists>k. \<forall>e \<in> set g. e_key e = k)"
proof (induction es rule: groupRuns.induct)
  case (2 e es)
  let ?t = "takeWhile (\<lambda>f. e_key f = e_key e) es" and ?d = "dropWhile (\<lambda>f. e_key f = e_key e) es"
  have d: "subseq ?d es" "subseq ?t es" by (metis takeWhile_dropWhile_id list_emb_append2 subseq_order.refl)
     (metis takeWhile_dropWhile_id list_emb_prefix subseq_order.refl)
  show ?case
  proof (cases "g = e # ?t")
    case True
    then show ?thesis using d(2) by (auto dest: set_takeWhileD)
  next
    case False
    then have "g \<in> set (groupRuns ?d)" using 2(2) by simp
    from 2(1) [OF this] d(1) show ?thesis by (meson list_emb_Cons subseq_order.trans)
  qed
qed simp

lemma emit_sorted:
  assumes "sort_versions srt" "\<forall>a \<in> set g. \<forall>b \<in> set g. e_key a = e_key b"
  shows "sorted_wrt version_ord (emit srt p l g)"
proof -
  note k = keptOf_facts(1,2) [OF assms(1), where m = "d_minReadTs p" and grp = g]
  have "version_ord a b" if "a \<in> set (keptOf srt (d_minReadTs p) g)" "b \<in> set (keptOf srt (d_minReadTs p) g)" "e_version b \<le> e_version a" for a b
    using that k(2) assms(2) by (auto simp: version_ord_def)
  then have "sorted_wrt version_ord (keptOf srt (d_minReadTs p) g)"
    using k(1) unfolding newest_first_def by (rule sorted_wrt_mono_rel)
  then have "sorted_wrt version_ord (map (markDead (d_now p)) (keptOf srt (d_minReadTs p) g))"
    unfolding sorted_wrt_map by (rule sorted_wrt_mono_rel [rotated]) (auto simp: version_ord_def markDead_def)
  then show ?thesis by (simp add: emit_def Let_def)
qed

lemma length_emit: "sort_versions srt \<Longrightarrow> length (emit srt p l g) \<le> length g"
proof -
  assume s: "sort_versions srt"
  have "length (keptOf srt (d_minReadTs p) g) \<le> length (srt g)"
    using list_emb_length [OF keepLoop_subseq [of "d_minReadTs p" "srt g" "[]" False "[]"]] by (simp add: keptOf_def)
  moreover have "length (srt g) = length g" using s by (metis slice_sort_def sort_versions_def size_mset)
  ultimately show ?thesis by (simp add: emit_def Let_def)
qed

lemma groups_emit:
  assumes srt: "sort_versions srt" and es: "sorted_wrt version_ord es"
  shows "sorted_wrt version_ord (concat (map (emit srt p l) (groupRuns es)))"
    "e \<in> set (concat (map (emit srt p l) (groupRuns es))) \<Longrightarrow> \<exists>g \<in> set es. e = markDead (d_now p) g"
    "length (concat (map (emit srt p l) (groupRuns es))) \<le> length es"
proof -
  have "\<exists>x \<in> set g. e_key e = e_key x" if "e \<in> set (emit srt p l g)" for g e
    using emit_keys [OF srt that] by (auto simp: markDead_def split: if_splits)
  then show "sorted_wrt version_ord (concat (map (emit srt p l) (groupRuns es)))"
    using groupRuns_sorted [where f = "emit srt p l", OF es] emit_sorted [OF srt] by blast
  have sub: "set g \<subseteq> set es" if "g \<in> set (groupRuns es)" for g using groupRuns_subseq [OF that] by (simp add: subseq_set)
  show "\<exists>g \<in> set es. e = markDead (d_now p) g" if "e \<in> set (concat (map (emit srt p l) (groupRuns es)))"
    using that emit_keys [OF srt] sub by (fastforce simp del: groupRuns.simps)
  have "length (concat (map (emit srt p l) gs)) \<le> length (concat gs)" for gs
    by (induction gs) (auto intro: add_mono length_emit [OF srt])
  then show "length (concat (map (emit srt p l) (groupRuns es))) \<le> length es" using concat_groupRuns [of es] by metis
qed

lemma groups_apart:
  assumes srt: "sort_versions srt" and es: "sorted_wrt version_ord es"
  shows "sorted_wrt apart (map (emit srt p l) (groupRuns es))"
  using es
proof (induction es rule: groupRuns.induct)
  case (2 e es)
  let ?t = "takeWhile (\<lambda>f. e_key f = e_key e) es" and ?d = "dropWhile (\<lambda>f. e_key f = e_key e) es"
  note sp = run_split [OF 2(2)]
  have k: "e_key (markDead now x) = e_key x" for now x by (simp add: markDead_def)
  have "apart (emit srt p l (e # ?t)) (emit srt p l g)" if g: "g \<in> set (groupRuns ?d)" for g
  proof -
    have "set g \<subseteq> set ?d" using groupRuns_subseq [OF g] by (simp add: subseq_set)
    then have "e_key x \<noteq> e_key y" if "x \<in> set (e # ?t)" "y \<in> set g" for x y using sp(2) sp(3) [OF that(1)] that(2) by fastforce
    then show ?thesis unfolding apart_def using emit_keys [OF srt] k by metis
  qed
  then show ?case using 2(1) [OF sp(1)] by (simp only: groupRuns.simps list.map sorted_wrt.simps list.set_map) blast
qed simp

lemma groups_reads:
  assumes srt: "sort_versions srt" and es: "sorted_wrt version_ord es" "consistent es"
    and t: "d_minReadTs p \<le> ts" "sint (d_now p) \<le> sint now"
  shows "reads now (concat (map (emit srt p l) (groupRuns es))) k ts = reads now es k ts"
proof -
  have e: "\<exists>x \<in> set g. e_key e = e_key x" if "e \<in> set (emit srt p l g)" for g e
    using emit_keys [OF srt that] by (auto simp: markDead_def split: if_splits)
  have n: "emit srt p l [] = []" using emit_keys [OF srt, of "hd (emit srt p l [])" p l "[]"] by (cases "emit srt p l []") auto
  have "reads now (concat (map (emit srt p l) (groupRuns es))) k ts = reads now (emit srt p l (filter (\<lambda>e. e_key e = k) es)) k ts"
    using groupRuns_filter [where f = "emit srt p l", OF es(1) e n] reads_filter_key by metis
  also have "\<dots> = reads now (filter (\<lambda>e. e_key e = k) es) k ts"
    by (rule emit_reads [OF srt _ _ t]) (use es(2) in \<open>auto intro: consistent_subset\<close>)
  finally show ?thesis by (simp add: reads_filter_key)
qed

section \<open>Reading the inputs\<close>

lemma iterRest_ok:
  assumes "block_cache env cinv view" "serves env s bs" "covers env s bs right"
  shows "i_valid it \<Longrightarrow> cur_entry it = wire e \<Longrightarrow> iter_rem bs it rs \<Longrightarrow> agrees cinv view right c \<Longrightarrow> length rs < n \<Longrightarrow>
    \<exists>c1. iterRest env s n it c = Some (map wire (e # rs), c1) \<and> agrees cinv view right c1"
proof (induction n arbitrary: it e rs c)
  case (Suc n)
  have st: "iterRest env s (Suc n) it c = (case tNext env s it c of
      (False, it1, c1) \<Rightarrow> Some ([wire e], c1)
    | (True, it1, c1) \<Rightarrow> map_option (\<lambda>(es, c2). (wire e # es, c2)) (iterRest env s n it1 c1))"
    using Suc.prems(1) by (simp add: Suc.prems(2) [unfolded cur_entry_def] Let_def)
  note nx = block_cache.tNext_ok [OF assms Suc.prems(4,3)]
  show ?case
  proof (cases rs)
    case Nil
    then obtain it1 c1 where "tNext env s it c = (False, it1, c1)" "agrees cinv view right c1"
      using nx [unfolded Nil list.case] by blast
    then show ?thesis unfolding st using Nil by simp
  next
    case (Cons f rs')
    obtain it1 c1 where it: "tNext env s it c = (True, it1, c1)" "i_valid it1" "cur_entry it1 = wire f" "iter_rem bs it1 rs'"
      "agrees cinv view right c1" using nx [unfolded Cons list.case] by blast
    have fl: "length rs' < n" using Suc.prems(5) Cons by simp
    obtain c2 where "iterRest env s n it1 c1 = Some (map wire (f # rs'), c2)" "agrees cinv view right c2"
      using Suc.IH [OF it(2-5) fl] by blast
    then show ?thesis unfolding st using it(1) Cons by simp
  qed
qed simp

lemma seekAll_ok:
  assumes st: "stored (x_env x) cinv view reg dir content T n c" "t \<in> T" and f: "length (content t) \<le> x_fuel x" "0 < x_fuel x"
  shows "\<exists>c1. seekAll x t c = Some (map wire (content t), c1) \<and> stored (x_env x) cinv view reg dir content T n c1"
proof -
  obtain bs where bc: "block_cache (x_env x) cinv view" and "serves (x_env x) t bs" and bs: "serves (x_env x) (tIncrRef t) bs"
    "concat bs = content t" "blocks_sorted bs" and "tDecrRef (tIncrRef t) = t" "covers (x_env x) t bs (dir_right (x_env x) dir T n)"
    and cv: "covers (x_env x) (tIncrRef t) bs (dir_right (x_env x) dir T n)"
    by (rule serving_blocks [OF stored_serving(1) [OF st]])
  note sk = block_cache.tSeek_ok [OF bc bs(1) cv bs(3) stored_serving(2) [OF st], of "[]" "fst (NewIterator t)", unfolded bs(2)]
  have d: "dropWhile (\<lambda>e. e_key e < []) (content t) = content t" by (cases "content t") simp_all
  have sa: "seekAll x t c = (case tSeek (x_env x) (tIncrRef t) [] (fst (NewIterator t)) c of (it1, c1) \<Rightarrow>
      iterRest (x_env x) (tIncrRef t) (x_fuel x) it1 c1)" by (simp add: seekAll_def NewIterator_def)
  show ?thesis
  proof (cases "content t")
    case Nil
    then obtain it1 c1 where "tSeek (x_env x) (tIncrRef t) [] (fst (NewIterator t)) c = (it1, c1)" "\<not> i_valid it1"
      "agrees cinv view (dir_right (x_env x) dir T n) c1" using sk [unfolded d, unfolded Nil list.case] by (elim exE conjE)
    moreover obtain m where "x_fuel x = Suc m" using f(2) by (cases "x_fuel x") auto
    ultimately show ?thesis using Nil stored_cache [OF st(1)] by (simp add: sa del: iterRest.simps(1))
  next
    case (Cons e rs)
    then obtain it1 c1 where it: "tSeek (x_env x) (tIncrRef t) [] (fst (NewIterator t)) c = (it1, c1)" "i_valid it1" "cur_entry it1 = wire e"
      "iter_rem bs it1 rs" "agrees cinv view (dir_right (x_env x) dir T n) c1" using sk [unfolded d, unfolded Cons list.case] by (elim exE conjE)
    have fl: "length rs < x_fuel x" using f(1) Cons by simp
    obtain c2 where "iterRest (x_env x) (tIncrRef t) (x_fuel x) it1 c1 = Some (map wire (e # rs), c2)"
      "agrees cinv view (dir_right (x_env x) dir T n) c2" using iterRest_ok [OF bc bs(1) cv it(2-5) fl] by (elim exE conjE)
    then show ?thesis using it(1) Cons stored_cache [OF st(1)] by (simp add: sa)
  qed
qed

lemma seekTables_ok:
  assumes "stored (x_env x) cinv view reg dir content T n c" "set ts \<subseteq> T" "\<forall>t \<in> set ts. length (content t) \<le> x_fuel x" "0 < x_fuel x"
  shows "\<exists>c1. seekTables x ts c = Some (map (\<lambda>t. map wire (content t)) ts, c1) \<and> stored (x_env x) cinv view reg dir content T n c1"
  using assms
proof (induction ts arbitrary: c)
  case (Cons t ts)
  obtain c1 where c1: "seekAll x t c = Some (map wire (content t), c1)" "stored (x_env x) cinv view reg dir content T n c1"
    using seekAll_ok [OF Cons.prems(1), of t] Cons.prems by auto
  obtain c2 where "seekTables x ts c1 = Some (map (\<lambda>t. map wire (content t)) ts, c2)" "stored (x_env x) cinv view reg dir content T n c2"
    using Cons.IH [OF c1(2)] Cons.prems by auto
  then show ?case using c1(1) by simp
qed simp

lemma wire_keeps: "keeps wire"
  by (simp add: keeps_def)

lemma wire_live: "live now (Some (wire e)) = live now (Some e)"
  by (simp add: deadAt_def wire_def)

lemmas reads_wire = reads_map [OF wire_keeps wire_live]

lemma sorted_version_ord_wire: "sorted_wrt version_ord (map wire es) \<longleftrightarrow> sorted_wrt version_ord es"
proof -
  have "(\<lambda>x y. version_ord (wire x) (wire y)) = version_ord" by (intro ext) (simp add: version_ord_def)
  then show ?thesis by (simp add: sorted_wrt_map)
qed

end
