(* ===== verification/Lsm_Correct.thy ===== *)
theory Lsm_Correct
  imports Compaction_Correct
begin

text \<open>
  The levels as a whole: the table writer, the merge of tables into a level, and the invariant of the levels under
  which a search from newer to older tables answers like the collection of all versions.  Compaction keeps the
  invariant and every answer.
\<close>

section \<open>The state between operations\<close>

definition lsm_ok :: "'c ectx \<Rightarrow> ('c \<Rightarrow> bool) \<Rightarrow> ('c \<Rightarrow> bytes \<Rightarrow> bytes option) \<Rightarrow> (sstable \<Rightarrow> entry list) \<Rightarrow> sstable set \<Rightarrow> 'c lsm \<Rightarrow> bool" where
  "lsm_ok x cinv view content T l \<longleftrightarrow> stored (x_env x) cinv view (x_reg x) (x_dir x) content T (l_nextSeq l) (l_cache l)"

definition ctx_ok :: "'c ectx \<Rightarrow> bool" where
  "ctx_ok x \<longleftrightarrow> sort_versions (x_sortVersions x) \<and> (\<forall>q i. length (x_nonce x q i) = 12)"

lemma lsm_ok_cong: "l_nextSeq l' = l_nextSeq l \<Longrightarrow> l_cache l' = l_cache l \<Longrightarrow> lsm_ok x cinv view content T l' \<longleftrightarrow> lsm_ok x cinv view content T l"
  by (simp add: lsm_ok_def)

lemma addDiscard_fields [simp]:
  "l_levels (addDiscard v l) = l_levels l" "l_nextSeq (addDiscard v l) = l_nextSeq l" "l_cache (addDiscard v l) = l_cache l"
  "l_manifest (addDiscard v l) = l_manifest l" "l_dropped (addDiscard v l) = l_dropped l"
  by (simp_all add: addDiscard_def Let_def)

lemma addCompactionDiscard_fields [simp]:
  "l_levels (addCompactionDiscard v l) = l_levels l" "l_nextSeq (addCompactionDiscard v l) = l_nextSeq l"
  "l_cache (addCompactionDiscard v l) = l_cache l" "l_manifest (addCompactionDiscard v l) = l_manifest l"
  "l_dropped (addCompactionDiscard v l) = l_dropped l"
  by (simp_all add: addCompactionDiscard_def Let_def)

lemma foldl_discard_fields [simp]:
  "l_levels (foldl (\<lambda>l v. addCompactionDiscard v l) l vs) = l_levels l" "l_nextSeq (foldl (\<lambda>l v. addCompactionDiscard v l) l vs) = l_nextSeq l"
  "l_cache (foldl (\<lambda>l v. addCompactionDiscard v l) l vs) = l_cache l" "l_manifest (foldl (\<lambda>l v. addCompactionDiscard v l) l vs) = l_manifest l"
  "l_dropped (foldl (\<lambda>l v. addCompactionDiscard v l) l vs) = l_dropped l"
  by (induction vs arbitrary: l) simp_all

lemma droppable_cong: "l_levels l' = l_levels l \<Longrightarrow> droppable p l' kept = droppable p l kept"
  by (simp add: droppable_def keyMayExistBelow_def level_def)

section \<open>The table writer\<close>

definition entryBytes :: "entry \<Rightarrow> nat" where
  "entryBytes e = length (e_key e) + length (e_value e) + 33"

definition bytesOf :: "entry list \<Rightarrow> nat" where
  "bytesOf es = sum_list (map entryBytes es)"

lemma bytesOf_simps [simp]: "bytesOf [] = 0" "bytesOf (e # es) = entryBytes e + bytesOf es" "bytesOf (xs @ ys) = bytesOf xs + bytesOf ys"
  by (simp_all add: bytesOf_def)

lemma bytesOf_records: "length (records es) \<le> bytesOf es"
proof (induction es)
  case (Cons e es)
  have "length (encodeRecord e) \<le> entryBytes e" by (simp add: encodeRecord_def Let_def entryBytes_def hdr_Encode_def)
  then show ?case using Cons by simp
qed simp

lemma bytesOf_subseq: "subseq xs ys \<Longrightarrow> bytesOf xs \<le> bytesOf ys"
  by (induction rule: list_emb.induct) auto

lemma bytesOf_mset: "mset xs = mset ys \<Longrightarrow> bytesOf xs = bytesOf ys"
  unfolding bytesOf_def by (metis mset_map sum_mset_sum_list)

lemma bytesOf_emit:
  assumes "sort_versions srt" shows "bytesOf (emit srt p l grp) \<le> bytesOf grp"
proof -
  have m: "bytesOf (map (markDead now) es) = bytesOf es" for now es
    by (induction es) (simp_all add: entryBytes_def markDead_def)
  have "bytesOf (keptOf srt (d_minReadTs p) grp) \<le> bytesOf (srt grp)"
    using bytesOf_subseq keepLoop_subseq [of "d_minReadTs p" "srt grp" "[]"] by (simp add: keptOf_def)
  moreover have "bytesOf (srt grp) = bytesOf grp" using assms by (auto intro: bytesOf_mset simp: sort_versions_def slice_sort_def)
  ultimately show ?thesis by (simp add: emit_def Let_def m)
qed

lemma foldl_w_add: "foldl w_add w es = w\<lparr>w_buf := w_buf w @ es, w_bytes := w_bytes w + bytesOf es\<rparr>"
  by (induction es arbitrary: w) (simp_all add: w_add_def entryBytes_def algebra_simps)

text \<open>\<open>out\<close> has been written so far: into new tables, the rest waits in the buffer.\<close>

definition w_inv :: "'c ectx \<Rightarrow> ('c \<Rightarrow> bool) \<Rightarrow> ('c \<Rightarrow> bytes \<Rightarrow> bytes option) \<Rightarrow> sstable set \<Rightarrow> (sstable \<Rightarrow> entry list) \<Rightarrow> 'c lsm \<Rightarrow>
    entry list \<Rightarrow> (sstable \<Rightarrow> entry list) \<Rightarrow> lwriter \<times> 'c lsm \<Rightarrow> bool" where
  "w_inv x cinv view T content0 l0 out content wl \<longleftrightarrow>
     (case wl of (w, l) \<Rightarrow> lsm_ok x cinv view content (T \<union> set (w_tables w)) l \<and> (\<forall>t \<in> T. content t = content0 t) \<and>
        distinct (w_tables w) \<and> T \<inter> set (w_tables w) = {} \<and> sorted_wrt apart (map content (w_tables w) @ [w_buf w]) \<and> concat (map content (w_tables w)) @ w_buf w = out \<and>
        w_bytes w = bytesOf (w_buf w) \<and> unat (l_nextSeq l) + length (w_buf w) \<le> unat (l_nextSeq l0) + length out \<and>
        l_levels l = l_levels l0 \<and> l_manifest l = l_manifest l0 \<and> l_dropped l = l_dropped l0)"

definition out_ok :: "entry list \<Rightarrow> bool" where
  "out_ok out \<longleftrightarrow> sorted_wrt version_ord out \<and> (\<forall>e \<in> set out. rec_ok e \<and> length (e_key e) \<le> 65535)"

lemma version_ord_sorted: "sorted_wrt version_ord es \<Longrightarrow> key_sorted es"
  by (simp add: sorted_wrt_map) (erule sorted_wrt_mono_rel [rotated], simp add: version_ord_key)

lemma out_ok_input: "out_ok es \<Longrightarrow> bytesOf es < 2 ^ 27 \<Longrightarrow> input_ok es \<and> length (records es) < 2 ^ 27"
  using bytesOf_records [of es] version_ord_sorted [of es] by (simp add: out_ok_def input_ok_def)

lemma w_flush_ok:
  assumes x: "ctx_ok x" and w: "w_inv x cinv view T content0 l0 out content (w, l)" and out: "out_ok out"
    and b: "w_bytes w < 2 ^ 27" and n: "unat (l_nextSeq l0) + length out < 2 ^ 64"
  shows "\<exists>content1 w1 l1. w_flush x now w l = (w1, l1) \<and> w_inv x cinv view T content0 l0 out content1 (w1, l1) \<and> w_buf w1 = [] \<and> w_bytes w1 = 0"
proof (cases "w_buf w = []")
  case True
  then show ?thesis using w by (auto simp: w_flush_def w_inv_def)
next
  case False
  note W = w [unfolded w_inv_def prod.case]
  let ?n = "l_nextSeq l"
  have o: "out_ok (w_buf w)" using out W by (auto simp: out_ok_def sorted_wrt_append)
  have inp: "input_ok (w_buf w)" "length (records (w_buf w)) < 2 ^ 27" using out_ok_input [OF o] b W by auto
  have lt: "unat ?n < 2 ^ 64 - 1" using W n False by (cases "w_buf w") auto
  then have nn: "?n < ?n + 1" and un: "unat (?n + 1) = Suc (unat ?n)"
    by (simp_all add: word_less_nat_alt unat_word_ariths)
  obtain s c1 where s: "createAtLevel (x_env x) (x_nonce x (?n + 1)) (x_ratio x) now (sstFileName (x_dir x) (?n + 1)) (w_buf w) (int (w_level w))
      (x_reg x) (l_cache l) = (Inr s, c1)" "s \<notin> T \<union> set (w_tables w)"
    "stored (x_env x) cinv view (x_reg x) (x_dir x) (content(s := w_buf w)) (insert s (T \<union> set (w_tables w))) (?n + 1) c1"
    using stored_create [of "x_env x" cinv view "x_reg x" "x_dir x" content "T \<union> set (w_tables w)" ?n "l_cache l" "x_nonce x (?n + 1)"
        "w_buf w" "x_ratio x" now "int (w_level w)"] W x o inp False nn
    by (auto simp: lsm_ok_def ctx_ok_def out_ok_def)
  define w1 where "w1 = w\<lparr>w_buf := [], w_bytes := 0, w_tables := w_tables w @ [s]\<rparr>"
  have "w_flush x now w l = (w1, l\<lparr>l_nextSeq := ?n + 1, l_cache := c1\<rparr>)"
    using False s(1) by (simp add: w_flush_def w1_def Let_def)
  moreover have "map (content(s := w_buf w)) (w_tables w) = map content (w_tables w)" using s(2) by auto
  then have "w_inv x cinv view T content0 l0 out (content(s := w_buf w)) (w1, l\<lparr>l_nextSeq := ?n + 1, l_cache := c1\<rparr>)"
    using W s un False by (cases "w_buf w") (auto simp: w_inv_def w1_def lsm_ok_def sorted_wrt_append apart_def)
  ultimately show ?thesis by (auto simp: w1_def)
qed

lemma w_inv_add:
  assumes "w_inv x cinv view T content0 l0 out content (w, l)" "l_levels l' = l_levels l" "l_nextSeq l' = l_nextSeq l"
    "l_cache l' = l_cache l" "l_manifest l' = l_manifest l" "l_dropped l' = l_dropped l" "apart out es"
  shows "w_inv x cinv view T content0 l0 (out @ es) content (foldl w_add w es, l')"
  using assms by (auto simp: w_inv_def foldl_w_add lsm_ok_def sorted_wrt_append apart_def)

lemma processGroup_ok:
  assumes x: "ctx_ok x" and w: "w_inv x cinv view T content0 l0 out content (w, l)" and b: "w_bytes w < compactionTableBytes"
    and grp: "bytesOf grp \<le> 2 ^ 26" and out: "out_ok (out @ emit (x_sortVersions x) p l0 grp)"
    and n: "unat (l_nextSeq l0) + length (out @ emit (x_sortVersions x) p l0 grp) < 2 ^ 64" and ap: "apart out (emit (x_sortVersions x) p l0 grp)"
  shows "\<exists>content1 w1 l1. processGroup x p (w, l) grp = (w1, l1) \<and>
    w_inv x cinv view T content0 l0 (out @ emit (x_sortVersions x) p l0 grp) content1 (w1, l1) \<and> w_bytes w1 < compactionTableBytes"
proof -
  let ?srt = "x_sortVersions x"
  obtain kept disc where kd: "keepLoop (d_minReadTs p) (?srt grp) [] False [] = (kept, disc)" by fastforce
  then have kept: "keptOf ?srt (d_minReadTs p) grp = kept" by (simp add: keptOf_def)
  define l1 where "l1 = foldl (\<lambda>l v. addCompactionDiscard v l) l disc"
  have l1: "l_levels l1 = l_levels l" "l_nextSeq l1 = l_nextSeq l" "l_cache l1 = l_cache l" "l_manifest l1 = l_manifest l" "l_dropped l1 = l_dropped l"
    by (simp_all add: l1_def)
  have lv: "l_levels l1 = l_levels l0" using w l1 by (simp add: w_inv_def)
  have pg: "processGroup x p (w, l) grp = (if droppable p l0 kept then (w, addCompactionDiscard (e_value (hd kept)) l1)
      else w_maybeFlush x (d_now p) (foldl w_add w (map (markDead (d_now p)) kept)) l1)"
    by (simp add: processGroup_def kd l1_def [symmetric] droppable_cong [OF lv])
  show ?thesis
  proof (cases "droppable p l0 kept")
    case True
    then have "emit ?srt p l0 grp = []" by (simp add: emit_def kept)
    moreover have "w_inv x cinv view T content0 l0 (out @ []) content (foldl w_add w [], addCompactionDiscard (e_value (hd kept)) l1)"
      by (rule w_inv_add [OF w]) (simp_all add: l1 apart_def)
    ultimately show ?thesis using pg True b by auto
  next
    case False
    let ?w = "foldl w_add w (map (markDead (d_now p)) kept)"
    have em: "emit ?srt p l0 grp = map (markDead (d_now p)) kept" using False by (simp add: emit_def kept)
    have wi: "w_inv x cinv view T content0 l0 (out @ emit ?srt p l0 grp) content (?w, l1)"
      unfolding em by (rule w_inv_add [OF w]) (use ap in \<open>simp_all add: l1 em\<close>)
    show ?thesis
    proof (cases "compactionTableBytes \<le> w_bytes ?w")
      case True
      have "bytesOf (emit ?srt p l0 grp) \<le> bytesOf grp" using x by (intro bytesOf_emit) (simp add: ctx_ok_def)
      then have "w_bytes ?w < 2 ^ 27" using b grp by (simp add: foldl_w_add em compactionTableBytes_def)
      then obtain content1 w1 l2 where "w_flush x (d_now p) ?w l1 = (w1, l2)"
        "w_inv x cinv view T content0 l0 (out @ emit ?srt p l0 grp) content1 (w1, l2)" "w_bytes w1 = 0"
        using w_flush_ok [OF x wi out _ n, of "d_now p"] by blast
      then show ?thesis using pg False True by (auto simp: w_maybeFlush_def compactionTableBytes_def)
    next
      case small: False
      then show ?thesis using pg False wi by (auto simp: w_maybeFlush_def)
    qed
  qed
qed

lemma groups_ok:
  assumes x: "ctx_ok x" and w: "w_inv x cinv view T content0 l0 out content (w, l)" and b: "w_bytes w < compactionTableBytes"
    and grps: "\<forall>g \<in> set grps. bytesOf g \<le> 2 ^ 26"
    and out: "out_ok (out @ concat (map (emit (x_sortVersions x) p l0) grps))"
    and n: "unat (l_nextSeq l0) + length (out @ concat (map (emit (x_sortVersions x) p l0) grps)) < 2 ^ 64"
    and ap: "sorted_wrt apart (out # map (emit (x_sortVersions x) p l0) grps)"
  shows "\<exists>content1 w1 l1. foldl (processGroup x p) (w, l) grps = (w1, l1) \<and>
    w_inv x cinv view T content0 l0 (out @ concat (map (emit (x_sortVersions x) p l0) grps)) content1 (w1, l1) \<and> w_bytes w1 < compactionTableBytes"
  using w b grps out n ap
proof (induction grps arbitrary: w l out content)
  case (Cons g grps)
  let ?e = "emit (x_sortVersions x) p l0 g"
  have out1: "out_ok (out @ ?e)" using Cons.prems(4) by (auto simp: out_ok_def sorted_wrt_append)
  have n1: "unat (l_nextSeq l0) + length (out @ ?e) < 2 ^ 64" using Cons.prems(5) by simp
  obtain content1 w1 l1 where p: "processGroup x p (w, l) g = (w1, l1)" "w_inv x cinv view T content0 l0 (out @ ?e) content1 (w1, l1)"
    "w_bytes w1 < compactionTableBytes"
    using processGroup_ok [OF x Cons.prems(1,2) _ out1 n1] Cons.prems(3,6) by auto
  have "\<exists>content1 w2 l2. foldl (processGroup x p) (w1, l1) grps = (w2, l2) \<and>
    w_inv x cinv view T content0 l0 ((out @ ?e) @ concat (map (emit (x_sortVersions x) p l0) grps)) content1 (w2, l2) \<and> w_bytes w2 < compactionTableBytes"
    by (rule Cons.IH [OF p(2,3)]) (use Cons.prems in \<open>simp_all add: apart_def ball_Un\<close>)
  then show ?case using p(1) by simp
qed auto

section \<open>Merging tables\<close>

text \<open>Bounds on the inputs of a merge: enough fuel for the iterators, no more than 64 MiB of versions of one key, and file
  numbers left.\<close>

definition merge_ok :: "'c ectx \<Rightarrow> (sstable \<Rightarrow> entry list) \<Rightarrow> sstable set \<Rightarrow> 'c lsm \<Rightarrow> sstable list \<Rightarrow> bool" where
  "merge_ok x content T l ts \<longleftrightarrow> set ts \<subseteq> T \<and> (\<forall>t \<in> set ts. length (content t) \<le> x_fuel x) \<and> 0 < x_fuel x \<and>
     consistent (concat (map content ts)) \<and> (\<forall>k. bytesOf (filter (\<lambda>e. e_key e = k) (concat (map content ts))) \<le> 2 ^ 26) \<and>
     unat (l_nextSeq l) + length (concat (map content ts)) < 2 ^ 64"

definition written :: "'c ectx \<Rightarrow> dparams \<Rightarrow> 'c lsm \<Rightarrow> entry list \<Rightarrow> entry list \<Rightarrow> bool" where
  "written x p l ins out \<longleftrightarrow> (\<exists>es. sorted_wrt version_ord es \<and> mset es = mset (map wire ins) \<and>
     out = concat (map (emit (x_sortVersions x) p l) (groupRuns es)))"

lemma bytesOf_wire: "bytesOf (map wire es) \<le> bytesOf es"
  by (induction es) (auto simp: entryBytes_def wire_def)

lemma written_reads:
  assumes "ctx_ok x" "written x p l ins out" "consistent ins" "d_minReadTs p \<le> ts" "sint (d_now p) \<le> sint now"
  shows "reads now out k ts = reads now ins k ts"
proof -
  obtain es where es: "sorted_wrt version_ord es" "mset es = mset (map wire ins)"
    "out = concat (map (emit (x_sortVersions x) p l) (groupRuns es))" using assms(2) by (auto simp: written_def)
  have st: "set es = set (map wire ins)" using es(2) by (rule mset_eq_setD)
  have c: "consistent (map wire ins)" by (rule consistent_map [OF wire_keeps assms(3)])
  then have ce: "consistent es" using st by (simp add: consistent_def)
  have "reads now out k ts = reads now es k ts"
    unfolding es(3) by (rule groups_reads [OF _ es(1) ce assms(4,5)]) (use assms(1) in \<open>simp add: ctx_ok_def\<close>)
  also have "\<dots> = reads now (map wire ins) k ts" using snapshot_set_cong [OF st ce] by (simp add: reads_def)
  finally show ?thesis by (simp add: reads_wire)
qed

lemma written_found:
  assumes x: "ctx_ok x" and w: "written x p l ins out" and c: "consistent ins" and ts: "d_minReadTs p \<le> ts" and t: "d_target p \<noteq> MaxLevels - 1"
  shows "snapshot_entry out k ts = None \<longleftrightarrow> snapshot_entry ins k ts = None"
proof -
  obtain es where es: "sorted_wrt version_ord es" "mset es = mset (map wire ins)"
    "out = concat (map (emit (x_sortVersions x) p l) (groupRuns es))" using w by (auto simp: written_def)
  have srt: "sort_versions (x_sortVersions x)" using x by (simp add: ctx_ok_def)
  have st: "set es = set (map wire ins)" using es(2) by (rule mset_eq_setD)
  have ce: "consistent es" using st consistent_map [OF wire_keeps c] by (simp add: consistent_def)
  have em: "emit (x_sortVersions x) p l g = map (markDead (d_now p)) (keptOf (x_sortVersions x) (d_minReadTs p) g)" for g
    using t by (simp add: emit_def droppable_def Let_def)
  let ?g = "filter (\<lambda>e. e_key e = k) es"
  have e: "\<exists>y \<in> set g. e_key e = e_key y" if "e \<in> set (emit (x_sortVersions x) p l g)" for g e
    using emit_keys [OF srt that] by (auto simp: markDead_def split: if_splits)
  have n: "emit (x_sortVersions x) p l [] = []" using e [of "hd (emit (x_sortVersions x) p l [])" "[]"] by (cases "emit (x_sortVersions x) p l []") auto
  have "snapshot_entry out k ts = snapshot_entry (emit (x_sortVersions x) p l ?g) k ts"
    using groupRuns_filter [where f = "emit (x_sortVersions x) p l", OF es(1) e n] snapshot_entry_filter_key es(3) by metis
  also have "\<dots> = map_option (markDead (d_now p)) (snapshot_entry (keptOf (x_sortVersions x) (d_minReadTs p) ?g) k ts)"
    by (simp add: em snapshot_map [OF markDead_keeps])
  also have "snapshot_entry (keptOf (x_sortVersions x) (d_minReadTs p) ?g) k ts = snapshot_entry ?g k ts"
    by (rule keptOf_reads [OF srt _ _ ts]) (use ce in \<open>auto intro: consistent_subset\<close>)
  also have "snapshot_entry ?g k ts = snapshot_entry (map wire ins) k ts"
    using snapshot_set_cong [OF st ce] by (simp add: snapshot_entry_filter_key)
  finally show ?thesis by (simp add: snapshot_map [OF wire_keeps])
qed

lemma written_consistent:
  assumes "ctx_ok x" "written x p l ins out" "consistent ins"
  shows "consistent out"
proof -
  obtain es where es: "sorted_wrt version_ord es" "mset es = mset (map wire ins)"
    "out = concat (map (emit (x_sortVersions x) p l) (groupRuns es))" using assms(2) by (auto simp: written_def)
  have "consistent es" using consistent_map [OF wire_keeps assms(3)] mset_eq_setD [OF es(2)] by (simp add: consistent_def)
  then have "consistent (map (markDead (d_now p)) es)" by (rule consistent_map [OF markDead_keeps])
  moreover have "set out \<subseteq> set (map (markDead (d_now p)) es)"
    using groups_emit(2) [of "x_sortVersions x" es _ p l] es assms(1) by (auto simp: ctx_ok_def)
  ultimately show ?thesis by (rule consistent_subset)
qed

lemma written_entries:
  assumes "ctx_ok x" "written x p l ins out" "e \<in> set out"
  shows "\<exists>g \<in> set ins. e_key e = e_key g \<and> e_version e = e_version g"
proof -
  obtain es where es: "sorted_wrt version_ord es" "mset es = mset (map wire ins)"
    "out = concat (map (emit (x_sortVersions x) p l) (groupRuns es))" using assms(2) by (auto simp: written_def)
  obtain g where "g \<in> set es" "e = markDead (d_now p) g"
    using groups_emit(2) [of "x_sortVersions x" es e p l] es assms by (auto simp: ctx_ok_def)
  moreover have "set es = set (map wire ins)" using es(2) by (rule mset_eq_setD)
  ultimately show ?thesis by (auto simp: markDead_def)
qed

lemma written_ok:
  assumes x: "ctx_ok x" and es: "sorted_wrt version_ord es" "mset es = mset (map wire ins)"
    and ins: "\<forall>e \<in> set ins. rec_ok e \<and> length (e_key e) \<le> 65535" "\<forall>k. bytesOf (filter (\<lambda>e. e_key e = k) ins) \<le> 2 ^ 26"
  shows "out_ok (concat (map (emit (x_sortVersions x) p l) (groupRuns es)))" "\<forall>g \<in> set (groupRuns es). bytesOf g \<le> 2 ^ 26"
    "length (concat (map (emit (x_sortVersions x) p l) (groupRuns es))) \<le> length ins"
proof -
  have srt: "sort_versions (x_sortVersions x)" using x by (simp add: ctx_ok_def)
  note em = groups_emit [OF srt es(1)]
  have st: "set es = wire ` set ins" using mset_eq_setD [OF es(2)] by simp
  have "rec_ok e \<and> length (e_key e) \<le> 65535" if e: "e \<in> set (concat (map (emit (x_sortVersions x) p l) (groupRuns es)))" for e
  proof -
    obtain g where "g \<in> set ins" "e = markDead (d_now p) (wire g)" using em(2) [OF e] st by auto
    then show ?thesis using ins(1) by (auto simp: rec_ok_def markDead_def wire_def)
  qed
  then show "out_ok (concat (map (emit (x_sortVersions x) p l) (groupRuns es)))" using em(1) by (simp add: out_ok_def)
  show "\<forall>g \<in> set (groupRuns es). bytesOf g \<le> 2 ^ 26"
  proof
    fix g assume "g \<in> set (groupRuns es)"
    then obtain k where g: "subseq g es" "\<forall>e \<in> set g. e_key e = k" using groupRuns_subseq by blast
    have "filter (\<lambda>e. e_key e = k) g = g" by (rule filter_True [OF g(2)])
    then have "bytesOf g \<le> bytesOf (filter (\<lambda>e. e_key e = k) es)"
      using bytesOf_subseq [OF subseq_filter [OF g(1), of "\<lambda>e. e_key e = k"]] by argo
    also have "\<dots> = bytesOf (filter (\<lambda>e. e_key e = k) (map wire ins))" by (rule bytesOf_mset) (simp add: es(2) del: mset_map)
    also have "\<dots> \<le> bytesOf (filter (\<lambda>e. e_key e = k) ins)" using bytesOf_wire by (simp add: filter_map comp_def)
    finally show "bytesOf g \<le> 2 ^ 26" using ins(2) order_trans by blast
  qed
  have "length es = length ins" using es(2) by (metis length_map size_mset)
  then show "length (concat (map (emit (x_sortVersions x) p l) (groupRuns es))) \<le> length ins" using em(3) by simp
qed

lemma merge_tables:
  assumes x: "ctx_ok x" and l: "lsm_ok x cinv view content T l" and m: "merge_ok x content T l ts"
  shows "\<exists>iters c w l1 new l2 content1. seekTables x ts (l_cache l) = Some (iters, c) \<and>
    drainMergedIterator x p iters \<lparr>w_level = lvl, w_buf = [], w_bytes = 0, w_tables = []\<rparr> (l\<lparr>l_cache := c\<rparr>) = Some (w, l1) \<and>
    w_finish x (d_now p) w l1 = (new, l2) \<and> lsm_ok x cinv view content1 (T \<union> set new) l2 \<and> (\<forall>t \<in> T. content1 t = content t) \<and>
    distinct new \<and> T \<inter> set new = {} \<and> sorted_wrt apart (map content1 new) \<and> written x p l (concat (map content ts)) (concat (map content1 new)) \<and>
    l_levels l2 = l_levels l \<and> l_manifest l2 = l_manifest l \<and> l_dropped l2 = l_dropped l"
proof -
  note M = m [unfolded merge_ok_def]
  let ?ins = "concat (map content ts)" and ?iters = "map (\<lambda>t. map wire (content t)) ts"
    and ?w = "\<lparr>w_level = lvl, w_buf = [], w_bytes = 0, w_tables = []\<rparr>"
  have tab: "table_of (x_env x) (x_reg x) (content t) t" if "t \<in> set ts" for t
    using that l M by (auto simp: lsm_ok_def stored_def)
  obtain c where c: "seekTables x ts (l_cache l) = Some (?iters, c)" "stored (x_env x) cinv view (x_reg x) (x_dir x) content T (l_nextSeq l) c"
    using seekTables_ok [of x cinv view "x_reg x" "x_dir x" content T "l_nextSeq l" "l_cache l" ts] l M by (auto simp: lsm_ok_def)
  have cm: "concat ?iters = map wire ?ins" by (simp add: map_concat comp_def)
  have "\<forall>it \<in> set ?iters. sorted_wrt version_ord it" using tab by (auto simp: sorted_version_ord_wire table_of_def)
  then obtain es where es: "mv_drain (Suc (length (concat ?iters))) (NewMergedVersionIterator ?iters) = Some es"
    "mset es = mset (map wire ?ins)" "sorted_wrt version_ord es"
    using merged_versions_drain [of ?iters "Suc (length (concat ?iters))"] by (auto simp: cm)
  have rec: "\<forall>e \<in> set ?ins. rec_ok e \<and> length (e_key e) \<le> 65535" using tab by (auto simp: table_of_def input_ok_def)
  let ?l = "l\<lparr>l_cache := c\<rparr>" let ?out = "concat (map (emit (x_sortVersions x) p ?l) (groupRuns es))"
  have kb: "\<forall>k. bytesOf (filter (\<lambda>e. e_key e = k) ?ins) \<le> 2 ^ 26" using M by blast
  note ok = written_ok(1,3) [OF x es(3,2) rec kb, of p ?l] written_ok(2) [OF x es(3,2) rec kb]
  have n: "unat (l_nextSeq ?l) + length ([] @ ?out) < 2 ^ 64" using ok(2) M by simp
  have w0: "w_inv x cinv view T content ?l [] content (?w, ?l)" using c(2) by (simp add: w_inv_def lsm_ok_def)
  obtain content1 w1 l1 where d: "foldl (processGroup x p) (?w, ?l) (groupRuns es) = (w1, l1)" "w_inv x cinv view T content ?l ?out content1 (w1, l1)"
    "w_bytes w1 < compactionTableBytes"
    using groups_ok [OF x w0, of "groupRuns es" p] ok(1,3) n groups_apart [OF _ es(3), of "x_sortVersions x" p ?l] x
    by (auto simp: compactionTableBytes_def ctx_ok_def apart_def)
  have b: "w_bytes w1 < 2 ^ 27" using d(3) by (simp add: compactionTableBytes_def)
  obtain content2 w2 l2 where f: "w_flush x (d_now p) w1 l1 = (w2, l2)" "w_inv x cinv view T content ?l ?out content2 (w2, l2)" "w_buf w2 = []"
    using w_flush_ok [OF x d(2) ok(1) b, of "d_now p"] n by auto
  have "drainMergedIterator x p ?iters ?w ?l = Some (w1, l1)" unfolding drainMergedIterator_def es(1) by (simp add: d(1))
  moreover have "w_finish x (d_now p) w1 l1 = (w_tables w2, l2)" by (simp add: w_finish_def f(1))
  moreover have "(emit (x_sortVersions x) p ?l) = emit (x_sortVersions x) p l" by (intro ext) (simp add: emit_def droppable_cong [of ?l l])
  then have "written x p l ?ins (concat (map content2 (w_tables w2)))"
    using es(2,3) f(2,3) unfolding written_def by (intro exI [of _ es]) (simp add: w_inv_def)
  moreover have "sorted_wrt apart (map content2 (w_tables w2))" using f(2) by (simp add: w_inv_def sorted_wrt_append)
  ultimately show ?thesis using c(1) f(2) unfolding w_inv_def by fastforce
qed

section \<open>Replacing the tables\<close>

lemma retireTable_ok:
  assumes "lsm_ok x cinv view content T l" "t \<in> T"
  shows "lsm_ok x cinv view content T (retireTable x lvl l t)" "l_levels (retireTable x lvl l t) = l_levels l"
    "l_dropped (retireTable x lvl l t) = l_dropped l @ [MarkRemove t]" "l_nextSeq (retireTable x lvl l t) = l_nextSeq l"
    "l_manifest (retireTable x lvl l t) = appendManifest actDel lvl (sstSeqNum (t_filename t)) (t_minKey t) (t_maxKey t) (l_manifest l)"
proof -
  have fd: "l_levels (foldl (\<lambda>l e. addDiscard (e_value e) l) m es) = l_levels m" "l_nextSeq (foldl (\<lambda>l e. addDiscard (e_value e) l) m es) = l_nextSeq m"
    "l_cache (foldl (\<lambda>l e. addDiscard (e_value e) l) m es) = l_cache m" "l_manifest (foldl (\<lambda>l e. addDiscard (e_value e) l) m es) = l_manifest m"
    "l_dropped (foldl (\<lambda>l e. addDiscard (e_value e) l) m es) = l_dropped m" for m :: "'a lsm" and es
    by (induction es arbitrary: m) simp_all
  obtain c where c: "ReadAll (x_env x) t (l_cache l) = (Inr (map wire (content t)), c)"
    "stored (x_env x) cinv view (x_reg x) (x_dir x) content T (l_nextSeq l) c"
    using stored_read(3) [OF assms(1) [unfolded lsm_ok_def] assms(2)] by blast
  show "lsm_ok x cinv view content T (retireTable x lvl l t)" "l_levels (retireTable x lvl l t) = l_levels l"
    "l_dropped (retireTable x lvl l t) = l_dropped l @ [MarkRemove t]" "l_nextSeq (retireTable x lvl l t) = l_nextSeq l"
    "l_manifest (retireTable x lvl l t) = appendManifest actDel lvl (sstSeqNum (t_filename t)) (t_minKey t) (t_maxKey t) (l_manifest l)"
    using c by (simp_all add: retireTable_def discardSSTablePointers_def logTable_def Let_def fd lsm_ok_def)
qed

definition logAll :: "byte \<Rightarrow> nat \<Rightarrow> sstable list \<Rightarrow> bytes option \<Rightarrow> bytes option" where
  "logAll action lvl ts mf = foldl (\<lambda>m t. appendManifest action lvl (sstSeqNum (t_filename t)) (t_minKey t) (t_maxKey t) m) mf ts"

lemma retire_all:
  assumes "lsm_ok x cinv view content T l" "set ts \<subseteq> T"
  shows "lsm_ok x cinv view content T (foldl (retireTable x lvl) l ts) \<and> l_levels (foldl (retireTable x lvl) l ts) = l_levels l \<and>
    l_dropped (foldl (retireTable x lvl) l ts) = l_dropped l @ map MarkRemove ts \<and> l_nextSeq (foldl (retireTable x lvl) l ts) = l_nextSeq l \<and>
    l_manifest (foldl (retireTable x lvl) l ts) = logAll actDel lvl ts (l_manifest l)"
  using assms
proof (induction ts arbitrary: l)
  case (Cons t ts)
  have t: "t \<in> T" using Cons.prems(2) by simp
  note r = retireTable_ok [OF Cons.prems(1) t, of lvl]
  show ?case using Cons.IH [OF r(1)] Cons.prems(2) r(2-5) by (simp add: logAll_def)
qed (simp add: logAll_def)

lemma log_all_added:
  "foldl (\<lambda>l t. logTable actAdd lvl t l) l ts = l\<lparr>l_manifest := logAll actAdd lvl ts (l_manifest l)\<rparr>"
  by (induction ts arbitrary: l) (simp_all add: logAll_def logTable_def)

text \<open>The levels after a merge.\<close>

definition replaced :: "'c ectx \<Rightarrow> nat \<Rightarrow> nat \<Rightarrow> sstable list \<Rightarrow> sstable list \<Rightarrow> sstable list \<Rightarrow> sstable list list \<Rightarrow> sstable list list" where
  "replaced x from to picked overlaps new ls =
     (let ls1 = ls[to := x_sortTables x (without (ls ! to) overlaps @ new)] in ls1[from := without (ls1 ! from) picked])"

lemma mergeInto_ok:
  assumes x: "ctx_ok x" and l: "lsm_ok x cinv view content T l" and m: "merge_ok x content T l (overlaps @ picked)"
    and lv: "from < length (l_levels l)" "d_target p < length (l_levels l)"
  shows "\<exists>l' new content1. mergeInto x p from picked overlaps l = Some l' \<and>
    lsm_ok x cinv view content1 (T \<union> set new) l' \<and> (\<forall>t \<in> T. content1 t = content t) \<and> distinct new \<and> T \<inter> set new = {} \<and>
    sorted_wrt apart (map content1 new) \<and> written x p l (concat (map content (overlaps @ picked))) (concat (map content1 new)) \<and>
    l_levels l' = replaced x from (d_target p) picked overlaps new (l_levels l) \<and>
    l_manifest l' = logAll actAdd (d_target p) new (logAll actDel from picked (logAll actDel (d_target p) overlaps (l_manifest l))) \<and>
    l_dropped l' = l_dropped l @ map MarkRemove (overlaps @ picked)"
proof -
  let ?ts = "overlaps @ picked"
  obtain iters c w l1 new l2 content1 where d: "seekTables x ?ts (l_cache l) = Some (iters, c)"
    "drainMergedIterator x p iters \<lparr>w_level = d_target p, w_buf = [], w_bytes = 0, w_tables = []\<rparr> (l\<lparr>l_cache := c\<rparr>) = Some (w, l1)"
    "w_finish x (d_now p) w l1 = (new, l2)" "lsm_ok x cinv view content1 (T \<union> set new) l2" "\<forall>t \<in> T. content1 t = content t"
    "distinct new" "T \<inter> set new = {}" "sorted_wrt apart (map content1 new)" "written x p l (concat (map content ?ts)) (concat (map content1 new))"
    "l_levels l2 = l_levels l" "l_manifest l2 = l_manifest l" "l_dropped l2 = l_dropped l"
    using merge_tables [OF x l m, of p "d_target p"] by blast
  define l3 where "l3 = removeFromLevel from picked (installTables x (d_target p) overlaps new l2)"
  have l3: "l_levels l3 = replaced x from (d_target p) picked overlaps new (l_levels l)" "lsm_ok x cinv view content1 (T \<union> set new) l3"
    "l_manifest l3 = l_manifest l" "l_dropped l3 = l_dropped l"
    using lv d(4,10-12) by (simp_all add: l3_def removeFromLevel_def installTables_def replaced_def level_def Let_def lsm_ok_def)
  have sub: "set overlaps \<subseteq> T \<union> set new" "set picked \<subseteq> T \<union> set new" using m by (auto simp: merge_ok_def)
  note r1 = retire_all [OF l3(2) sub(1), of "d_target p"]
  note r2 = retire_all [OF conjunct1 [OF r1] sub(2), of "from"]
  let ?l4 = "foldl (retireTable x from) (foldl (retireTable x (d_target p)) l3 overlaps) picked"
  have l4: "l_levels ?l4 = l_levels l3" "l_dropped ?l4 = l_dropped l3 @ map MarkRemove ?ts"
    "l_manifest ?l4 = logAll actDel from picked (logAll actDel (d_target p) overlaps (l_manifest l3))" using r1 r2 by simp_all
  define l5 where "l5 = ?l4\<lparr>l_manifest := logAll actAdd (d_target p) new (l_manifest ?l4)\<rparr>"
  have "mergeInto x p from picked overlaps l = Some l5"
    by (simp add: mergeInto_def d(1-3) Let_def l3_def [symmetric] log_all_added l5_def)
  moreover have "lsm_ok x cinv view content1 (T \<union> set new) l5" using conjunct1 [OF r2] by (simp add: lsm_ok_def l5_def)
  moreover have "l_levels l5 = replaced x from (d_target p) picked overlaps new (l_levels l)" by (simp add: l5_def l4 l3)
  moreover have "l_manifest l5 = logAll actAdd (d_target p) new (logAll actDel from picked (logAll actDel (d_target p) overlaps (l_manifest l)))"
    by (simp add: l5_def l4(3) l3)
  moreover have "l_dropped l5 = l_dropped l @ map MarkRemove ?ts" by (simp add: l5_def l4(2) l3)
  ultimately show ?thesis using d(5-9) by blast
qed

end
