(* ===== verification/Levels.thy ===== *)
theory Levels
  imports Lsm_Correct
begin

text \<open>
  The order of the levels: which tables a reader may search before which others, and that replacing tables of a level
  and the tables merged into them by the tables written keeps the order and every answer.
\<close>

section \<open>Order of versions between tables\<close>

lemma newer_concat: "newer (concat xss) (concat yss) \<longleftrightarrow> (\<forall>xs \<in> set xss. \<forall>ys \<in> set yss. newer xs ys)"
  by (auto simp: newer_def)

text \<open>Versions of the second list are versions of the first.\<close>

definition from_entries :: "entry list \<Rightarrow> entry list \<Rightarrow> bool" where
  "from_entries ins out \<longleftrightarrow> (\<forall>e \<in> set out. \<exists>g \<in> set ins. e_key e = e_key g \<and> e_version e = e_version g)"

lemma from_entries_newer: "from_entries ins out \<Longrightarrow> newer xs ins \<Longrightarrow> newer xs out" "from_entries ins out \<Longrightarrow> newer ins xs \<Longrightarrow> newer out xs"
  "from_entries ins out \<Longrightarrow> apart xs ins \<Longrightarrow> apart xs out"
  unfolding from_entries_def newer_def apart_def by metis+

lemma reads_replace:
  assumes N: "newer N ins" "newer N M" "newer ins M" and out: "from_entries ins out"
    and r: "reads now out k ts = reads now ins k ts"
    and f: "M \<noteq> [] \<Longrightarrow> snapshot_entry out k ts = None \<longleftrightarrow> snapshot_entry ins k ts = None"
  shows "reads now (N @ out @ M) k ts = reads now (N @ ins @ M) k ts"
proof -
  have ap: "snapshot_entry (xs @ ys) k ts = (case snapshot_entry xs k ts of None \<Rightarrow> snapshot_entry ys k ts | Some e \<Rightarrow> Some e)"
    if "newer xs ys" for xs ys
    by (rule snapshot_append) (use that in \<open>auto simp: newer_def less_imp_le\<close>)
  have nw: "newer N out" "newer out M" using from_entries_newer(1,2) [OF out] N by blast+
  have two: "newer N (zs @ M)" if "newer N zs" for zs using that N(2) by (auto simp: newer_def)
  have mid: "live now (snapshot_entry (out @ M) k ts) = live now (snapshot_entry (ins @ M) k ts)"
  proof (cases "M = []")
    case True
    then show ?thesis using r by (simp add: reads_def)
  next
    case False
    then show ?thesis using r f [OF False]
      by (cases "snapshot_entry out k ts"; cases "snapshot_entry ins k ts") (simp_all add: reads_def ap [OF nw(2)] ap [OF N(3)])
  qed
  show ?thesis unfolding reads_def ap [OF two [OF nw(1)]] ap [OF two [OF N(1)]] using mid by (simp split: option.split)
qed

section \<open>The levels\<close>

definition lsm_order :: "(sstable \<Rightarrow> entry list) \<Rightarrow> sstable list list \<Rightarrow> bool" where
  "lsm_order content ls \<longleftrightarrow>
     sorted_wrt (\<lambda>s t. newer (content t) (content s)) (ls ! 0) \<and>
     (\<forall>a b. a < b \<longrightarrow> b < length ls \<longrightarrow> (\<forall>s \<in> set (ls ! a). \<forall>t \<in> set (ls ! b). newer (content s) (content t))) \<and>
     (\<forall>a. 0 < a \<longrightarrow> a < length ls \<longrightarrow> (\<forall>s \<in> set (ls ! a). \<forall>t \<in> set (ls ! a). s \<noteq> t \<longrightarrow> apart (content s) (content t)))"

definition lvl_distinct :: "sstable list list \<Rightarrow> bool" where
  "lvl_distinct ls \<longleftrightarrow> (\<forall>a < length ls. distinct (ls ! a)) \<and> (\<forall>a b. a < b \<longrightarrow> b < length ls \<longrightarrow> set (ls ! a) \<inter> set (ls ! b) = {})"

definition tablesOf :: "'c lsm \<Rightarrow> sstable list" where
  "tablesOf l = concat (l_levels l)"

definition allEntries :: "(sstable \<Rightarrow> entry list) \<Rightarrow> 'c lsm \<Rightarrow> entry list" where
  "allEntries content l = concat (map content (tablesOf l))"

definition lsm_inv :: "'c ectx \<Rightarrow> ('c \<Rightarrow> bool) \<Rightarrow> ('c \<Rightarrow> bytes \<Rightarrow> bytes option) \<Rightarrow> (sstable \<Rightarrow> entry list) \<Rightarrow> 'c lsm \<Rightarrow> bool" where
  "lsm_inv x cinv view content l \<longleftrightarrow> length (l_levels l) = MaxLevels \<and> lvl_distinct (l_levels l) \<and>
     lsm_ok x cinv view content (set (tablesOf l)) l \<and> (\<forall>t \<in> set (tablesOf l). consistent (content t)) \<and> lsm_order content (l_levels l)"

lemma tablesOf_level: "t \<in> set (tablesOf l) \<longleftrightarrow> (\<exists>a < length (l_levels l). t \<in> set (l_levels l ! a))"
  by (auto simp: tablesOf_def in_set_conv_nth) (metis in_set_conv_nth, metis nth_mem)

lemma order_cases:
  assumes "lsm_order content ls" "a < length ls" "b < length ls" "s \<in> set (ls ! a)" "t \<in> set (ls ! b)" "s \<noteq> t"
  shows "newer (content s) (content t) \<or> newer (content t) (content s)"
proof (cases "a = b")
  case True
  show ?thesis
  proof (cases "a = 0")
    case True
    obtain i j where ij: "i < length (ls ! 0)" "j < length (ls ! 0)" "s = ls ! 0 ! i" "t = ls ! 0 ! j" "i \<noteq> j"
      using assms(4-6) True \<open>a = b\<close> by (metis in_set_conv_nth)
    have srt: "sorted_wrt (\<lambda>s t. newer (content t) (content s)) (ls ! 0)" using assms(1) by (simp add: lsm_order_def)
    show ?thesis using ij sorted_wrt_nth_less [OF srt, of i j] sorted_wrt_nth_less [OF srt, of j i] by (metis linorder_neqE_nat)
  next
    case False
    then show ?thesis using assms \<open>a = b\<close> apart_newer unfolding lsm_order_def by blast
  qed
next
  case False
  then show ?thesis using assms unfolding lsm_order_def by (meson linorder_neqE_nat)
qed

lemma inv_consistent:
  assumes "lsm_inv x cinv view content l" shows "consistent (allEntries content l)"
  unfolding consistent_def
proof (rule inj_onI)
  fix e f assume e: "e \<in> set (allEntries content l)" "f \<in> set (allEntries content l)" "(e_key e, e_version e) = (e_key f, e_version f)"
  then obtain s t where st: "s \<in> set (tablesOf l)" "e \<in> set (content s)" "t \<in> set (tablesOf l)" "f \<in> set (content t)"
    by (auto simp: allEntries_def)
  show "e = f"
  proof (cases "s = t")
    case True
    then show ?thesis using st e(3) assms by (auto simp: lsm_inv_def dest: consistentD)
  next
    case False
    obtain a b where "a < length (l_levels l)" "b < length (l_levels l)" "s \<in> set (l_levels l ! a)" "t \<in> set (l_levels l ! b)"
      using st by (auto simp: tablesOf_level)
    then have "newer (content s) (content t) \<or> newer (content t) (content s)" using order_cases False assms by (metis lsm_inv_def)
    then show ?thesis using st(2,4) e(3) unfolding newer_def by (metis less_irrefl prod.inject)
  qed
qed

section \<open>Replacing tables\<close>

lemma without_set:
  assumes "inj_on t_filename T" "set ts \<subseteq> T" "set rm \<subseteq> T"
  shows "without ts rm = filter (\<lambda>t. t \<notin> set rm) ts"
proof -
  have "t_filename t \<in> t_filename ` set rm \<longleftrightarrow> t \<in> set rm" if "t \<in> set ts" for t
    using inj_on_image_mem_iff [OF assms(1) _ assms(3), of t] that assms(2) by blast
  then show ?thesis unfolding without_def by (metis (mono_tags, lifting) filter_cong)
qed

definition sort_tables :: "(sstable list \<Rightarrow> sstable list) \<Rightarrow> bool" where
  "sort_tables srt \<longleftrightarrow> slice_sort (\<lambda>s t. t_minKey s < t_minKey t) srt"

text \<open>What a merge of \<open>picked\<close> from level \<open>from\<close> with \<open>overlaps\<close> of level \<open>to\<close> may rely on.\<close>

definition merge_sound :: "(sstable \<Rightarrow> entry list) \<Rightarrow> sstable list list \<Rightarrow> nat \<Rightarrow> nat \<Rightarrow> sstable list \<Rightarrow> sstable list \<Rightarrow> bool" where
  "merge_sound content ls from to picked overlaps \<longleftrightarrow>
     from < to \<and> to < length ls \<and> set picked \<subseteq> set (ls ! from) \<and> set overlaps \<subseteq> set (ls ! to) \<and> distinct picked \<and> distinct overlaps \<and>
     (\<forall>a \<ge> from. a \<le> to \<longrightarrow> (\<forall>s \<in> set (ls ! a) - set (overlaps @ picked). \<forall>t \<in> set picked. apart (content s) (content t)))"

lemma merge_sound_apart:
  assumes "lsm_order content ls" "merge_sound content ls from to picked overlaps" "a < length ls" "s \<in> set (ls ! a)" "s \<notin> set (overlaps @ picked)"
    "t \<in> set (overlaps @ picked)"
  shows "a \<le> to \<Longrightarrow> newer (content s) (content t)" "to < a \<Longrightarrow> newer (content t) (content s)" "a = to \<Longrightarrow> apart (content s) (content t)"
proof -
  note O = assms(1) [unfolded lsm_order_def] and M = assms(2) [unfolded merge_sound_def]
  have lv: "from < to" "to < length ls" using M by auto
  have lt: "newer (content u) (content v)" if "a < b" "b < length ls" "u \<in> set (ls ! a)" "v \<in> set (ls ! b)" for u v a b using O that by blast
  have pk: "t \<in> set picked \<Longrightarrow> t \<in> set (ls ! from)" "t \<in> set overlaps \<Longrightarrow> t \<in> set (ls ! to)" using M by auto
  show ap: "apart (content s) (content t)" if "a = to"
  proof (cases "t \<in> set picked")
    case True
    then show ?thesis using M assms(4,5) \<open>a = to\<close> lv by (meson Diff_iff less_imp_le order_refl)
  next
    case False
    then have "t \<in> set (ls ! to)" "s \<noteq> t" using assms(5,6) pk by auto
    then show ?thesis using O \<open>a = to\<close> lv assms(4) by (metis less_nat_zero_code neq0_conv)
  qed
  show "newer (content t) (content s)" if "to < a"
    using assms(3,4,6) pk lt [of "from" a] lt [of to a] that lv by auto
  show "newer (content s) (content t)" if a: "a \<le> to"
  proof (cases "a = to")
    case True
    then show ?thesis using ap apart_newer by blast
  next
    case False
    then have at: "a < to" using a by simp
    show ?thesis
    proof (cases "t \<in> set picked")
      case True
      show ?thesis
      proof (cases "a < from")
        case False
        then show ?thesis using M assms(4,5) True at apart_newer by (meson Diff_iff less_imp_le not_less)
      qed (use lt pk(1) True lv assms(4) in auto)
    next
      case False
      then show ?thesis using lt [OF at lv(2) assms(4)] assms(6) pk(2) by auto
    qed
  qed
qed

lemma replaced_levels:
  assumes inj: "inj_on t_filename T" "set (concat ls) \<subseteq> T" and srt: "sort_tables (x_sortTables x)"
    and m: "merge_sound content ls from to picked overlaps" and a: "a < length ls"
  shows "length (replaced x from to picked overlaps new ls) = length ls"
    "a \<noteq> to \<Longrightarrow> replaced x from to picked overlaps new ls ! a = (if a = from then filter (\<lambda>t. t \<notin> set picked) (ls ! a) else ls ! a)"
    "mset (replaced x from to picked overlaps new ls ! to) = mset (filter (\<lambda>t. t \<notin> set overlaps) (ls ! to) @ new)"
proof -
  note M = m [unfolded merge_sound_def]
  have sub: "set (ls ! i) \<subseteq> T" if "i < length ls" for i using that inj(2) nth_mem by fastforce
  have w: "without (ls ! to) overlaps = filter (\<lambda>t. t \<notin> set overlaps) (ls ! to)" "without (ls ! from) picked = filter (\<lambda>t. t \<notin> set picked) (ls ! from)"
    by (rule without_set [OF inj(1)]; use M sub [of to] sub [of "from"] in auto)+
  have ms: "mset (x_sortTables x ts) = mset ts" for ts using srt by (simp add: sort_tables_def slice_sort_def)
  show "length (replaced x from to picked overlaps new ls) = length ls" by (simp add: replaced_def Let_def)
  show "replaced x from to picked overlaps new ls ! a = (if a = from then filter (\<lambda>t. t \<notin> set picked) (ls ! a) else ls ! a)" if "a \<noteq> to"
    using that M a w by (simp add: replaced_def Let_def)
  show "mset (replaced x from to picked overlaps new ls ! to) = mset (filter (\<lambda>t. t \<notin> set overlaps) (ls ! to) @ new)"
    using M w ms by (simp add: replaced_def Let_def)
qed

lemma level_unique: "lvl_distinct ls \<Longrightarrow> a < length ls \<Longrightarrow> b < length ls \<Longrightarrow> t \<in> set (ls ! a) \<Longrightarrow> t \<in> set (ls ! b) \<Longrightarrow> a = b"
  unfolding lvl_distinct_def by (metis disjoint_iff linorder_neqE_nat)

lemma level_subset: "set (concat ls) \<subseteq> T \<Longrightarrow> i < length ls \<Longrightarrow> t \<in> set (ls ! i) \<Longrightarrow> t \<in> T"
  using nth_mem by fastforce

text \<open>A table of the new levels is an old one that was not merged, in its place, or a new one in the target level.\<close>

lemma replaced_members:
  assumes inj: "inj_on t_filename T" "set (concat ls) \<subseteq> T" and srt: "sort_tables (x_sortTables x)"
    and m: "merge_sound content ls from to picked overlaps" and d: "lvl_distinct ls" and new: "T \<inter> set new = {}"
    and t: "a < length ls" "t \<in> set (replaced x from to picked overlaps new ls ! a)"
  shows "t \<notin> set new \<Longrightarrow> t \<in> set (ls ! a) \<and> t \<notin> set (overlaps @ picked) \<and> t \<in> T" "t \<in> set new \<Longrightarrow> a = to"
proof -
  note M = m [unfolded merge_sound_def]
  note R = replaced_levels [OF inj srt m, of _ new]
  have lv: "from < to" "to < length ls" "from < length ls" using M by auto
  have st: "set (replaced x from to picked overlaps new ls ! to) = (set (ls ! to) - set overlaps) \<union> set new"
    using mset_eq_setD [OF R(3) [OF lv(2)]] by auto
  show "a = to" if "t \<in> set new"
    using that t R(2) [OF t(1)] level_subset [OF inj(2) t(1)] new by (cases "a = to") (auto split: if_splits)
  assume n: "t \<notin> set new"
  have ta: "t \<in> set (ls ! a)" using t(2) R(2) [OF t(1)] st n by (cases "a = to") (auto split: if_splits)
  have "t \<notin> set overlaps" using t(2) st n M level_unique [OF d t(1) lv(2) ta] by auto
  moreover have "t \<notin> set picked"
  proof
    assume p: "t \<in> set picked"
    then have "a = from" using M level_unique [OF d t(1) lv(3) ta] by blast
    then show False using p t(2) R(2) [OF t(1)] lv by simp
  qed
  ultimately show "t \<in> set (ls ! a) \<and> t \<notin> set (overlaps @ picked) \<and> t \<in> T" using ta level_subset [OF inj(2) t(1)] by auto
qed

lemma replaced_distinct:
  assumes inj: "inj_on t_filename T" "set (concat ls) \<subseteq> T" and srt: "sort_tables (x_sortTables x)"
    and m: "merge_sound content ls from to picked overlaps" and d: "lvl_distinct ls" and new: "T \<inter> set new = {}" "distinct new"
  defines "ls1 \<equiv> replaced x from to picked overlaps new ls"
  shows "lvl_distinct ls1"
proof -
  note R = replaced_levels [OF inj srt m, of _ new, folded ls1_def] and mem = replaced_members [OF inj srt m d new(1), folded ls1_def]
  have lv: "to < length ls" using m by (simp add: merge_sound_def)
  have "distinct (ls1 ! a)" if a: "a < length ls" for a
  proof (cases "a = to")
    case True
    have "distinct (filter (\<lambda>t. t \<notin> set overlaps) (ls ! to) @ new)"
      using d lv new level_subset [OF inj(2) lv] by (auto simp: lvl_distinct_def)
    then show ?thesis using R(3) [OF lv] mset_eq_imp_distinct_iff True by metis
  next
    case False
    then show ?thesis using R(2) [OF a False] d a by (simp add: lvl_distinct_def)
  qed
  moreover have "set (ls1 ! a) \<inter> set (ls1 ! b) = {}" if ab: "a < b" "b < length ls" for a b
  proof -
    have al: "a < length ls" using ab by simp
    have "a = b" if "t \<in> set (ls1 ! a)" "t \<in> set (ls1 ! b)" for t
      using mem [OF al that(1)] mem [OF ab(2) that(2)] level_unique [OF d al ab(2)] by metis
    then show ?thesis using ab by blast
  qed
  ultimately show ?thesis using R(1) [OF lv] by (simp add: lvl_distinct_def)
qed

lemma replaced_cross:
  assumes inj: "inj_on t_filename T" "set (concat ls) \<subseteq> T" and srt: "sort_tables (x_sortTables x)"
    and m: "merge_sound content ls from to picked overlaps" and d: "lvl_distinct ls" and o: "lsm_order content ls"
    and new: "\<forall>t \<in> T. content1 t = content t" "T \<inter> set new = {}"
    and org: "\<forall>t \<in> set new. from_entries (concat (map content (overlaps @ picked))) (content1 t)"
  defines "ls1 \<equiv> replaced x from to picked overlaps new ls"
  assumes ab: "a < b" "b < length ls" and s: "s \<in> set (ls1 ! a)" and t: "t \<in> set (ls1 ! b)"
  shows "newer (content1 s) (content1 t)"
proof -
  note mem = replaced_members [OF inj srt m d new(2), folded ls1_def]
  have a: "a < length ls" using ab by simp
  let ?ins = "concat (map content (overlaps @ picked))"
  show ?thesis
  proof (cases "s \<in> set new"; cases "t \<in> set new")
    assume "s \<in> set new" "t \<in> set new"
    then show ?thesis using mem(2) [OF a s] mem(2) [OF ab(2) t] ab(1) by simp
  next
    assume n: "s \<in> set new" "t \<notin> set new"
    then have "to < b" using mem(2) [OF a s] ab by simp
    then have "newer ?ins (content t)" using merge_sound_apart(2) [OF o m ab(2)] mem(1) [OF ab(2) t n(2)] by (auto simp: newer_def)
    then show ?thesis using from_entries_newer(2) org n mem(1) [OF ab(2) t n(2)] new(1) by metis
  next
    assume n: "s \<notin> set new" "t \<in> set new"
    then have "a \<le> to" using mem(2) [OF ab(2) t] ab by simp
    then have "newer (content s) ?ins" using merge_sound_apart(1) [OF o m a] mem(1) [OF a s n(1)] by (auto simp: newer_def)
    then show ?thesis using from_entries_newer(1) org n mem(1) [OF a s n(1)] new(1) by metis
  next
    assume n: "s \<notin> set new" "t \<notin> set new"
    then show ?thesis using o ab a new(1) mem(1) [OF a s] mem(1) [OF ab(2) t] by (simp add: lsm_order_def)
  qed
qed

lemma replaced_apart:
  assumes inj: "inj_on t_filename T" "set (concat ls) \<subseteq> T" and srt: "sort_tables (x_sortTables x)"
    and m: "merge_sound content ls from to picked overlaps" and d: "lvl_distinct ls" and o: "lsm_order content ls"
    and new: "\<forall>t \<in> T. content1 t = content t" "T \<inter> set new = {}" "sorted_wrt apart (map content1 new)"
    and org: "\<forall>t \<in> set new. from_entries (concat (map content (overlaps @ picked))) (content1 t)"
  defines "ls1 \<equiv> replaced x from to picked overlaps new ls"
  assumes a: "0 < a" "a < length ls" and s: "s \<in> set (ls1 ! a)" and t: "t \<in> set (ls1 ! a)" and ne: "s \<noteq> t"
  shows "apart (content1 s) (content1 t)"
proof -
  note mem = replaced_members [OF inj srt m d new(2), folded ls1_def]
  have lv: "to < length ls" using m by (simp add: merge_sound_def)
  have new_old: "apart (content1 u) (content1 v)" if u: "u \<in> set new" and v: "v \<in> set (ls1 ! to)" "v \<notin> set new" for u v
  proof -
    have "apart (content v) (concat (map content (overlaps @ picked)))"
      using merge_sound_apart(3) [OF o m lv] mem(1) [OF lv v] by (auto simp: apart_def)
    then show ?thesis using from_entries_newer(3) org u mem(1) [OF lv v] new(1) apart_sym by metis
  qed
  show ?thesis
  proof (cases "s \<in> set new"; cases "t \<in> set new")
    assume "s \<in> set new" "t \<in> set new"
    then obtain i j where "i < length new" "j < length new" "s = new ! i" "t = new ! j" "i \<noteq> j" using ne by (metis in_set_conv_nth)
    then show ?thesis using apart_sym sorted_wrt_nth_less [OF new(3)] by (metis length_map linorder_neqE_nat nth_map)
  next
    assume "s \<in> set new" "t \<notin> set new"
    then show ?thesis using new_old mem(2) [OF a(2) s] t by metis
  next
    assume "s \<notin> set new" "t \<in> set new"
    then show ?thesis using new_old mem(2) [OF a(2) t] s apart_sym by metis
  next
    assume "s \<notin> set new" "t \<notin> set new"
    then show ?thesis using o a ne new(1) mem(1) [OF a(2) s] mem(1) [OF a(2) t] by (simp add: lsm_order_def)
  qed
qed

lemma replaced_order:
  assumes inj: "inj_on t_filename T" "set (concat ls) \<subseteq> T" and srt: "sort_tables (x_sortTables x)"
    and m: "merge_sound content ls from to picked overlaps" and o: "lsm_order content ls" and d: "lvl_distinct ls"
    and new: "\<forall>t \<in> T. content1 t = content t" "distinct new" "T \<inter> set new = {}" "sorted_wrt apart (map content1 new)"
    and org: "\<forall>t \<in> set new. from_entries (concat (map content (overlaps @ picked))) (content1 t)"
  defines "ls1 \<equiv> replaced x from to picked overlaps new ls"
  shows "lsm_order content1 ls1" "lvl_distinct ls1"
proof -
  show "lvl_distinct ls1" unfolding ls1_def by (rule replaced_distinct [OF inj srt m d new(3,2)])
  have lv: "0 < to" "to < length ls" and z: "0 < length ls" using m by (auto simp: merge_sound_def)
  note R = replaced_levels [OF inj srt m, of _ new, folded ls1_def]
  have "ls1 ! 0 = (if 0 = from then filter (\<lambda>t. t \<notin> set picked) (ls ! 0) else ls ! 0)" using R(2) [OF z] lv by force
  then have "sorted_wrt (\<lambda>s t. newer (content t) (content s)) (ls1 ! 0)" "set (ls1 ! 0) \<subseteq> set (ls ! 0)"
    using o by (auto simp: lsm_order_def sorted_wrt_filter)
  then have l0: "sorted_wrt (\<lambda>s t. newer (content1 t) (content1 s)) (ls1 ! 0)"
    using new(1) level_subset [OF inj(2) z] by (elim sorted_wrt_mono_rel [rotated]) (metis subsetD)
  show "lsm_order content1 ls1"
    unfolding lsm_order_def R(1) [OF z]
  proof (intro conjI allI impI ballI l0)
    show "newer (content1 s) (content1 t)" if "a < b" "b < length ls" "s \<in> set (ls1 ! a)" "t \<in> set (ls1 ! b)" for a b s t
      using that unfolding ls1_def by (rule replaced_cross [OF inj srt m d o new(1,3) org])
    show "apart (content1 s) (content1 t)" if "0 < a" "a < length ls" "s \<in> set (ls1 ! a)" "t \<in> set (ls1 ! a)" "s \<noteq> t" for a s t
      using that unfolding ls1_def by (rule replaced_apart [OF inj srt m d o new(1,3,4) org])
  qed
qed

lemma set_allEntries: "set (allEntries content l) = (\<Union>t \<in> set (tablesOf l). set (content t))"
  by (auto simp: allEntries_def)

lemma set_concat_levels: "set (concat ls) = (\<Union>a \<in> {..<length ls}. set (ls ! a))"
  by (auto simp: set_conv_nth [of ls])

lemma replaced_tables:
  assumes inj: "inj_on t_filename T" "set (concat ls) \<subseteq> T" and srt: "sort_tables (x_sortTables x)"
    and m: "merge_sound content ls from to picked overlaps" and d: "lvl_distinct ls"
  shows "set (concat (replaced x from to picked overlaps new ls)) = (set (concat ls) - set (overlaps @ picked)) \<union> set new"
proof -
  note M = m [unfolded merge_sound_def]
  note R = replaced_levels [OF inj srt m, of _ new]
  have lv: "from < to" "to < length ls" "from < length ls" using M by auto
  note dj = level_unique [OF d]
  have lvl: "set (replaced x from to picked overlaps new ls ! a) = (set (ls ! a) - set (overlaps @ picked)) \<union> (if a = to then set new else {})"
    if a: "a < length ls" for a
  proof -
    have o: "set overlaps \<inter> set (ls ! a) = {}" if "a \<noteq> to" using dj [OF a lv(2)] M that by blast
    have q: "set picked \<inter> set (ls ! a) = {}" if "a \<noteq> from" using dj [OF a lv(3)] M that by blast
    show ?thesis
    proof (cases "a = to")
      case True
      then show ?thesis using mset_eq_setD [OF R(3) [OF lv(2)]] q lv by auto
    next
      case False
      then show ?thesis using R(2) [OF a False] o q by auto
    qed
  qed
  have len: "length (replaced x from to picked overlaps new ls) = length ls" by (rule R(1) [OF lv(2)])
  show ?thesis unfolding set_concat_levels len using lvl lv(2) by (auto split: if_splits)
qed

definition room :: "'c ectx \<Rightarrow> (sstable \<Rightarrow> entry list) \<Rightarrow> 'c lsm \<Rightarrow> bool" where
  "room x content l \<longleftrightarrow> (\<forall>t \<in> set (tablesOf l). length (content t) \<le> x_fuel x) \<and> 0 < x_fuel x \<and>
     (\<forall>k. bytesOf (filter (\<lambda>e. e_key e = k) (allEntries content l)) \<le> 2 ^ 26) \<and> unat (l_nextSeq l) + length (allEntries content l) < 2 ^ 64"

lemma room_merge:
  assumes l: "lsm_inv x cinv view content l" and r: "room x content l" and ts: "distinct ts" "set ts \<subseteq> set (tablesOf l)"
  shows "merge_ok x content (set (tablesOf l)) l ts"
proof -
  have "mset ts \<subseteq># mset (tablesOf l)"
  proof (rule mset_subset_eqI)
    fix t show "count (mset ts) t \<le> count (mset (tablesOf l)) t"
      using ts by (cases "t \<in> set ts") (auto simp: distinct_count_atmost_1 count_greater_eq_one_iff)
  qed
  then obtain C where C: "mset (tablesOf l) = mset ts + C" by (metis subset_mset.le_iff_add)
  have le: "sum_list (map f ts) \<le> sum_list (map f (tablesOf l))" for f :: "sstable \<Rightarrow> nat"
  proof -
    have "sum_list (map f (tablesOf l)) = (\<Sum>t \<in># mset (tablesOf l). f t)" by (metis mset_map sum_mset_sum_list)
    also have "\<dots> = sum_list (map f ts) + (\<Sum>t \<in># C. f t)" unfolding C by (simp add: sum_mset_sum_list flip: mset_map)
    finally show ?thesis by simp
  qed
  have b: "bytesOf (filter P (concat (map content us))) = sum_list (map (\<lambda>t. bytesOf (filter P (content t))) us)" for P us
    by (induction us) auto
  have "consistent (concat (map content ts))"
    using inv_consistent [OF l] by (rule consistent_subset) (use ts(2) in \<open>auto simp: set_allEntries\<close>)
  moreover have "bytesOf (filter (\<lambda>e. e_key e = k) (concat (map content ts))) \<le> 2 ^ 26" for k
    using r le [of "\<lambda>t. bytesOf (filter (\<lambda>e. e_key e = k) (content t))"] unfolding room_def allEntries_def b by (meson order_trans)
  moreover have "length (concat (map content ts)) \<le> length (allEntries content l)"
    using le [of "\<lambda>t. length (content t)"] by (simp add: allEntries_def length_concat comp_def)
  ultimately show ?thesis using r ts(2) by (auto simp: merge_ok_def room_def)
qed

end
