(* ===== verification/Compaction_Props.thy ===== *)
theory Compaction_Props
  imports Levels
begin

text \<open>
  Compaction as a whole: \<open>Compact\<close> finishes, keeps the invariant of the levels and changes no answer to a reader at or
  above the oldest active read timestamp.
\<close>

section \<open>One merge\<close>

text \<open>The tables searched before the merged ones, and those searched after them.\<close>

definition before :: "sstable list list \<Rightarrow> nat \<Rightarrow> sstable list \<Rightarrow> sstable list" where
  "before ls to ts = filter (\<lambda>t. t \<notin> set ts) (concat (take (Suc to) ls))"

definition after :: "sstable list list \<Rightarrow> nat \<Rightarrow> sstable list" where
  "after ls to = concat (drop (Suc to) ls)"

lemma before_level: "s \<in> set (before ls to ts) \<Longrightarrow> \<exists>a \<le> to. a < length ls \<and> s \<in> set (ls ! a)"
proof -
  assume "s \<in> set (before ls to ts)"
  then obtain xs where "xs \<in> set (take (Suc to) ls)" "s \<in> set xs" by (auto simp: before_def)
  then obtain i where "i < length ls" "i < Suc to" "s \<in> set (ls ! i)" by (auto simp: in_set_conv_nth [of xs])
  then show ?thesis by (intro exI [of _ i]) auto
qed

lemma after_level: "s \<in> set (after ls to) \<Longrightarrow> \<exists>a > to. a < length ls \<and> s \<in> set (ls ! a)"
proof -
  assume "s \<in> set (after ls to)"
  then obtain xs where "xs \<in> set (drop (Suc to) ls)" "s \<in> set xs" by (auto simp: after_def)
  then obtain i where "i < length ls - Suc to" "s \<in> set (ls ! (Suc to + i))" by (auto simp: in_set_conv_nth [of xs])
  then show ?thesis by (intro exI [of _ "Suc to + i"]) auto
qed

lemma levels_split:
  assumes o: "lsm_order content ls" "lvl_distinct ls" and m: "merge_sound content ls from to picked overlaps"
  defines "ts \<equiv> overlaps @ picked"
  shows "set (concat ls) = set (before ls to ts) \<union> set ts \<union> set (after ls to)" "set (after ls to) \<inter> set ts = {}"
    "s \<in> set (before ls to ts) \<Longrightarrow> t \<in> set ts \<Longrightarrow> newer (content s) (content t)"
    "s \<in> set (before ls to ts) \<Longrightarrow> t \<in> set (after ls to) \<Longrightarrow> newer (content s) (content t)"
    "s \<in> set ts \<Longrightarrow> t \<in> set (after ls to) \<Longrightarrow> newer (content s) (content t)"
proof -
  note M = m [unfolded merge_sound_def, folded ts_def]
  have al: "set (concat ls) = set (concat (take (Suc to) ls)) \<union> set (after ls to)"
    unfolding after_def set_append [symmetric] concat_append [symmetric] by simp
  have sub: "set ts \<subseteq> set (concat ls)" 
  proof -
    have "from < length ls" "to < length ls" using M by auto
    then have "set (ls ! from) \<subseteq> set (concat ls)" "set (ls ! to) \<subseteq> set (concat ls)" unfolding set_concat_levels by blast+
    then show ?thesis using M by (auto simp: ts_def)
  qed
  show d: "set (after ls to) \<inter> set ts = {}"
  proof -
    have "t \<notin> set ts" if t: "t \<in> set (after ls to)" for t
    proof
      obtain a where a: "to < a" "a < length ls" "t \<in> set (ls ! a)" using after_level [OF t] by blast
      assume "t \<in> set ts"
      then obtain b where "b < a" "t \<in> set (ls ! b)" using M a(1) by (auto simp: ts_def intro: less_trans)
      then show False using o(2) a by (auto simp: lvl_distinct_def)
    qed
    then show ?thesis by blast
  qed
  then show "set (concat ls) = set (before ls to ts) \<union> set ts \<union> set (after ls to)" using al sub by (auto simp: before_def)
  show "newer (content s) (content t)" if s: "s \<in> set (before ls to ts)" and t: "t \<in> set ts" for s t
  proof -
    obtain a where "a \<le> to" "a < length ls" "s \<in> set (ls ! a)" using before_level [OF s] by blast
    then show ?thesis using merge_sound_apart(1) [OF o(1) m, of a s t] s t by (simp add: before_def ts_def)
  qed
  show "newer (content s) (content t)" if s: "s \<in> set (before ls to ts)" and t: "t \<in> set (after ls to)" for s t
  proof -
    obtain a b where "a \<le> to" "to < b" "b < length ls" "s \<in> set (ls ! a)" "t \<in> set (ls ! b)" using before_level [OF s] after_level [OF t] by blast
    then show ?thesis using o(1) le_less_trans [of a to b] unfolding lsm_order_def by blast
  qed
  show "newer (content s) (content t)" if s: "s \<in> set ts" and t: "t \<in> set (after ls to)" for s t
  proof -
    obtain b where "to < b" "b < length ls" "t \<in> set (ls ! b)" using after_level [OF t] by blast
    then show ?thesis using merge_sound_apart(2) [OF o(1) m, of b t s] s t d by (auto simp: ts_def)
  qed
qed

lemma merge_answers:
  assumes x: "ctx_ok x" "sort_tables (x_sortTables x)" and l: "lsm_inv x cinv view content l"
    and m: "merge_sound content (l_levels l) from (d_target p) picked overlaps"
    and w: "written x p l (concat (map content (overlaps @ picked))) (concat (map content1 new))"
    and c: "\<forall>t \<in> set (tablesOf l). content1 t = content t" "consistent (concat (map content1 us))"
    and us: "set us = (set (tablesOf l) - set (overlaps @ picked)) \<union> set new"
    and t: "d_minReadTs p \<le> ts" "sint (d_now p) \<le> sint now"
  shows "reads now (concat (map content1 us)) k ts = reads now (allEntries content l) k ts"
proof -
  let ?ls = "l_levels l" and ?to = "d_target p" and ?ts = "overlaps @ picked"
  have L: "lsm_order content ?ls" "lvl_distinct ?ls" "length ?ls = MaxLevels" using l by (auto simp: lsm_inv_def)
  note sp = levels_split [OF L(1,2) m]
  define N M where "N = concat (map content (before ?ls ?to ?ts))" and "M = concat (map content (after ?ls ?to))"
  let ?ins = "concat (map content ?ts)" and ?out = "concat (map content1 new)"
  have tl: "set (tablesOf l) = set (before ?ls ?to ?ts) \<union> set ?ts \<union> set (after ?ls ?to)" using sp(1) by (simp add: tablesOf_def)
  have ci: "consistent ?ins" using inv_consistent [OF l] by (rule consistent_subset) (use tl in \<open>auto simp: set_allEntries\<close>)
  have fe: "from_entries ?ins ?out" unfolding from_entries_def using written_entries [OF x(1) w] by blast
  have "reads now (N @ ?out @ M) k ts = reads now (N @ ?ins @ M) k ts"
  proof (rule reads_replace [OF _ _ _ fe written_reads [OF x(1) w ci t]])
    show "newer N ?ins" "newer N M" "newer ?ins M" using sp(3-5) unfolding N_def M_def newer_concat set_map by blast+
    assume "M \<noteq> []"
    then have "?to \<noteq> MaxLevels - 1" using L(3) by (auto simp: M_def after_def MaxLevels_def)
    then show "snapshot_entry ?out k ts = None \<longleftrightarrow> snapshot_entry ?ins k ts = None" using written_found [OF x(1) w ci t(1)] by blast
  qed
  moreover have "set (allEntries content l) = set (N @ ?ins @ M)" using tl by (auto simp: set_allEntries N_def M_def)
  then have "snapshot_entry (allEntries content l) k ts = snapshot_entry (N @ ?ins @ M) k ts"
    by (rule snapshot_set_cong [OF _ inv_consistent [OF l]])
  moreover have "set us = set (before ?ls ?to ?ts) \<union> set new \<union> set (after ?ls ?to)"
    using us tl sp(2) by (auto simp: before_def)
  then have "set (concat (map content1 us)) = set (N @ ?out @ M)" using c(1) tl by (auto simp: N_def M_def)
  then have "snapshot_entry (concat (map content1 us)) k ts = snapshot_entry (N @ ?out @ M) k ts"
    by (rule snapshot_set_cong [OF _ c(2)])
  ultimately show ?thesis by (simp add: reads_def)
qed

definition answers_kept :: "dparams \<Rightarrow> entry list \<Rightarrow> entry list \<Rightarrow> bool" where
  "answers_kept p es es1 \<longleftrightarrow> (\<forall>now k ts. d_minReadTs p \<le> ts \<longrightarrow> sint (d_now p) \<le> sint now \<longrightarrow> reads now es1 k ts = reads now es k ts)"

definition compacts :: "'c ectx \<Rightarrow> ('c \<Rightarrow> bool) \<Rightarrow> ('c \<Rightarrow> bytes \<Rightarrow> bytes option) \<Rightarrow> dparams \<Rightarrow> (sstable \<Rightarrow> entry list) \<Rightarrow> 'c lsm \<Rightarrow> 'c lsm option \<Rightarrow> bool" where
  "compacts x cinv view p content l r \<longleftrightarrow>
     (\<exists>l1 content1. r = Some l1 \<and> lsm_inv x cinv view content1 l1 \<and> answers_kept p (allEntries content l) (allEntries content1 l1))"

lemma compacts_same: "lsm_inv x cinv view content l \<Longrightarrow> compacts x cinv view p content l (Some l)"
  by (auto simp: compacts_def answers_kept_def)

lemma compaction_step:
  assumes x: "ctx_ok x" "sort_tables (x_sortTables x)" and l: "lsm_inv x cinv view content l" and r: "room x content l"
    and m: "merge_sound content (l_levels l) from (d_target p) picked overlaps"
  shows "compacts x cinv view p content l (mergeInto x p from picked overlaps l)"
proof -
  let ?T = "set (tablesOf l)" and ?ls = "l_levels l" and ?ts = "overlaps @ picked"
  note M = m [unfolded merge_sound_def] and L = l [unfolded lsm_inv_def]
  note sp = levels_split [OF conjunct2 [OF conjunct2 [OF conjunct2 [OF conjunct2 [OF L]]]] conjunct1 [OF conjunct2 [OF L]] m]
  have sub: "set ?ts \<subseteq> ?T" using sp(1) by (auto simp: tablesOf_def)
  have "set (?ls ! from) \<inter> set (?ls ! d_target p) = {}" using M L unfolding lvl_distinct_def by blast
  then have "set overlaps \<inter> set picked = {}" using M by blast
  then have dts: "distinct ?ts" using M by simp
  obtain l1 new content1 where f: "mergeInto x p from picked overlaps l = Some l1" "lsm_ok x cinv view content1 (?T \<union> set new) l1"
    "\<forall>t \<in> ?T. content1 t = content t" "distinct new" "?T \<inter> set new = {}" "sorted_wrt apart (map content1 new)"
    "written x p l (concat (map content ?ts)) (concat (map content1 new))"
    "l_levels l1 = replaced x from (d_target p) picked overlaps new ?ls"
    using mergeInto_ok [OF x(1) _ room_merge [OF l r dts sub], of cinv view "from" p] L M by auto
  have inj: "inj_on t_filename ?T" "set (concat ?ls) \<subseteq> ?T"
    using L by (simp_all add: tablesOf_def lsm_ok_def stored_def dir_tables_def)
  have org: "\<forall>t \<in> set new. from_entries (concat (map content ?ts)) (content1 t)"
    using written_entries [OF x(1) f(7)] by (fastforce simp: from_entries_def)
  note ord = replaced_order [OF inj x(2) m _ _ f(3-6) org, folded f(8)]
  have ts1: "set (tablesOf l1) = (?T - set ?ts) \<union> set new"
    using replaced_tables [OF inj x(2) m, of new] L f(8) by (simp add: tablesOf_def)
  have "lsm_ok x cinv view content1 (set (tablesOf l1)) l1"
    using f(2) ts1 stored_subset unfolding lsm_ok_def by (metis (no_types, lifting) Diff_subset Un_mono order_refl)
  moreover have "set (concat (map content ?ts)) \<subseteq> set (allEntries content l)" using sub by (auto simp: set_allEntries)
  then have co: "consistent (concat (map content1 new))"
    by (rule written_consistent [OF x(1) f(7) consistent_subset [OF inv_consistent [OF l]]])
  have "consistent (content1 t)" if t: "t \<in> set (tablesOf l1)" for t
  proof (cases "t \<in> set new")
    case True
    then show ?thesis using consistent_subset [OF co, of "content1 t"] by auto
  qed (use t ts1 f(3) L in auto)
  moreover have "length (l_levels l1) = MaxLevels" using replaced_levels(1) [OF inj x(2) m] M L f(8) by auto
  ultimately have inv: "lsm_inv x cinv view content1 l1" using ord L by (simp add: lsm_inv_def)
  have "answers_kept p (allEntries content l) (allEntries content1 l1)"
    unfolding answers_kept_def
    using merge_answers [OF x l m f(7,3) inv_consistent [OF inv, unfolded allEntries_def] ts1] by (simp add: allEntries_def)
  then show ?thesis using f(1) inv by (auto simp: compacts_def)
qed

section \<open>Choosing the tables\<close>

lemma ranges_apart:
  assumes "lsm_inv x cinv view content l" "s \<in> set (tablesOf l)" "t \<in> set (tablesOf l)" "\<not> rangesOverlap t s"
  shows "apart (content s) (content t)"
  unfolding apart_def
proof (intro ballI notI)
  have st: "stored (x_env x) cinv view (x_reg x) (x_dir x) content (set (tablesOf l)) (l_nextSeq l) (l_cache l)"
    using assms(1) by (simp add: lsm_inv_def lsm_ok_def)
  fix e f assume e: "e \<in> set (content s)" "f \<in> set (content t)" "e_key e = e_key f"
  have "t_minKey s \<le> e_key e" "e_key e \<le> t_maxKey s" "t_minKey t \<le> e_key e" "e_key e \<le> t_maxKey t"
    using stored_bounds [OF st assms(2) e(1)] stored_bounds [OF st assms(3) e(2)] e(3) by simp_all
  then show False using assms(4) order_trans by (auto simp: rangesOverlap_def)
qed

lemma findBaseLevel_range: "1 \<le> findBaseLevel x l" "findBaseLevel x l < MaxLevels"
proof -
  have "1 \<le> snd (limitsFrom b r n lim bl) \<and> snd (limitsFrom b r n lim bl) < MaxLevels" if "1 \<le> bl" "bl < MaxLevels" "n < MaxLevels" for b r n lim bl
    using that by (induction b r n lim bl rule: limitsFrom.induct) (auto simp: Let_def)
  from this [of "MaxLevels - 1" "MaxLevels - 2"]
  show "1 \<le> findBaseLevel x l" "findBaseLevel x l < MaxLevels" by (simp_all add: findBaseLevel_def calcLevelLimits_def Let_def MaxLevels_def)
qed

lemma level_tables: "length (l_levels l) = MaxLevels \<Longrightarrow> a < MaxLevels \<Longrightarrow> level l a = l_levels l ! a \<and> set (l_levels l ! a) \<subseteq> set (tablesOf l)"
  by (auto simp: level_def tablesOf_level)

text \<open>No level above the base level holds keys of level 0.  The source compacts level 0 past such levels without looking.\<close>

definition base_clear :: "'c ectx \<Rightarrow> 'c lsm \<Rightarrow> bool" where
  "base_clear x l \<longleftrightarrow> (\<forall>a. 0 < a \<longrightarrow> a < findBaseLevel x l \<longrightarrow> (\<forall>s \<in> set (level l a). \<forall>t \<in> set (level l 0). \<not> rangesOverlap t s))"

lemma compactLevel0_ok:
  assumes x: "ctx_ok x" "sort_tables (x_sortTables x)" and l: "lsm_inv x cinv view content l" and r: "room x content l" and b: "base_clear x l"
  shows "compacts x cinv view p content l (compactLevel0 x p l)"
proof (cases "level l 0 = []")
  case True
  then show ?thesis using compacts_same [OF l] by (simp add: compactLevel0_def)
next
  case False
  let ?ls = "l_levels l" and ?b = "findBaseLevel x l"
  let ?o = "filter (\<lambda>t. \<exists>s \<in> set (level l 0). rangesOverlap s t) (level l ?b)"
  have len: "length ?ls = MaxLevels" and d: "lvl_distinct ?ls" using l by (auto simp: lsm_inv_def)
  note lv = level_tables [OF len] and br = findBaseLevel_range [of x l]
  have l0: "level l 0 = ?ls ! 0" "set (level l 0) \<subseteq> set (tablesOf l)" "level l ?b = ?ls ! ?b" using lv [of 0] lv [OF br(2)] by (auto simp: MaxLevels_def)
  have ap: "apart (content s) (content t)" if a: "a \<le> ?b" and s: "s \<in> set (?ls ! a) - set (?o @ level l 0)" and t: "t \<in> set (level l 0)" for a s t
  proof (rule ranges_apart [OF l])
    have la: "level l a = ?ls ! a" "set (?ls ! a) \<subseteq> set (tablesOf l)" using lv [of a] a br(2) by auto
    then show "s \<in> set (tablesOf l)" "t \<in> set (tablesOf l)" using s t l0 by auto
    have "a \<noteq> 0"
    proof
      assume "a = 0"
      then have "s \<in> set (level l 0)" using s l0(1) by simp
      then show False using s by simp
    qed
    then show "\<not> rangesOverlap t s" using a s t b la(1) l0(3) by (cases "a = ?b") (auto simp: base_clear_def)
  qed
  have ds: "distinct (?ls ! 0)" "distinct (?ls ! ?b)" using d br len by (auto simp: lvl_distinct_def MaxLevels_def)
  have "merge_sound content ?ls 0 ?b (level l 0) ?o"
    unfolding merge_sound_def using ap ds br len l0(1,3) by (auto simp: MaxLevels_def)
  then have "compacts x cinv view (p\<lparr>d_target := ?b\<rparr>) content l (mergeInto x (p\<lparr>d_target := ?b\<rparr>) 0 (level l 0) ?o l)"
    by (intro compaction_step [OF x l r]) simp
  then show ?thesis using False by (simp add: compactLevel0_def Let_def compacts_def answers_kept_def)
qed

lemma compactLevelTable_ok:
  assumes x: "ctx_ok x" "sort_tables (x_sortTables x)" and l: "lsm_inv x cinv view content l" and r: "room x content l"
    and pick: "0 < from" "pick \<in> set (level l from)"
  shows "compacts x cinv view p content l (compactLevelTable x p from pick l)"
proof (cases "MaxLevels - 1 \<le> from")
  case True
  then show ?thesis using compacts_same [OF l] by (simp add: compactLevelTable_def)
next
  case False
  let ?ls = "l_levels l" and ?to = "from + 1"
  let ?o = "filter (rangesOverlap pick) (level l ?to)"
  have len: "length ?ls = MaxLevels" and d: "lvl_distinct ?ls" and ord: "lsm_order content ?ls" using l by (auto simp: lsm_inv_def)
  have fr: "from < MaxLevels" "?to < MaxLevels" using False by auto
  note lv = level_tables [OF len fr(1)] level_tables [OF len fr(2)]
  have ap: "apart (content s) (content pick)" if a: "from \<le> a" "a \<le> ?to" and s: "s \<in> set (?ls ! a) - set (?o @ [pick])" for a s
  proof (cases "a = from")
    case True
    then show ?thesis using ord s pick lv(1) len fr(1) by (simp add: lsm_order_def)
  next
    case False
    then have "a = ?to" using a by simp
    then show ?thesis using s lv pick(2) by (intro ranges_apart [OF l]) auto
  qed
  have "merge_sound content ?ls from ?to [pick] ?o"
    unfolding merge_sound_def using ap d len fr lv pick(2) by (auto simp: lvl_distinct_def)
  then have "compacts x cinv view (p\<lparr>d_target := ?to\<rparr>) content l (mergeInto x (p\<lparr>d_target := ?to\<rparr>) from [pick] ?o l)"
    by (intro compaction_step [OF x l r]) simp
  then show ?thesis using False by (simp add: compactLevelTable_def Let_def compacts_def answers_kept_def)
qed

lemma tombstoneVictim_level: "tombstoneVictim x l = Some (lvl, t) \<Longrightarrow> t \<in> set (level l lvl)"
proof -
  assume v: "tombstoneVictim x l = Some (lvl, t)"
  let ?f = "filter (\<lambda>lvl. \<exists>t \<in> set (level l lvl). x_mostlyDead x t) (rev [0..<MaxLevels - 1])"
  from v obtain rest where f: "?f = lvl # rest" and t: "t = hd (filter (x_mostlyDead x) (level l lvl))"
    by (auto simp: tombstoneVictim_def split: list.splits)
  have "lvl \<in> set ?f" unfolding f by simp
  then have "filter (x_mostlyDead x) (level l lvl) \<noteq> []" by (auto simp: filter_empty_conv)
  then have "t \<in> set (filter (x_mostlyDead x) (level l lvl))" unfolding t by (rule hd_in_set)
  then show ?thesis by simp
qed

lemma Compact_ok:
  assumes x: "ctx_ok x" "sort_tables (x_sortTables x)" and l: "lsm_inv x cinv view content l" and r: "room x content l" and b: "base_clear x l"
  shows "compacts x cinv view p content l (Compact x p l)"
proof -
  have lvl: "compacts x cinv view p content l (compactLevel x p a l)" if "0 < a" for a
    using compacts_same [OF l] compactLevelTable_ok [OF x l r that] by (simp add: compactLevel_def)
  show ?thesis
    using compactLevel0_ok [OF x l r b] compactLevelTable_ok [OF x l r] compacts_same [OF l] lvl tombstoneVictim_level [of x l]
    by (auto simp: Compact_def split: option.split)
qed


section \<open>A concrete compaction\<close>

definition exCtx :: "shard list ectx" where
  "exCtx = \<lparr>x_env = exEnv, x_dir = [0x64], x_reg = None, x_nonce = (\<lambda>_ _. replicate 12 0), x_ratio = (\<lambda>_ _. 0),
     x_sortVersions = insort_by (\<lambda>a b. e_version b < e_version a), x_sortTables = insort_by (\<lambda>s t. t_minKey s < t_minKey t),
     x_fuel = 10, x_memTableSize = 1024, x_levelSizeRatio = 10, x_compactionThreshold = 2, x_mostlyDead = (\<lambda>_. False),
     x_scoreGreater = (\<lambda>(a, b) (c, d). c * b < a * d)\<rparr>"

definition exOld :: "entry list" where
  "exOld = [\<lparr>e_key = [1], e_value = [7], e_deleted = False, e_expiresAt = 0, e_version = 1\<rparr>,
     \<lparr>e_key = [2], e_value = [8], e_deleted = False, e_expiresAt = 0, e_version = 2\<rparr>]"

definition exNew :: "entry list" where
  "exNew = [\<lparr>e_key = [1], e_value = [9], e_deleted = False, e_expiresAt = 0, e_version = 3\<rparr>,
     \<lparr>e_key = [2], e_value = [], e_deleted = True, e_expiresAt = 0, e_version = 4\<rparr>]"

definition exLsm :: "sstable \<Rightarrow> sstable \<Rightarrow> shard list option \<Rightarrow> shard list lsm" where
  "exLsm s t c = \<lparr>l_levels = [[s, t], [], [], [], []], l_nextSeq = 2, l_cache = c, l_manifest = Some [], l_discardStats = [],
     l_vlogDiscards = None, l_dropped = []\<rparr>"

lemma exCtx_ok: "ctx_ok exCtx" "sort_tables (x_sortTables exCtx)"
proof -
  show "ctx_ok exCtx" unfolding ctx_ok_def sort_versions_def by (simp add: exCtx_def, rule slice_sort_insort_by) auto
  show "sort_tables (x_sortTables exCtx)" unfolding sort_tables_def by (simp add: exCtx_def, rule slice_sort_insort_by) auto
qed

lemma ex_lsm:
  obtains s t c content where "lsm_inv exCtx lruInv (lruView (\<lambda>k. of_nat (length k))) content (exLsm s t c)" "content s = exOld" "content t = exNew"
proof -
  let ?v = "lruView (\<lambda>k. of_nat (length k) :: u64)"
  have st0: "stored exEnv lruInv ?v None [0x64] (\<lambda>_. []) {} 0 (Some (NewLRUCache 4))"
    using lru_block_cache exEnv_ok exMisc(1) new_cache_agrees by (simp add: stored_def dir_tables_def)
  have ok: "input_ok exOld" "input_ok exNew" "length (records exOld) < 2 ^ 27" "length (records exNew) < 2 ^ 27" "exOld \<noteq> []" "exNew \<noteq> []"
    "sorted_wrt version_ord exOld" "sorted_wrt version_ord exNew"
    by (simp_all add: input_ok_def exOld_def exNew_def rec_ok_def encodeRecord_def Let_def version_ord_def)
  obtain s c1 where s: "s \<notin> {}" "stored exEnv lruInv ?v None [0x64] ((\<lambda>_. [])(s := exOld)) (insert s {}) (0 + 1) c1"
    using stored_create [OF st0 exMisc(4) _ ok(1,5,7,3), of "\<lambda>_ _. 0" 0 0] by auto
  obtain t c2 where t: "t \<notin> insert s {}" "stored exEnv lruInv ?v None [0x64] ((\<lambda>_. [])(s := exOld, t := exNew)) (insert t (insert s {})) (0 + 1 + 1) c2"
    using stored_create [OF s(2) exMisc(4) _ ok(2,6,8,4), of "\<lambda>_ _. 0" 0 0] by auto
  let ?c = "(\<lambda>_. [])(s := exOld, t := exNew)"
  have st: "s \<noteq> t" using t(1) by auto
  have "lsm_order ?c [[s, t], [], [], [], []]"
    using st by (auto simp: lsm_order_def newer_def exOld_def exNew_def less_Suc_eq nth_Cons split: nat.splits)
  moreover have "lvl_distinct [[s, t], [], [], [], []]" using st by (auto simp: lvl_distinct_def nth_Cons split: nat.splits)
  moreover have "consistent exOld" "consistent exNew" by (auto simp: consistent_def inj_on_def exOld_def exNew_def)
  ultimately have "lsm_inv exCtx lruInv ?v ?c (exLsm s t c2)"
    using t(2) st by (simp add: lsm_inv_def exLsm_def tablesOf_def MaxLevels_def lsm_ok_def exCtx_def insert_commute)
  then show ?thesis using that st by (metis fun_upd_other fun_upd_same)
qed


end
