(* ===== verification/Glob.thy ===== *)
theory Glob
  imports Prelude
begin

text \<open>
  Glob patterns, \<open>globMatch\<close> and \<open>matchCharClass\<close> of \<open>engine_read.go\<close>: the iterative matcher that remembers the last star
  and retries one byte further on a mismatch.  It is proved to terminate and to decide the relation a pattern denotes when it
  is read as a sequence of one-byte tokens and stars.
\<close>

section \<open>The code\<close>

text \<open>The loop of \<open>matchCharClass\<close> over the members of a class.\<close>

function classLoop :: "bytes \<Rightarrow> byte \<Rightarrow> nat \<Rightarrow> bool \<Rightarrow> nat \<times> bool" where
  "classLoop pattern ch j matched =
     (if j < length pattern \<and> pattern ! j \<noteq> 0x5D then
        if j + 2 < length pattern \<and> pattern ! (j + 1) = 0x2D \<and> pattern ! (j + 2) \<noteq> 0x5D
        then classLoop pattern ch (j + 3) (matched \<or> pattern ! j \<le> ch \<and> ch \<le> pattern ! (j + 2))
        else classLoop pattern ch (j + 1) (matched \<or> pattern ! j = ch)
      else (j, matched))"
  by auto
termination by (relation "measure (\<lambda>(pattern, ch, j, matched). length pattern - j)") auto

declare classLoop.simps [simp del]

definition matchCharClass :: "bytes \<Rightarrow> nat \<Rightarrow> byte \<Rightarrow> nat \<times> bool" where
  "matchCharClass pattern start ch =
     (let j = start + 1;
          negate = (j < length pattern \<and> pattern ! j = 0x5E);
          (j1, matched) = classLoop pattern ch (if negate then j + 1 else j) False
      in if length pattern \<le> j1 then (start + 1, ch = 0x5B) else (j1 + 1, matched \<noteq> negate))"

text \<open>One turn of the switch on \<open>pattern[p]\<close> for a byte other than \<open>*\<close>: where matching goes on, if the byte matches.\<close>

definition matchToken :: "bytes \<Rightarrow> nat \<Rightarrow> byte \<Rightarrow> nat option" where
  "matchToken pattern p ch =
     (if pattern ! p = 0x3F then Some (p + 1)
      else if pattern ! p = 0x5B then
        (case matchCharClass pattern p ch of (next, ok) \<Rightarrow> if ok then Some next else None)
      else if pattern ! p = 0x5C then
        (if p + 1 < length pattern \<and> pattern ! (p + 1) = ch then Some (p + 2) else None)
      else if pattern ! p = ch then Some (p + 1) else None)"

lemma classLoop_ge: "j \<le> fst (classLoop pattern ch j matched)"
  by (induction pattern ch j matched rule: classLoop.induct) (subst classLoop.simps, auto)

lemma matchToken_gt: "matchToken pattern p ch = Some n \<Longrightarrow> p < n"
  using classLoop_ge [of "p + 1" pattern ch False] classLoop_ge [of "p + 2" pattern ch False]
  by (auto simp: matchToken_def matchCharClass_def Let_def split: if_splits prod.splits)

fun skipStars :: "bytes \<Rightarrow> bool" where
  "skipStars [] = True"
| "skipStars (b # bs) = (b = 0x2A \<and> skipStars bs)"

text \<open>In every state of the loop the last star is behind.  Rank of a state: first those that no run reaches, then the position of the last
  star, its retries, and the bytes left.\<close>

definition starBehind :: "nat \<Rightarrow> nat \<Rightarrow> nat option \<Rightarrow> nat \<Rightarrow> bool" where
  "starBehind p si star starS \<longleftrightarrow> (case star of None \<Rightarrow> True | Some q \<Rightarrow> q < p \<and> starS \<le> si)"

text \<open>The loop of \<open>globMatch\<close>; \<open>star\<close> is \<open>starP\<close>, none for \<open>-1\<close>.\<close>

function globLoop :: "bytes \<Rightarrow> bytes \<Rightarrow> nat \<Rightarrow> nat \<Rightarrow> nat option \<Rightarrow> nat \<Rightarrow> bool" where
  "globLoop pattern s p si star starS =
     (if si < length s then
        if p < length pattern \<and> pattern ! p = 0x2A then globLoop pattern s (p + 1) si (Some p) si
        else case (if p < length pattern then matchToken pattern p (s ! si) else None) of
          Some next \<Rightarrow> globLoop pattern s next (si + 1) star starS
        | None \<Rightarrow> (case star of Some q \<Rightarrow> globLoop pattern s (q + 1) (starS + 1) star (starS + 1) | None \<Rightarrow> False)
      else skipStars (drop p pattern))"
  by pat_completeness auto

termination
proof (relation "measures [\<lambda>(pattern, s, p, si, star, starS). if starBehind p si star starS then 0 else 1,
    \<lambda>(pattern, s, p, si, star, starS). length pattern + 1 - (case star of None \<Rightarrow> 0 | Some q \<Rightarrow> q + 1),
    \<lambda>(pattern, s, p, si, star, starS). length s - starS, \<lambda>(pattern, s, p, si, star, starS). length s - si]")
qed (auto simp: starBehind_def dest: matchToken_gt split: option.splits if_splits)

declare globLoop.simps [simp del]

definition globMatch :: "bytes \<Rightarrow> bytes \<Rightarrow> bool" where
  "globMatch pattern s = globLoop pattern s 0 0 None 0"

section \<open>What a pattern denotes\<close>

text \<open>Reading from \<open>p\<close>: a star is any number of bytes, every other token one byte.\<close>

inductive denotes :: "bytes \<Rightarrow> nat \<Rightarrow> bytes \<Rightarrow> bool" for pattern where
  d_end: "length pattern \<le> p \<Longrightarrow> denotes pattern p []"
| d_skip: "p < length pattern \<Longrightarrow> pattern ! p = 0x2A \<Longrightarrow> denotes pattern (p + 1) s \<Longrightarrow> denotes pattern p s"
| d_star: "p < length pattern \<Longrightarrow> pattern ! p = 0x2A \<Longrightarrow> denotes pattern p s \<Longrightarrow> denotes pattern p (c # s)"
| d_token: "p < length pattern \<Longrightarrow> pattern ! p \<noteq> 0x2A \<Longrightarrow> matchToken pattern p c = Some n \<Longrightarrow> denotes pattern n s \<Longrightarrow>
    denotes pattern p (c # s)"

lemma denotes_past: "length pattern \<le> p \<Longrightarrow> denotes pattern p s \<longleftrightarrow> s = []"
  by (auto intro: d_end elim: denotes.cases)

lemma denotes_token:
  "p < length pattern \<Longrightarrow> pattern ! p \<noteq> 0x2A \<Longrightarrow>
   denotes pattern p s \<longleftrightarrow> (\<exists>c t n. s = c # t \<and> matchToken pattern p c = Some n \<and> denotes pattern n t)"
  by (subst denotes.simps) auto

lemma denotes_star:
  assumes "p < length pattern" "pattern ! p = 0x2A"
  shows "denotes pattern p s \<longleftrightarrow> (\<exists>k \<le> length s. denotes pattern (p + 1) (drop k s))"
proof
  show "denotes pattern p s \<Longrightarrow> \<exists>k \<le> length s. denotes pattern (p + 1) (drop k s)"
  proof (induction s)
    case Nil
    then show ?case using assms by (auto elim: denotes.cases)
  next
    case (Cons c s)
    from Cons.prems show ?case
    proof (cases rule: denotes.cases)
      case d_skip
      then show ?thesis by (intro exI [of _ 0]) simp
    next
      case d_star
      then obtain k where "k \<le> length s" "denotes pattern (p + 1) (drop k s)" using Cons.IH by blast
      then show ?thesis by (intro exI [of _ "Suc k"]) simp
    qed (use assms in simp_all)
  qed
  show "\<exists>k \<le> length s. denotes pattern (p + 1) (drop k s) \<Longrightarrow> denotes pattern p s"
  proof (induction s)
    case Nil
    then show ?case using d_skip [OF assms] by simp
  next
    case (Cons c s)
    then obtain k where k: "k \<le> Suc (length s)" "denotes pattern (p + 1) (drop k (c # s))" by auto
    show ?case
    proof (cases k)
      case 0
      then show ?thesis using k d_skip [OF assms] by simp
    next
      case (Suc j)
      then show ?thesis using k Cons.IH d_star [OF assms] by auto
    qed
  qed
qed

lemma denotes_star_drop:
  assumes "p < length pattern" "pattern ! p = 0x2A" "i \<le> j" "j \<le> length s" "denotes pattern p (drop j s)"
  shows "denotes pattern p (drop i s)"
proof -
  obtain k where k: "k \<le> length s - j" "denotes pattern (p + 1) (drop k (drop j s))"
    using assms(5) denotes_star [OF assms(1,2)] by auto
  have "k + (j - i) \<le> length (drop i s)" "drop (k + (j - i)) (drop i s) = drop k (drop j s)"
    using k(1) assms(3,4) by (auto simp: add.commute)
  then show ?thesis using k(2) denotes_star [OF assms(1,2)] by metis
qed

section \<open>The matcher decides it\<close>

lemma classLoop_end: "fst (classLoop pattern ch j matched) = fst (classLoop pattern ch' j matched')"
proof (induction pattern ch j matched arbitrary: matched' rule: classLoop.induct)
  case (1 pattern ch j matched)
  show ?case
    by (subst (1 2) classLoop.simps) (use 1 in auto)
qed

lemma matchToken_end:
  assumes "matchToken pattern p c = Some n" "matchToken pattern p d = Some m" shows "n = m"
  using assms classLoop_end [of pattern c _ False d False]
  by (auto simp: matchToken_def matchCharClass_def Let_def split: if_splits prod.splits) (metis fst_conv)+

lemma skipStars_denotes: "skipStars (drop p pattern) \<longleftrightarrow> denotes pattern p []"
proof (induction "length pattern - p" arbitrary: p)
  case 0
  then show ?case by (simp add: denotes_past)
next
  case (Suc n)
  then have p: "p < length pattern" "drop p pattern = pattern ! p # drop (p + 1) pattern" by (simp_all add: Cons_nth_drop_Suc)
  show ?case
  proof (cases "pattern ! p = 0x2A")
    case True
    then show ?thesis using Suc(1) [of "p + 1"] Suc(2) p denotes_star [OF p(1) True, of "[]"] by simp
  next
    case False
    then show ?thesis using p denotes_token [OF p(1) False] by simp
  qed
qed

text \<open>What the loop knows of the last star: any match that starts later passes through \<open>p\<close> at the same distance.\<close>

definition star_inv :: "bytes \<Rightarrow> bytes \<Rightarrow> nat \<Rightarrow> nat \<Rightarrow> nat option \<Rightarrow> nat \<Rightarrow> bool" where
  "star_inv pattern s p si star starS \<longleftrightarrow> (\<forall>q. star = Some q \<longrightarrow> starS \<le> si \<and>
     (\<forall>k. starS \<le> k \<longrightarrow> k \<le> length s \<longrightarrow> denotes pattern (q + 1) (drop k s) \<longrightarrow>
        k + (si - starS) \<le> length s \<and> denotes pattern p (drop (k + (si - starS)) s)))"

definition star_later :: "bytes \<Rightarrow> bytes \<Rightarrow> nat option \<Rightarrow> nat \<Rightarrow> bool" where
  "star_later pattern s star starS \<longleftrightarrow> (\<exists>q k. star = Some q \<and> starS < k \<and> k \<le> length s \<and> denotes pattern (q + 1) (drop k s))"

lemma star_later_Some:
  "star_later pattern s (Some q) i \<longleftrightarrow> (\<exists>k > i. k \<le> length s \<and> denotes pattern (q + 1) (drop k s))"
  by (auto simp: star_later_def)

lemma star_later_step:
  assumes "i < length s"
  shows "star_later pattern s (Some q) i \<longleftrightarrow> denotes pattern (q + 1) (drop (i + 1) s) \<or> star_later pattern s (Some q) (i + 1)"
proof -
  have "(i < k) \<longleftrightarrow> k = i + 1 \<or> i + 1 < k" for k by auto
  then show ?thesis using assms unfolding star_later_Some by (metis Suc_eq_plus1 Suc_leI)
qed

lemma star_split:
  assumes "i < length s" "p < length pattern" "pattern ! p = 0x2A"
  shows "denotes pattern (p + 1) (drop i s) \<or> star_later pattern s (Some p) i \<longleftrightarrow> denotes pattern p (drop i s)"
proof
  assume "denotes pattern (p + 1) (drop i s) \<or> star_later pattern s (Some p) i"
  then obtain j where j: "i \<le> j" "j \<le> length s" "denotes pattern (p + 1) (drop j s)"
    using assms(1) unfolding star_later_Some by (meson less_imp_le order_refl)
  show "denotes pattern p (drop i s)" by (rule denotes_star_drop [OF assms(2,3) j(1,2) d_skip [OF assms(2,3) j(3)]])
next
  assume "denotes pattern p (drop i s)"
  then obtain k where k: "k \<le> length s - i" "denotes pattern (p + 1) (drop (i + k) s)"
    using denotes_star [OF assms(2,3), of "drop i s"] by (auto simp: add.commute)
  then show "denotes pattern (p + 1) (drop i s) \<or> star_later pattern s (Some p) i"
    using assms(1) by (cases "k = 0") (auto simp: star_later_Some intro!: exI [of _ "i + k"])
qed

lemma star_inv_new: "star_inv pattern s (p + 1) si (Some p) si"
  by (simp add: star_inv_def)

lemma star_inv_token:
  assumes "star_inv pattern s p si star starS" "p < length pattern" "pattern ! p \<noteq> 0x2A" "matchToken pattern p c = Some n"
  shows "star_inv pattern s n (si + 1) star starS"
  unfolding star_inv_def
proof (intro allI impI conjI)
  fix q assume q: "star = Some q"
  with assms(1) show le: "starS \<le> si + 1" by (simp add: star_inv_def)
  fix k assume k: "starS \<le> k" "k \<le> length s" "denotes pattern (q + 1) (drop k s)"
  define j where "j = k + (si - starS)"
  have j: "starS \<le> si" "j \<le> length s" "denotes pattern p (drop j s)" using assms(1) q k by (auto simp: star_inv_def j_def)
  obtain d t m where d: "drop j s = d # t" "matchToken pattern p d = Some m" "denotes pattern m t"
    using j(3) denotes_token [OF assms(2,3)] by blast
  have sh: "k + (si + 1 - starS) = Suc j" using j(1) by (simp add: j_def)
  have "drop (Suc j) s = t" using d(1) by (metis drop_Suc drop_tl list.sel(3))
  moreover have "Suc j \<le> length s" using d(1) by (metis Suc_leI drop_eq_Nil leI list.distinct(1))
  moreover have "m = n" by (rule matchToken_end [OF d(2) assms(4)])
  ultimately show "k + (si + 1 - starS) \<le> length s" "denotes pattern n (drop (k + (si + 1 - starS)) s)"
    using d(3) unfolding sh by simp_all
qed

lemma star_covers:
  assumes "star_inv pattern s p si star starS" "star_later pattern s star starS"
  shows "\<exists>j. si < j \<and> j \<le> length s \<and> denotes pattern p (drop j s)"
proof -
  obtain q k where "star = Some q" "starS < k" "k \<le> length s" "denotes pattern (q + 1) (drop k s)"
    using assms(2) by (auto simp: star_later_def)
  then show ?thesis using assms(1) by (intro exI [of _ "k + (si - starS)"]) (auto simp: star_inv_def)
qed

lemma globLoop_denotes:
  "star_inv pattern s p si star starS \<Longrightarrow> si \<le> length s \<Longrightarrow>
   globLoop pattern s p si star starS \<longleftrightarrow> denotes pattern p (drop si s) \<or> star_later pattern s star starS"
proof (induction pattern s p si star starS rule: globLoop.induct)
  case (1 pattern s p si star starS)
  note cover = star_covers [OF 1(4)]
  consider (fin) "si = length s" | (star) "si < length s" "p < length pattern" "pattern ! p = 0x2A"
    | (tok) n where "si < length s" "p < length pattern" "pattern ! p \<noteq> 0x2A" "matchToken pattern p (s ! si) = Some n"
    | (mis) "si < length s" "\<not> (p < length pattern \<and> pattern ! p = 0x2A)" "p < length pattern \<Longrightarrow> matchToken pattern p (s ! si) = None"
    using 1(5) by (cases "si = length s"; cases "p < length pattern"; cases "pattern ! p = 0x2A"; cases "matchToken pattern p (s ! si)") auto
  then show ?case
  proof cases
    case fin
    then show ?thesis using cover by (subst globLoop.simps) (auto simp: skipStars_denotes)
  next
    case star
    have "globLoop pattern s p si star starS \<longleftrightarrow> denotes pattern (p + 1) (drop si s) \<or> star_later pattern s (Some p) si"
      using 1(1) star star_inv_new by (subst globLoop.simps) simp
    also have "\<dots> \<longleftrightarrow> denotes pattern p (drop si s)"
      by (rule star_split [OF star])
    also have "\<dots> \<longleftrightarrow> denotes pattern p (drop si s) \<or> star_later pattern s star starS"
      using cover denotes_star_drop [OF star(2,3)] by (meson less_imp_le)
    finally show ?thesis .
  next
    case tok
    then have "globLoop pattern s p si star starS = globLoop pattern s n (si + 1) star starS" by (subst globLoop.simps) simp
    also have "\<dots> \<longleftrightarrow> denotes pattern n (drop (si + 1) s) \<or> star_later pattern s star starS"
      using 1(3) tok star_inv_token [OF 1(4) tok(2-4)] by simp
    also have "denotes pattern n (drop (si + 1) s) \<longleftrightarrow> denotes pattern p (drop si s)"
      using denotes_token [OF tok(2,3), of "drop si s"] Cons_nth_drop_Suc [OF tok(1), symmetric] tok(4) by simp
    finally show ?thesis .
  next
    case mis
    have no: "\<not> denotes pattern p (drop si s)"
      using mis denotes_past denotes_token [of p pattern "drop si s"] Cons_nth_drop_Suc [OF mis(1)]
      by (cases "p < length pattern") (auto simp: drop_eq_Nil)
    show ?thesis
    proof (cases star)
      case None
      then show ?thesis using mis no by (subst globLoop.simps) (simp add: star_later_def)
    next
      case (Some q)
      then have st: "starS < length s" using 1(4) mis(1) by (simp add: star_inv_def)
      have "globLoop pattern s p si star starS = globLoop pattern s (q + 1) (starS + 1) star (starS + 1)"
        using mis Some by (subst globLoop.simps) simp
      also have "\<dots> \<longleftrightarrow> star_later pattern s star starS"
        using 1(2) mis Some st by (simp add: star_later_step [OF st] star_inv_def)
      finally show ?thesis using no by simp
    qed
  qed
qed


end
