(* ===== verification/Threshold.thy ===== *)
theory Threshold
  imports Main
begin

text \<open>
  The adaptive inline threshold of \<open>internal/vlogthreshold/tracker.go\<close>: a rolling window of value sizes whose percentile,
  clamped between two limits, decides from which size on a value goes to the value log.  The percentile is a fraction of
  integers with a positive denominator; its product with the window length is exact in floating point because the window length
  is a power of two.
\<close>

definition defaultWindow :: nat where "defaultWindow = 2048"

record AdaptiveThreshold =
  at_samples :: "int list"
  at_sampleIdx :: nat
  at_maxSamples :: nat
  at_percentile :: "int \<times> int"
  at_currentValue :: int
  at_minLimit :: int
  at_maxLimit :: int

definition NewAdaptive :: "int \<times> int \<Rightarrow> int \<Rightarrow> int \<Rightarrow> AdaptiveThreshold" where
  "NewAdaptive percentile minLimit maxLimit =
     \<lparr>at_samples = replicate defaultWindow 0, at_sampleIdx = 0, at_maxSamples = defaultWindow,
      at_percentile = (if fst percentile \<le> 0 \<or> snd percentile < fst percentile then (3, 4) else percentile),
      at_currentValue = minLimit, at_minLimit = minLimit, at_maxLimit = (if maxLimit < minLimit then minLimit else maxLimit)\<rparr>"

definition recomputeLocked :: "AdaptiveThreshold \<Rightarrow> AdaptiveThreshold" where
  "recomputeLocked a =
     (let sorted = sort (at_samples a);
          r = nat (int (length sorted) * fst (at_percentile a) div snd (at_percentile a));
          rank = (if length sorted \<le> r then length sorted - 1 else r);
          t0 = sorted ! rank;
          t1 = (if t0 < at_minLimit a then at_minLimit a else t0);
          target = (if at_maxLimit a < t1 then at_maxLimit a else t1)
      in a\<lparr>at_currentValue := target\<rparr>)"

definition Record :: "int \<Rightarrow> AdaptiveThreshold \<Rightarrow> AdaptiveThreshold" where
  "Record sz a =
     (let at1 = a\<lparr>at_samples := (at_samples a)[at_sampleIdx a := sz], at_sampleIdx := at_sampleIdx a + 1\<rparr>
      in if at_maxSamples at1 \<le> at_sampleIdx at1 then recomputeLocked (at1\<lparr>at_sampleIdx := 0\<rparr>) else at1)"

definition at_Get :: "AdaptiveThreshold \<Rightarrow> int" where
  "at_Get a = at_currentValue a"

section \<open>The threshold stays within its limits\<close>

text \<open>The window has its full length, the next index is inside it, and the value lies between the limits.\<close>

definition at_inv :: "int \<Rightarrow> int \<Rightarrow> AdaptiveThreshold \<Rightarrow> bool" where
  "at_inv lo hi a \<longleftrightarrow> length (at_samples a) = at_maxSamples a \<and> at_sampleIdx a < at_maxSamples a \<and>
     at_minLimit a = lo \<and> at_maxLimit a = hi \<and> lo \<le> at_currentValue a \<and> at_currentValue a \<le> hi"

lemma NewAdaptive_inv: "at_inv lo (max lo hi) (NewAdaptive p lo hi)"
  by (auto simp: at_inv_def NewAdaptive_def defaultWindow_def)

lemma Record_inv: "at_inv lo hi a \<Longrightarrow> lo \<le> hi \<Longrightarrow> at_inv lo hi (Record n a)"
  by (auto simp: at_inv_def Record_def recomputeLocked_def Let_def)

lemma Record_all_inv: "at_inv lo hi a \<Longrightarrow> lo \<le> hi \<Longrightarrow> at_inv lo hi (fold Record ns a)"
  by (induction ns arbitrary: a) (simp_all add: Record_inv)

lemma threshold_bounds: "lo \<le> at_Get (fold Record ns (NewAdaptive p lo hi)) \<and> at_Get (fold Record ns (NewAdaptive p lo hi)) \<le> max lo hi"
  using Record_all_inv [OF NewAdaptive_inv, of lo hi ns p] by (simp add: at_inv_def at_Get_def)

section \<open>A full window of one size\<close>

lemma fold_Record_partial:
  assumes "at_inv lo hi a" "at_sampleIdx a + length ns < at_maxSamples a"
  shows "fold Record ns a = a\<lparr>at_samples := take (at_sampleIdx a) (at_samples a) @ ns @ drop (at_sampleIdx a + length ns) (at_samples a),
     at_sampleIdx := at_sampleIdx a + length ns\<rparr>"
  using assms
proof (induction ns arbitrary: a)
  case (Cons n ns)
  let ?a = "a\<lparr>at_samples := (at_samples a)[at_sampleIdx a := n], at_sampleIdx := at_sampleIdx a + 1\<rparr>"
  have r: "Record n a = ?a" using Cons.prems by (simp add: Record_def)
  have len: "length (at_samples a) = at_maxSamples a" using Cons.prems by (simp add: at_inv_def)
  have "at_inv lo hi ?a" using Cons.prems by (simp add: at_inv_def)
  from Cons.IH [OF this] Cons.prems len show ?case
    by (simp add: r take_Suc_conv_app_nth take_update_swap drop_update_cancel list_update_append)
qed simp

lemma full_window:
  assumes "lo \<le> hi" "length ns = defaultWindow" "\<forall>n \<in> set ns. n = m"
  shows "at_Get (fold Record ns (NewAdaptive p lo hi)) = max lo (min m hi)"
proof -
  obtain us u where ns: "ns = us @ [u]" using assms(2) by (cases ns rule: rev_cases) (auto simp: defaultWindow_def)
  have us: "length us = 2047" using assms(2) ns by (simp add: defaultWindow_def)
  let ?n = "NewAdaptive p lo hi"
  have z: "at_sampleIdx ?n = 0" "at_maxSamples ?n = 2048" "at_samples ?n = replicate 2048 0"
    by (simp_all add: NewAdaptive_def defaultWindow_def)
  have f: "fold Record us ?n = ?n\<lparr>at_samples := us @ [0], at_sampleIdx := 2047\<rparr>"
    using fold_Record_partial [OF NewAdaptive_inv [of lo hi p], of us] us z by simp
  have all: "us @ [u] = replicate 2048 m" using assms(2,3) unfolding ns [symmetric] by (simp add: defaultWindow_def replicate_eqI)
  have upd: "(us @ [0])[2047 := u] = us @ [u]" using us by (metis list_update_length)
  have "Record u (fold Record us ?n) = recomputeLocked (?n\<lparr>at_samples := replicate 2048 m, at_sampleIdx := 0\<rparr>)"
    unfolding f Record_def Let_def by (simp add: z upd all)
  then show ?thesis
    using assms(1) by (auto simp: ns at_Get_def recomputeLocked_def Let_def NewAdaptive_def sorted_sort_id)
qed

end
