(* ===== verification/Engine.thy ===== *)
theory Engine
  imports Skiplist_Correct Compaction_Props Wal_Correct Oracle_Correct Threshold Strconv Encoding "HOL-Library.Monad_Syntax"
begin

text \<open>
  The engine of \<open>engine.go\<close>, \<open>engine_read.go\<close>, \<open>engine_write.go\<close>, \<open>engine_flush.go\<close> and \<open>engine_vlog.go\<close>: its state, the point
  reads, the write requests a writer applies, the rotation of the memtable and its flush.  The levels and the manifest are the
  state of theory \<open>Compaction\<close>; the memtable, the write-ahead log, the value log and the timestamp oracle are those of their
  theories.  Requests are applied one after the other.  The clock, the random seeds and IVs, the time stamps of log records, the
  result of each sync and \<open>sort.Slice\<close> are parameters.
\<close>

section \<open>State\<close>

record 'c gctx =
  gx_lsm :: "'c ectx"
  gx_aes :: "bytes \<Rightarrow> bytes \<Rightarrow> bytes"
  gx_iv :: "u32 \<Rightarrow> bytes"
  gx_walIv :: "u64 \<Rightarrow> bytes"
  gx_seed :: "u64 \<Rightarrow> u64"
  gx_stamp :: "nat \<Rightarrow> i64"
  gx_sync :: "nat \<Rightarrow> bool"
  gx_valueThreshold :: int
  gx_sortAll :: "entry list \<Rightarrow> entry list"

text \<open>\<open>flushTask\<close>, with the sequence number standing for the name of the rotated log.\<close>

record flushTask =
  ft_seq :: u64
  ft_memTable :: skiplist
  ft_oldVlogFid :: u32

record stats =
  PutsTotal :: u64
  GetsTotal :: u64
  DeletesTotal :: u64
  FlushesTotal :: u64
  CompactionsDone :: u64

type_synonym expiryItem = "bytes \<times> i64"

text \<open>\<open>g_oldWals\<close> are the files \<open>wal_flush_%06d.log\<close> of the data directory, by sequence number.\<close>

record 'c engine =
  g_lsm :: "'c lsm"
  g_memTable :: skiplist
  g_immMemTable :: "skiplist option"
  g_wal :: wal
  g_oldWals :: "(u64 \<times> bytes) list"
  g_vl :: vlog
  g_oracle :: ostate
  g_threshold :: "AdaptiveThreshold option"
  g_expiryHeap :: "expiryItem list"
  g_expiryAt :: "(bytes \<times> i64) list"
  g_gcPending :: "(u32 \<times> i64) list"
  g_diskFull :: bool
  g_flushChan :: "flushTask list"
  g_stats :: stats

datatype engine_error = EngKeyNotFound | EngDiskFull | EngNotInteger | EngWal wal_error | EngVlog vlog_error | EngNoRewrite
  | EngOffset | EngOther

section \<open>Values\<close>

definition defaultValueThreshold :: int where "defaultValueThreshold = 128"

definition encodeInlineValue :: "bytes \<Rightarrow> bytes" where
  "encodeInlineValue val = valFlagInline # val"

definition encodeValuePointer :: "ValuePointer \<Rightarrow> bytes" where
  "encodeValuePointer vp = valFlagPointer # put_u32 (vp_fid vp) @ put_u64 (vp_offset vp) @ put_u32 (vp_size vp)"

definition walValuePtrMagic :: bytes where
  "walValuePtrMagic = lit ''VLPT''"

definition encodeWalValuePointer :: "ValuePointer \<Rightarrow> bytes" where
  "encodeWalValuePointer vp = walValuePtrMagic @ put_u32 (vp_fid vp) @ put_u64 (vp_offset vp) @ put_u32 (vp_size vp)"

definition decodeWalValuePointer :: "bytes \<Rightarrow> ValuePointer option" where
  "decodeWalValuePointer b =
     (if length b \<noteq> 4 + valPtrSize \<or> take 4 b \<noteq> walValuePtrMagic then None
      else Some \<lparr>vp_fid = get_u32 (drop 4 b), vp_offset = get_u64 (drop 8 b), vp_size = get_u32 (drop 16 b)\<rparr>)"

definition resolveValue :: "(bytes \<Rightarrow> bytes \<Rightarrow> bytes) \<Rightarrow> bytes \<Rightarrow> vlog \<Rightarrow> (engine_error + bytes) \<times> vlog" where
  "resolveValue E raw vl =
     (if raw = [] then (Inr raw, vl)
      else if hd raw = valFlagInline then (Inr (tl raw), vl)
      else if \<not> isValuePointer raw then (Inr raw, vl)
      else (let vp = decodeValuePtr raw
            in if vp_size vp = 0 then (Inr [], vl)
               else case VReadValue E vp vl of
                 (Inl e, vl1) \<Rightarrow> (Inl (EngVlog e), vl1)
               | (Inr v, vl1) \<Rightarrow> (Inr v, vl1)))"

text \<open>\<open>string(realVal), err\<close> after \<open>resolveValue\<close> on the engine.\<close>

definition resolve :: "'c gctx \<Rightarrow> bytes \<Rightarrow> 'c engine \<Rightarrow> (engine_error + bytes) \<times> 'c engine" where
  "resolve x raw g = (let (r, vl) = resolveValue (gx_aes x) raw (g_vl g) in (r, g\<lparr>g_vl := vl\<rparr>))"

definition valueThreshold :: "'c gctx \<Rightarrow> 'c engine \<Rightarrow> int" where
  "valueThreshold x g =
     (case g_threshold g of
        Some t \<Rightarrow> at_Get t
      | None \<Rightarrow> if gx_valueThreshold x \<le> 0 then defaultValueThreshold else gx_valueThreshold x)"

definition recordValueSize :: "nat \<Rightarrow> 'c engine \<Rightarrow> 'c engine" where
  "recordValueSize n g = g\<lparr>g_threshold := map_option (Record (int n)) (g_threshold g)\<rparr>"

section \<open>Point reads\<close>

text \<open>The tables in the order the read paths visit them: level by level, the last table of a level first.\<close>

definition searchOrder :: "'c lsm \<Rightarrow> sstable list" where
  "searchOrder l = concat (map (\<lambda>lvl. rev (level l lvl)) [0..<MaxLevels])"

text \<open>The first table that has the key; a table that fails to read is passed over.  The reference a read takes on a table is
  released before it returns, so the tables of the state do not change.\<close>

fun searchTables :: "(sstable \<Rightarrow> 'c option \<Rightarrow> (sst_error + slookup) \<times> sstable \<times> 'c option) \<Rightarrow> sstable list \<Rightarrow> 'c option \<Rightarrow>
    (bytes \<times> bool \<times> i64) option \<times> 'c option" where
  "searchTables get [] c = (None, c)"
| "searchTables get (t # ts) c =
     (case get t c of
        (Inl _, _, c1) \<Rightarrow> searchTables get ts c1
      | (Inr (v, found, deleted, exp, _), _, c1) \<Rightarrow> if found then (Some (v, deleted, exp), c1) else searchTables get ts c1)"

text \<open>The search the read functions share: the active memtable, the immutable one, the tables.  The version is that of a
  memtable hit and 0 for a hit in a table; \<open>None\<close> outside stands for a memtable walk that does not end.\<close>

definition firstHit :: "(skiplist \<Rightarrow> (lookup \<times> u64) option) \<Rightarrow>
    (sstable \<Rightarrow> 'c option \<Rightarrow> (sst_error + slookup) \<times> sstable \<times> 'c option) \<Rightarrow> 'c engine \<Rightarrow>
    (((bytes \<times> bool \<times> i64) \<times> u64) option \<times> 'c engine) option" where
  "firstHit mget tget g =
     do { ((v, found, deleted, exp), ver) \<leftarrow> mget (g_memTable g);
          if found then Some (Some ((v, deleted, exp), ver), g)
          else do {
            ((v, found, deleted, exp), ver) \<leftarrow> (case g_immMemTable g of None \<Rightarrow> Some (([], False, False, 0), 0) | Some imm \<Rightarrow> mget imm);
            if found then Some (Some ((v, deleted, exp), ver), g)
            else (let (r, c) = searchTables tget (searchOrder (g_lsm g)) (l_cache (g_lsm g))
                  in Some (map_option (\<lambda>h. (h, 0)) r, g\<lparr>g_lsm := (g_lsm g)\<lparr>l_cache := c\<rparr>\<rparr>)) } }"

definition getByAt :: "'c gctx \<Rightarrow> i64 \<Rightarrow> bytes \<Rightarrow> u64 \<Rightarrow> 'c engine \<Rightarrow> ((engine_error + bytes) \<times> 'c engine) option" where
  "getByAt x now k maxVersion g =
     do { (hit, g1) \<leftarrow> firstHit (\<lambda>mt. map_option (\<lambda>r. (r, 0)) (sl_GetByVersion now mt k maxVersion))
            (\<lambda>t c. tGetByVersion (x_env (gx_lsm x)) now t k maxVersion c) g;
          Some (case hit of
            None \<Rightarrow> (Inl EngKeyNotFound, g1)
          | Some ((v, deleted, _), _) \<Rightarrow> if deleted then (Inl EngKeyNotFound, g1) else resolve x v g1) }"

definition CurrentVersionOf :: "'c engine \<Rightarrow> u64" where
  "CurrentVersionOf g = CurrentVersion (g_memTable g)"

definition getByString :: "'c gctx \<Rightarrow> i64 \<Rightarrow> bytes \<Rightarrow> 'c engine \<Rightarrow> ((engine_error + bytes) \<times> 'c engine) option" where
  "getByString x now k g = getByAt x now k (CurrentVersionOf g) g"

definition incGet :: "'c engine \<Rightarrow> 'c engine" where
  "incGet g = g\<lparr>g_stats := (g_stats g)\<lparr>GetsTotal := GetsTotal (g_stats g) + 1\<rparr>\<rparr>"

definition EngGet :: "'c gctx \<Rightarrow> i64 \<Rightarrow> bytes \<Rightarrow> 'c engine \<Rightarrow> ((engine_error + bytes) \<times> 'c engine) option" where
  "EngGet x now k g = map_option (\<lambda>(r, g1). (r, incGet g1)) (getByString x now k g)"

definition getForReadAt :: "'c gctx \<Rightarrow> i64 \<Rightarrow> bytes \<Rightarrow> nat \<Rightarrow> 'c engine \<Rightarrow> ((engine_error + bytes) \<times> 'c engine) option" where
  "getForReadAt x now k seq g =
     (if seq = 0 then
        (let (ts, o1) = BeginRead (g_oracle g)
         in map_option (\<lambda>(r, g1). (r, g1\<lparr>g_oracle := DoneRead ts (g_oracle g1)\<rparr>)) (getByAt x now k (of_nat ts) (g\<lparr>g_oracle := o1\<rparr>)))
      else getByAt x now k (of_nat seq) g)"

definition GetVersion :: "'c gctx \<Rightarrow> i64 \<Rightarrow> bytes \<Rightarrow> 'c engine \<Rightarrow> ((engine_error + bytes) \<times> u64 \<times> 'c engine) option" where
  "GetVersion x now k g =
     do { (hit, g1) \<leftarrow> firstHit (\<lambda>mt. sl_GetWithVersion now mt k) (\<lambda>t c. tGet (x_env (gx_lsm x)) now t k c) g;
          Some (case hit of
            None \<Rightarrow> (Inl EngKeyNotFound, 0, g1)
          | Some ((v, deleted, _), ver) \<Rightarrow>
              if deleted then (Inl EngKeyNotFound, ver, g1) else (let (r, g2) = resolve x v g1 in (r, ver, g2))) }"

text \<open>The search by the latest version of \<open>existsWithoutLock\<close>, \<open>getWithoutLock\<close> and \<open>TTL\<close>.\<close>

definition latestHit :: "'c gctx \<Rightarrow> i64 \<Rightarrow> bytes \<Rightarrow> 'c engine \<Rightarrow> ((bytes \<times> bool \<times> i64) option \<times> 'c engine) option" where
  "latestHit x now k g =
     map_option (\<lambda>(hit, g1). (map_option fst hit, g1))
       (firstHit (\<lambda>mt. map_option (\<lambda>r. (r, 0)) (sl_Get now mt k)) (\<lambda>t c. tGet (x_env (gx_lsm x)) now t k c) g)"

definition existsWithoutLock :: "'c gctx \<Rightarrow> i64 \<Rightarrow> bytes \<Rightarrow> 'c engine \<Rightarrow> (bool \<times> 'c engine) option" where
  "existsWithoutLock x now k g =
     do { (hit, g1) \<leftarrow> latestHit x now k g;
          Some (case hit of None \<Rightarrow> (False, g1) | Some (_, deleted, _) \<Rightarrow> (\<not> deleted, g1)) }"

definition getWithoutLock :: "'c gctx \<Rightarrow> i64 \<Rightarrow> bytes \<Rightarrow> 'c engine \<Rightarrow> ((engine_error + bytes) \<times> 'c engine) option" where
  "getWithoutLock x now k g =
     do { (hit, g1) \<leftarrow> latestHit x now k g;
          Some (case hit of
            None \<Rightarrow> (Inl EngKeyNotFound, g1)
          | Some (v, deleted, _) \<Rightarrow> if deleted then (Inl EngKeyNotFound, g1) else resolve x v g1) }"

definition calcRemaining :: "i64 \<Rightarrow> i64 \<Rightarrow> i64" where
  "calcRemaining now exp =
     (if exp = 0 then - 1 else let rem = exp - now in if sint rem \<le> 0 then - 2 else rem)"

definition TTL :: "'c gctx \<Rightarrow> i64 \<Rightarrow> bytes \<Rightarrow> 'c engine \<Rightarrow> (i64 \<times> 'c engine) option" where
  "TTL x now k g =
     do { (hit, g1) \<leftarrow> latestHit x now k g;
          Some (case hit of
            None \<Rightarrow> (- 2, g1)
          | Some (_, deleted, exp) \<Rightarrow> (if deleted then - 2 else calcRemaining now exp, g1)) }"

fun MGet :: "'c gctx \<Rightarrow> i64 \<Rightarrow> bytes list \<Rightarrow> 'c engine \<Rightarrow> ((bytes \<times> bool) list \<times> 'c engine) option" where
  "MGet x now [] g = Some ([], g)"
| "MGet x now (k # ks) g =
     do { (r, g1) \<leftarrow> EngGet x now k g;
          (rs, g2) \<leftarrow> MGet x now ks g1;
          Some ((case r of Inl _ \<Rightarrow> ([], False) | Inr v \<Rightarrow> (v, True)) # rs, g2) }"

section \<open>Tracked expiries\<close>

definition expiry_less :: "expiryItem \<Rightarrow> expiryItem \<Rightarrow> bool" where
  "expiry_less a b \<longleftrightarrow> sint (snd a) < sint (snd b)"

definition trackExpiry :: "bytes \<Rightarrow> i64 \<Rightarrow> 'c engine \<Rightarrow> 'c engine" where
  "trackExpiry key expiresAt g =
     (if key = [] then g
      else if sint expiresAt \<le> 0 then g\<lparr>g_expiryAt := AList.delete key (g_expiryAt g)\<rparr>
      else if map_of (g_expiryAt g) key = Some expiresAt then g
      else g\<lparr>g_expiryAt := AList.update key expiresAt (g_expiryAt g),
             g_expiryHeap := heap_Push expiry_less (g_expiryHeap g) (key, expiresAt)\<rparr>)"

section \<open>Applying one entry\<close>

text \<open>\<open>e.wal.WriteVersion\<close>: the log syncs the value log before its own file.\<close>

definition walWrite :: "'c gctx \<Rightarrow> byte \<Rightarrow> bytes \<Rightarrow> bytes \<Rightarrow> i64 \<Rightarrow> nat \<Rightarrow> 'c engine \<Rightarrow> engine_error option \<times> 'c engine" where
  "walWrite x op key val expiresAt seq g =
     (let off = w_currentOffset (g_wal g);
          (r, w) = WriteVersionWithTimestamp (gx_aes x) (gx_sync x off)
            \<lparr>wt_op = op, wt_key = key, wt_val = val, wt_expiresAt = expiresAt, wt_version = of_nat seq, wt_timestamp = gx_stamp x off\<rparr>
            (g_wal g)
      in (case r of Inl e \<Rightarrow> Some (EngWal e) | Inr _ \<Rightarrow> None,
          g\<lparr>g_wal := w, g_vl := if w_syncOnWrite (g_wal g) then VSync (g_vl g) else g_vl g\<rparr>))"

definition vlogWrite :: "'c gctx \<Rightarrow> bytes \<Rightarrow> bytes \<Rightarrow> i64 \<Rightarrow> 'c engine \<Rightarrow> (engine_error + ValuePointer) \<times> 'c engine" where
  "vlogWrite x key val expiresAt g =
     (let (r, vl) = VWrite (gx_aes x) (gx_iv x) \<lparr>ve_op = OpPut, ve_key = key, ve_value = val, ve_expiresAt = expiresAt\<rparr> (g_vl g)
      in (case r of Inl e \<Rightarrow> Inl (EngVlog e) | Inr vp \<Rightarrow> Inr vp, g\<lparr>g_vl := vl\<rparr>))"

definition memPut :: "bytes \<Rightarrow> bytes \<Rightarrow> i64 \<Rightarrow> nat \<Rightarrow> 'c engine \<Rightarrow> 'c engine option" where
  "memPut key val expiresAt seq g =
     map_option (\<lambda>mt. trackExpiry key expiresAt (g\<lparr>g_memTable := mt\<rparr>)) (PutVersion (g_memTable g) key val expiresAt (of_nat seq))"

definition memDelete :: "bytes \<Rightarrow> nat \<Rightarrow> 'c engine \<Rightarrow> 'c engine option" where
  "memDelete key seq g =
     map_option (\<lambda>mt. trackExpiry key 0 (g\<lparr>g_memTable := mt\<rparr>)) (DeleteVersion (g_memTable g) key (of_nat seq))"

definition applyEntry :: "'c gctx \<Rightarrow> byte \<Rightarrow> bytes \<Rightarrow> bytes \<Rightarrow> i64 \<Rightarrow> nat \<Rightarrow> 'c engine \<Rightarrow> (engine_error option \<times> 'c engine) option" where
  "applyEntry x op key val expiresAt seq g =
     (if op = OpDelete then
        (case walWrite x OpDelete key [] 0 seq g of
           (Some e, g1) \<Rightarrow> Some (Some e, g1)
         | (None, g1) \<Rightarrow> map_option (Pair None) (memDelete key seq g1))
      else
        (let threshold = valueThreshold x g; g0 = recordValueSize (length val) g
         in if int (length val) < threshold then
              (case walWrite x OpPut key val expiresAt seq g0 of
                 (Some e, g1) \<Rightarrow> Some (Some e, g1)
               | (None, g1) \<Rightarrow> map_option (Pair None) (memPut key (encodeInlineValue val) expiresAt seq g1))
            else
              (case vlogWrite x key val expiresAt g0 of
                 (Inl e, g1) \<Rightarrow> Some (Some e, g1)
               | (Inr vp, g1) \<Rightarrow>
                   (let (_, g2) = walWrite x OpPut key (encodeWalValuePointer vp) expiresAt seq g1
                    in map_option (Pair None) (memPut key (encodeValuePointer vp) expiresAt seq g2)))))"

definition applyEntryOpts :: "'c gctx \<Rightarrow> byte \<Rightarrow> bytes \<Rightarrow> bytes \<Rightarrow> i64 \<Rightarrow> nat \<Rightarrow> bool \<Rightarrow> 'c engine \<Rightarrow>
    (engine_error option \<times> 'c engine) option" where
  "applyEntryOpts x op key val expiresAt seq skipWAL g =
     (if \<not> skipWAL then applyEntry x op key val expiresAt seq g
      else if op = OpDelete then map_option (Pair None) (memDelete key seq g)
      else map_option (Pair None) (memPut key (encodeInlineValue val) expiresAt seq (recordValueSize (length val) g)))"

section \<open>Batches\<close>

text \<open>\<open>server.BatchWriteEntry\<close> and \<open>batchResult\<close>.\<close>

record batchEntry =
  be_key :: bytes
  be_value :: bytes
  be_deleted :: bool
  be_expiresAt :: i64

datatype batchResult = BatchDeleted bytes | BatchPointer bytes ValuePointer i64 | BatchInline bytes bytes i64

text \<open>The first loop of \<open>applyBatch\<close>: log every entry, and stop at the first error.\<close>

fun logBatch :: "'c gctx \<Rightarrow> int \<Rightarrow> nat \<Rightarrow> batchEntry list \<Rightarrow> 'c engine \<Rightarrow> (engine_error + batchResult list) \<times> 'c engine" where
  "logBatch x threshold seq [] g = (Inr [], g)"
| "logBatch x threshold seq (b # bs) g =
     (let step = (if be_deleted b then
            (case walWrite x OpDelete (be_key b) [] 0 seq g of
               (Some e, g1) \<Rightarrow> (Inl e, g1)
             | (None, g1) \<Rightarrow> (Inr (BatchDeleted (be_key b)), g1))
          else (let g0 = recordValueSize (length (be_value b)) g
            in if int (length (be_value b)) < threshold then
                 (case walWrite x OpPut (be_key b) (be_value b) (be_expiresAt b) seq g0 of
                    (Some e, g1) \<Rightarrow> (Inl e, g1)
                  | (None, g1) \<Rightarrow> (Inr (BatchInline (be_key b) (be_value b) (be_expiresAt b)), g1))
               else
                 (case vlogWrite x (be_key b) (be_value b) (be_expiresAt b) g0 of
                    (Inl e, g1) \<Rightarrow> (Inl e, g1)
                  | (Inr vp, g1) \<Rightarrow>
                      (Inr (BatchPointer (be_key b) vp (be_expiresAt b)),
                       snd (walWrite x OpPut (be_key b) (encodeWalValuePointer vp) (be_expiresAt b) seq g1)))))
      in case step of
           (Inl e, g1) \<Rightarrow> (Inl e, g1)
         | (Inr r, g1) \<Rightarrow>
             (case logBatch x threshold seq bs g1 of
                (Inl e, g2) \<Rightarrow> (Inl e, g2)
              | (Inr rs, g2) \<Rightarrow> (Inr (r # rs), g2)))"

text \<open>The second loop: the logged entries go to the memtable.\<close>

fun applyResult :: "nat \<Rightarrow> batchResult \<Rightarrow> 'c engine \<Rightarrow> 'c engine option" where
  "applyResult seq (BatchDeleted k) g = memDelete k seq g"
| "applyResult seq (BatchPointer k vp exp) g = memPut k (encodeValuePointer vp) exp seq g"
| "applyResult seq (BatchInline k v exp) g = memPut k (encodeInlineValue v) exp seq g"

fun applyResults :: "nat \<Rightarrow> batchResult list \<Rightarrow> 'c engine \<Rightarrow> 'c engine option" where
  "applyResults seq [] g = Some g"
| "applyResults seq (r # rs) g = applyResult seq r g \<bind> applyResults seq rs"

definition applyBatch :: "'c gctx \<Rightarrow> nat \<Rightarrow> batchEntry list \<Rightarrow> 'c engine \<Rightarrow> (engine_error option \<times> 'c engine) option" where
  "applyBatch x seq batch g =
     (let walStart = w_currentOffset (g_wal g)
      in case logBatch x (valueThreshold x g) seq batch g of
           (Inl e, g1) \<Rightarrow> Some (Some e, g1\<lparr>g_wal := TruncateTo walStart (g_wal g1)\<rparr>)
         | (Inr rs, g1) \<Rightarrow> map_option (Pair None) (applyResults seq rs g1))"

definition batchHasWrites :: "batchEntry list \<Rightarrow> bool" where
  "batchHasWrites batch \<longleftrightarrow> (\<exists>b \<in> set batch. \<not> be_deleted b)"

section \<open>Increments\<close>

text \<open>An increment of a key at the assigned timestamp, with the sum in 64 bits.\<close>

definition processIncr :: "'c gctx \<Rightarrow> i64 \<Rightarrow> bytes \<Rightarrow> i64 \<Rightarrow> nat \<Rightarrow> 'c engine \<Rightarrow> ((engine_error + i64) \<times> 'c engine) option" where
  "processIncr x now key delta seq g =
     do { (ttl, g1) \<leftarrow> TTL x now key g;
          let expiresAt = (if 0 < sint ttl then now + ttl else 0);
          (current, g2) \<leftarrow> getForReadAt x now key seq g1;
          case (case current of
                  Inr v \<Rightarrow> (if v = [] then Inr 0 else case ParseInt v of None \<Rightarrow> Inl EngNotInteger | Some n \<Rightarrow> Inr n)
                | Inl e \<Rightarrow> if e = EngKeyNotFound then Inr 0 else Inl e) of
            Inl e \<Rightarrow> Some (Inl e, g2)
          | Inr cur \<Rightarrow>
              (let newVal = cur + delta; newBytes = FormatInt newVal; threshold = valueThreshold x g2;
                   g3 = recordValueSize (length newBytes) g2
               in if int (length newBytes) < threshold then
                    (case walWrite x OpPut key newBytes expiresAt seq g3 of
                       (Some e, g4) \<Rightarrow> Some (Inl e, g4)
                     | (None, g4) \<Rightarrow> map_option (Pair (Inr newVal)) (memPut key (encodeInlineValue newBytes) expiresAt seq g4))
                  else
                    (case vlogWrite x key newBytes expiresAt g3 of
                       (Inl e, g4) \<Rightarrow> Some (Inl e, g4)
                     | (Inr vp, g4) \<Rightarrow>
                         (let (_, g5) = walWrite x OpPut key (encodeWalValuePointer vp) expiresAt seq g4
                          in map_option (Pair (Inr newVal)) (memPut key (encodeValuePointer vp) expiresAt seq g5)))) }"

section \<open>Rotation and flush\<close>

definition triggerFlushLocked :: "'c gctx \<Rightarrow> 'c engine \<Rightarrow> (engine_error + flushTask) \<times> 'c engine" where
  "triggerFlushLocked x g =
     (let old = g_memTable g; seq = l_nextSeq (g_lsm g) + 1; oldWal = CloseWal (g_wal g);
          g1 = g\<lparr>g_immMemTable := Some old,
                 g_memTable := SeedVersion (NewSkipList (gx_seed x seq)) (CurrentVersion old),
                 g_lsm := (g_lsm g)\<lparr>l_nextSeq := seq\<rparr>,
                 g_wal := oldWal, g_oldWals := AList.update seq (w_file oldWal) (g_oldWals g)\<rparr>
      in case OpenWal (x_reg (gx_lsm x)) (gx_walIv x seq) (w_syncOnWrite (g_wal g)) [] of
           Inl e \<Rightarrow> (Inl (EngWal e), g1)
         | Inr w \<Rightarrow>
             (Inr \<lparr>ft_seq = seq, ft_memTable = old, ft_oldVlogFid = ActiveFid (g_vl g)\<rparr>,
              g1\<lparr>g_wal := w, g_vl := snd (rotateLocked (gx_iv x) (g_vl g))\<rparr>))"

text \<open>\<open>removeOrArchive\<close> without an archiver.\<close>

definition removeOldWal :: "u64 \<Rightarrow> 'c engine \<Rightarrow> 'c engine" where
  "removeOldWal seq g = g\<lparr>g_oldWals := AList.delete seq (g_oldWals g)\<rparr>"

definition incFlush :: "'c engine \<Rightarrow> 'c engine" where
  "incFlush g = g\<lparr>g_stats := (g_stats g)\<lparr>FlushesTotal := FlushesTotal (g_stats g) + 1\<rparr>\<rparr>"

text \<open>The part of \<open>executeFlush\<close> after the table is written.\<close>

definition installFlushed :: "flushTask \<Rightarrow> sstable \<Rightarrow> 'c lsm \<Rightarrow> 'c lsm" where
  "installFlushed task sst l =
     (let l1 = l\<lparr>l_levels := (l_levels l)[0 := level l 0 @ [sst]],
                 l_manifest := appendManifest actAdd 0 (ft_seq task) (t_minKey sst) (t_maxKey sst) (l_manifest l)\<rparr>
      in if 0 < ft_oldVlogFid task then l1\<lparr>l_discardStats := AList.update (ft_oldVlogFid task) 1 (l_discardStats l1)\<rparr> else l1)"

definition executeFlush :: "'c gctx \<Rightarrow> i64 \<Rightarrow> flushTask \<Rightarrow> 'c engine \<Rightarrow> 'c engine option" where
  "executeFlush x now task g =
     do { entries \<leftarrow> AllVersions (gx_sortAll x) (ft_memTable task);
          let g0 = g\<lparr>g_immMemTable := None\<rparr>;
          let lx = gx_lsm x;
          let seq = ft_seq task;
          Some (if entries = [] then removeOldWal seq g0
            else case createAtLevel (x_env lx) (x_nonce lx seq) (x_ratio lx) now (sstFileName (x_dir lx) seq) entries 0 (x_reg lx)
                        (l_cache (g_lsm g)) of
              (Inl _, c) \<Rightarrow> g0\<lparr>g_lsm := (g_lsm g0)\<lparr>l_cache := c\<rparr>\<rparr>
            | (Inr sst, c) \<Rightarrow>
                incFlush (removeOldWal seq (g0\<lparr>g_lsm := installFlushed task sst ((g_lsm g0)\<lparr>l_cache := c\<rparr>)\<rparr>))) }"

text \<open>One task of the flush worker.\<close>

definition flushWorkerStep :: "'c gctx \<Rightarrow> i64 \<Rightarrow> 'c engine \<Rightarrow> 'c engine option" where
  "flushWorkerStep x now g =
     (case g_flushChan g of [] \<Rightarrow> Some g | task # q \<Rightarrow> executeFlush x now task (g\<lparr>g_flushChan := q\<rparr>))"

text \<open>A full memtable is handed to the flush worker; while one is being flushed the writer waits and leaves it as it is.\<close>

definition flushBackpressure :: "'c gctx \<Rightarrow> 'c engine \<Rightarrow> 'c engine" where
  "flushBackpressure x g =
     (if SizeInBytes (g_memTable g) < x_memTableSize (gx_lsm x) then g
      else if g_immMemTable g \<noteq> None then g
      else case triggerFlushLocked x g of
        (Inl _, g1) \<Rightarrow> g1
      | (Inr task, g1) \<Rightarrow> g1\<lparr>g_flushChan := g_flushChan g1 @ [task]\<rparr>)"

text \<open>\<open>forceFlush\<close> waits for the flush in progress, rotates, and waits for the flush of the rotated table: the worker's
  steps are taken here.\<close>

definition forceFlush :: "'c gctx \<Rightarrow> i64 \<Rightarrow> 'c engine \<Rightarrow> (engine_error option \<times> 'c engine) option" where
  "forceFlush x now g =
     do { g1 \<leftarrow> (if g_immMemTable g = None then Some g else flushWorkerStep x now g);
          if SizeInBytes (g_memTable g1) = 0 then Some (None, g1)
          else case triggerFlushLocked x g1 of
            (Inl e, g2) \<Rightarrow> Some (Some e, g2)
          | (Inr task, g2) \<Rightarrow>
              map_option (Pair None) (flushWorkerStep x now (g2\<lparr>g_flushChan := g_flushChan g2 @ [task]\<rparr>)) }"

section \<open>Clearing\<close>

definition clearInternal :: "'c gctx \<Rightarrow> 'c engine \<Rightarrow> engine_error option \<times> 'c engine" where
  "clearInternal x g =
     (case OpenWal (x_reg (gx_lsm x)) (gx_walIv x 0) True [] of
        Inl e \<Rightarrow> (Some (EngWal e), g)
      | Inr tmp \<Rightarrow>
          (case OpenWal (x_reg (gx_lsm x)) (gx_walIv x 0) True (w_file (CloseWal tmp)) of
             Inl e \<Rightarrow> (Some (EngWal e), g\<lparr>g_wal := CloseWal (g_wal g)\<rparr>)
           | Inr w \<Rightarrow>
               (let l = g_lsm g; vl = g_vl g;
                    l1 = l\<lparr>l_dropped := l_dropped l @ map MarkRemove (concat (l_levels l)),
                           l_levels := replicate MaxLevels [],
                           l_manifest := compactManifest (replicate MaxLevels []) (l_manifest l), l_discardStats := []\<rparr>
                in (None, g\<lparr>g_wal := w, g_memTable := NewSkipList (gx_seed x 0), g_immMemTable := None, g_lsm := l1,
                           g_vl := foldl (\<lambda>v fid. if fid = ActiveFid vl then v else snd (DeleteSegment fid v)) vl (vl_listed vl),
                           g_oldWals := [], g_gcPending := []\<rparr>))))"

section \<open>Requests\<close>

definition opIncr :: byte where "opIncr = 128"
definition opGCRewrite :: byte where "opGCRewrite = 129"
definition opClear :: byte where "opClear = 130"
definition opFlush :: byte where "opFlush = 131"

record writeReq =
  r_op :: byte
  r_key :: bytes
  r_val :: bytes
  r_expiresAt :: i64
  r_delta :: i64
  r_seq :: nat
  r_expectedVp :: ValuePointer
  r_batch :: "batchEntry list"
  r_skipWAL :: bool
  r_syncWAL :: bool
  r_checkExists :: bool

definition noPointer :: ValuePointer where
  "noPointer = \<lparr>vp_fid = 0, vp_offset = 0, vp_size = 0\<rparr>"

text \<open>A request with every field at its zero value but the operation and the key.\<close>

definition emptyReq :: "byte \<Rightarrow> bytes \<Rightarrow> writeReq" where
  "emptyReq op key = \<lparr>r_op = op, r_key = key, r_val = [], r_expiresAt = 0, r_delta = 0, r_seq = 0, r_expectedVp = noPointer,
     r_batch = [], r_skipWAL = False, r_syncWAL = False, r_checkExists = False\<rparr>"

text \<open>A value of a segment under collection is written again if the key still points to it.\<close>

definition gcRewrite :: "'c gctx \<Rightarrow> i64 \<Rightarrow> writeReq \<Rightarrow> nat \<Rightarrow> 'c engine \<Rightarrow> (engine_error option \<times> 'c engine) option" where
  "gcRewrite x now r seq g =
     do { (cur, g1) \<leftarrow> getWithoutLock x now (r_key r) g;
          case cur of
            Inl _ \<Rightarrow> Some (None, g1)
          | Inr curVal \<Rightarrow>
              if \<not> isValuePointer curVal then Some (None, g1)
              else (let vp = decodeValuePtr curVal
                    in if vp_fid vp \<noteq> vp_fid (r_expectedVp r) \<or> vp_offset vp \<noteq> vp_offset (r_expectedVp r) then Some (None, g1)
                       else case vlogWrite x (r_key r) (r_val r) (r_expiresAt r) g1 of
                         (Inl e, g2) \<Rightarrow> Some (Some e, g2)
                       | (Inr vvp, g2) \<Rightarrow>
                           (let (_, g3) = walWrite x OpPut (r_key r) (encodeWalValuePointer vvp) (r_expiresAt r) seq g2
                            in map_option (Pair None) (memPut (r_key r) (encodeValuePointer vvp) (r_expiresAt r) seq g3))) }"

definition bumpSeq :: "nat \<Rightarrow> 'c engine \<Rightarrow> 'c engine" where
  "bumpSeq v g = (if of_nat v \<le> l_nextSeq (g_lsm g) then g else g\<lparr>g_lsm := (g_lsm g)\<lparr>l_nextSeq := of_nat v\<rparr>\<rparr>)"

text \<open>\<open>if r.seq == 0 { r.seq = e.oracle.NewCommitTs(); bumpUint64(&e.nextSeq, r.seq) }\<close>\<close>

definition assignSeq :: "nat \<Rightarrow> 'c engine \<Rightarrow> nat \<times> 'c engine" where
  "assignSeq seq g =
     (if seq = 0 then (let (ts, o1) = NewCommitTs (g_oracle g) in (ts, bumpSeq ts (g\<lparr>g_oracle := o1\<rparr>))) else (seq, g))"

definition markApplied :: "nat \<Rightarrow> 'c engine \<Rightarrow> 'c engine" where
  "markApplied seq g = g\<lparr>g_oracle := MarkApplied seq (g_oracle g)\<rparr>"

text \<open>The reply of a request: its value, and its error if it failed.\<close>

type_synonym incrResult = "i64 \<times> engine_error option"

definition dispatchIncr :: "'c gctx \<Rightarrow> i64 \<Rightarrow> writeReq \<Rightarrow> 'c engine \<Rightarrow> (incrResult \<times> 'c engine) option" where
  "dispatchIncr x now r g =
     (if g_diskFull g then Some ((0, Some EngDiskFull), if r_seq r \<noteq> 0 then markApplied (r_seq r) g else g)
      else (let (seq, g1) = assignSeq (r_seq r) g
            in map_option (\<lambda>(res, g2). (case res of Inl e \<Rightarrow> (0, Some e) | Inr v \<Rightarrow> (v, None), markApplied seq g2))
                 (processIncr x now (r_key r) (r_delta r) seq g1)))"

definition dispatch :: "'c gctx \<Rightarrow> i64 \<Rightarrow> writeReq \<Rightarrow> 'c engine \<Rightarrow> (incrResult \<times> 'c engine) option" where
  "dispatch x now r g =
     (if r_op r = opIncr then dispatchIncr x now r g
      else if g_diskFull g \<and> (r_op r = OpPut \<or> r_batch r \<noteq> [] \<and> batchHasWrites (r_batch r))
      then Some ((0, Some EngDiskFull), if r_seq r \<noteq> 0 then markApplied (r_seq r) g else g)
      else (let (seq, g1) = assignSeq (r_seq r) g; reply = (\<lambda>(err, g2). ((0, err), markApplied seq g2))
            in if r_op r = opClear then Some (reply (clearInternal x g1))
               else if r_op r = opFlush then map_option reply (forceFlush x now g1)
               else if r_batch r \<noteq> [] then map_option reply (applyBatch x seq (r_batch r) g1)
               else if r_op r = opGCRewrite then map_option reply (gcRewrite x now r seq g1)
               else if r_op r = OpPut \<or> r_op r = OpDelete then
                 do { (existed, g2) \<leftarrow> (if r_checkExists r then existsWithoutLock x now (r_key r) g1 else Some (True, g1));
                      if existed then
                        map_option (\<lambda>(err, g3). ((1, err), markApplied seq g3))
                          (applyEntryOpts x (r_op r) (r_key r) (r_val r) (r_expiresAt r) seq (r_skipWAL r) g2)
                      else Some ((0, None), markApplied seq g2) }
               else Some ((0, None), markApplied seq g1)))"

end
