(* ===== verification/Engine_Values.thy ===== *)
theory Engine_Values
  imports Engine Vlog_Correct
begin

text \<open>
  Stored values: an inline value is the value itself behind a flag byte, a long value a pointer into the value log.  Every
  operation the engine runs on the value log keeps what the stored values resolve to.
\<close>

section \<open>The value behind a stored value\<close>

definition raw_ok :: "vlog \<Rightarrow> (ValuePointer \<times> ValueEntry) list \<Rightarrow> bytes \<Rightarrow> bool" where
  "raw_ok vl log v \<longleftrightarrow> (\<exists>u. v = encodeInlineValue u) \<or>
     (\<exists>vp e. v = encodeValuePointer vp \<and> (vp, e) \<in> set log \<and> vp_fid vp \<in> set (vl_listed vl))"

definition vals_ok :: "(bytes \<Rightarrow> bytes \<Rightarrow> bytes) \<Rightarrow> vlog \<Rightarrow> bytes set \<Rightarrow> bool" where
  "vals_ok E vl vs \<longleftrightarrow> (\<exists>log. vl_inv E vl log {#} \<and> (\<forall>v \<in> vs. raw_ok vl log v))"

text \<open>What a stored value resolves to.\<close>

definition resolved :: "(bytes \<Rightarrow> bytes \<Rightarrow> bytes) \<Rightarrow> vlog \<Rightarrow> bytes \<Rightarrow> bytes" where
  "resolved E vl v = (case fst (resolveValue E v vl) of Inl _ \<Rightarrow> [] | Inr u \<Rightarrow> u)"

lemma pointer_fields:
  "length (encodeValuePointer vp) = 17" "hd (encodeValuePointer vp) = 1" "encodeValuePointer vp \<noteq> []"
  "isValuePointer (encodeValuePointer vp)" "decodeValuePtr (encodeValuePointer vp) = vp"
  by (simp_all add: encodeValuePointer_def isValuePointer_def valFlagPointer_def valPtrSize_def decodeValuePtr_def)

lemma encodeValuePointer_inject [simp]: "encodeValuePointer a = encodeValuePointer b \<longleftrightarrow> a = b"
  by (metis pointer_fields(5))

lemma resolve_inline [simp]: "resolveValue E (encodeInlineValue u) vl = (Inr u, vl)"
  by (simp add: resolveValue_def encodeInlineValue_def)

lemma resolved_inline [simp]: "resolved E vl (encodeInlineValue u) = u"
  by (simp add: resolved_def)

section \<open>Operations of the value log\<close>

lemma VReadValue_inv:
  assumes inv: "vl_inv E vl log {#}" and r: "VReadValue E vp vl = (r, vl')"
  shows "vl_inv E vl' log {#} \<and> vl_listed vl' = vl_listed vl \<and> vl_nextFid vl' = vl_nextFid vl"
proof (cases "vp_size vp = 0 \<or> pinSegment (vp_fid vp) vl = None")
  case True
  then show ?thesis using r inv by (auto simp: VReadValue_def split: if_splits)
next
  case False
  then obtain vl1 where vl1: "pinSegment (vp_fid vp) vl = Some vl1" by blast
  obtain r2 vl2 where vl2: "readPinned E vp vl1 = (r2, vl2)" by fastforce
  have i1: "vl_inv E vl1 log {#vp_fid vp#}" using pin_inv [OF inv vl1] by simp
  have i2: "vl_inv E vl2 log {#vp_fid vp#}"
    using i1 flush_inv [OF i1, of "vp_fid vp"] vl2
    by (auto simp: readPinned_def readValue_def Let_def split: option.splits if_splits)
  have "vl' = unpinSegment (vp_fid vp) vl2" using r vl1 vl2 False by (simp add: VReadValue_def)
  moreover have "vl_listed vl1 = vl_listed vl" "vl_listed vl2 = vl_listed vl1" "vl_listed (unpinSegment (vp_fid vp) vl2) = vl_listed vl2"
    "vl_nextFid vl1 = vl_nextFid vl" "vl_nextFid vl2 = vl_nextFid vl1" "vl_nextFid (unpinSegment (vp_fid vp) vl2) = vl_nextFid vl2"
    using vl1 vl2 by (auto simp: pinSegment_def readPinned_def unpinSegment_def setSeg_def split: if_splits option.splits prod.splits)
  ultimately show ?thesis using unpin_inv [OF i2] by simp
qed

lemma resolveValue_ptr:
  assumes "vl_inv E vl log {#}" "(vp, e) \<in> set log" "vp_fid vp \<in> set (vl_listed vl)"
  shows "fst (resolveValue E (encodeValuePointer vp) vl) = Inr (ve_value e)"
proof -
  note r = VReadValue_log [OF assms]
  show ?thesis
    using r pointer_fields [of vp]
    by (cases "VReadValue E vp vl") (auto simp: resolveValue_def Let_def valFlagInline_def VReadValue_def split: if_splits sum.splits)
qed

lemma resolved_ptr:
  assumes "vl_inv E vl log {#}" "(vp, e) \<in> set log" "vp_fid vp \<in> set (vl_listed vl)"
  shows "resolved E vl (encodeValuePointer vp) = ve_value e"
  by (simp add: resolved_def resolveValue_ptr [OF assms])

text \<open>A later state of the log whose listed segments and entries include those of an earlier one resolves alike.\<close>

lemma resolved_mono:
  assumes "vl_inv E vl log {#}" "vl_inv E vl' log' {#}" "set log \<subseteq> set log'" "set (vl_listed vl) \<subseteq> set (vl_listed vl')" "raw_ok vl log v"
  shows "raw_ok vl' log' v" "resolved E vl' v = resolved E vl v"
proof -
  show "raw_ok vl' log' v" using assms(3-5) unfolding raw_ok_def by blast
  show "resolved E vl' v = resolved E vl v"
  proof (cases "\<exists>u. v = encodeInlineValue u")
    case False
    then obtain vp e where v: "v = encodeValuePointer vp" "(vp, e) \<in> set log" "vp_fid vp \<in> set (vl_listed vl)"
      using assms(5) unfolding raw_ok_def by blast
    then show ?thesis using resolved_ptr [OF assms(1) v(2,3)] resolved_ptr [OF assms(2), of vp e] assms(3,4) by auto
  qed auto
qed

definition keeps_vals :: "(bytes \<Rightarrow> bytes \<Rightarrow> bytes) \<Rightarrow> bytes set \<Rightarrow> vlog \<Rightarrow> vlog \<Rightarrow> bool" where
  "keeps_vals E vs vl vl' \<longleftrightarrow> vals_ok E vl' vs \<and> (\<forall>v \<in> vs. resolved E vl' v = resolved E vl v)"

lemma keeps_valsI:
  assumes "vl_inv E vl log {#}" "vl_inv E vl' log' {#}" "set log \<subseteq> set log'" "set (vl_listed vl) \<subseteq> set (vl_listed vl')"
    "\<forall>v \<in> vs. raw_ok vl log v"
  shows "keeps_vals E vs vl vl'"
  using assms(2,5) resolved_mono [OF assms(1-4)] by (auto simp: keeps_vals_def vals_ok_def)

lemma keeps_refl: "vals_ok E vl vs \<Longrightarrow> keeps_vals E vs vl vl"
  by (simp add: keeps_vals_def)

lemma keeps_trans: "keeps_vals E vs vl vl1 \<Longrightarrow> keeps_vals E vs vl1 vl2 \<Longrightarrow> keeps_vals E vs vl vl2"
  by (simp add: keeps_vals_def)

lemma keeps_subset: "keeps_vals E vs vl vl1 \<Longrightarrow> us \<subseteq> vs \<Longrightarrow> keeps_vals E us vl vl1"
  by (auto simp: keeps_vals_def vals_ok_def)

lemma resolveValue_keeps:
  assumes "vals_ok E vl vs" "v \<in> vs"
  obtains vl' where "resolveValue E v vl = (Inr (resolved E vl v), vl')" "keeps_vals E vs vl vl'" "vl_nextFid vl' = vl_nextFid vl"
proof -
  obtain log where log: "vl_inv E vl log {#}" "\<forall>v \<in> vs. raw_ok vl log v" using assms(1) by (auto simp: vals_ok_def)
  obtain r vl' where r: "resolveValue E v vl = (r, vl')" by fastforce
  have inv': "vl_inv E vl' log {#} \<and> vl_listed vl' = vl_listed vl \<and> vl_nextFid vl' = vl_nextFid vl"
    using r log(1) VReadValue_inv [OF log(1), of "decodeValuePtr v"]
    by (auto simp: resolveValue_def Let_def split: if_splits prod.splits sum.splits)
  have "r = Inr (resolved E vl v)"
    using log(2) assms(2) resolveValue_ptr [OF log(1)] r by (fastforce simp: raw_ok_def resolved_def)
  then show thesis using that r keeps_valsI [OF log(1) _ _ _ log(2), of vl' log] inv' by auto
qed

lemma VSync_keeps:
  assumes "vals_ok E vl vs" shows "keeps_vals E vs vl (VSync vl)"
proof -
  obtain log where log: "vl_inv E vl log {#}" "\<forall>v \<in> vs. raw_ok vl log v" using assms by (auto simp: vals_ok_def)
  have "vl_inv E (VSync vl) log {#}"
    using log(1) flush_inv [OF log(1)] by (auto simp: VSync_def split: option.splits)
  moreover have "vl_listed (VSync vl) = vl_listed vl" by (simp add: VSync_def setSeg_def split: option.split)
  ultimately show ?thesis using keeps_valsI [OF log(1) _ _ _ log(2)] by auto
qed

lemma rotate_listed: "rotateLocked iv vl = (r, vl') \<Longrightarrow> set (vl_listed vl) \<subseteq> set (vl_listed vl')"
  by (auto simp: rotateLocked_def setSeg_def Let_def split: option.splits sum.splits)

lemma rotate_keeps:
  assumes "vals_ok E vl vs" "vl_nextFid vl \<noteq> - 1" "\<forall>f. length (iv f) = 16"
  shows "keeps_vals E vs vl (snd (rotateLocked iv vl))"
proof -
  obtain log where log: "vl_inv E vl log {#}" "\<forall>v \<in> vs. raw_ok vl log v" using assms(1) by (auto simp: vals_ok_def)
  obtain vl1 where r: "rotateLocked iv vl = (None, vl1)" "vl_inv E vl1 log {#}" using rotate_inv [OF log(1) assms(2,3)] by blast
  then show ?thesis using keeps_valsI [OF log(1) r(2) _ rotate_listed [OF r(1)] log(2)] by simp
qed

lemma append_listed:
  assumes "appendActive E e vl = (Inr vp, vl')" "vl_inv E vl log pins"
  shows "vl_listed vl' = vl_listed vl" "vp_fid vp \<in> set (vl_listed vl)"
proof -
  obtain s where s: "map_of (vl_store vl) (vl_active vl) = Some s" using vl_invD(5,7) [OF assms(2)] by blast
  have "s_fid s = vl_active vl" using vl_inv_seg [OF assms(2) s] by (simp add: seg_ok_def)
  then show "vl_listed vl' = vl_listed vl" "vp_fid vp \<in> set (vl_listed vl)"
    using assms(1) s vl_invD(5) [OF assms(2)] by (auto simp: appendActive_def setSeg_def split: prod.splits sum.splits)
qed

lemma VWrite_keeps:
  assumes "vals_ok E vl vs" "entry_ok e" "vl_nextFid vl \<noteq> - 1" "\<forall>f. length (iv f) = 16"
  obtains vp vl' where "VWrite E iv e vl = (Inr vp, vl')" "keeps_vals E vs vl vl'" "vals_ok E vl' (insert (encodeValuePointer vp) vs)"
    "resolved E vl' (encodeValuePointer vp) = ve_value e"
proof -
  obtain log where log: "vl_inv E vl log {#}" "\<forall>v \<in> vs. raw_ok vl log v" using assms(1) by (auto simp: vals_ok_def)
  obtain vp vl' where w: "VWrite E iv e vl = (Inr vp, vl')" "vl_inv E vl' (log @ [(vp, e)]) {#}"
    using write_inv [OF log(1) assms(2-4)] by blast
  obtain vl1 where r: "rotateLocked iv vl = (None, vl1)" "vl_inv E vl1 log {#}" using rotate_inv [OF log(1) assms(3,4)] by blast
  obtain v0 where v0: "appendActive E e v0 = (Inr vp, vl')" "vl_inv E v0 log {#}" "set (vl_listed vl) \<subseteq> set (vl_listed v0)"
    using w(1) r log(1) rotate_listed [OF r(1)] by (auto simp: VWrite_def split: option.splits if_splits)
  have l: "set (vl_listed vl) \<subseteq> set (vl_listed vl')" "vp_fid vp \<in> set (vl_listed vl')"
    using append_listed [OF v0(1,2)] v0(3) by simp_all
  have k: "keeps_vals E vs vl vl'" by (rule keeps_valsI [OF log(1) w(2) _ l(1) log(2)]) auto
  have "\<forall>v \<in> insert (encodeValuePointer vp) vs. raw_ok vl' (log @ [(vp, e)]) v"
  proof
    fix v assume "v \<in> insert (encodeValuePointer vp) vs"
    then show "raw_ok vl' (log @ [(vp, e)]) v"
    proof
      assume "v = encodeValuePointer vp"
      then show ?thesis using l(2) unfolding raw_ok_def by auto
    next
      assume "v \<in> vs"
      then show ?thesis using log(2) by (intro resolved_mono(1) [OF log(1) w(2) _ l(1)]) auto
    qed
  qed
  then have "vals_ok E vl' (insert (encodeValuePointer vp) vs)" using w(2) by (auto simp: vals_ok_def)
  then show thesis using that w k resolved_ptr [OF w(2) _ l(2), of e] by auto
qed

lemma vals_ok_subset: "vals_ok E vl vs \<Longrightarrow> us \<subseteq> vs \<Longrightarrow> vals_ok E vl us"
  by (auto simp: vals_ok_def)

lemma vals_ok_inline: "vals_ok E vl vs \<Longrightarrow> vals_ok E vl (insert (encodeInlineValue u) vs)"
  by (auto simp: vals_ok_def raw_ok_def)

end
