(* ===== verification/Engine_Read.thy ===== *)
theory Engine_Read
  imports Engine_Values
begin

text \<open>
  Point reads of the engine.  The versions the engine holds are spread over the active memtable, the immutable one and the
  tables of the levels; a read takes the first layer that knows the key.  Under the invariant this is the newest version of the
  whole engine up to the snapshot, with its value resolved.
\<close>

section \<open>Layers and the invariant\<close>

definition immTables :: "'c engine \<Rightarrow> skiplist list" where
  "immTables g = (case g_immMemTable g of None \<Rightarrow> [] | Some m \<Rightarrow> [m])"

definition tableLayers :: "(sstable \<Rightarrow> entry list) \<Rightarrow> 'c lsm \<Rightarrow> entry list list" where
  "tableLayers content l = map (\<lambda>t. map wire (content t)) (searchOrder l)"

definition layers :: "(sstable \<Rightarrow> entry list) \<Rightarrow> 'c engine \<Rightarrow> entry list list" where
  "layers content g = map sl_entries (g_memTable g # immTables g) @ tableLayers content (g_lsm g)"

text \<open>Every version the engine holds.\<close>

definition versionsOf :: "(sstable \<Rightarrow> entry list) \<Rightarrow> 'c engine \<Rightarrow> entry list" where
  "versionsOf content g = concat (layers content g)"

definition rawValues :: "entry list \<Rightarrow> bytes set" where
  "rawValues es = {e_value e |e. e \<in> set es \<and> \<not> e_deleted e}"

text \<open>The file counter below which every table was created, also while a rotated memtable waits for its table.\<close>

definition flushBase :: "'c engine \<Rightarrow> u64" where
  "flushBase g = (case g_flushChan g of [] \<Rightarrow> l_nextSeq (g_lsm g) | task # _ \<Rightarrow> ft_seq task - 1)"

definition flush_ok :: "'c engine \<Rightarrow> bool" where
  "flush_ok g \<longleftrightarrow> g_flushChan g = [] \<and> g_immMemTable g = None \<or>
     (\<exists>task. g_flushChan g = [task] \<and> g_immMemTable g = Some (ft_memTable task) \<and> ft_seq task \<noteq> 0 \<and> ft_seq task \<le> l_nextSeq (g_lsm g))"

definition eng_inv :: "'c gctx \<Rightarrow> ('c \<Rightarrow> bool) \<Rightarrow> ('c \<Rightarrow> bytes \<Rightarrow> bytes option) \<Rightarrow> (sstable \<Rightarrow> entry list) \<Rightarrow> 'c engine \<Rightarrow> bool" where
  "eng_inv x cinv view content g \<longleftrightarrow>
     (\<forall>m \<in> set (g_memTable g # immTables g). sl_wf m \<and> consistent (sl_entries m)) \<and> flush_ok g \<and>
     lsm_inv (gx_lsm x) cinv view content ((g_lsm g)\<lparr>l_nextSeq := flushBase g\<rparr>) \<and>
     recency (layers content g) \<and> (\<forall>t \<in> set (tablesOf (g_lsm g)). \<forall>k. one_restart k (content t)) \<and>
     vals_ok (gx_aes x) (g_vl g) (rawValues (versionsOf content g)) \<and>
     (\<forall>e \<in> set (versionsOf content g). e_version e \<le> CurrentVersion (g_memTable g)) \<and>
     unat (CurrentVersion (g_memTable g)) \<le> o_nextTs (g_oracle g)"

text \<open>The answer to a read: the value and the expiry of the newest version up to the snapshot, if it is live.\<close>

definition answer :: "'c gctx \<Rightarrow> (sstable \<Rightarrow> entry list) \<Rightarrow> 'c engine \<Rightarrow> i64 \<Rightarrow> bytes \<Rightarrow> u64 \<Rightarrow> (bytes \<times> i64) option" where
  "answer x content g now k ts =
     map_option (\<lambda>(raw, exp). (resolved (gx_aes x) (g_vl g) raw, exp)) (reads now (versionsOf content g) k ts)"

lemma flushBase_cong:
  "g_flushChan g1 = g_flushChan g \<Longrightarrow> l_nextSeq (g_lsm g1) = l_nextSeq (g_lsm g) \<Longrightarrow> flushBase g1 = flushBase g"
  by (simp add: flushBase_def split: list.split)

lemma searchOrder_set: "length (l_levels l) = MaxLevels \<Longrightarrow> set (searchOrder l) = set (tablesOf l)"
  by (auto simp: searchOrder_def level_def tablesOf_level set_eq_iff Bex_def)

lemma latest_snapshot: "latest_entry es k = snapshot_entry es k (- 1)"
  by (simp add: latest_entry_def snapshot_entry_def)

section \<open>Searching the layers\<close>

definition seen :: "bytes \<times> bool \<times> i64 \<Rightarrow> (bytes \<times> i64) option" where
  "seen h = (case h of (v, deleted, exp) \<Rightarrow> if deleted then None else Some (v, exp))"

lemma searchTables_first:
  assumes rd: "\<And>t c. t \<in> set ts \<Longrightarrow> P c \<Longrightarrow> \<exists>c1. tget t c = (Inr (scanResult now (snapshot_entry (map wire (content t)) k v)), t, c1) \<and> P c1"
    and P: "P c"
  shows "\<exists>hit c1. searchTables tget ts c = (hit, c1) \<and> P c1 \<and>
    map_option seen hit = map_option (\<lambda>e. live now (Some e)) (firstFound (map (\<lambda>t. map wire (content t)) ts) k v)"
  using assms
proof (induction ts arbitrary: c)
  case (Cons t ts)
  obtain c1 where c1: "tget t c = (Inr (scanResult now (snapshot_entry (map wire (content t)) k v)), t, c1)" "P c1"
    using Cons.prems(1) [of t c] Cons.prems(2) by auto
  show ?case
  proof (cases "snapshot_entry (map wire (content t)) k v")
    case None
    then show ?thesis using c1 Cons.IH [of c1] Cons.prems(1) by (auto simp: scanResult_def)
  next
    case (Some e)
    then show ?thesis using c1 by (auto simp: scanResult_def seen_def deadAt_def)
  qed
qed simp

lemma visible_seen:
  "(\<exists>d. visible now (Some e) = (if deadAt now e then [] else e_value e, True, d, if deadAt now e then 0 else e_expiresAt e) \<and> d = deadAt now e)"
  by (auto simp: visible_def deadAt_def)

lemma firstHit_first:
  assumes mg: "\<And>m. m \<in> set (g_memTable g # immTables g) \<Longrightarrow>
      \<exists>ver. mget m = Some (visible now (snapshot_entry (sl_entries m) k v), ver)"
    and rd: "\<And>t c. t \<in> set (searchOrder (g_lsm g)) \<Longrightarrow> P c \<Longrightarrow>
      \<exists>c1. tget t c = (Inr (scanResult now (snapshot_entry (map wire (content t)) k v)), t, c1) \<and> P c1"
    and P: "P (l_cache (g_lsm g))"
  shows "\<exists>hit c. firstHit mget tget g = Some (hit, g\<lparr>g_lsm := (g_lsm g)\<lparr>l_cache := c\<rparr>\<rparr>) \<and> P c \<and>
    map_option (seen \<circ> fst) hit = map_option (\<lambda>e. live now (Some e)) (firstFound (layers content g) k v)"
proof -
  obtain hit c where tb: "searchTables tget (searchOrder (g_lsm g)) (l_cache (g_lsm g)) = (hit, c)" "P c"
    "map_option seen hit = map_option (\<lambda>e. live now (Some e)) (firstFound (tableLayers content (g_lsm g)) k v)"
    using searchTables_first [where ts = "searchOrder (g_lsm g)" and P = P and tget = tget and content = content, OF rd P]
    unfolding tableLayers_def by blast
  have same: "g\<lparr>g_lsm := (g_lsm g)\<lparr>l_cache := l_cache (g_lsm g)\<rparr>\<rparr> = g" by simp
  obtain ver where m: "mget (g_memTable g) = Some (visible now (snapshot_entry (sl_entries (g_memTable g)) k v), ver)" using mg by auto
  have comp: "map_option (seen \<circ> fst) (map_option (\<lambda>h. (h, z)) hit) = map_option seen hit" for z :: u64 by (cases hit) simp_all
  show ?thesis
  proof (cases "snapshot_entry (sl_entries (g_memTable g)) k v")
    case (Some e)
    then show ?thesis using m P visible_seen [of now e]
      by (intro exI [of _ "Some ((if deadAt now e then [] else e_value e, deadAt now e, if deadAt now e then 0 else e_expiresAt e), ver)"]
          exI [of _ "l_cache (g_lsm g)"]) (auto simp: firstHit_def layers_def seen_def same)
  next
    case None
    note none = this
    show ?thesis
    proof (cases "g_immMemTable g")
      case None
      then show ?thesis using none m tb comp [of 0]
        by (intro exI [of _ "map_option (\<lambda>h. (h, 0)) hit"] exI [of _ c]) (simp add: firstHit_def layers_def visible_def immTables_def)
    next
      case (Some im)
      obtain iv where i: "mget im = Some (visible now (snapshot_entry (sl_entries im) k v), iv)" using mg [of im] Some by (auto simp: immTables_def)
      show ?thesis
      proof (cases "snapshot_entry (sl_entries im) k v")
        case None
        then show ?thesis using none m i tb Some comp [of 0]
          by (intro exI [of _ "map_option (\<lambda>h. (h, 0)) hit"] exI [of _ c]) (simp add: firstHit_def layers_def visible_def immTables_def)
      next
        case (Some e)
        then show ?thesis using none m i P \<open>g_immMemTable g = Some im\<close> visible_seen [of now e]
          by (intro exI [of _ "Some ((if deadAt now e then [] else e_value e, deadAt now e, if deadAt now e then 0 else e_expiresAt e), iv)"]
              exI [of _ "l_cache (g_lsm g)"]) (auto simp: firstHit_def layers_def visible_def immTables_def seen_def same)
      qed
    qed
  qed
qed

section \<open>Reads leave the answers alone\<close>

lemma level_cong: "l_levels l' = l_levels l \<Longrightarrow> level l' = level l"
  by (simp add: level_def fun_eq_iff)

lemma layers_cong:
  assumes "g_memTable g1 = g_memTable g" "g_immMemTable g1 = g_immMemTable g" "l_levels (g_lsm g1) = l_levels (g_lsm g)"
  shows "layers content g1 = layers content g" "versionsOf content g1 = versionsOf content g" "immTables g1 = immTables g"
  using assms level_cong [OF assms(3)] by (simp_all add: versionsOf_def layers_def immTables_def tableLayers_def searchOrder_def)

text \<open>A read may fill the cache and flush the segment it reads from.\<close>

definition quiet :: "'c gctx \<Rightarrow> (sstable \<Rightarrow> entry list) \<Rightarrow> 'c engine \<Rightarrow> 'c engine \<Rightarrow> bool" where
  "quiet x content g g1 \<longleftrightarrow> (\<exists>c vl st. g1 = g\<lparr>g_lsm := (g_lsm g)\<lparr>l_cache := c\<rparr>, g_vl := vl, g_stats := st\<rparr> \<and>
     keeps_vals (gx_aes x) (rawValues (versionsOf content g)) (g_vl g) vl \<and> vl_nextFid vl = vl_nextFid (g_vl g))"

lemma quiet_fields:
  assumes "quiet x content g g1"
  shows "g_memTable g1 = g_memTable g" "g_immMemTable g1 = g_immMemTable g" "g_wal g1 = g_wal g" "g_oldWals g1 = g_oldWals g"
    "g_oracle g1 = g_oracle g" "g_flushChan g1 = g_flushChan g" "g_diskFull g1 = g_diskFull g" "g_threshold g1 = g_threshold g"
    "g_expiryAt g1 = g_expiryAt g" "g_expiryHeap g1 = g_expiryHeap g" "l_levels (g_lsm g1) = l_levels (g_lsm g)"
    "l_nextSeq (g_lsm g1) = l_nextSeq (g_lsm g)" "versionsOf content g1 = versionsOf content g" "layers content g1 = layers content g"
    "vl_nextFid (g_vl g1) = vl_nextFid (g_vl g)" "flushBase g1 = flushBase g"
proof -
  obtain c vl st where g1: "g1 = g\<lparr>g_lsm := (g_lsm g)\<lparr>l_cache := c\<rparr>, g_vl := vl, g_stats := st\<rparr>" "vl_nextFid vl = vl_nextFid (g_vl g)"
    using assms unfolding quiet_def by blast
  show "g_memTable g1 = g_memTable g" "g_immMemTable g1 = g_immMemTable g" "g_wal g1 = g_wal g" "g_oldWals g1 = g_oldWals g"
    "g_oracle g1 = g_oracle g" "g_flushChan g1 = g_flushChan g" "g_diskFull g1 = g_diskFull g" "g_threshold g1 = g_threshold g"
    "g_expiryAt g1 = g_expiryAt g" "g_expiryHeap g1 = g_expiryHeap g" "l_levels (g_lsm g1) = l_levels (g_lsm g)"
    "l_nextSeq (g_lsm g1) = l_nextSeq (g_lsm g)" "vl_nextFid (g_vl g1) = vl_nextFid (g_vl g)" "flushBase g1 = flushBase g"
    using g1 by (simp_all add: flushBase_def split: list.split)
  then show "versionsOf content g1 = versionsOf content g" "layers content g1 = layers content g"
    using layers_cong [of g1 g] by simp_all
qed

lemma reads_raw: "reads now es k ts = Some (raw, exp) \<Longrightarrow> raw \<in> rawValues es"
  by (auto simp: reads_def live_def rawValues_def deadAt_def snapshot_entry_def dest!: best_of_SomeD split: option.splits if_splits)

lemma answer_cong:
  assumes "versionsOf content g1 = versionsOf content g"
    "\<And>v. v \<in> rawValues (versionsOf content g) \<Longrightarrow> resolved (gx_aes x) (g_vl g1) v = resolved (gx_aes x) (g_vl g) v"
  shows "answer x content g1 = answer x content g"
proof (intro ext)
  fix now k ts
  show "answer x content g1 now k ts = answer x content g now k ts"
    using assms reads_raw [of now "versionsOf content g" k ts]
    by (cases "reads now (versionsOf content g) k ts") (auto simp: answer_def)
qed

lemma quiet_answer: "quiet x content g g1 \<Longrightarrow> answer x content g1 = answer x content g"
  by (rule answer_cong) (auto simp: quiet_fields, auto simp: quiet_def keeps_vals_def)

lemma quiet_trans:
  assumes "quiet x content g g1" "quiet x content g1 g2" shows "quiet x content g g2"
proof -
  obtain c vl st where 1: "g1 = g\<lparr>g_lsm := (g_lsm g)\<lparr>l_cache := c\<rparr>, g_vl := vl, g_stats := st\<rparr>"
    "keeps_vals (gx_aes x) (rawValues (versionsOf content g)) (g_vl g) vl" "vl_nextFid vl = vl_nextFid (g_vl g)"
    using assms(1) unfolding quiet_def by blast
  obtain c2 vl2 st2 where 2: "g2 = g1\<lparr>g_lsm := (g_lsm g1)\<lparr>l_cache := c2\<rparr>, g_vl := vl2, g_stats := st2\<rparr>"
    "keeps_vals (gx_aes x) (rawValues (versionsOf content g1)) (g_vl g1) vl2" "vl_nextFid vl2 = vl_nextFid (g_vl g1)"
    using assms(2) unfolding quiet_def by blast
  have "keeps_vals (gx_aes x) (rawValues (versionsOf content g)) vl vl2"
    using 2(2) quiet_fields(13) [OF assms(1)] 1(1) by simp
  from keeps_trans [OF 1(2) this] show ?thesis unfolding quiet_def using 1 2
    by (intro exI [of _ c2] exI [of _ vl2] exI [of _ st2]) auto
qed

lemma eng_inv_vals: "eng_inv x cinv view content g \<Longrightarrow> vals_ok (gx_aes x) (g_vl g) (rawValues (versionsOf content g))"
  by (simp add: eng_inv_def)

lemma quiet_refl: "eng_inv x cinv view content g \<Longrightarrow> quiet x content g g"
  unfolding quiet_def by (intro exI [of _ "l_cache (g_lsm g)"] exI [of _ "g_vl g"] exI [of _ "g_stats g"]) (simp add: keeps_refl eng_inv_vals)

definition tables_stored :: "'c gctx \<Rightarrow> ('c \<Rightarrow> bool) \<Rightarrow> ('c \<Rightarrow> bytes \<Rightarrow> bytes option) \<Rightarrow> (sstable \<Rightarrow> entry list) \<Rightarrow> 'c engine \<Rightarrow> 'c option \<Rightarrow> bool" where
  "tables_stored x cinv view content g c \<longleftrightarrow> (let lx = gx_lsm x
     in stored (x_env lx) cinv view (x_reg lx) (x_dir lx) content (set (tablesOf (g_lsm g))) (flushBase g) c)"

lemma quiet_inv:
  assumes inv: "eng_inv x cinv view content g" and q: "quiet x content g g1" and st: "tables_stored x cinv view content g (l_cache (g_lsm g1))"
  shows "eng_inv x cinv view content g1"
proof -
  note f = quiet_fields [OF q]
  obtain c vl s where g1: "g1 = g\<lparr>g_lsm := (g_lsm g)\<lparr>l_cache := c\<rparr>, g_vl := vl, g_stats := s\<rparr>"
    "vals_ok (gx_aes x) vl (rawValues (versionsOf content g))" using q by (auto simp: quiet_def keeps_vals_def)
  have tb: "tablesOf (g_lsm g1) = tablesOf (g_lsm g)" by (simp add: tablesOf_def f)
  have "lsm_inv (gx_lsm x) cinv view content ((g_lsm g1)\<lparr>l_nextSeq := flushBase g1\<rparr>)"
    using inv st by (simp add: eng_inv_def lsm_inv_def lsm_ok_def tables_stored_def tablesOf_def f Let_def)
  then show ?thesis using inv g1 f tb by (simp add: eng_inv_def flush_ok_def immTables_def)
qed

lemma eng_inv_stored: "eng_inv x cinv view content g \<Longrightarrow> tables_stored x cinv view content g (l_cache (g_lsm g))"
  by (simp add: eng_inv_def lsm_inv_def lsm_ok_def tables_stored_def tablesOf_def Let_def)

section \<open>The read functions\<close>

lemma resolve_quiet:
  assumes inv: "eng_inv x cinv view content g" and v: "v \<in> rawValues (versionsOf content g)"
  obtains g1 where "resolve x v g = (Inr (resolved (gx_aes x) (g_vl g) v), g1)" "quiet x content g g1" "g_lsm g1 = g_lsm g"
proof -
  obtain vl' where vl': "resolveValue (gx_aes x) v (g_vl g) = (Inr (resolved (gx_aes x) (g_vl g) v), vl')"
    "keeps_vals (gx_aes x) (rawValues (versionsOf content g)) (g_vl g) vl'" "vl_nextFid vl' = vl_nextFid (g_vl g)"
    using resolveValue_keeps [OF eng_inv_vals [OF inv] v] by blast
  have "quiet x content g (g\<lparr>g_vl := vl'\<rparr>)"
    unfolding quiet_def using vl' by (intro exI [of _ "l_cache (g_lsm g)"] exI [of _ vl'] exI [of _ "g_stats g"]) simp
  then show thesis using that vl' by (simp add: resolve_def)
qed

lemma recent_answer:
  assumes "eng_inv x cinv view content g"
  shows "firstFound (layers content g) k ts = snapshot_entry (versionsOf content g) k ts"
  using assms firstFound_concat by (simp add: eng_inv_def versionsOf_def)

text \<open>What a search finds, as the engine's answer before the value is resolved.\<close>

lemma found_reads:
  assumes "map_option (seen \<circ> fst) hit = map_option (\<lambda>e. live now (Some e)) (snapshot_entry es k ts)"
  shows "(case hit of None \<Rightarrow> None | Some (h, _) \<Rightarrow> seen h) = reads now es k ts"
  using assms by (cases hit; cases "snapshot_entry es k ts") (auto simp: reads_def split: prod.splits)

lemma cache_quiet:
  assumes "eng_inv x cinv view content g"
  shows "quiet x content g (g\<lparr>g_lsm := (g_lsm g)\<lparr>l_cache := c\<rparr>\<rparr>)"
  unfolding quiet_def using keeps_refl [OF eng_inv_vals [OF assms]]
  by (intro exI [of _ c] exI [of _ "g_vl g"] exI [of _ "g_stats g"]) simp

lemma firstHit_quiet:
  assumes inv: "eng_inv x cinv view content g"
    and mg: "\<And>m. sl_wf m \<Longrightarrow> \<exists>ver. mget m = Some (visible now (snapshot_entry (sl_entries m) k ts), ver)"
    and rd: "\<And>t c. t \<in> set (tablesOf (g_lsm g)) \<Longrightarrow> tables_stored x cinv view content g c \<Longrightarrow>
      \<exists>c1. tget t c = (Inr (scanResult now (snapshot_entry (map wire (content t)) k ts)), t, c1) \<and> tables_stored x cinv view content g c1"
  obtains hit g1 where "firstHit mget tget g = Some (hit, g1)" "quiet x content g g1" "eng_inv x cinv view content g1"
    "(case hit of None \<Rightarrow> None | Some (h, _) \<Rightarrow> seen h) = reads now (versionsOf content g) k ts"
proof -
  have so: "set (searchOrder (g_lsm g)) = set (tablesOf (g_lsm g))"
    using inv by (intro searchOrder_set) (simp add: eng_inv_def lsm_inv_def)
  obtain hit c where h: "firstHit mget tget g = Some (hit, g\<lparr>g_lsm := (g_lsm g)\<lparr>l_cache := c\<rparr>\<rparr>)" "tables_stored x cinv view content g c"
    "map_option (seen \<circ> fst) hit = map_option (\<lambda>e. live now (Some e)) (firstFound (layers content g) k ts)"
    using firstHit_first [where g = g and mget = mget and tget = tget and P = "tables_stored x cinv view content g" and content = content
        and k = k and v = ts and now = now]
      mg rd inv eng_inv_stored [OF inv] unfolding so eng_inv_def by blast
  note q = cache_quiet [OF inv, of c]
  have "eng_inv x cinv view content (g\<lparr>g_lsm := (g_lsm g)\<lparr>l_cache := c\<rparr>\<rparr>)"
    by (rule quiet_inv [OF inv q]) (use h(2) in simp)
  then show thesis using that [OF h(1) q] found_reads [OF h(3) [unfolded recent_answer [OF inv]]] by blast
qed

lemma tables_read:
  assumes inv: "eng_inv x cinv view content g" and t: "t \<in> set (tablesOf (g_lsm g))" and c: "tables_stored x cinv view content g c"
  shows "\<exists>c1. tGetByVersion (x_env (gx_lsm x)) now t k ts c = (Inr (scanResult now (snapshot_entry (map wire (content t)) k ts)), t, c1) \<and>
      tables_stored x cinv view content g c1"
    "\<exists>c1. tGet (x_env (gx_lsm x)) now t k c = (Inr (scanResult now (snapshot_entry (map wire (content t)) k (- 1))), t, c1) \<and>
      tables_stored x cinv view content g c1"
proof -
  have one: "one_restart k (content t)" using inv t by (simp add: eng_inv_def)
  show "\<exists>c1. tGetByVersion (x_env (gx_lsm x)) now t k ts c = (Inr (scanResult now (snapshot_entry (map wire (content t)) k ts)), t, c1) \<and>
      tables_stored x cinv view content g c1"
    using stored_read(2) [OF c [unfolded tables_stored_def Let_def] t one, of now ts] by (simp add: tables_stored_def Let_def)
  show "\<exists>c1. tGet (x_env (gx_lsm x)) now t k c = (Inr (scanResult now (snapshot_entry (map wire (content t)) k (- 1))), t, c1) \<and>
      tables_stored x cinv view content g c1"
    using stored_read(1) [OF c [unfolded tables_stored_def Let_def] t one, of now] by (simp add: tables_stored_def Let_def latest_snapshot)
qed

lemma resolve_answer:
  assumes inv: "eng_inv x cinv view content g" and r: "reads now (versionsOf content g) k ts = Some (v, exp)"
  obtains g1 where "resolve x v g = (Inr (resolved (gx_aes x) (g_vl g) v), g1)" "quiet x content g g1" "eng_inv x cinv view content g1"
    "answer x content g now k ts = Some (resolved (gx_aes x) (g_vl g) v, exp)"
proof -
  obtain g1 where g1: "resolve x v g = (Inr (resolved (gx_aes x) (g_vl g) v), g1)" "quiet x content g g1" "g_lsm g1 = g_lsm g"
    using resolve_quiet [OF inv reads_raw [OF r]] by blast
  have "eng_inv x cinv view content g1" by (rule quiet_inv [OF inv g1(2)]) (simp add: g1(3) eng_inv_stored [OF inv])
  then show thesis using that g1 r by (simp add: answer_def)
qed

definition reply_of :: "(bytes \<times> i64) option \<Rightarrow> engine_error + bytes" where
  "reply_of r = (case r of None \<Rightarrow> Inl EngKeyNotFound | Some (v, _) \<Rightarrow> Inr v)"

lemma getByAt_ok:
  assumes inv: "eng_inv x cinv view content g"
  obtains g1 where "getByAt x now k ts g = Some (reply_of (answer x content g now k ts), g1)"
    "quiet x content g g1" "eng_inv x cinv view content g1"
proof -
  let ?mget = "\<lambda>mt. map_option (\<lambda>r. (r, 0)) (sl_GetByVersion now mt k ts)"
  let ?tget = "\<lambda>t c. tGetByVersion (x_env (gx_lsm x)) now t k ts c"
  obtain hit g1 where h: "firstHit ?mget ?tget g = Some (hit, g1)" "quiet x content g g1" "eng_inv x cinv view content g1"
    "(case hit of None \<Rightarrow> None | Some (h, _) \<Rightarrow> seen h) = reads now (versionsOf content g) k ts"
    by (rule firstHit_quiet [OF inv, where mget = ?mget and tget = ?tget and now = now and k = k and ts = ts])
      (auto simp: sl_GetByVersion_refines intro: tables_read(1) [OF inv])
  show thesis
  proof (cases "reads now (versionsOf content g) k ts")
    case None
    then have "getByAt x now k ts g = Some (Inl EngKeyNotFound, g1)"
      using h(1,4) by (auto simp: getByAt_def seen_def split: option.splits prod.splits if_splits)
    then show thesis using that h None by (simp add: answer_def reply_of_def)
  next
    case (Some p)
    then obtain v exp where p: "reads now (versionsOf content g) k ts = Some (v, exp)" by (cases p) auto
    then obtain ver where hit: "hit = Some ((v, False, exp), ver)" using h(4) by (auto simp: seen_def split: option.splits prod.splits if_splits)
    have "reads now (versionsOf content g1) k ts = Some (v, exp)" using p quiet_fields(13) [OF h(2)] by simp
    from resolve_answer [OF h(3) this] obtain g2 where g2: "resolve x v g1 = (Inr (resolved (gx_aes x) (g_vl g1) v), g2)"
      "quiet x content g1 g2" "eng_inv x cinv view content g2" "answer x content g1 now k ts = Some (resolved (gx_aes x) (g_vl g1) v, exp)"
      by blast
    have "getByAt x now k ts g = Some (reply_of (answer x content g now k ts), g2)"
      using h(1) hit g2(1,4) quiet_answer [OF h(2)] by (simp add: getByAt_def reply_of_def)
    then show thesis using that quiet_trans [OF h(2) g2(2)] g2(3) by blast
  qed
qed

text \<open>The newest version of a key, whatever its timestamp.\<close>

definition current :: "'c gctx \<Rightarrow> (sstable \<Rightarrow> entry list) \<Rightarrow> 'c engine \<Rightarrow> i64 \<Rightarrow> bytes \<Rightarrow> (bytes \<times> i64) option" where
  "current x content g now k = answer x content g now k (- 1)"

lemma snapshot_all:
  assumes "\<forall>e \<in> set es. e_version e \<le> ts" shows "snapshot_entry es k ts = snapshot_entry es k (- 1)"
proof -
  have "filter (\<lambda>e. e_key e = k \<and> e_version e \<le> ts) es = filter (\<lambda>e. e_key e = k \<and> e_version e \<le> - 1) es"
    using assms by (intro filter_cong) auto
  then show ?thesis by (simp add: snapshot_entry_def)
qed

lemma answer_current:
  assumes "eng_inv x cinv view content g" "CurrentVersion (g_memTable g) \<le> ts"
  shows "answer x content g now k ts = current x content g now k"
proof -
  have "\<forall>e \<in> set (versionsOf content g). e_version e \<le> ts" using assms by (auto simp: eng_inv_def)
  from snapshot_all [OF this] show ?thesis unfolding current_def answer_def reads_def by simp
qed

lemma sl_Get_latest: "sl_wf m \<Longrightarrow> sl_Get now m k = Some (visible now (snapshot_entry (sl_entries m) k (- 1)))"
  by (simp add: sl_Get_def lookupKey_refines snapshot_entry_def)

lemma latestHit_ok:
  assumes inv: "eng_inv x cinv view content g"
  obtains hit g1 where "latestHit x now k g = Some (hit, g1)" "quiet x content g g1" "eng_inv x cinv view content g1"
    "(case hit of None \<Rightarrow> None | Some h \<Rightarrow> seen h) = reads now (versionsOf content g) k (- 1)"
proof -
  let ?mget = "\<lambda>mt. map_option (\<lambda>r. (r, 0)) (sl_Get now mt k)"
  let ?tget = "\<lambda>t c. tGet (x_env (gx_lsm x)) now t k c"
  obtain hit g1 where h: "firstHit ?mget ?tget g = Some (hit, g1)" "quiet x content g g1" "eng_inv x cinv view content g1"
    "(case hit of None \<Rightarrow> None | Some (h, _) \<Rightarrow> seen h) = reads now (versionsOf content g) k (- 1)"
    by (rule firstHit_quiet [OF inv, where mget = ?mget and tget = ?tget and now = now and k = k and ts = "- 1"])
      (simp_all add: sl_Get_latest tables_read(2) [OF inv])
  have "latestHit x now k g = Some (map_option fst hit, g1)" using h(1) by (simp add: latestHit_def)
  moreover have "(case map_option fst hit of None \<Rightarrow> None | Some h \<Rightarrow> seen h) = (case hit of None \<Rightarrow> None | Some (h, _) \<Rightarrow> seen h)"
    by (cases hit) auto
  ultimately show thesis using that [of "map_option fst hit" g1] h(2-) by simp
qed

lemma getWithoutLock_ok:
  assumes inv: "eng_inv x cinv view content g"
  obtains g1 where "getWithoutLock x now k g = Some (reply_of (current x content g now k), g1)"
    "quiet x content g g1" "eng_inv x cinv view content g1"
proof -
  obtain hit g1 where h: "latestHit x now k g = Some (hit, g1)" "quiet x content g g1" "eng_inv x cinv view content g1"
    "(case hit of None \<Rightarrow> None | Some h \<Rightarrow> seen h) = reads now (versionsOf content g) k (- 1)"
    using latestHit_ok [OF inv] by blast
  show thesis
  proof (cases "reads now (versionsOf content g) k (- 1)")
    case None
    then have "getWithoutLock x now k g = Some (Inl EngKeyNotFound, g1)"
      using h(1,4) by (auto simp: getWithoutLock_def seen_def split: option.splits prod.splits if_splits)
    then show thesis using that h None by (simp add: current_def answer_def reply_of_def)
  next
    case (Some p)
    then obtain v exp where p: "reads now (versionsOf content g) k (- 1) = Some (v, exp)" by (cases p) auto
    then have hit: "hit = Some (v, False, exp)" using h(4) by (auto simp: seen_def split: option.splits prod.splits if_splits)
    have "reads now (versionsOf content g1) k (- 1) = Some (v, exp)" using p quiet_fields(13) [OF h(2)] by simp
    from resolve_answer [OF h(3) this] obtain g2 where g2: "resolve x v g1 = (Inr (resolved (gx_aes x) (g_vl g1) v), g2)"
      "quiet x content g1 g2" "eng_inv x cinv view content g2" "answer x content g1 now k (- 1) = Some (resolved (gx_aes x) (g_vl g1) v, exp)"
      by blast
    have "getWithoutLock x now k g = Some (reply_of (current x content g now k), g2)"
      using h(1) hit g2(1,4) quiet_answer [OF h(2)] by (simp add: getWithoutLock_def reply_of_def current_def)
    then show thesis using that quiet_trans [OF h(2) g2(2)] g2(3) by blast
  qed
qed

lemma existsWithoutLock_ok:
  assumes inv: "eng_inv x cinv view content g"
  obtains g1 where "existsWithoutLock x now k g = Some (current x content g now k \<noteq> None, g1)"
    "quiet x content g g1" "eng_inv x cinv view content g1"
proof -
  obtain hit g1 where h: "latestHit x now k g = Some (hit, g1)" "quiet x content g g1" "eng_inv x cinv view content g1"
    "(case hit of None \<Rightarrow> None | Some h \<Rightarrow> seen h) = reads now (versionsOf content g) k (- 1)"
    using latestHit_ok [OF inv] by blast
  have "existsWithoutLock x now k g = Some (reads now (versionsOf content g) k (- 1) \<noteq> None, g1)"
    unfolding h(4) [symmetric] using h(1) by (auto simp: existsWithoutLock_def seen_def split: option.split)
  then show thesis using that h by (simp add: current_def answer_def)
qed

lemma TTL_ok:
  assumes inv: "eng_inv x cinv view content g"
  obtains g1 where "TTL x now k g = Some (case current x content g now k of None \<Rightarrow> - 2 | Some (_, exp) \<Rightarrow> calcRemaining now exp, g1)"
    "quiet x content g g1" "eng_inv x cinv view content g1"
proof -
  obtain hit g1 where h: "latestHit x now k g = Some (hit, g1)" "quiet x content g g1" "eng_inv x cinv view content g1"
    "(case hit of None \<Rightarrow> None | Some h \<Rightarrow> seen h) = reads now (versionsOf content g) k (- 1)"
    using latestHit_ok [OF inv] by blast
  have "TTL x now k g = Some (case reads now (versionsOf content g) k (- 1) of None \<Rightarrow> - 2 | Some (_, exp) \<Rightarrow> calcRemaining now exp, g1)"
    unfolding h(4) [symmetric] using h(1) by (auto simp: TTL_def seen_def split: option.split prod.splits)
  moreover have "(case current x content g now k of None \<Rightarrow> - 2 | Some (_, exp) \<Rightarrow> calcRemaining now exp) =
      (case reads now (versionsOf content g) k (- 1) of None \<Rightarrow> - 2 | Some (_, exp) \<Rightarrow> calcRemaining now exp)"
    by (cases "reads now (versionsOf content g) k (- 1)") (auto simp: current_def answer_def)
  ultimately show thesis using that h by simp
qed

lemma stats_quiet:
  assumes "eng_inv x cinv view content g"
  shows "quiet x content g (g\<lparr>g_stats := st\<rparr>)" "eng_inv x cinv view content (g\<lparr>g_stats := st\<rparr>)"
proof -
  show q: "quiet x content g (g\<lparr>g_stats := st\<rparr>)"
    unfolding quiet_def using keeps_refl [OF eng_inv_vals [OF assms]]
    by (intro exI [of _ "l_cache (g_lsm g)"] exI [of _ "g_vl g"] exI [of _ st]) simp
  show "eng_inv x cinv view content (g\<lparr>g_stats := st\<rparr>)" by (rule quiet_inv [OF assms q]) (simp add: eng_inv_stored [OF assms])
qed

lemma EngGet_ok:
  assumes inv: "eng_inv x cinv view content g"
  obtains g1 where "EngGet x now k g = Some (reply_of (current x content g now k), g1)"
    "quiet x content g g1" "eng_inv x cinv view content g1"
proof -
  obtain g1 where g1: "getByAt x now k (CurrentVersion (g_memTable g)) g = Some (reply_of (current x content g now k), g1)"
    "quiet x content g g1" "eng_inv x cinv view content g1"
    using getByAt_ok [OF inv, where ts = "CurrentVersion (g_memTable g)"] answer_current [OF inv order_refl] by metis
  have "quiet x content g1 (incGet g1)" "eng_inv x cinv view content (incGet g1)" unfolding incGet_def by (rule stats_quiet [OF g1(3)])+
  then show thesis using that [OF _ quiet_trans [OF g1(2)], of "incGet g1"] g1(1) by (simp add: EngGet_def getByString_def CurrentVersionOf_def)
qed

lemma MGet_ok:
  assumes "eng_inv x cinv view content g"
  obtains g1 where "MGet x now ks g = Some (map (\<lambda>k. case current x content g now k of None \<Rightarrow> ([], False) | Some (v, _) \<Rightarrow> (v, True)) ks, g1)"
    "quiet x content g g1" "eng_inv x cinv view content g1"
  using assms
proof (induction ks arbitrary: g thesis)
  case Nil
  show ?case by (rule Nil(1) [of g]) (simp_all add: Nil(2) quiet_refl [OF Nil(2)])
next
  case (Cons k ks)
  obtain g1 where g1: "EngGet x now k g = Some (reply_of (current x content g now k), g1)" "quiet x content g g1" "eng_inv x cinv view content g1"
    using EngGet_ok [OF Cons.prems(2)] by blast
  have same: "current x content g1 = current x content g" using quiet_answer [OF g1(2)] by (simp add: current_def fun_eq_iff)
  obtain g2 where g2: "MGet x now ks g1 = Some (map (\<lambda>k. case current x content g1 now k of None \<Rightarrow> ([], False) | Some (v, _) \<Rightarrow> (v, True)) ks, g2)"
    "quiet x content g1 g2" "eng_inv x cinv view content g2" using Cons.IH g1(3) by blast
  show ?case
    by (rule Cons.prems(1) [OF _ quiet_trans [OF g1(2) g2(2)] g2(3)]) (simp add: g1(1) g2(1) same reply_of_def split: option.split)
qed

end
