(* ===== verification/Engine_Write.thy ===== *)
theory Engine_Write
  imports Engine_Read
begin

text \<open>
  Writes of the engine.  A write adds a version above every version of its key, so it is what later reads of the key get and
  nothing else changes; a batch is applied as a whole or not at all.
\<close>

section \<open>All versions together\<close>

lemma consistent_append:
  assumes "consistent xs" "consistent ys" "newer xs ys" shows "consistent (xs @ ys)"
proof -
  have ap: False if "x \<in> set xs" "y \<in> set ys" "e_key x = e_key y" "e_version x = e_version y" for x y
    using assms(3) that unfolding newer_def by (metis less_irrefl)
  have "a = b" if "a \<in> set (xs @ ys)" "b \<in> set (xs @ ys)" "e_key a = e_key b" "e_version a = e_version b" for a b
    using that consistentD [OF assms(1), of a b] consistentD [OF assms(2), of a b] ap [of a b] ap [of b a] by auto
  then show ?thesis by (simp add: consistent_def inj_on_def)
qed

lemma recency_consistent:
  "recency ls \<Longrightarrow> \<forall>es \<in> set ls. consistent es \<Longrightarrow> consistent (concat ls)"
proof (induction ls)
  case (Cons es ls)
  have "newer es (concat ls)" using Cons.prems(1) by (auto simp: recency_def newer_def)
  then show ?case using Cons consistent_append [of es "concat ls"] by (simp add: recency_def)
qed (simp add: consistent_def)

lemma keeps_wire: "keeps wire"
  by (simp add: keeps_def)

lemma eng_inv_consistent:
  assumes "eng_inv x cinv view content g" shows "consistent (versionsOf content g)"
  unfolding versionsOf_def
proof (rule recency_consistent)
  have so: "set (searchOrder (g_lsm g)) = set (tablesOf (g_lsm g))"
    using assms by (intro searchOrder_set) (simp add: eng_inv_def lsm_inv_def)
  have "\<forall>t \<in> set (tablesOf (g_lsm g)). consistent (content t)" using assms by (simp add: eng_inv_def lsm_inv_def tablesOf_def)
  then show "\<forall>es \<in> set (layers content g). consistent es"
    using assms so consistent_map [OF keeps_wire] by (auto simp: layers_def tableLayers_def eng_inv_def)
qed (use assms in \<open>simp add: eng_inv_def\<close>)

lemma snapshot_insert:
  assumes "set es' = insert e (set es)" "consistent es'" "\<forall>f \<in> set es. e_key f = e_key e \<longrightarrow> e_version f \<le> e_version e"
  shows "snapshot_entry es' k ts = (if k = e_key e \<and> e_version e \<le> ts then Some e else snapshot_entry es k ts)"
proof -
  have "snapshot_entry es' k ts = snapshot_entry (e # es) k ts" by (rule snapshot_set_cong) (use assms in auto)
  also have "\<dots> = (if k = e_key e \<and> e_version e \<le> ts then Some e else snapshot_entry es k ts)"
  proof (cases "k = e_key e \<and> e_version e \<le> ts")
    case True
    then have "foldl better (Some e) (filter (\<lambda>f. e_key f = k \<and> e_version f \<le> ts) es) = Some e"
      using assms(3) by (intro foldl_better_keep) auto
    then show ?thesis using True by (simp add: snapshot_entry_def best_of_Cons)
  qed (auto simp: snapshot_entry_def)
  finally show ?thesis .
qed

section \<open>A new version in the memtable\<close>

lemma eng_inv_cong:
  assumes "g_memTable g1 = g_memTable g" "g_immMemTable g1 = g_immMemTable g" "g_flushChan g1 = g_flushChan g"
    "g_lsm g1 = g_lsm g" "g_vl g1 = g_vl g" "g_oracle g1 = g_oracle g"
  shows "eng_inv x cinv view content g1 = eng_inv x cinv view content g" "versionsOf content g1 = versionsOf content g"
    "answer x content g1 = answer x content g"
proof -
  have l: "layers content g1 = layers content g" "versionsOf content g1 = versionsOf content g" "immTables g1 = immTables g"
    using layers_cong [of g1 g] assms by simp_all
  then show "versionsOf content g1 = versionsOf content g" by simp
  show "eng_inv x cinv view content g1 = eng_inv x cinv view content g"
    using l assms flushBase_cong [of g1 g] by (simp add: eng_inv_def flush_ok_def)
  show "answer x content g1 = answer x content g" using l assms by (intro answer_cong) simp_all
qed

lemma trackExpiry_fields [simp]:
  "g_memTable (trackExpiry k e g) = g_memTable g" "g_immMemTable (trackExpiry k e g) = g_immMemTable g"
  "g_flushChan (trackExpiry k e g) = g_flushChan g" "g_lsm (trackExpiry k e g) = g_lsm g" "g_vl (trackExpiry k e g) = g_vl g"
  "g_oracle (trackExpiry k e g) = g_oracle g" "g_wal (trackExpiry k e g) = g_wal g" "g_diskFull (trackExpiry k e g) = g_diskFull g"
  "g_threshold (trackExpiry k e g) = g_threshold g" "g_oldWals (trackExpiry k e g) = g_oldWals g"
  by (simp_all add: trackExpiry_def)

text \<open>The version is above every other one of its key, or it is already there.\<close>

definition fresh_version :: "(sstable \<Rightarrow> entry list) \<Rightarrow> 'c engine \<Rightarrow> entry \<Rightarrow> bool" where
  "fresh_version content g e \<longleftrightarrow> CurrentVersion (g_memTable g) \<le> e_version e \<and>
     ((\<forall>f \<in> set (versionsOf content g). e_key f = e_key e \<longrightarrow> e_version f < e_version e) \<or> e \<in> set (sl_entries (g_memTable g)))"

lemma mem_insert_inv:
  assumes inv: "eng_inv x cinv view content g" and m: "sl_wf m" "sl_entries m = mt_insert (sl_entries (g_memTable g)) e"
      "CurrentVersion m = max (e_version e) (CurrentVersion (g_memTable g))"
    and val: "vals_ok (gx_aes x) (g_vl g) (rawValues (e # versionsOf content g))"
    and new: "fresh_version content g e" and ts: "unat (e_version e) \<le> o_nextTs (g_oracle g)"
  shows "eng_inv x cinv view content (g\<lparr>g_memTable := m\<rparr>)"
    "set (versionsOf content (g\<lparr>g_memTable := m\<rparr>)) = insert e (set (versionsOf content g))"
proof -
  let ?g = "g\<lparr>g_memTable := m\<rparr>"
  let ?rest = "map sl_entries (immTables g) @ tableLayers content (g_lsm g)"
  have l: "layers content g = sl_entries (g_memTable g) # ?rest" "layers content ?g = mt_insert (sl_entries (g_memTable g)) e # ?rest"
    by (simp_all add: layers_def m(2) immTables_def)
  show vs: "set (versionsOf content ?g) = insert e (set (versionsOf content g))" by (simp add: versionsOf_def l)
  have rc: "recency (layers content g)" using inv by (simp add: eng_inv_def)
  have older: "e_version f < e_version e" if "ys \<in> set ?rest" "f \<in> set ys" "e_key f = e_key e" for ys f
    using new [unfolded fresh_version_def, THEN conjunct2]
  proof
    assume "\<forall>f \<in> set (versionsOf content g). e_key f = e_key e \<longrightarrow> e_version f < e_version e"
    then show ?thesis using that by (auto simp: versionsOf_def l)
  next
    assume "e \<in> set (sl_entries (g_memTable g))"
    moreover have "newer (sl_entries (g_memTable g)) ys" using rc that(1) unfolding l(1) recency_def by auto
    ultimately show ?thesis using that(2,3) unfolding newer_def by metis
  qed
  have "newer (mt_insert (sl_entries (g_memTable g)) e) ys" if "ys \<in> set ?rest" for ys
    using rc that older [OF that] unfolding l(1) recency_def newer_def by auto
  then have rc': "recency (layers content ?g)" using rc unfolding l recency_def by auto
  have cons: "consistent (mt_insert (sl_entries (g_memTable g)) e)"
  proof -
    have c: "consistent (sl_entries (g_memTable g))" using inv by (simp add: eng_inv_def)
    have "f = e" if "f \<in> set (sl_entries (g_memTable g))" "e_key f = e_key e" "e_version f = e_version e" for f
    proof -
      have "f \<in> set (versionsOf content g)" using that(1) by (simp add: versionsOf_def l(1))
      then have "e \<in> set (sl_entries (g_memTable g))" using new that(2,3) unfolding fresh_version_def by (metis less_irrefl)
      then show ?thesis using consistentD [OF c that(1)] that(2,3) by blast
    qed
    then have "a = b" if "a \<in> insert e (set (sl_entries (g_memTable g)))" "b \<in> insert e (set (sl_entries (g_memTable g)))"
        "e_key a = e_key b" "e_version a = e_version b" for a b
      using that consistentD [OF c, of a b] by (metis insertE)
    then show ?thesis by (simp add: consistent_def inj_on_def)
  qed
  have "rawValues (versionsOf content ?g) = rawValues (e # versionsOf content g)" using vs by (simp add: rawValues_def)
  moreover have "immTables ?g = immTables g" by (simp add: immTables_def)
  moreover have "unat (CurrentVersion m) \<le> o_nextTs (g_oracle g)" using ts inv by (simp add: eng_inv_def m(3) max_def)
  moreover have "\<forall>f \<in> set (versionsOf content ?g). e_version f \<le> CurrentVersion m"
    using inv unfolding vs eng_inv_def m(3) by (auto simp: le_max_iff_disj)
  ultimately show "eng_inv x cinv view content ?g"
    using inv m(1,2) cons rc' val flushBase_cong [of ?g g] by (simp add: eng_inv_def flush_ok_def)
qed

section \<open>Logging\<close>

text \<open>Steps that leave the versions alone and keep the values \<open>vs\<close>.\<close>

definition calm :: "'c gctx \<Rightarrow> bytes set \<Rightarrow> 'c engine \<Rightarrow> 'c engine \<Rightarrow> bool" where
  "calm x vs g g1 \<longleftrightarrow> g_memTable g1 = g_memTable g \<and> g_immMemTable g1 = g_immMemTable g \<and> g_flushChan g1 = g_flushChan g \<and>
     g_lsm g1 = g_lsm g \<and> g_oracle g1 = g_oracle g \<and> g_diskFull g1 = g_diskFull g \<and> keeps_vals (gx_aes x) vs (g_vl g) (g_vl g1)"

lemma calm_trans: "calm x vs g g1 \<Longrightarrow> calm x vs g1 g2 \<Longrightarrow> calm x vs g g2"
  by (auto simp: calm_def intro: keeps_trans)

lemma calm_subset: "calm x vs g g1 \<Longrightarrow> us \<subseteq> vs \<Longrightarrow> calm x us g g1"
  by (auto simp: calm_def intro: keeps_subset)

lemma calm_vals: "calm x vs g g1 \<Longrightarrow> vals_ok (gx_aes x) (g_vl g1) vs"
  by (simp add: calm_def keeps_vals_def)

lemma calm_resolved: "calm x vs g g1 \<Longrightarrow> v \<in> vs \<Longrightarrow> resolved (gx_aes x) (g_vl g1) v = resolved (gx_aes x) (g_vl g) v"
  by (simp add: calm_def keeps_vals_def)

lemma calm_inv:
  assumes inv: "eng_inv x cinv view content g" and c: "calm x vs g g1" "rawValues (versionsOf content g) \<subseteq> vs"
  shows "eng_inv x cinv view content g1" "versionsOf content g1 = versionsOf content g" "answer x content g1 = answer x content g"
proof -
  have f: "g_memTable g1 = g_memTable g" "g_immMemTable g1 = g_immMemTable g" "g_flushChan g1 = g_flushChan g" "g_lsm g1 = g_lsm g"
    "g_oracle g1 = g_oracle g" using c(1) by (simp_all add: calm_def)
  have l: "layers content g1 = layers content g" "versionsOf content g1 = versionsOf content g" "immTables g1 = immTables g"
    using layers_cong [of g1 g] f by simp_all
  show "versionsOf content g1 = versionsOf content g" by (rule l)
  show "eng_inv x cinv view content g1"
    using inv f l calm_vals [OF calm_subset [OF c]] flushBase_cong [of g1 g] by (simp add: eng_inv_def flush_ok_def)
  show "answer x content g1 = answer x content g"
    by (rule answer_cong [OF l(2)]) (use c calm_resolved in blast)
qed

lemma walWrite_calm:
  assumes "vals_ok (gx_aes x) (g_vl g) vs" "walWrite x op k v e s g = (r, g1)"
  shows "calm x vs g g1" "vl_nextFid (g_vl g1) = vl_nextFid (g_vl g)"
  using assms VSync_keeps [OF assms(1)] keeps_refl [OF assms(1)]
  by (auto simp: walWrite_def calm_def Let_def VSync_def setSeg_def split: prod.splits if_splits option.splits)

lemma recordValueSize_calm:
  "vals_ok (gx_aes x) (g_vl g) vs \<Longrightarrow> calm x vs g (recordValueSize n g)" "g_vl (recordValueSize n g) = g_vl g"
  by (simp_all add: recordValueSize_def calm_def keeps_refl)

text \<open>Segment numbers that are left.\<close>

definition fids_left :: "nat \<Rightarrow> 'c engine \<Rightarrow> bool" where
  "fids_left n g \<longleftrightarrow> unat (vl_nextFid (g_vl g)) + n < 2 ^ 32 - 1"

lemma fids_left_next: "fids_left (Suc n) g \<Longrightarrow> vl_nextFid (g_vl g) \<noteq> - 1"
  by (auto simp: fids_left_def unsigned_minus_1_eq_mask mask_eq_exp_minus_1)

lemma VWrite_nextFid:
  assumes "VWrite E iv e vl = (r, vl')" "vl_nextFid vl \<noteq> - 1"
  shows "unat (vl_nextFid vl') \<le> Suc (unat (vl_nextFid vl))"
proof -
  have "vl_nextFid vl' \<in> {vl_nextFid vl, vl_nextFid vl + 1}"
    using assms(1)
    by (auto simp: VWrite_def rotateLocked_def appendActive_def setSeg_def Let_def split: option.splits if_splits prod.splits sum.splits)
  moreover have "unat (vl_nextFid vl + 1) = Suc (unat (vl_nextFid vl))"
    using assms(2) by (metis add.commute add_eq_0_iff unatSuc)
  ultimately show ?thesis by auto
qed

lemma vlogWrite_calm:
  assumes "vals_ok (gx_aes x) (g_vl g) vs" "length k < 2 ^ 32" "length v < 2 ^ 32" "fids_left (Suc n) g" "\<forall>f. length (gx_iv x f) = 16"
  obtains vp g1 where "vlogWrite x k v e g = (Inr vp, g1)" "calm x vs g g1" "vals_ok (gx_aes x) (g_vl g1) (insert (encodeValuePointer vp) vs)"
    "resolved (gx_aes x) (g_vl g1) (encodeValuePointer vp) = v" "fids_left n g1"
proof -
  let ?e = "\<lparr>ve_op = OpPut, ve_key = k, ve_value = v, ve_expiresAt = e\<rparr>"
  have ok: "entry_ok ?e" using assms(2,3) by (simp add: entry_ok_def)
  obtain vp vl where w: "VWrite (gx_aes x) (gx_iv x) ?e (g_vl g) = (Inr vp, vl)" "keeps_vals (gx_aes x) vs (g_vl g) vl"
    "vals_ok (gx_aes x) vl (insert (encodeValuePointer vp) vs)" "resolved (gx_aes x) vl (encodeValuePointer vp) = v"
    using VWrite_keeps [OF assms(1) ok fids_left_next [OF assms(4)] assms(5)] by (metis ValueEntry.select_convs(3))
  have "fids_left n (g\<lparr>g_vl := vl\<rparr>)"
    using VWrite_nextFid [OF w(1) fids_left_next [OF assms(4)]] assms(4) by (simp add: fids_left_def)
  then show thesis using that [of vp "g\<lparr>g_vl := vl\<rparr>"] w by (simp add: vlogWrite_def calm_def)
qed

section \<open>Applying what was logged\<close>

fun result_entry :: "nat \<Rightarrow> batchResult \<Rightarrow> entry" where
  "result_entry seq (BatchDeleted k) = mt_entry k [] True 0 (of_nat seq)"
| "result_entry seq (BatchPointer k vp exp) = mt_entry k (encodeValuePointer vp) False exp (of_nat seq)"
| "result_entry seq (BatchInline k v exp) = mt_entry k (encodeInlineValue v) False exp (of_nat seq)"

lemma mt_entry_fields [simp]:
  "e_key (mt_entry k v d x ver) = k" "e_value (mt_entry k v d x ver) = v" "e_deleted (mt_entry k v d x ver) = d"
  "e_expiresAt (mt_entry k v d x ver) = x" "e_version (mt_entry k v d x ver) = ver"
  by (simp_all add: mt_entry_def)

lemma result_version [simp]: "e_version (result_entry seq r) = of_nat seq"
  by (cases r) simp_all

text \<open>A timestamp a write may carry: assigned by the oracle, and not zero as a 64-bit number.\<close>

definition seq_ok :: "nat \<Rightarrow> 'c engine \<Rightarrow> bool" where
  "seq_ok seq g \<longleftrightarrow> 0 < seq \<and> seq < 2 ^ 64 \<and> seq \<le> o_nextTs (g_oracle g)"

lemma seq_ok_word: "seq_ok seq g \<Longrightarrow> (of_nat seq :: u64) \<noteq> 0 \<and> unat (of_nat seq :: u64) = seq"
proof -
  assume s: "seq_ok seq g"
  then have "unat (of_nat seq :: u64) = seq" by (intro unat_of_nat_small) (simp add: seq_ok_def)
  then show ?thesis using s by (metis less_irrefl seq_ok_def unsigned_0)
qed

definition same_but_mem :: "'c engine \<Rightarrow> 'c engine \<Rightarrow> bool" where
  "same_but_mem g g1 \<longleftrightarrow> g_immMemTable g1 = g_immMemTable g \<and> g_flushChan g1 = g_flushChan g \<and> g_lsm g1 = g_lsm g \<and>
     g_oracle g1 = g_oracle g \<and> g_diskFull g1 = g_diskFull g \<and> g_vl g1 = g_vl g \<and> g_wal g1 = g_wal g"

lemma applyResult_ok:
  assumes inv: "eng_inv x cinv view content g" and val: "vals_ok (gx_aes x) (g_vl g) (rawValues (result_entry seq r # versionsOf content g))"
    and new: "fresh_version content g (result_entry seq r)" and seq: "seq_ok seq g"
  obtains g1 where "applyResult seq r g = Some g1" "eng_inv x cinv view content g1" "same_but_mem g g1"
    "set (versionsOf content g1) = insert (result_entry seq r) (set (versionsOf content g))"
    "set (sl_entries (g_memTable g1)) = insert (result_entry seq r) (set (sl_entries (g_memTable g)))"
    "CurrentVersion (g_memTable g1) = of_nat seq"
proof -
  let ?e = "result_entry seq r"
  have wf: "sl_wf (g_memTable g)" using inv by (simp add: eng_inv_def)
  obtain m k exp where m: "applyResult seq r g = Some (trackExpiry k exp (g\<lparr>g_memTable := m\<rparr>))" "sl_wf m"
    "sl_entries m = mt_insert (sl_entries (g_memTable g)) ?e" "CurrentVersion m = max (of_nat seq) (CurrentVersion (g_memTable g))"
  proof (cases r)
    case (BatchDeleted k)
    then show thesis using that seq_ok_word [OF seq]
      by (rule_tac DeleteVersion_spec [OF wf, of k "of_nat seq"]) (auto simp: memDelete_def CurrentVersion_def)
  next
    case (BatchPointer k vp exp)
    then show thesis using that seq_ok_word [OF seq]
      by (rule_tac PutVersion_spec [OF wf, of k "encodeValuePointer vp" exp "of_nat seq"]) (auto simp: memPut_def CurrentVersion_def)
  next
    case (BatchInline k v exp)
    then show thesis using that seq_ok_word [OF seq]
      by (rule_tac PutVersion_spec [OF wf, of k "encodeInlineValue v" exp "of_nat seq"]) (auto simp: memPut_def CurrentVersion_def)
  qed
  have "unat (e_version ?e) \<le> o_nextTs (g_oracle g)" using seq_ok_word [OF seq] seq by (simp add: seq_ok_def)
  note mi = mem_insert_inv [OF inv m(2,3) _ val new this]
  let ?g1 = "trackExpiry k exp (g\<lparr>g_memTable := m\<rparr>)"
  have cg: "eng_inv x cinv view content ?g1 = eng_inv x cinv view content (g\<lparr>g_memTable := m\<rparr>)"
    "versionsOf content ?g1 = versionsOf content (g\<lparr>g_memTable := m\<rparr>)"
    by (rule eng_inv_cong; simp)+
  show thesis
    by (rule that [OF m(1)]) (use mi m(3,4) new in \<open>simp_all add: cg same_but_mem_def fresh_version_def max_absorb1\<close>)
qed

definition results_agree :: "nat \<Rightarrow> batchResult list \<Rightarrow> bool" where
  "results_agree seq rs \<longleftrightarrow> (\<forall>r \<in> set rs. \<forall>s \<in> set rs. e_key (result_entry seq r) = e_key (result_entry seq s) \<longrightarrow> result_entry seq r = result_entry seq s)"

lemma same_but_mem_trans: "same_but_mem g g1 \<Longrightarrow> same_but_mem g1 g2 \<Longrightarrow> same_but_mem g g2"
  by (simp add: same_but_mem_def)

lemma applyResults_ok:
  assumes "eng_inv x cinv view content g" "vals_ok (gx_aes x) (g_vl g) (rawValues (map (result_entry seq) rs @ versionsOf content g))"
    "\<forall>r \<in> set rs. fresh_version content g (result_entry seq r)" "seq_ok seq g" "results_agree seq rs"
  obtains g1 where "applyResults seq rs g = Some g1" "eng_inv x cinv view content g1" "same_but_mem g g1"
    "set (versionsOf content g1) = result_entry seq ` set rs \<union> set (versionsOf content g)"
  using assms
proof (induction rs arbitrary: g thesis)
  case Nil
  then show ?case by (simp add: same_but_mem_def)
next
  case (Cons r rs)
  have "vals_ok (gx_aes x) (g_vl g) (rawValues (result_entry seq r # versionsOf content g))"
    by (rule vals_ok_subset [OF Cons.prems(3)]) (auto simp: rawValues_def)
  then obtain g1 where g1: "applyResult seq r g = Some g1" "eng_inv x cinv view content g1" "same_but_mem g g1"
    "set (versionsOf content g1) = insert (result_entry seq r) (set (versionsOf content g))"
    "set (sl_entries (g_memTable g1)) = insert (result_entry seq r) (set (sl_entries (g_memTable g)))"
    "CurrentVersion (g_memTable g1) = of_nat seq"
    using applyResult_ok [OF Cons.prems(2)] Cons.prems(4,5) by (metis list.set_intros(1))
  have v1: "vals_ok (gx_aes x) (g_vl g1) (rawValues (map (result_entry seq) rs @ versionsOf content g1))"
    using vals_ok_subset [OF Cons.prems(3)] g1(3,4) by (simp add: rawValues_def same_but_mem_def)
  have fr: "fresh_version content g1 (result_entry seq s)" if s: "s \<in> set rs" for s
  proof (cases "e_key (result_entry seq s) = e_key (result_entry seq r)")
    case True
    then have "result_entry seq s = result_entry seq r" using Cons.prems(6) s by (simp add: results_agree_def)
    then show ?thesis using g1(5,6) by (simp add: fresh_version_def)
  next
    case False
    then show ?thesis using Cons.prems(4) s g1(4-6) by (auto simp: fresh_version_def)
  qed
  have "seq_ok seq g1" "results_agree seq rs" using Cons.prems(5,6) g1(3) by (simp_all add: seq_ok_def same_but_mem_def results_agree_def)
  then obtain g2 where g2: "applyResults seq rs g1 = Some g2" "eng_inv x cinv view content g2" "same_but_mem g1 g2"
    "set (versionsOf content g2) = result_entry seq ` set rs \<union> set (versionsOf content g1)"
    using Cons.IH [OF _ g1(2) v1] fr by blast
  show ?case by (rule Cons.prems(1) [of g2]) (use g1 g2 same_but_mem_trans [OF g1(3) g2(3)] in auto)
qed

section \<open>Batches\<close>

text \<open>A logged entry and the result it left: key, deletion, expiry, and the value the stored value resolves to.\<close>

definition logged :: "(bytes \<Rightarrow> bytes \<Rightarrow> bytes) \<Rightarrow> vlog \<Rightarrow> nat \<Rightarrow> batchEntry \<Rightarrow> batchResult \<Rightarrow> bool" where
  "logged E vl seq b r \<longleftrightarrow> (let e = result_entry seq r
     in e_key e = be_key b \<and> e_deleted e = be_deleted b \<and>
        (if be_deleted b then e = mt_entry (be_key b) [] True 0 (of_nat seq)
         else e_expiresAt e = be_expiresAt b \<and> resolved E vl (e_value e) = be_value b))"

definition small_batch :: "batchEntry list \<Rightarrow> bool" where
  "small_batch bs \<longleftrightarrow> (\<forall>b \<in> set bs. length (be_key b) < 2 ^ 32 \<and> length (be_value b) < 2 ^ 32)"

lemma logged_keeps:
  "logged E vl seq b r \<Longrightarrow> (\<And>v. v \<in> rawValues [result_entry seq r] \<Longrightarrow> resolved E vl1 v = resolved E vl v) \<Longrightarrow> logged E vl1 seq b r"
  by (auto simp: logged_def Let_def rawValues_def split: if_splits)

text \<open>One turn of the logging loop.\<close>

definition logStep :: "'c gctx \<Rightarrow> int \<Rightarrow> nat \<Rightarrow> batchEntry \<Rightarrow> 'c engine \<Rightarrow> (engine_error + batchResult) \<times> 'c engine" where
  "logStep x threshold seq b g =
     (case logBatch x threshold seq [b] g of (Inl e, g1) \<Rightarrow> (Inl e, g1) | (Inr rs, g1) \<Rightarrow> (Inr (hd rs), g1))"

lemma logBatch_Cons:
  "logBatch x threshold seq (b # bs) g =
     (case logStep x threshold seq b g of
        (Inl e, g1) \<Rightarrow> (Inl e, g1)
      | (Inr r, g1) \<Rightarrow> (case logBatch x threshold seq bs g1 of (Inl e, g2) \<Rightarrow> (Inl e, g2) | (Inr rs, g2) \<Rightarrow> (Inr (r # rs), g2)))"
  by (simp add: logStep_def Let_def split: prod.split sum.split)

lemma logStep_ok:
  assumes vs: "vals_ok (gx_aes x) (g_vl g) vs" and b: "small_batch [b]" and f: "fids_left (Suc n) g" and iv: "\<forall>f. length (gx_iv x f) = 16"
  obtains r g1 where "logStep x threshold seq b g = (r, g1)" "calm x vs g g1" "fids_left n g1"
    "\<And>q. r = Inr q \<Longrightarrow> logged (gx_aes x) (g_vl g1) seq b q \<and> vals_ok (gx_aes x) (g_vl g1) (rawValues [result_entry seq q] \<union> vs)"
proof (cases "be_deleted b")
  case True
  obtain r g1 where w: "walWrite x OpDelete (be_key b) [] 0 seq g = (r, g1)" by fastforce
  note c = walWrite_calm [OF vs w]
  show thesis
    by (rule that [of "case r of Some e \<Rightarrow> Inl e | None \<Rightarrow> Inr (BatchDeleted (be_key b))" g1])
      (use True w c f calm_vals [OF c(1)] in \<open>auto simp: logStep_def Let_def logged_def fids_left_def rawValues_def split: option.splits\<close>)
next
  case live: False
  let ?g = "recordValueSize (length (be_value b)) g"
  have c0: "vals_ok (gx_aes x) (g_vl g) vs \<Longrightarrow> calm x vs g ?g" "g_vl ?g = g_vl g" by (simp_all add: recordValueSize_calm)
  have vs0: "vals_ok (gx_aes x) (g_vl ?g) vs" using c0 vs by simp
  show thesis
  proof (cases "int (length (be_value b)) < threshold")
    case True
    obtain r g1 where w: "walWrite x OpPut (be_key b) (be_value b) (be_expiresAt b) seq ?g = (r, g1)" by fastforce
    note c = walWrite_calm [OF vs0 w]
    show thesis
      by (rule that [of "case r of Some e \<Rightarrow> Inl e | None \<Rightarrow> Inr (BatchInline (be_key b) (be_value b) (be_expiresAt b))" g1])
        (use live True w c f c0 vs calm_trans [OF c0(1) [OF vs] c(1)] calm_vals [OF c(1)] vals_ok_inline in
          \<open>auto simp: logStep_def Let_def logged_def fids_left_def rawValues_def split: option.splits\<close>)
  next
    case False
    have f0: "fids_left (Suc n) ?g" using f by (simp add: fids_left_def c0(2))
    have k: "length (be_key b) < 2 ^ 32" "length (be_value b) < 2 ^ 32" using b by (simp_all add: small_batch_def)
    obtain vp g1 where w: "vlogWrite x (be_key b) (be_value b) (be_expiresAt b) ?g = (Inr vp, g1)" "calm x vs ?g g1"
      "vals_ok (gx_aes x) (g_vl g1) (insert (encodeValuePointer vp) vs)"
      "resolved (gx_aes x) (g_vl g1) (encodeValuePointer vp) = be_value b" "fids_left n g1"
      using vlogWrite_calm [OF vs0 k f0 iv] by blast
    obtain r g2 where w2: "walWrite x OpPut (be_key b) (encodeWalValuePointer vp) (be_expiresAt b) seq g1 = (r, g2)" by fastforce
    note c2 = walWrite_calm [OF w(3) w2]
    have c: "calm x vs g g2" by (meson c0(1) [OF vs] w(2) c2(1) calm_trans calm_subset subset_insertI)
    show thesis
      by (rule that [of "Inr (BatchPointer (be_key b) vp (be_expiresAt b))" g2])
        (use live False w w2 c c2 calm_resolved [OF c2(1), of "encodeValuePointer vp"] calm_vals [OF c2(1)] in
          \<open>auto simp: logStep_def Let_def logged_def fids_left_def rawValues_def\<close>)
  qed
qed

lemma logBatch_ok:
  assumes "vals_ok (gx_aes x) (g_vl g) vs" "small_batch bs" "fids_left (length bs + n) g" "\<forall>f. length (gx_iv x f) = 16"
  obtains r g1 where "logBatch x threshold seq bs g = (r, g1)" "calm x vs g g1" "fids_left n g1"
    "\<And>rs. r = Inr rs \<Longrightarrow> list_all2 (logged (gx_aes x) (g_vl g1) seq) bs rs \<and> vals_ok (gx_aes x) (g_vl g1) (rawValues (map (result_entry seq) rs) \<union> vs)"
  using assms
proof (induction bs arbitrary: g vs thesis)
  case Nil
  then show ?case by (auto simp: calm_def keeps_refl rawValues_def)
next
  case (Cons b bs)
  have sm: "small_batch [b]" "small_batch bs" "fids_left (Suc (length bs + n)) g" using Cons.prems(3,4) by (auto simp: small_batch_def)
  obtain r g1 where s: "logStep x threshold seq b g = (r, g1)" "calm x vs g g1" "fids_left (length bs + n) g1"
    "\<And>q. r = Inr q \<Longrightarrow> logged (gx_aes x) (g_vl g1) seq b q \<and> vals_ok (gx_aes x) (g_vl g1) (rawValues [result_entry seq q] \<union> vs)"
    using logStep_ok [OF Cons.prems(2) sm(1,3) Cons.prems(5)] by blast
  show ?case
  proof (cases r)
    case (Inl e)
    then show ?thesis using Cons.prems(1) [of "Inl e" g1] s by (simp add: logBatch_Cons fids_left_def del: logBatch.simps)
  next
    case (Inr q)
    let ?vs = "rawValues [result_entry seq q] \<union> vs"
    obtain r2 g2 where t: "logBatch x threshold seq bs g1 = (r2, g2)" "calm x ?vs g1 g2" and fn: "fids_left n g2" and t3:
      "\<And>rs. r2 = Inr rs \<Longrightarrow> list_all2 (logged (gx_aes x) (g_vl g2) seq) bs rs \<and>
         vals_ok (gx_aes x) (g_vl g2) (rawValues (map (result_entry seq) rs) \<union> ?vs)"
      using Cons.IH [OF _ _ sm(2) s(3) Cons.prems(5)] s(4) [OF Inr] by blast
    have lg: "logged (gx_aes x) (g_vl g2) seq b q"
      using logged_keeps [of "gx_aes x" "g_vl g1" seq b q "g_vl g2"] s(4) [OF Inr] calm_resolved [OF t(2)] by blast
    have c: "calm x vs g g2" using calm_trans [OF s(2) calm_subset [OF t(2)]] by blast
    have un: "rawValues (map (result_entry seq) (q # rs)) \<union> vs = rawValues (map (result_entry seq) rs) \<union> ?vs" for rs
      by (auto simp: rawValues_def)
    show ?thesis
      by (rule Cons.prems(1) [of "case r2 of Inl e \<Rightarrow> Inl e | Inr rs \<Rightarrow> Inr (q # rs)" g2])
        (use Inr s(1) t(1) t3 fn c lg un in \<open>auto simp: logBatch_Cons simp del: logBatch.simps split: sum.splits\<close>)
  qed
qed

text \<open>What a batch says of a key: nothing, that it is gone, or its value and expiry.\<close>

definition batchSays :: "batchEntry list \<Rightarrow> i64 \<Rightarrow> bytes \<Rightarrow> (bytes \<times> i64) option option" where
  "batchSays bs now k =
     map_option (\<lambda>b. if be_deleted b \<or> expired now (be_expiresAt b) then None else Some (be_value b, be_expiresAt b))
       (find (\<lambda>b. be_key b = k) bs)"

text \<open>Entries of one batch for the same key are deletions.\<close>

fun batch_agree :: "batchEntry list \<Rightarrow> bool" where
  "batch_agree [] = True"
| "batch_agree (b # bs) = ((\<forall>c \<in> set bs. be_key c = be_key b \<longrightarrow> be_deleted b \<and> be_deleted c) \<and> batch_agree bs)"

lemma batch_agree_results:
  "list_all2 (logged E vl seq) bs rs \<Longrightarrow> batch_agree bs \<Longrightarrow> results_agree seq rs"
proof (induction rule: list_all2_induct)
  case (Cons b bs r rs)
  have "result_entry seq s = result_entry seq r" if s: "s \<in> set rs" and k: "e_key (result_entry seq s) = e_key (result_entry seq r)" for s
  proof -
    obtain c where c: "c \<in> set bs" "logged E vl seq c s" using s Cons.hyps(2) by (metis in_set_conv_nth list_all2_conv_all_nth)
    have "be_key c = be_key b" using c(2) Cons.hyps(1) k by (simp add: logged_def Let_def)
    then have "be_deleted b" "be_deleted c" using Cons.prems c(1) by auto
    then show ?thesis using c(2) Cons.hyps(1) \<open>be_key c = be_key b\<close> by (simp add: logged_def Let_def)
  qed
  then show ?case using Cons by (auto simp: results_agree_def)
qed (simp add: results_agree_def)

lemma snapshot_same_version:
  assumes "\<forall>e \<in> set ns. e_version e = v"
  shows "snapshot_entry ns k ts = (if v \<le> ts then find (\<lambda>e. e_key e = k) ns else None)"
proof -
  have "newest_first ns" using assms by (induction ns) (auto simp: newest_first_def)
  from best_of_find [OF this] have "snapshot_entry ns k ts = find (\<lambda>e. e_key e = k \<and> e_version e \<le> ts) ns" by (simp add: snapshot_entry_def)
  also have "\<dots> = (if v \<le> ts then find (\<lambda>e. e_key e = k) ns else None)" using assms by (induction ns) auto
  finally show ?thesis .
qed

lemma snapshot_union:
  assumes "set es' = set ns \<union> set es" "consistent es'" "\<forall>e \<in> set ns. e_version e = v" "\<forall>f \<in> set es. e_version f \<le> v"
  shows "snapshot_entry es' k ts =
    (case (if v \<le> ts then find (\<lambda>e. e_key e = k) ns else None) of None \<Rightarrow> snapshot_entry es k ts | Some e \<Rightarrow> Some e)"
proof -
  have "snapshot_entry es' k ts = snapshot_entry (ns @ es) k ts" by (rule snapshot_set_cong) (use assms in auto)
  also have "\<dots> = (case snapshot_entry ns k ts of None \<Rightarrow> snapshot_entry es k ts | Some e \<Rightarrow> Some e)"
    by (rule snapshot_append) (use assms(3,4) in auto)
  finally show ?thesis by (simp add: snapshot_same_version [OF assms(3)])
qed

lemma find_logged:
  "list_all2 (logged E vl seq) bs rs \<Longrightarrow>
   rel_option (\<lambda>b e. \<exists>r. e = result_entry seq r \<and> logged E vl seq b r) (find (\<lambda>b. be_key b = k) bs) (find (\<lambda>e. e_key e = k) (map (result_entry seq) rs))"
proof (induction rule: list_all2_induct)
  case (Cons b bs r rs)
  have "e_key (result_entry seq r) = be_key b" using Cons.hyps(1) by (simp add: logged_def Let_def)
  then show ?case using Cons by auto
qed simp

lemma batch_answer:
  assumes inv: "eng_inv x cinv view content g" and inv2: "eng_inv x cinv view content g2"
    and lg: "list_all2 (logged (gx_aes x) (g_vl g2) seq) bs rs"
    and vs: "set (versionsOf content g2) = result_entry seq ` set rs \<union> set (versionsOf content g)"
    and cv: "CurrentVersion (g_memTable g) \<le> of_nat seq"
    and same: "\<And>v. v \<in> rawValues (versionsOf content g) \<Longrightarrow> resolved (gx_aes x) (g_vl g2) v = resolved (gx_aes x) (g_vl g) v"
  shows "answer x content g2 now k ts =
    (if of_nat seq \<le> ts then case batchSays bs now k of None \<Rightarrow> answer x content g now k ts | Some a \<Rightarrow> a else answer x content g now k ts)"
proof -
  let ?ns = "map (result_entry seq) rs"
  have le: "\<forall>f \<in> set (versionsOf content g). e_version f \<le> of_nat seq" using inv cv by (auto simp: eng_inv_def)
  have sn: "snapshot_entry (versionsOf content g2) k ts = (case (if of_nat seq \<le> ts then find (\<lambda>e. e_key e = k) ?ns else None) of
      None \<Rightarrow> snapshot_entry (versionsOf content g) k ts | Some e \<Rightarrow> Some e)"
    by (rule snapshot_union [OF _ eng_inv_consistent [OF inv2]]) (use vs le in auto)
  have old: "map_option (\<lambda>(raw, exp). (resolved (gx_aes x) (g_vl g2) raw, exp)) (reads now (versionsOf content g) k ts) = answer x content g now k ts"
    using same reads_raw [of now "versionsOf content g" k ts] by (cases "reads now (versionsOf content g) k ts") (auto simp: answer_def)
  note fl = find_logged [OF lg, of k]
  show ?thesis
  proof (cases "of_nat seq \<le> ts \<and> find (\<lambda>b. be_key b = k) bs \<noteq> None")
    case True
    then obtain b where b: "find (\<lambda>b. be_key b = k) bs = Some b" by blast
    then obtain r where r: "find (\<lambda>e. e_key e = k) ?ns = Some (result_entry seq r)" "logged (gx_aes x) (g_vl g2) seq b r"
      using fl by (auto simp: option_rel_Some1)
    have "answer x content g2 now k ts = (if be_deleted b \<or> expired now (be_expiresAt b) then None else Some (be_value b, be_expiresAt b))"
      using sn r True by (auto simp: answer_def reads_def logged_def Let_def deadAt_def split: if_splits)
    then show ?thesis using True b by (simp add: batchSays_def)
  next
    case False
    then have "snapshot_entry (versionsOf content g2) k ts = snapshot_entry (versionsOf content g) k ts"
      using sn fl by auto
    then show ?thesis using False old by (auto simp: answer_def reads_def batchSays_def)
  qed
qed

lemma fresh_above:
  assumes "eng_inv x cinv view content g" "CurrentVersion (g_memTable g) < e_version e"
  shows "fresh_version content g e"
  using assms by (auto simp: fresh_version_def eng_inv_def less_imp_le)

lemma rawValues_append [simp]: "rawValues (xs @ ys) = rawValues xs \<union> rawValues ys"
  by (auto simp: rawValues_def)

text \<open>What the second loop makes of logged entries.\<close>

lemma applyLogged_ok:
  assumes inv: "eng_inv x cinv view content g" and c: "calm x (rawValues (versionsOf content g)) g g1"
    and lg: "list_all2 (logged (gx_aes x) (g_vl g1) seq) bs rs"
    and vs: "vals_ok (gx_aes x) (g_vl g1) (rawValues (map (result_entry seq) rs) \<union> rawValues (versionsOf content g))"
    and seq: "seq_ok seq g" "CurrentVersion (g_memTable g) < of_nat seq" and ag: "batch_agree bs"
  obtains g2 where "applyResults seq rs g1 = Some g2" "eng_inv x cinv view content g2" "same_but_mem g1 g2"
    "\<And>now k ts. answer x content g2 now k ts =
       (if of_nat seq \<le> ts then case batchSays bs now k of None \<Rightarrow> answer x content g now k ts | Some a \<Rightarrow> a else answer x content g now k ts)"
proof -
  note ci = calm_inv [OF inv c order_refl]
  have seq1: "seq_ok seq g1" using seq(1) c by (simp add: seq_ok_def calm_def)
  have mem: "g_memTable g1 = g_memTable g" using c by (simp add: calm_def)
  have fr: "\<forall>r \<in> set rs. fresh_version content g1 (result_entry seq r)"
    using fresh_above [OF ci(1)] seq(2) by (simp add: mem)
  obtain g2 where g2: "applyResults seq rs g1 = Some g2" "eng_inv x cinv view content g2" "same_but_mem g1 g2"
    "set (versionsOf content g2) = result_entry seq ` set rs \<union> set (versionsOf content g1)"
    using applyResults_ok [OF ci(1) _ fr seq1 batch_agree_results [OF lg ag]] vs by (auto simp: ci(2))
  have vl: "g_vl g2 = g_vl g1" using g2(3) by (simp add: same_but_mem_def)
  have "answer x content g2 now k ts =
     (if of_nat seq \<le> ts then case batchSays bs now k of None \<Rightarrow> answer x content g now k ts | Some a \<Rightarrow> a else answer x content g now k ts)" for now k ts
    by (rule batch_answer [OF inv g2(2)]) (use lg g2(4) seq(2) calm_resolved [OF c] in \<open>auto simp: vl ci(2)\<close>)
  then show thesis using that g2 by blast
qed

lemma applyBatch_ok:
  assumes inv: "eng_inv x cinv view content g" and iv: "\<forall>f. length (gx_iv x f) = 16"
    and bs: "small_batch bs" "batch_agree bs" "fids_left (length bs + n) g"
    and seq: "seq_ok seq g" "CurrentVersion (g_memTable g) < of_nat seq"
  obtains r g2 where "applyBatch x seq bs g = Some (r, g2)" "eng_inv x cinv view content g2" "fids_left n g2"
    "g_oracle g2 = g_oracle g" "g_lsm g2 = g_lsm g" "g_immMemTable g2 = g_immMemTable g" "g_flushChan g2 = g_flushChan g" "g_diskFull g2 = g_diskFull g"
    "r \<noteq> None \<Longrightarrow> answer x content g2 = answer x content g"
    "r = None \<Longrightarrow> \<forall>now k ts. answer x content g2 now k ts =
       (if of_nat seq \<le> ts then case batchSays bs now k of None \<Rightarrow> answer x content g now k ts | Some a \<Rightarrow> a else answer x content g now k ts)"
proof -
  obtain r g1 where lb: "logBatch x (valueThreshold x g) seq bs g = (r, g1)" and c: "calm x (rawValues (versionsOf content g)) g g1"
    and fn: "fids_left n g1" and rs: "\<And>rs. r = Inr rs \<Longrightarrow> list_all2 (logged (gx_aes x) (g_vl g1) seq) bs rs \<and>
      vals_ok (gx_aes x) (g_vl g1) (rawValues (map (result_entry seq) rs) \<union> rawValues (versionsOf content g))"
    using logBatch_ok [OF eng_inv_vals [OF inv] bs(1,3) iv] by blast
  show thesis
  proof (cases r)
    case (Inl e)
    let ?g2 = "g1\<lparr>g_wal := TruncateTo (w_currentOffset (g_wal g)) (g_wal g1)\<rparr>"
    have cg: "eng_inv x cinv view content ?g2" "answer x content ?g2 = answer x content g"
      using eng_inv_cong [of ?g2 g1] calm_inv [OF inv c order_refl] by simp_all
    show thesis
      by (rule that [of "Some e" ?g2]) (use lb Inl cg c fn in \<open>simp_all add: applyBatch_def calm_def fids_left_def\<close>)
  next
    case (Inr rl)
    obtain g2 where g2: "applyResults seq rl g1 = Some g2" "eng_inv x cinv view content g2" "same_but_mem g1 g2"
      "\<And>now k ts. answer x content g2 now k ts =
         (if of_nat seq \<le> ts then case batchSays bs now k of None \<Rightarrow> answer x content g now k ts | Some a \<Rightarrow> a else answer x content g now k ts)"
      using applyLogged_ok [OF inv c _ _ seq bs(2)] rs [OF Inr] by blast
    show thesis
      by (rule that [of None g2]) (use lb Inr g2 c fn in \<open>simp_all add: applyBatch_def calm_def same_but_mem_def fids_left_def\<close>)
  qed
qed

section \<open>One entry\<close>

text \<open>A single entry is logged and applied as a batch of one, but for the log that an error leaves.\<close>

definition asBatch :: "byte \<Rightarrow> bytes \<Rightarrow> bytes \<Rightarrow> i64 \<Rightarrow> batchEntry" where
  "asBatch op k v e = \<lparr>be_key = k, be_value = v, be_deleted = (op = OpDelete), be_expiresAt = e\<rparr>"

lemma applyEntry_logStep:
  "applyEntry x op k v e seq g =
     (case logStep x (valueThreshold x g) seq (asBatch op k v e) g of
        (Inl err, g1) \<Rightarrow> Some (Some err, g1)
      | (Inr r, g1) \<Rightarrow> map_option (Pair None) (applyResults seq [r] g1))"
proof -
  have one: "applyResults seq [r] g1 = applyResult seq r g1" for r g1 by (cases "applyResult seq r g1") simp_all
  show ?thesis unfolding one by (simp add: applyEntry_def logStep_def asBatch_def Let_def split: prod.split option.split sum.split)
qed

lemma applyEntry_ok:
  assumes inv: "eng_inv x cinv view content g" and iv: "\<forall>f. length (gx_iv x f) = 16"
    and len: "length k < 2 ^ 32" "length v < 2 ^ 32" "fids_left (Suc n) g"
    and seq: "seq_ok seq g" "CurrentVersion (g_memTable g) < of_nat seq"
  obtains r g2 where "applyEntry x op k v e seq g = Some (r, g2)" "eng_inv x cinv view content g2" "fids_left n g2"
    "g_oracle g2 = g_oracle g" "g_lsm g2 = g_lsm g" "g_immMemTable g2 = g_immMemTable g" "g_flushChan g2 = g_flushChan g" "g_diskFull g2 = g_diskFull g"
    "r \<noteq> None \<Longrightarrow> answer x content g2 = answer x content g"
    "r = None \<Longrightarrow> \<forall>now k' ts. answer x content g2 now k' ts =
       (if of_nat seq \<le> ts \<and> k' = k then (if op = OpDelete \<or> expired now e then None else Some (v, e)) else answer x content g now k' ts)"
proof -
  let ?b = "asBatch op k v e"
  have sb: "small_batch [?b]" "batch_agree [?b]" using len by (simp_all add: small_batch_def asBatch_def)
  obtain r g1 where ls: "logStep x (valueThreshold x g) seq ?b g = (r, g1)" "calm x (rawValues (versionsOf content g)) g g1" "fids_left n g1"
    "\<And>q. r = Inr q \<Longrightarrow> logged (gx_aes x) (g_vl g1) seq ?b q \<and>
      vals_ok (gx_aes x) (g_vl g1) (rawValues [result_entry seq q] \<union> rawValues (versionsOf content g))"
    using logStep_ok [OF eng_inv_vals [OF inv] sb(1) len(3) iv] by blast
  show thesis
  proof (cases r)
    case (Inl err)
    show thesis
      by (rule that [of "Some err" g1]) (use ls Inl calm_inv [OF inv ls(2) order_refl] in \<open>simp_all add: applyEntry_logStep calm_def\<close>)
  next
    case (Inr q)
    have lg: "list_all2 (logged (gx_aes x) (g_vl g1) seq) [?b] [q]"
      "vals_ok (gx_aes x) (g_vl g1) (rawValues (map (result_entry seq) [q]) \<union> rawValues (versionsOf content g))"
      using ls(4) [OF Inr] by simp_all
    obtain g2 where g2: "applyResults seq [q] g1 = Some g2" "eng_inv x cinv view content g2" "same_but_mem g1 g2"
      "\<And>now k ts. answer x content g2 now k ts =
         (if of_nat seq \<le> ts then case batchSays [?b] now k of None \<Rightarrow> answer x content g now k ts | Some a \<Rightarrow> a else answer x content g now k ts)"
      using applyLogged_ok [OF inv ls(2) lg seq sb(2)] by blast
    show thesis
      by (rule that [of None g2])
        (use ls Inr g2 in \<open>simp_all add: applyEntry_logStep calm_def same_but_mem_def fids_left_def batchSays_def asBatch_def del: applyResults.simps\<close>)
  qed
qed

end
