(* ===== verification/Engine_Api.thy ===== *)
theory Engine_Api
  imports Engine_Write
begin

text \<open>
  The writer goroutine and the operations that submit requests to it: a round drains the queue, applies the requests in order,
  and rotates a full memtable.  An operation is modelled as a round with its request alone.  The garbage collection of value log
  segments and the expiry sweep are here too, since they submit requests of their own.
\<close>

section \<open>The writer\<close>

fun dispatchAll :: "'c gctx \<Rightarrow> i64 \<Rightarrow> writeReq list \<Rightarrow> 'c engine \<Rightarrow> (incrResult list \<times> 'c engine) option" where
  "dispatchAll x now [] g = Some ([], g)"
| "dispatchAll x now (r # rs) g =
     do { (res, g1) \<leftarrow> dispatch x now r g;
          (ress, g2) \<leftarrow> dispatchAll x now rs g1;
          Some (res # ress, g2) }"

definition syncRequested :: "writeReq list \<Rightarrow> incrResult list \<Rightarrow> bool" where
  "syncRequested batch results \<longleftrightarrow> (\<exists>(r, res) \<in> set (zip batch results). r_syncWAL r \<and> snd res = None)"

text \<open>One round of \<open>writer\<close> on the requests it drained.\<close>

definition writerRound :: "'c gctx \<Rightarrow> i64 \<Rightarrow> writeReq list \<Rightarrow> 'c engine \<Rightarrow> (incrResult list \<times> 'c engine) option" where
  "writerRound x now batch g =
     do { (results, g1) \<leftarrow> dispatchAll x now batch g;
          let (results', g2) =
            (if syncRequested batch results \<and> \<not> w_syncOnWrite (g_wal g1) then
               (case SyncWal (gx_sync x (w_currentOffset (g_wal g1))) (g_wal g1) of
                  (None, w) \<Rightarrow> (results, g1\<lparr>g_wal := w, g_vl := VSync (g_vl g1)\<rparr>)
                | (Some e, w) \<Rightarrow>
                    (map (\<lambda>(r, res). if r_syncWAL r \<and> snd res = None then (fst res, Some (EngWal e)) else res) (zip batch results),
                     g1\<lparr>g_wal := w, g_vl := VSync (g_vl g1)\<rparr>))
             else (results, g1));
          Some (results', flushBackpressure x g2) }"

text \<open>The calls of \<open>OnWrite\<close> after a round.\<close>

definition notifyWrites :: "writeReq list \<Rightarrow> (byte \<times> bytes \<times> bytes \<times> i64) list" where
  "notifyWrites batch =
     concat (map (\<lambda>r.
       (if r_op r = OpPut \<or> r_op r = OpDelete then [(r_op r, r_key r, r_val r, r_expiresAt r)] else []) @
       map (\<lambda>b. (if be_deleted b then OpDelete else OpPut, be_key b, be_value b, be_expiresAt b)) (r_batch r)) batch)"

text \<open>Submitting a request and waiting for its reply.\<close>

definition submit :: "'c gctx \<Rightarrow> i64 \<Rightarrow> writeReq \<Rightarrow> 'c engine \<Rightarrow> (incrResult \<times> 'c engine) option" where
  "submit x now r g = map_option (\<lambda>(results, g1). (hd results, g1)) (writerRound x now [r] g)"

section \<open>Operations on keys\<close>

definition submitBatch :: "'c gctx \<Rightarrow> i64 \<Rightarrow> batchEntry list \<Rightarrow> 'c engine \<Rightarrow> (engine_error option \<times> 'c engine) option" where
  "submitBatch x now entries g =
     map_option (\<lambda>(res, g1). (snd res, g1)) (submit x now ((emptyReq 0 [])\<lparr>r_batch := entries\<rparr>) g)"

definition incPut :: "'c engine \<Rightarrow> 'c engine" where
  "incPut g = g\<lparr>g_stats := (g_stats g)\<lparr>PutsTotal := PutsTotal (g_stats g) + 1\<rparr>\<rparr>"

definition incDel :: "'c engine \<Rightarrow> 'c engine" where
  "incDel g = g\<lparr>g_stats := (g_stats g)\<lparr>DeletesTotal := DeletesTotal (g_stats g) + 1\<rparr>\<rparr>"

text \<open>\<open>server.WriteOptions\<close>.\<close>

record writeOptions =
  SkipWAL :: bool
  SyncOpt :: bool

definition PutExAt :: "'c gctx \<Rightarrow> i64 \<Rightarrow> bytes \<Rightarrow> bytes \<Rightarrow> i64 \<Rightarrow> writeOptions \<Rightarrow> 'c engine \<Rightarrow> (engine_error option \<times> 'c engine) option" where
  "PutExAt x now key val expiresAt opts g =
     do { (res, g1) \<leftarrow> submit x now
            ((emptyReq OpPut key)\<lparr>r_val := val, r_expiresAt := expiresAt, r_skipWAL := SkipWAL opts, r_syncWAL := SyncOpt opts\<rparr>) g;
          Some (case snd res of Some e \<Rightarrow> (Some e, g1) | None \<Rightarrow> (None, incPut g1)) }"

definition PutExWithOptions :: "'c gctx \<Rightarrow> i64 \<Rightarrow> bytes \<Rightarrow> bytes \<Rightarrow> i64 \<Rightarrow> writeOptions \<Rightarrow> 'c engine \<Rightarrow> (engine_error option \<times> 'c engine) option" where
  "PutExWithOptions x now key val ttlSeconds opts g =
     PutExAt x now key val (if 0 < sint ttlSeconds then now + ttlSeconds else 0) opts g"

definition noOptions :: writeOptions where
  "noOptions = \<lparr>SkipWAL = False, SyncOpt = False\<rparr>"

definition PutEx :: "'c gctx \<Rightarrow> i64 \<Rightarrow> bytes \<Rightarrow> bytes \<Rightarrow> i64 \<Rightarrow> 'c engine \<Rightarrow> (engine_error option \<times> 'c engine) option" where
  "PutEx x now key val ttlSeconds g = PutExWithOptions x now key val ttlSeconds noOptions g"

definition EngPut :: "'c gctx \<Rightarrow> i64 \<Rightarrow> bytes \<Rightarrow> bytes \<Rightarrow> 'c engine \<Rightarrow> (engine_error option \<times> 'c engine) option" where
  "EngPut x now key val g = PutEx x now key val 0 g"

definition EngDelete :: "'c gctx \<Rightarrow> i64 \<Rightarrow> bytes \<Rightarrow> 'c engine \<Rightarrow> ((engine_error + bool) \<times> 'c engine) option" where
  "EngDelete x now key g =
     do { (res, g1) \<leftarrow> submit x now ((emptyReq OpDelete key)\<lparr>r_checkExists := True\<rparr>) g;
          Some (case snd res of Some e \<Rightarrow> (Inl e, g1)
            | None \<Rightarrow> if fst res = 0 then (Inr False, g1) else (Inr True, incDel g1)) }"

definition GetDel :: "'c gctx \<Rightarrow> i64 \<Rightarrow> bytes \<Rightarrow> 'c engine \<Rightarrow> ((engine_error + bytes) \<times> 'c engine) option" where
  "GetDel x now key g =
     do { (r, g1) \<leftarrow> getWithoutLock x now key g;
          case r of
            Inl _ \<Rightarrow> Some (Inl EngKeyNotFound, g1)
          | Inr val \<Rightarrow>
              do { (err, g2) \<leftarrow> submitBatch x now [\<lparr>be_key = key, be_value = [], be_deleted = True, be_expiresAt = 0\<rparr>] g1;
                   Some (case err of Some e \<Rightarrow> (Inl e, g2) | None \<Rightarrow> (Inr val, g2)) } }"

definition Expire :: "'c gctx \<Rightarrow> i64 \<Rightarrow> bytes \<Rightarrow> i64 \<Rightarrow> 'c engine \<Rightarrow> (bool \<times> engine_error option \<times> 'c engine) option" where
  "Expire x now key seconds g =
     do { (r, g1) \<leftarrow> EngGet x now key g;
          case r of
            Inl _ \<Rightarrow> Some (False, None, g1)
          | Inr val \<Rightarrow> map_option (\<lambda>(err, g2). (True, err, g2)) (PutEx x now key val seconds g1) }"

definition IncrBy :: "'c gctx \<Rightarrow> i64 \<Rightarrow> bytes \<Rightarrow> i64 \<Rightarrow> 'c engine \<Rightarrow> ((engine_error + i64) \<times> 'c engine) option" where
  "IncrBy x now key delta g =
     do { (res, g1) \<leftarrow> submit x now ((emptyReq opIncr key)\<lparr>r_delta := delta\<rparr>) g;
          Some (case snd res of Some e \<Rightarrow> (Inl e, g1) | None \<Rightarrow> (Inr (fst res), incPut g1)) }"

definition Incr :: "'c gctx \<Rightarrow> i64 \<Rightarrow> bytes \<Rightarrow> 'c engine \<Rightarrow> ((engine_error + i64) \<times> 'c engine) option" where
  "Incr x now key g = IncrBy x now key 1 g"

definition Decr :: "'c gctx \<Rightarrow> i64 \<Rightarrow> bytes \<Rightarrow> 'c engine \<Rightarrow> ((engine_error + i64) \<times> 'c engine) option" where
  "Decr x now key g = IncrBy x now key (- 1) g"

text \<open>\<open>kvs\<close> lists the entries of the map in the order of its iteration.\<close>

definition MSet :: "'c gctx \<Rightarrow> i64 \<Rightarrow> (bytes \<times> bytes) list \<Rightarrow> 'c engine \<Rightarrow> (engine_error option \<times> 'c engine) option" where
  "MSet x now kvs g =
     (if kvs = [] then Some (None, g)
      else submitBatch x now (map (\<lambda>(k, v). \<lparr>be_key = k, be_value = v, be_deleted = False, be_expiresAt = 0\<rparr>) kvs) g)"

definition BatchApply :: "'c gctx \<Rightarrow> i64 \<Rightarrow> batchEntry list \<Rightarrow> 'c engine \<Rightarrow> (engine_error option \<times> 'c engine) option" where
  "BatchApply x now entries g = submitBatch x now entries g"

text \<open>A batch at a version its caller was given; the version is reserved in the oracle first.\<close>

definition BatchApplyWithVersion :: "'c gctx \<Rightarrow> i64 \<Rightarrow> batchEntry list \<Rightarrow> nat \<Rightarrow> 'c engine \<Rightarrow> (engine_error option \<times> 'c engine) option" where
  "BatchApplyWithVersion x now entries version g =
     map_option (\<lambda>(res, g1). (snd res, g1))
       (submit x now ((emptyReq 0 [])\<lparr>r_batch := entries, r_seq := version\<rparr>) (g\<lparr>g_oracle := ReserveVersion version (g_oracle g)\<rparr>))"

definition Clear :: "'c gctx \<Rightarrow> i64 \<Rightarrow> 'c engine \<Rightarrow> (engine_error option \<times> 'c engine) option" where
  "Clear x now g = map_option (\<lambda>(res, g1). (snd res, g1)) (submit x now (emptyReq opClear []) g)"

definition submitFlush :: "'c gctx \<Rightarrow> i64 \<Rightarrow> 'c engine \<Rightarrow> (engine_error option \<times> 'c engine) option" where
  "submitFlush x now g = map_option (\<lambda>(res, g1). (snd res, g1)) (submit x now (emptyReq opFlush []) g)"

section \<open>The expiry sweep\<close>

lemma length_heap_Pop:
  assumes "xs \<noteq> []" shows "length (snd (heap_Pop lt xs)) = length xs - 1"
proof (cases "length xs = 1")
  case True
  then show ?thesis by (simp add: heap_Pop_def)
next
  case False
  then have "0 < length xs - 1" using assms by (cases xs) auto
  then have "length (heap_down lt (swap xs 0 (length xs - 1)) 0 (length xs - 1)) = length xs"
    using heap_down_mset [of 0 "length xs - 1" "swap xs 0 (length xs - 1)" lt] by simp
  then show ?thesis by (simp add: heap_Pop_def Let_def)
qed

text \<open>The loop over the expiry heap: the keys that are due, at most \<open>limit\<close>.\<close>

function popDue :: "i64 \<Rightarrow> nat \<Rightarrow> bytes list \<Rightarrow> expiryItem list \<Rightarrow> (bytes \<times> i64) list \<Rightarrow> bytes list \<times> expiryItem list \<times> (bytes \<times> i64) list" where
  "popDue now limit due h m =
     (if h = [] \<or> limit \<le> length due then (due, h, m)
      else if sint now < sint (snd (h ! 0)) then (due, h, m)
      else (let it = h ! 0; h1 = snd (heap_Pop expiry_less h)
            in if map_of m (fst it) \<noteq> Some (snd it) then popDue now limit due h1 m
               else popDue now limit (due @ [fst it]) h1 (AList.delete (fst it) m)))"
  by pat_completeness auto
termination by (relation "measure (\<lambda>(now, limit, due, h, m). length h)") (auto simp: length_heap_Pop)

declare popDue.simps [simp del]

fun expiredEntries :: "'c gctx \<Rightarrow> i64 \<Rightarrow> bytes list \<Rightarrow> 'c engine \<Rightarrow> (batchEntry list \<times> 'c engine) option" where
  "expiredEntries x now [] g = Some ([], g)"
| "expiredEntries x now (k # ks) g =
     do { (remaining, g1) \<leftarrow> TTL x now k g;
          (es, g2) \<leftarrow> expiredEntries x now ks g1;
          Some ((if remaining \<noteq> - 2 then [] else [\<lparr>be_key = k, be_value = [], be_deleted = True, be_expiresAt = 0\<rparr>]) @ es, g2) }"

definition expireDueKeys :: "'c gctx \<Rightarrow> i64 \<Rightarrow> nat \<Rightarrow> 'c engine \<Rightarrow> 'c engine option" where
  "expireDueKeys x now limit g =
     (let (due, h, m) = popDue now limit [] (g_expiryHeap g) (g_expiryAt g); g1 = g\<lparr>g_expiryHeap := h, g_expiryAt := m\<rparr>
      in if due = [] then Some g1
         else do { (entries, g2) \<leftarrow> expiredEntries x now due g1;
                   if entries = [] then Some g2 else map_option snd (submitBatch x now entries g2) })"

section \<open>Garbage collection of the value log\<close>

definition vlogStillReferenced :: "u32 \<Rightarrow> int \<Rightarrow> 'c engine \<Rightarrow> bool" where
  "vlogStillReferenced fid totalValueBytes g =
     (if totalValueBytes \<le> 0 then False
      else case l_vlogDiscards (g_lsm g) of None \<Rightarrow> True | Some ds \<Rightarrow> sint (ds_Get ds fid) < totalValueBytes)"

text \<open>The rewrite requests of a collection, one after the other; their replies are ignored.\<close>

fun submitRewrites :: "'c gctx \<Rightarrow> i64 \<Rightarrow> u32 \<Rightarrow> (ValueEntry \<times> nat) list \<Rightarrow> 'c engine \<Rightarrow> 'c engine option" where
  "submitRewrites x now fid [] g = Some g"
| "submitRewrites x now fid ((e, off) # es) g =
     do { (_, g1) \<leftarrow> submit x now
            ((emptyReq opGCRewrite (ve_key e))\<lparr>r_val := ve_value e, r_expiresAt := ve_expiresAt e,
               r_expectedVp := \<lparr>vp_fid = fid, vp_offset = of_nat off, vp_size = of_nat (length (ve_value e))\<rparr>\<rparr>) g;
          submitRewrites x now fid es g1 }"

text \<open>How a collection ends: with an error, waiting for a reader, leaving the segment until its pointers are gone, or with its
  removal.\<close>

datatype gc_result = GcError engine_error | GcWaiting | GcPending | GcRemoved "vlog_error option"

text \<open>\<open>gcDiscardTs\<close>, which is set during a collection and read by compaction alone, is not part of the state.\<close>

definition runValueLogGCInternal :: "'c gctx \<Rightarrow> i64 \<Rightarrow> u32 \<Rightarrow> 'c engine \<Rightarrow> (gc_result \<times> 'c engine) option" where
  "runValueLogGCInternal x now fid g =
     (let gcTs = NextTs (g_oracle g)
      in case VRecover (gx_aes x) fid (g_vl g) of
           (Inl e, vl) \<Rightarrow> Some (GcError (EngVlog e), g\<lparr>g_vl := vl\<rparr>)
         | (Inr es, vl) \<Rightarrow>
             (let total = sum_list (map (\<lambda>(e, _). int (length (ve_value e))) es)
              in do { g1 \<leftarrow> submitRewrites x now fid (filter (\<lambda>(e, _). ve_op e \<noteq> OpDelete \<and> ve_value e \<noteq> []) es) (g\<lparr>g_vl := vl\<rparr>);
                      Some (if MinReadTs (g_oracle g1) < gcTs then (GcWaiting, g1)
                        else if vlogStillReferenced fid total g1
                        then (GcPending, g1\<lparr>g_gcPending := AList.update fid (of_int total) (g_gcPending g1)\<rparr>)
                        else (let l = g_lsm g1; (err, vl2) = DeleteSegment fid (g_vl g1)
                              in (GcRemoved err,
                                  g1\<lparr>g_lsm := l\<lparr>l_discardStats := AList.delete fid (l_discardStats l),
                                                l_vlogDiscards := map_option (ds_Delete fid) (l_vlogDiscards l)\<rparr>,
                                     g_gcPending := AList.delete fid (g_gcPending g1), g_vl := vl2\<rparr>))) }))"

text \<open>The loop over \<open>discardStats\<close>, in the order of the list: the segment with the most stale bytes that is neither active
  nor known to be referenced.\<close>

definition gcCandidate :: "'c engine \<Rightarrow> u32 \<times> i64" where
  "gcCandidate g =
     foldl (\<lambda>(bestFid, maxStale) (fid, stale).
         if fid = ActiveFid (g_vl g) then (bestFid, maxStale)
         else if (case (map_of (g_gcPending g) fid, l_vlogDiscards (g_lsm g)) of
             (Some bytes, Some ds) \<Rightarrow> sint (ds_Get ds fid) < sint bytes | _ \<Rightarrow> False) then (bestFid, maxStale)
         else if sint maxStale < sint stale then (fid, stale) else (bestFid, maxStale)) (0, 0) (l_discardStats (g_lsm g))"

text \<open>\<open>below stale size\<close> is the floating-point comparison of the stale share with the ratio.\<close>

definition RunValueLogGC :: "'c gctx \<Rightarrow> i64 \<Rightarrow> (i64 \<Rightarrow> nat \<Rightarrow> bool) \<Rightarrow> 'c engine \<Rightarrow> (gc_result \<times> 'c engine) option" where
  "RunValueLogGC x now below g =
     (let (bestFid, maxStale) = gcCandidate g
      in if bestFid = 0 \<or> maxStale = 0 then Some (GcError EngNoRewrite, g)
         else case map_of (vl_store (g_vl g)) bestFid of
           None \<Rightarrow> Some (GcError EngOther, g)
         | Some s \<Rightarrow>
             if s_removed s then Some (GcError EngOther, g)
             else if length (s_file s) = 0 then Some (GcError EngNoRewrite, g)
             else if below maxStale (length (s_file s)) then Some (GcError EngNoRewrite, g)
             else runValueLogGCInternal x now bestFid g)"

end
