(* ===== verification/Engine_Api_Correct.thy ===== *)
theory Engine_Api_Correct
  imports Engine_Api
begin

text \<open>
  The requests of the engine under its invariant: a timestamp above every version is drawn, the request is applied, a full
  memtable is rotated.  What a batch, a put or a delete says is what every read at or above its timestamp gets; the answers to
  all other reads stay.
\<close>

section \<open>Room\<close>

text \<open>Timestamps, file numbers and segment numbers that are left.\<close>

definition room_left :: "nat \<Rightarrow> 'c engine \<Rightarrow> bool" where
  "room_left n g \<longleftrightarrow> fids_left n g \<and> o_nextTs (g_oracle g) + n < 2 ^ 64 - 1 \<and> unat (l_nextSeq (g_lsm g)) + n < 2 ^ 64 - 1"

lemma room_left_mono: "room_left n g \<Longrightarrow> m \<le> n \<Longrightarrow> room_left m g"
  by (simp add: room_left_def fids_left_def)

lemma stored_mono:
  assumes "stored env cinv view reg dir content T n c" "n \<le> m"
  shows "stored env cinv view reg dir content T m c"
proof -
  have "agrees cinv view (dir_right env dir T m) c"
    using assms agrees_mono [of cinv view "dir_right env dir T n" c "dir_right env dir T m"] futureKey_mono [OF assms(2)]
    by (auto simp: stored_def dir_right_def)
  moreover have "dir_tables dir m T" using assms by (auto simp: stored_def dir_tables_def)
  ultimately show ?thesis using assms(1) by (simp add: stored_def)
qed

lemma lsm_inv_mono:
  assumes "lsm_inv lx cinv view content l" "l_nextSeq l \<le> m" shows "lsm_inv lx cinv view content (l\<lparr>l_nextSeq := m\<rparr>)"
  using assms(1) by (auto simp: lsm_inv_def lsm_ok_def tablesOf_def intro: stored_mono [OF _ assms(2)])

section \<open>Timestamps\<close>

text \<open>A later oracle or file counter changes no answer.\<close>

lemma later_inv:
  assumes inv: "eng_inv x cinv view content g" and o1: "o_nextTs (g_oracle g) \<le> o_nextTs o1" and n: "l_nextSeq (g_lsm g) \<le> n"
  defines "g1 \<equiv> g\<lparr>g_oracle := o1, g_lsm := (g_lsm g)\<lparr>l_nextSeq := n\<rparr>\<rparr>"
  shows "eng_inv x cinv view content g1" "answer x content g1 = answer x content g"
proof -
  have l: "layers content g1 = layers content g" "versionsOf content g1 = versionsOf content g" "immTables g1 = immTables g"
    using layers_cong [of g1 g] by (simp_all add: g1_def)
  have fl: "flush_ok g1" using inv n by (auto simp: eng_inv_def flush_ok_def g1_def intro: order_trans)
  have "lsm_inv (gx_lsm x) cinv view content ((g_lsm g)\<lparr>l_nextSeq := flushBase g1\<rparr>)"
  proof -
    have "flushBase g \<le> flushBase g1" using n by (simp add: flushBase_def g1_def split: list.split)
    then show ?thesis using lsm_inv_mono [of "gx_lsm x" cinv view content "(g_lsm g)\<lparr>l_nextSeq := flushBase g\<rparr>" "flushBase g1"] inv
      by (simp add: eng_inv_def)
  qed
  then have lsm: "lsm_inv (gx_lsm x) cinv view content ((g_lsm g1)\<lparr>l_nextSeq := flushBase g1\<rparr>)" by (simp add: g1_def)
  have tb: "tablesOf (g_lsm g1) = tablesOf (g_lsm g)" by (simp add: g1_def tablesOf_def)
  show "eng_inv x cinv view content g1" using inv l fl lsm tb o1 by (simp add: eng_inv_def) (simp add: g1_def)
  show "answer x content g1 = answer x content g" by (rule answer_cong [OF l(2)]) (simp add: g1_def)
qed

lemma advance_ge: "applied \<le> advance applied next awaiting"
  by (induction applied "next" awaiting rule: advance.induct) (subst advance.simps, auto)

lemma MarkApplied_nextTs [simp]: "o_nextTs (MarkApplied ts s) = o_nextTs s"
  by (simp add: MarkApplied_def advanceApplied_def)

lemma markApplied_ok:
  assumes "eng_inv x cinv view content g"
  shows "eng_inv x cinv view content (markApplied seq g)" "answer x content (markApplied seq g) = answer x content g"
    "room_left n (markApplied seq g) = room_left n g"
  using later_inv [OF assms, of "MarkApplied seq (g_oracle g)" "l_nextSeq (g_lsm g)"]
  by (simp_all add: markApplied_def room_left_def fids_left_def)

lemma assignSeq_ok:
  assumes inv: "eng_inv x cinv view content g" and room: "room_left (Suc n) g"
  obtains seq g1 where "assignSeq 0 g = (seq, g1)" "eng_inv x cinv view content g1" "answer x content g1 = answer x content g"
    "seq_ok seq g1" "CurrentVersion (g_memTable g1) < of_nat seq" "room_left n g1" "fids_left (Suc n) g1" "seq = Suc (o_nextTs (g_oracle g))"
    "\<exists>o1 m. g1 = g\<lparr>g_oracle := o1, g_lsm := (g_lsm g)\<lparr>l_nextSeq := m\<rparr>\<rparr>" "CurrentVersion (g_memTable g1) = CurrentVersion (g_memTable g)"
proof -
  let ?s = "Suc (o_nextTs (g_oracle g))"
  let ?o = "(g_oracle g)\<lparr>o_nextTs := ?s, o_awaiting := insert ?s (o_awaiting (g_oracle g))\<rparr>"
  let ?n = "max (l_nextSeq (g_lsm g)) (of_nat ?s)"
  let ?g1 = "g\<lparr>g_oracle := ?o, g_lsm := (g_lsm g)\<lparr>l_nextSeq := ?n\<rparr>\<rparr>"
  have as: "assignSeq 0 g = (?s, ?g1)"
    by (auto simp: assignSeq_def NewCommitTs_def assignTs_def bumpSeq_def Let_def max_def)
  have sm: "?s < 2 ^ 64" using room by (simp add: room_left_def)
  then have un: "unat (of_nat ?s :: u64) = ?s" by (intro unat_of_nat_small) simp
  have cv: "CurrentVersion (g_memTable g) < of_nat ?s" using inv un by (simp add: word_less_nat_alt eng_inv_def)
  have "unat ?n + n < 2 ^ 64 - 1" using room un unfolding max_def by (simp add: room_left_def)
  then have "room_left n ?g1" using room by (simp add: room_left_def fids_left_def)
  then show thesis
    using that [OF as] later_inv [OF inv, of ?o ?n] cv sm room by (simp add: seq_ok_def room_left_def fids_left_def) blast
qed

section \<open>Rotation\<close>

lemma OpenWal_new: "\<exists>w. OpenWal reg iv sync [] = Inr w"
  by (cases reg) (auto simp: OpenWal_def Let_def split: prod.split)

lemma SeedVersion_ok [simp]:
  "sl_wf (SeedVersion (NewSkipList seed) v)" "sl_entries (SeedVersion (NewSkipList seed) v) = []"
  "CurrentVersion (SeedVersion (NewSkipList seed) v) = v"
proof -
  have "sl_nodes (SeedVersion (NewSkipList seed) v) = sl_nodes (NewSkipList seed)" "sl_level (SeedVersion (NewSkipList seed) v) = sl_level (NewSkipList seed)"
    by (simp_all add: SeedVersion_def)
  from sl_wf_cong [OF this] show "sl_wf (SeedVersion (NewSkipList seed) v)" "sl_entries (SeedVersion (NewSkipList seed) v) = []" by simp_all
  show "CurrentVersion (SeedVersion (NewSkipList seed) v) = v" by (simp add: SeedVersion_def CurrentVersion_def NewSkipList_def)
qed

lemma rotate_nextFid: "vl_nextFid vl \<noteq> - 1 \<Longrightarrow> unat (vl_nextFid (snd (rotateLocked iv vl))) \<le> Suc (unat (vl_nextFid vl))"
proof -
  assume n: "vl_nextFid vl \<noteq> - 1"
  have "vl_nextFid (snd (rotateLocked iv vl)) \<in> {vl_nextFid vl, vl_nextFid vl + 1}"
    by (auto simp: rotateLocked_def setSeg_def Let_def split: option.split sum.split)
  moreover have "unat (vl_nextFid vl + 1) = Suc (unat (vl_nextFid vl))" using n by (metis add.commute add_eq_0_iff unatSuc)
  ultimately show ?thesis by auto
qed

lemma triggerFlush_ok:
  assumes inv: "eng_inv x cinv view content g" and iv: "\<forall>f. length (gx_iv x f) = 16" and room: "room_left (Suc n) g" and imm: "g_immMemTable g = None"
  obtains task g1 where "triggerFlushLocked x g = (Inr task, g1)" "g_flushChan g1 = []"
    "eng_inv x cinv view content (g1\<lparr>g_flushChan := [task]\<rparr>)" "answer x content (g1\<lparr>g_flushChan := [task]\<rparr>) = answer x content g"
    "room_left n (g1\<lparr>g_flushChan := [task]\<rparr>)" "ft_memTable task = g_memTable g" "ft_seq task = l_nextSeq (g_lsm g) + 1"
    "g_memTable g1 = SeedVersion (NewSkipList (gx_seed x (ft_seq task))) (CurrentVersion (g_memTable g))"
proof -
  obtain w where w: "OpenWal (x_reg (gx_lsm x)) (gx_walIv x (l_nextSeq (g_lsm g) + 1)) (w_syncOnWrite (g_wal g)) [] = Inr w" using OpenWal_new by blast
  let ?s = "l_nextSeq (g_lsm g) + 1"
  let ?task = "\<lparr>ft_seq = ?s, ft_memTable = g_memTable g, ft_oldVlogFid = ActiveFid (g_vl g)\<rparr>"
  let ?mem = "SeedVersion (NewSkipList (gx_seed x ?s)) (CurrentVersion (g_memTable g))"
  obtain g1 where tr: "triggerFlushLocked x g = (Inr ?task, g1)"
    and g1: "g1 = g\<lparr>g_immMemTable := Some (g_memTable g), g_memTable := ?mem, g_lsm := (g_lsm g)\<lparr>l_nextSeq := ?s\<rparr>, g_wal := w,
      g_oldWals := AList.update ?s (w_file (CloseWal (g_wal g))) (g_oldWals g), g_vl := snd (rotateLocked (gx_iv x) (g_vl g))\<rparr>"
    using w by (simp add: triggerFlushLocked_def Let_def)
  let ?g = "g1\<lparr>g_flushChan := [?task]\<rparr>"
  have ch: "g_flushChan g = []" using inv imm by (auto simp: eng_inv_def flush_ok_def)
  have nz: "?s \<noteq> 0" "unat ?s = Suc (unat (l_nextSeq (g_lsm g)))"
  proof -
    have "unat (l_nextSeq (g_lsm g)) \<noteq> unat (- 1 :: u64)" using room by (simp add: room_left_def unsigned_minus_1_eq_mask mask_eq_exp_minus_1)
    then show "?s \<noteq> 0" by (metis add_eq_0_iff add.commute)
    then show "unat ?s = Suc (unat (l_nextSeq (g_lsm g)))" by (metis add.commute unatSuc)
  qed
  have lv: "level (g_lsm ?g) = level (g_lsm g)" by (rule level_cong) (simp add: g1)
  have l0: "layers content g = sl_entries (g_memTable g) # tableLayers content (g_lsm g)"
    using imm by (simp add: layers_def immTables_def)
  have l1: "layers content ?g = [] # layers content g"
    using lv imm by (simp add: l0 layers_def immTables_def g1 tableLayers_def searchOrder_def)
  then have vs: "versionsOf content ?g = versionsOf content g" by (simp add: versionsOf_def)
  have rc: "recency (layers content ?g)" using inv unfolding l1 by (simp add: eng_inv_def recency_def newer_def)
  have fb: "flushBase ?g = flushBase g" "flush_ok ?g" using ch nz by (simp_all add: flushBase_def flush_ok_def g1)
  have k: "keeps_vals (gx_aes x) (rawValues (versionsOf content g)) (g_vl g) (g_vl ?g)"
    using rotate_keeps [OF eng_inv_vals [OF inv] fids_left_next [of n] iv] room by (simp add: g1 room_left_def)
  have "(g_lsm ?g)\<lparr>l_nextSeq := y\<rparr> = (g_lsm g)\<lparr>l_nextSeq := y\<rparr>" for y by (simp add: g1)
  then have "lsm_inv (gx_lsm x) cinv view content ((g_lsm ?g)\<lparr>l_nextSeq := flushBase ?g\<rparr>)" unfolding fb(1) using inv by (simp add: eng_inv_def)
  moreover have "immTables ?g = [g_memTable g]" "tablesOf (g_lsm ?g) = tablesOf (g_lsm g)" "CurrentVersion (g_memTable ?g) = CurrentVersion (g_memTable g)"
    "sl_wf (g_memTable ?g)" "consistent (sl_entries (g_memTable ?g))" "g_oracle ?g = g_oracle g"
    by (simp_all add: immTables_def g1 tablesOf_def consistent_def)
  ultimately have ei: "eng_inv x cinv view content ?g"
    using inv rc fb vs k by (simp add: eng_inv_def keeps_vals_def)
  have an: "answer x content ?g = answer x content g" by (rule answer_cong [OF vs]) (use k in \<open>simp add: keeps_vals_def\<close>)
  have "room_left n ?g"
    using room nz(2) rotate_nextFid [OF fids_left_next, of n g "gx_iv x"] by (simp add: room_left_def fids_left_def g1)
  then show thesis using that [OF tr _ ei an] ch by (simp add: g1)
qed

lemma flushBackpressure_ok:
  assumes inv: "eng_inv x cinv view content g" and iv: "\<forall>f. length (gx_iv x f) = 16" and room: "room_left (Suc n) g"
  shows "eng_inv x cinv view content (flushBackpressure x g)" "answer x content (flushBackpressure x g) = answer x content g"
    "room_left n (flushBackpressure x g)"
proof -
  have "eng_inv x cinv view content (flushBackpressure x g) \<and> answer x content (flushBackpressure x g) = answer x content g \<and> room_left n (flushBackpressure x g)"
  proof (cases "SizeInBytes (g_memTable g) < x_memTableSize (gx_lsm x) \<or> g_immMemTable g \<noteq> None")
    case True
    then show ?thesis using inv room_left_mono [OF room] by (auto simp: flushBackpressure_def)
  next
    case False
    then have imm: "g_immMemTable g = None" by blast
    obtain task g1 where t: "triggerFlushLocked x g = (Inr task, g1)" "g_flushChan g1 = []" "eng_inv x cinv view content (g1\<lparr>g_flushChan := [task]\<rparr>)"
      "answer x content (g1\<lparr>g_flushChan := [task]\<rparr>) = answer x content g" "room_left n (g1\<lparr>g_flushChan := [task]\<rparr>)"
      using triggerFlush_ok [OF inv iv room imm] by blast
    then show ?thesis using False by (simp add: flushBackpressure_def)
  qed
  then show "eng_inv x cinv view content (flushBackpressure x g)" "answer x content (flushBackpressure x g) = answer x content g"
    "room_left n (flushBackpressure x g)" by blast+
qed

section \<open>Requests\<close>

lemma submit_one: "submit x now r g =
    (case dispatch x now r g of None \<Rightarrow> None
     | Some (res, g1) \<Rightarrow> map_option (\<lambda>(rs, g2). (hd rs, g2)) (Some (if r_syncWAL r \<and> snd res = None \<and> \<not> w_syncOnWrite (g_wal g1) then
         (case SyncWal (gx_sync x (w_currentOffset (g_wal g1))) (g_wal g1) of
            (None, w) \<Rightarrow> ([res], flushBackpressure x (g1\<lparr>g_wal := w, g_vl := VSync (g_vl g1)\<rparr>))
          | (Some e, w) \<Rightarrow> ([(fst res, Some (EngWal e))], flushBackpressure x (g1\<lparr>g_wal := w, g_vl := VSync (g_vl g1)\<rparr>)))
       else ([res], flushBackpressure x g1))))"
  by (auto simp: submit_def writerRound_def syncRequested_def split: option.split prod.split)

text \<open>A request that does not ask for a sync: its reply, and the rotation after it.\<close>

lemma submit_plain:
  "\<not> r_syncWAL r \<Longrightarrow> dispatch x now r g = Some (res, g1) \<Longrightarrow> submit x now r g = Some (res, flushBackpressure x g1)"
  by (simp add: submit_one)

text \<open>What a batch leaves: with an error nothing has changed; else every key it names answers as it says, for every reader.\<close>

definition batch_done :: "'c gctx \<Rightarrow> (sstable \<Rightarrow> entry list) \<Rightarrow> batchEntry list \<Rightarrow> nat \<Rightarrow> engine_error option \<Rightarrow> 'c engine \<Rightarrow> 'c engine \<Rightarrow> bool" where
  "batch_done x content bs seq r g g1 \<longleftrightarrow> (case r of
     Some _ \<Rightarrow> answer x content g1 = answer x content g
   | None \<Rightarrow> \<forall>now k ts. answer x content g1 now k ts =
       (if of_nat seq \<le> ts then case batchSays bs now k of None \<Rightarrow> answer x content g now k ts | Some a \<Rightarrow> a else answer x content g now k ts))"

lemma op_distinct:
  "(0 :: byte) \<noteq> opIncr" "(0 :: byte) \<noteq> opClear" "(0 :: byte) \<noteq> opFlush" "(0 :: byte) \<noteq> OpPut"
  "OpPut \<noteq> opIncr" "OpPut \<noteq> opClear" "OpPut \<noteq> opFlush" "OpPut \<noteq> opGCRewrite" "OpPut \<noteq> OpDelete"
  "OpDelete \<noteq> opIncr" "OpDelete \<noteq> opClear" "OpDelete \<noteq> opFlush" "OpDelete \<noteq> opGCRewrite" "OpDelete \<noteq> OpPut"
  by (simp_all add: opIncr_def opClear_def opFlush_def OpPut_def OpDelete_def opGCRewrite_def)

lemma dispatch_batch:
  assumes "bs \<noteq> []" "\<not> (g_diskFull g \<and> batchHasWrites bs)"
  shows "dispatch x now ((emptyReq 0 [])\<lparr>r_batch := bs\<rparr>) g =
    (let (seq, g1) = assignSeq 0 g in map_option (\<lambda>(err, g2). ((0, err), markApplied seq g2)) (applyBatch x seq bs g1))"
  using assms by (auto simp: dispatch_def emptyReq_def op_distinct Let_def split: prod.split)

lemma dispatch_full:
  assumes "g_diskFull g" "batchHasWrites bs" "bs \<noteq> []"
  shows "dispatch x now ((emptyReq 0 [])\<lparr>r_batch := bs\<rparr>) g = Some ((0, Some EngDiskFull), g)"
  using assms by (simp add: dispatch_def emptyReq_def op_distinct)

lemma submitBatch_ok:
  assumes inv: "eng_inv x cinv view content g" and iv: "\<forall>f. length (gx_iv x f) = 16" and room: "room_left (length bs + n + 1) g"
    and bs: "bs \<noteq> []" "small_batch bs" "batch_agree bs"
  obtains r g1 where "submitBatch x now bs g = Some (r, g1)" "eng_inv x cinv view content g1" "room_left n g1"
    "batch_done x content bs (Suc (o_nextTs (g_oracle g))) r g g1" "g_diskFull g1 = g_diskFull g"
    "g_diskFull g \<Longrightarrow> batchHasWrites bs \<Longrightarrow> r = Some EngDiskFull"
proof (cases "g_diskFull g \<and> batchHasWrites bs")
  case True
  have "submit x now ((emptyReq 0 [])\<lparr>r_batch := bs\<rparr>) g = Some ((0, Some EngDiskFull), flushBackpressure x g)"
    by (rule submit_plain [OF _ dispatch_full]) (use bs(1) True in \<open>simp_all add: emptyReq_def\<close>)
  then have sb: "submitBatch x now bs g = Some (Some EngDiskFull, flushBackpressure x g)" by (simp add: submitBatch_def)
  have "room_left (Suc n) g" by (rule room_left_mono [OF room]) simp
  note fb = flushBackpressure_ok [OF inv iv this]
  have df: "g_diskFull (flushBackpressure x g) = g_diskFull g"
    by (auto simp: flushBackpressure_def triggerFlushLocked_def Let_def split: sum.split prod.split)
  show thesis by (rule that [OF sb fb(1,3)]) (use fb(2) df True in \<open>simp_all add: batch_done_def\<close>)
next
  case False
  have "room_left (Suc (length bs + n)) g" using room by simp
  then obtain seq g1 where a: "assignSeq 0 g = (seq, g1)" "eng_inv x cinv view content g1" "answer x content g1 = answer x content g"
    "seq_ok seq g1" "CurrentVersion (g_memTable g1) < of_nat seq" "room_left (length bs + n) g1" "fids_left (Suc (length bs + n)) g1"
    "seq = Suc (o_nextTs (g_oracle g))" and g1: "\<exists>o1 m. g1 = g\<lparr>g_oracle := o1, g_lsm := (g_lsm g)\<lparr>l_nextSeq := m\<rparr>\<rparr>"
    using assignSeq_ok [OF inv] by metis
  have "fids_left (length bs + Suc n) g1" using a(7) by simp
  then obtain r g2 where b: "applyBatch x seq bs g1 = Some (r, g2)" "eng_inv x cinv view content g2" "fids_left (Suc n) g2"
    "g_oracle g2 = g_oracle g1" "g_lsm g2 = g_lsm g1" "g_diskFull g2 = g_diskFull g1"
    "r \<noteq> None \<Longrightarrow> answer x content g2 = answer x content g1"
    "r = None \<Longrightarrow> \<forall>now k ts. answer x content g2 now k ts =
       (if of_nat seq \<le> ts then case batchSays bs now k of None \<Rightarrow> answer x content g1 now k ts | Some a \<Rightarrow> a else answer x content g1 now k ts)"
    using applyBatch_ok [OF a(2) iv bs(2,3) _ a(4,5)] by metis
  note m = markApplied_ok [OF b(2), where seq = seq]
  have "dispatch x now ((emptyReq 0 [])\<lparr>r_batch := bs\<rparr>) g = Some ((0, r), markApplied seq g2)"
    using dispatch_batch [OF bs(1) False] a(1) b(1) by simp
  from submit_plain [OF _ this] have sb: "submitBatch x now bs g = Some (r, flushBackpressure x (markApplied seq g2))"
    by (simp add: submitBatch_def emptyReq_def)
  have "1 \<le> length bs" using bs(1) by (cases bs) auto
  then have "room_left (Suc n) (markApplied seq g2)" using a(6) b(3-5) by (simp add: m(3)) (simp add: room_left_def)
  note fb = flushBackpressure_ok [OF m(1) iv this]
  have bd: "batch_done x content bs seq r g (flushBackpressure x (markApplied seq g2))"
    using b(7,8) a(3) by (simp add: batch_done_def fb(2) m(2) split: option.split)
  have df: "g_diskFull (flushBackpressure x (markApplied seq g2)) = g_diskFull g"
    using b(6) g1 by (auto simp: flushBackpressure_def triggerFlushLocked_def markApplied_def Let_def split: sum.split prod.split)
  show thesis by (rule that [OF sb fb(1,3)]) (use bd a(8) df False in auto)
qed

end
