(* ===== verification/Engine_Flush.thy ===== *)
theory Engine_Flush
  imports Engine_Api_Correct
begin

text \<open>
  The flush of a rotated memtable: a table with its versions joins level 0 as the newest one.  Every read gets the same answer
  before and after, from the table what it got from the memtable.
\<close>

section \<open>A table joins level 0\<close>

lemma lsm_order_cong:
  assumes "\<And>t. t \<in> set (concat ls) \<Longrightarrow> content1 t = content t" "ls \<noteq> []"
  shows "lsm_order content1 ls = lsm_order content ls"
proof -
  have c: "a < length ls \<Longrightarrow> t \<in> set (ls ! a) \<Longrightarrow> content1 t = content t" for a t using assms(1) by force
  have z: "0 < length ls" using assms(2) by simp
  have "sorted_wrt (\<lambda>s t. newer (content1 t) (content1 s)) (ls ! 0) = sorted_wrt (\<lambda>s t. newer (content t) (content s)) (ls ! 0)"
    using c [OF z] by (auto intro: sorted_wrt_mono_rel [rotated])
  moreover have "(\<forall>s \<in> set (ls ! a). \<forall>t \<in> set (ls ! b). newer (content1 s) (content1 t)) = (\<forall>s \<in> set (ls ! a). \<forall>t \<in> set (ls ! b). newer (content s) (content t))"
    if "a < b" "b < length ls" for a b using c [of a] c [of b] that by simp
  moreover have "(\<forall>s \<in> set (ls ! a). \<forall>t \<in> set (ls ! a). s \<noteq> t \<longrightarrow> apart (content1 s) (content1 t)) =
      (\<forall>s \<in> set (ls ! a). \<forall>t \<in> set (ls ! a). s \<noteq> t \<longrightarrow> apart (content s) (content t))"
    if "a < length ls" for a using c [of a] that by simp
  ultimately show ?thesis unfolding lsm_order_def by simp
qed

lemma lsm_order_add:
  assumes o: "lsm_order content ls" and ne: "ls \<noteq> []" and new: "\<And>t. t \<in> set (concat ls) \<Longrightarrow> newer (content s) (content t)"
  shows "lsm_order content (ls[0 := ls ! 0 @ [s]])"
proof -
  let ?ls = "ls[0 := ls ! 0 @ [s]]"
  have n: "a < length ls \<Longrightarrow> t \<in> set (ls ! a) \<Longrightarrow> newer (content s) (content t)" for a t using new by force
  have z: "0 < length ls" using ne by simp
  have "sorted_wrt (\<lambda>s t. newer (content t) (content s)) (?ls ! 0)"
    using o n [OF z] z by (simp add: lsm_order_def sorted_wrt_append)
  moreover have "newer (content u) (content t)" if "a < b" "b < length ls" "u \<in> set (?ls ! a)" "t \<in> set (?ls ! b)" for a b u t
    using that o n [of b t] z by (cases "a = 0") (auto simp: lsm_order_def)
  moreover have "apart (content u) (content t)" if "0 < a" "a < length ls" "u \<in> set (?ls ! a)" "t \<in> set (?ls ! a)" "u \<noteq> t" for a u t
    using that o by (auto simp: lsm_order_def)
  ultimately show ?thesis unfolding lsm_order_def by auto
qed

lemma lvl_distinct_add:
  assumes "lvl_distinct ls" "ls \<noteq> []" "s \<notin> set (concat ls)"
  shows "lvl_distinct (ls[0 := ls ! 0 @ [s]])"
proof -
  let ?ls = "ls[0 := ls ! 0 @ [s]]"
  have n: "a < length ls \<Longrightarrow> s \<notin> set (ls ! a)" for a using assms(3) by force
  have "distinct (?ls ! a)" if "a < length ls" for a
    using that assms(1) n [of a] by (cases "a = 0") (auto simp: lvl_distinct_def)
  moreover have "set (?ls ! a) \<inter> set (?ls ! b) = {}" if "a < b" "b < length ls" for a b
    using that assms(1,2) n [of b] by (cases "a = 0") (auto simp: lvl_distinct_def)
  ultimately show ?thesis unfolding lvl_distinct_def by auto
qed

lemma set_concat_add: "ls \<noteq> [] \<Longrightarrow> set (concat (ls[0 := ls ! 0 @ [s]])) = insert s (set (concat ls))"
  by (cases ls) auto

lemma lsm_flush:
  assumes inv: "lsm_inv lx cinv view content l" and x: "ctx_ok lx" and n: "l_nextSeq l < l_nextSeq l + 1"
    and es: "out_ok es" "bytesOf es < 2 ^ 27" "es \<noteq> []" "consistent es"
    and new: "\<And>t. t \<in> set (tablesOf l) \<Longrightarrow> newer es (content t)"
  obtains s c1 where "createAtLevel (x_env lx) (x_nonce lx (l_nextSeq l + 1)) (x_ratio lx) now (sstFileName (x_dir lx) (l_nextSeq l + 1)) es 0
      (x_reg lx) (l_cache l) = (Inr s, c1)" "s \<notin> set (tablesOf l)"
    "lsm_inv lx cinv view (content(s := es)) (l\<lparr>l_levels := (l_levels l)[0 := level l 0 @ [s]], l_cache := c1, l_nextSeq := l_nextSeq l + 1\<rparr>)"
proof -
  let ?n = "l_nextSeq l + 1" and ?T = "set (tablesOf l)" and ?ls = "l_levels l"
  have st: "stored (x_env lx) cinv view (x_reg lx) (x_dir lx) content ?T (l_nextSeq l) (l_cache l)" using inv by (simp add: lsm_inv_def lsm_ok_def)
  have inp: "input_ok es" "length (records es) < 2 ^ 27" using out_ok_input [OF es(1,2)] by auto
  obtain s c1 where s: "createAtLevel (x_env lx) (x_nonce lx ?n) (x_ratio lx) now (sstFileName (x_dir lx) ?n) es 0 (x_reg lx) (l_cache l) = (Inr s, c1)"
    "s \<notin> ?T" "stored (x_env lx) cinv view (x_reg lx) (x_dir lx) (content(s := es)) (insert s ?T) ?n c1"
    using stored_create [OF st _ n inp(1) es(3) _ inp(2), of "x_nonce lx ?n" "x_ratio lx" now 0] x es(1) by (auto simp: ctx_ok_def out_ok_def)
  have len: "length ?ls = MaxLevels" using inv by (simp add: lsm_inv_def)
  then have ne: "?ls \<noteq> []" by (auto simp: MaxLevels_def)
  then have lv: "level l 0 = ?ls ! 0" by (simp add: level_def)
  have "lsm_order (content(s := es)) (?ls[0 := ?ls ! 0 @ [s]])"
  proof (rule lsm_order_add [OF _ ne])
    have "lsm_order (content(s := es)) ?ls = lsm_order content ?ls" using s(2) by (intro lsm_order_cong [OF _ ne]) (auto simp: tablesOf_def)
    then show "lsm_order (content(s := es)) ?ls" using inv by (simp add: lsm_inv_def)
    show "newer ((content(s := es)) s) ((content(s := es)) t)" if "t \<in> set (concat ?ls)" for t
      using that new [of t] s(2) by (auto simp: tablesOf_def)
  qed
  moreover have "lvl_distinct (?ls[0 := ?ls ! 0 @ [s]])" using inv s(2) by (intro lvl_distinct_add [OF _ ne]) (simp_all add: lsm_inv_def tablesOf_def)
  moreover have tb: "set (tablesOf (l\<lparr>l_levels := ?ls[0 := level l 0 @ [s]], l_cache := c1, l_nextSeq := ?n\<rparr>)) = insert s ?T"
    using set_concat_add [OF ne, of s] unfolding tablesOf_def lv by simp
  moreover have "\<forall>t \<in> insert s ?T. consistent ((content(s := es)) t)" using inv es(4) by (simp add: lsm_inv_def)
  ultimately have "lsm_inv lx cinv view (content(s := es)) (l\<lparr>l_levels := ?ls[0 := level l 0 @ [s]], l_cache := c1, l_nextSeq := ?n\<rparr>)"
    using s(3) len unfolding lsm_inv_def lsm_ok_def tb by (simp add: lv)
  then show thesis by (rule that [OF s(1,2)])
qed

section \<open>From the memtable to the table\<close>

text \<open>What the code relies on of a memtable it flushes: its entries fit a table.\<close>

definition flushable :: "'c gctx \<Rightarrow> skiplist \<Rightarrow> bool" where
  "flushable x m \<longleftrightarrow> (\<forall>e \<in> set (sl_entries m). rec_ok e \<and> length (e_key e) \<le> 65535) \<and> bytesOf (sl_entries m) < 2 ^ 27 \<and>
     (\<forall>k. one_restart k (sl_entries m))"

lemma version_less_ord: "\<not> version_less b a \<Longrightarrow> version_ord a b"
  by (auto simp: version_less_def version_ord_def Let_def split: if_splits)

lemma sorted_all:
  assumes "slice_sort version_less srt"
  shows "mset (srt es) = mset es" "sorted_wrt version_ord (srt es)"
proof -
  show "mset (srt es) = mset es" using assms by (simp add: slice_sort_def)
  have "sorted_wrt (\<lambda>a b. \<not> version_less b a) (srt es)" using assms by (simp add: slice_sort_def)
  then show "sorted_wrt version_ord (srt es)" by (rule sorted_wrt_mono_rel [rotated]) (rule version_less_ord)
qed

lemma one_restart_mset: "mset es = mset fs \<Longrightarrow> one_restart k es = one_restart k fs"
  unfolding one_restart_def by (metis mset_filter size_mset)

lemma newer_set: "set xs = set ys \<Longrightarrow> newer xs zs = newer ys zs"
  by (simp add: newer_def)

lemma newer_wire: "newer xs (map wire ys) = newer xs ys" "newer (map wire xs) ys = newer xs ys"
  by (simp_all add: newer_def)

lemma searchOrder_add:
  assumes "length (l_levels l) = MaxLevels" "l_levels l1 = (l_levels l)[0 := level l 0 @ [s]]"
  shows "searchOrder l1 = s # searchOrder l"
proof -
  have "level l1 0 = level l 0 @ [s]" using assms by (simp add: level_def MaxLevels_def)
  moreover have "level l1 a = level l a" if "a \<noteq> 0" for a using assms that by (simp add: level_def)
  moreover have "[0..<MaxLevels] = 0 # [1..<MaxLevels]" by (simp add: MaxLevels_def upt_rec)
  moreover have "map (\<lambda>a. rev (level l1 a)) [1..<MaxLevels] = map (\<lambda>a. rev (level l a)) [1..<MaxLevels]" using calculation(2) by simp
  ultimately show ?thesis by (simp only: searchOrder_def list.map concat.simps rev_append rev.simps append.simps)
qed

lemma reads_layers: "recency ls \<Longrightarrow> reads now (concat ls) k ts = live now (firstFound ls k ts)"
  by (simp add: reads_def firstFound_concat)

lemma rawValues_wire: "rawValues (map wire es) = rawValues es"
proof -
  have "e_value (wire e) = e_value e" if "\<not> e_deleted e" for e using that by (simp add: wire_def)
  then show ?thesis unfolding rawValues_def by (auto simp: image_iff) (metis wire_fields(3))+
qed

lemma replace_layer:
  assumes r: "recency (m # xs # ls)" and ys: "set ys = set xs" "consistent xs"
  shows "recency (m # map wire ys # ls)" "reads now (concat (m # map wire ys # ls)) k ts = reads now (concat (m # xs # ls)) k ts"
    "rawValues (concat (m # map wire ys # ls)) = rawValues (concat (m # xs # ls))"
proof -
  have "newer zs (map wire ys) = newer zs xs" "newer (map wire ys) zs = newer xs zs" for zs
    using ys(1) by (simp_all add: newer_wire) (simp_all add: newer_def)
  then show r1: "recency (m # map wire ys # ls)" using r by (simp add: recency_def)
  have "snapshot_entry ys k ts = snapshot_entry xs k ts" using snapshot_set_cong [OF ys(1) [symmetric] ys(2)] by simp
  then have "snapshot_entry (map wire ys) k ts = map_option wire (snapshot_entry xs k ts)" by (simp add: snapshot_map [OF wire_keeps])
  then have "live now (firstFound (m # map wire ys # ls) k ts) = live now (firstFound (m # xs # ls) k ts)"
    by (simp add: wire_live del: live_simps split: option.split)
  then show "reads now (concat (m # map wire ys # ls)) k ts = reads now (concat (m # xs # ls)) k ts"
    by (simp only: reads_layers [OF r1] reads_layers [OF r])
  have "rawValues ys = rawValues xs" using ys(1) by (simp add: rawValues_def)
  then show "rawValues (concat (m # map wire ys # ls)) = rawValues (concat (m # xs # ls))" by (simp add: rawValues_wire)
qed

section \<open>The flush worker\<close>

lemma flush_empty:
  assumes inv: "eng_inv x cinv view content g" and chan: "g_flushChan g = [task]" and es: "sl_entries (ft_memTable task) = []"
  defines "g1 \<equiv> removeOldWal (ft_seq task) (g\<lparr>g_flushChan := [], g_immMemTable := None\<rparr>)"
  shows "eng_inv x cinv view content g1" "answer x content g1 = answer x content g"
proof -
  note I = inv [unfolded eng_inv_def]
  have imm: "g_immMemTable g = Some (ft_memTable task)" "ft_seq task \<noteq> 0" "ft_seq task \<le> l_nextSeq (g_lsm g)"
    using I chan by (auto simp: flush_ok_def)
  have f: "g_memTable g1 = g_memTable g" "g_immMemTable g1 = None" "g_lsm g1 = g_lsm g" "g_vl g1 = g_vl g" "g_oracle g1 = g_oracle g" "g_flushChan g1 = []"
    by (simp_all add: g1_def removeOldWal_def)
  have l: "layers content g = sl_entries (g_memTable g) # [] # tableLayers content (g_lsm g)"
    "layers content g1 = sl_entries (g_memTable g) # tableLayers content (g_lsm g)"
    using imm es f by (simp_all add: layers_def immTables_def)
  then have v: "versionsOf content g1 = versionsOf content g" by (simp add: versionsOf_def)
  have "ft_seq task - 1 \<le> l_nextSeq (g_lsm g)" using imm(2,3) by (simp add: word_le_nat_alt unat_minus_one)
  from lsm_inv_mono [of "gx_lsm x" cinv view content "(g_lsm g)\<lparr>l_nextSeq := flushBase g\<rparr>" "l_nextSeq (g_lsm g)"] this
  have "lsm_inv (gx_lsm x) cinv view content (g_lsm g)" using I chan by (simp add: flushBase_def)
  then show "eng_inv x cinv view content g1" using I l v f
    by (simp add: eng_inv_def immTables_def flush_ok_def flushBase_def recency_def)
  show "answer x content g1 = answer x content g" by (rule answer_cong [OF v]) (simp add: f(4))
qed

lemma installFlushed_fields:
  "l_levels (installFlushed task s l) = (l_levels l)[0 := level l 0 @ [s]]" "l_cache (installFlushed task s l) = l_cache l"
  "l_nextSeq (installFlushed task s l) = l_nextSeq l"
  by (simp_all add: installFlushed_def Let_def)

lemma lsm_inv_fields:
  assumes "lsm_inv lx cinv view content l" "l_levels l1 = l_levels l" "l_cache l1 = l_cache l" "l_nextSeq l1 = l_nextSeq l"
  shows "lsm_inv lx cinv view content l1"
  using assms by (simp add: lsm_inv_def lsm_ok_def tablesOf_def)

lemma flush_table:
  assumes inv: "eng_inv x cinv view content g" and chan: "g_flushChan g = [task]" and es: "sl_entries (ft_memTable task) \<noteq> []"
    and x: "ctx_ok (gx_lsm x)" and srt: "slice_sort version_less (gx_sortAll x)" and fl: "flushable x (ft_memTable task)"
  defines "lx \<equiv> gx_lsm x" and "fs \<equiv> gx_sortAll x (sl_entries (ft_memTable task))"
  obtains s c1 where "createAtLevel (x_env lx) (x_nonce lx (ft_seq task)) (x_ratio lx) now (sstFileName (x_dir lx) (ft_seq task)) fs 0
      (x_reg lx) (l_cache (g_lsm g)) = (Inr s, c1)" "s \<notin> set (tablesOf (g_lsm g))"
    "lsm_inv lx cinv view (content(s := fs)) (installFlushed task s ((g_lsm g)\<lparr>l_cache := c1\<rparr>))"
proof -
  note I = inv [unfolded eng_inv_def]
  have imm: "g_immMemTable g = Some (ft_memTable task)" "ft_seq task \<noteq> 0" "ft_seq task \<le> l_nextSeq (g_lsm g)"
    using I chan by (auto simp: flush_ok_def)
  let ?l = "(g_lsm g)\<lparr>l_nextSeq := ft_seq task - 1\<rparr>"
  have li: "lsm_inv lx cinv view content ?l" using I chan by (simp add: flushBase_def lx_def)
  have ms: "mset fs = mset (sl_entries (ft_memTable task))" "sorted_wrt version_ord fs" using sorted_all [OF srt] by (simp_all add: fs_def)
  then have st: "set fs = set (sl_entries (ft_memTable task))" by (metis set_mset_mset)
  have out: "out_ok fs" "bytesOf fs < 2 ^ 27" "fs \<noteq> []" using fl ms st es bytesOf_mset [OF ms(1)] by (auto simp: out_ok_def flushable_def)
  have "consistent (sl_entries (ft_memTable task))" using I imm by (simp add: immTables_def)
  then have cs: "consistent fs" by (rule consistent_subset) (simp add: st)
  have nw: "newer fs (content t)" if "t \<in> set (tablesOf ?l)" for t
  proof -
    have "length (l_levels (g_lsm g)) = MaxLevels" using li by (simp add: lsm_inv_def)
    from searchOrder_set [OF this] have "t \<in> set (searchOrder (g_lsm g))" using that by (simp add: tablesOf_def)
    then have "newer (sl_entries (ft_memTable task)) (map wire (content t))"
      using I imm by (auto simp: recency_def layers_def immTables_def tableLayers_def)
    then show ?thesis using st by (simp add: newer_wire newer_def)
  qed
  have lt: "l_nextSeq ?l < l_nextSeq ?l + 1" using imm(2) unat_eq_0 [of "ft_seq task"] by (simp add: word_less_nat_alt unat_minus_one)
  obtain s c1 where s: "createAtLevel (x_env lx) (x_nonce lx (ft_seq task)) (x_ratio lx) now (sstFileName (x_dir lx) (ft_seq task)) fs 0
      (x_reg lx) (l_cache (g_lsm g)) = (Inr s, c1)" "s \<notin> set (tablesOf ?l)"
    "lsm_inv lx cinv view (content(s := fs)) (?l\<lparr>l_levels := (l_levels ?l)[0 := level ?l 0 @ [s]], l_cache := c1, l_nextSeq := l_nextSeq ?l + 1\<rparr>)"
    using lsm_flush [OF li x [folded lx_def] lt out cs nw, where now = now] by (simp del: fun_upd_apply) blast
  have "l_nextSeq (?l\<lparr>l_levels := (l_levels ?l)[0 := level ?l 0 @ [s]], l_cache := c1, l_nextSeq := l_nextSeq ?l + 1\<rparr>) \<le> l_nextSeq (g_lsm g)"
    using imm(3) by simp
  from lsm_inv_mono [OF s(3) this]
  have "lsm_inv lx cinv view (content(s := fs)) (installFlushed task s ((g_lsm g)\<lparr>l_cache := c1\<rparr>))"
    by (rule lsm_inv_fields) (simp_all add: installFlushed_fields level_def)
  then show thesis using s(1,2) by (intro that [of s c1]) (simp_all add: tablesOf_def)
qed

lemma executeFlush_run:
  assumes "g_flushChan g = [task]" "sl_wf (ft_memTable task)"
  shows "flushWorkerStep x now g = Some (let g0 = g\<lparr>g_flushChan := [], g_immMemTable := None\<rparr>; lx = gx_lsm x; seq = ft_seq task;
      entries = gx_sortAll x (sl_entries (ft_memTable task))
    in if entries = [] then removeOldWal seq g0
       else case createAtLevel (x_env lx) (x_nonce lx seq) (x_ratio lx) now (sstFileName (x_dir lx) seq) entries 0 (x_reg lx) (l_cache (g_lsm g)) of
         (Inl _, c) \<Rightarrow> g0\<lparr>g_lsm := (g_lsm g0)\<lparr>l_cache := c\<rparr>\<rparr>
       | (Inr sst, c) \<Rightarrow> incFlush (removeOldWal seq (g0\<lparr>g_lsm := installFlushed task sst ((g_lsm g0)\<lparr>l_cache := c\<rparr>)\<rparr>)))"
  using assms by (simp add: flushWorkerStep_def executeFlush_def AllVersions_def collect_all_entries Let_def)

lemma flush_install:
  fixes g :: "'c engine" and c1 :: "'c option"
  assumes inv: "eng_inv x cinv view content g" and chan: "g_flushChan g = [task]"
    and srt: "slice_sort version_less (gx_sortAll x)" and fl: "flushable x (ft_memTable task)"
    and s: "s \<notin> set (tablesOf (g_lsm g))"
  defines "fs \<equiv> gx_sortAll x (sl_entries (ft_memTable task))"
    and "g1 \<equiv> incFlush (removeOldWal (ft_seq task) (g\<lparr>g_flushChan := [], g_immMemTable := None,
      g_lsm := installFlushed task s ((g_lsm g)\<lparr>l_cache := c1\<rparr>)\<rparr>))"
  assumes li: "lsm_inv (gx_lsm x) cinv view (content(s := fs)) (installFlushed task s ((g_lsm g)\<lparr>l_cache := c1\<rparr>))"
  shows "eng_inv x cinv view (content(s := fs)) g1" "answer x (content(s := fs)) g1 = answer x content g"
proof -
  note I = inv [unfolded eng_inv_def]
  have imm: "g_immMemTable g = Some (ft_memTable task)" using I chan by (auto simp: flush_ok_def)
  let ?m = "sl_entries (ft_memTable task)"
  have cs: "consistent ?m" using I imm by (simp add: immTables_def)
  have ms: "mset fs = mset ?m" using sorted_all [OF srt] by (simp add: fs_def)
  then have st: "set fs = set ?m" by (metis set_mset_mset)
  have f: "g_memTable g1 = g_memTable g" "g_immMemTable g1 = None" "g_vl g1 = g_vl g" "g_oracle g1 = g_oracle g" "g_flushChan g1 = []"
    and lsm: "g_lsm g1 = installFlushed task s ((g_lsm g)\<lparr>l_cache := c1\<rparr>)"
    by (simp_all add: g1_def removeOldWal_def incFlush_def)
  have len: "length (l_levels (g_lsm g)) = MaxLevels" using I by (simp add: lsm_inv_def)
  have so: "searchOrder (g_lsm g1) = s # searchOrder (g_lsm g)"
    by (rule searchOrder_add [OF len]) (simp add: lsm installFlushed_fields level_def)
  have "s \<notin> set (searchOrder (g_lsm g))" using searchOrder_set [OF len] s by simp
  then have "tableLayers (content(s := fs)) (g_lsm g1) = map wire fs # tableLayers content (g_lsm g)" by (auto simp: tableLayers_def so)
  then have l: "layers (content(s := fs)) g1 = sl_entries (g_memTable g) # map wire fs # tableLayers content (g_lsm g)"
    "layers content g = sl_entries (g_memTable g) # ?m # tableLayers content (g_lsm g)"
    using f imm by (simp_all add: layers_def immTables_def)
  have rec: "recency (sl_entries (g_memTable g) # ?m # tableLayers content (g_lsm g))" using I l(2) by simp
  note R = replace_layer [OF rec st cs]
  have tb: "set (tablesOf (g_lsm g1)) = insert s (set (tablesOf (g_lsm g)))"
    using searchOrder_set [OF len] searchOrder_set [of "g_lsm g1"] so len by (simp add: lsm installFlushed_fields)
  have or: "\<forall>t \<in> set (tablesOf (g_lsm g1)). \<forall>k. one_restart k ((content(s := fs)) t)"
    using I s fl one_restart_mset [OF ms] by (auto simp: tb flushable_def)
  have "g_lsm g1 = (g_lsm g1)\<lparr>l_nextSeq := flushBase g1\<rparr>" using f by (simp add: flushBase_def)
  then have li1: "lsm_inv (gx_lsm x) cinv view (content(s := fs)) ((g_lsm g1)\<lparr>l_nextSeq := flushBase g1\<rparr>)" using li lsm by simp
  have rv: "rawValues (versionsOf (content(s := fs)) g1) = rawValues (versionsOf content g)" using R(3) by (simp only: versionsOf_def l)
  have vs: "\<forall>e \<in> set (versionsOf (content(s := fs)) g1). e_version e \<le> CurrentVersion (g_memTable g)"
    using I st by (auto simp: versionsOf_def l)
  have mem: "\<forall>m \<in> set (g_memTable g1 # immTables g1). sl_wf m \<and> consistent (sl_entries m)" using I f by (simp add: immTables_def)
  show "eng_inv x cinv view (content(s := fs)) g1"
    unfolding eng_inv_def rv using I mem li1 or vs R(1) by (simp only: l f flush_ok_def) simp
  show "answer x (content(s := fs)) g1 = answer x content g" using R(2) by (simp add: answer_def versionsOf_def l f fun_eq_iff)
qed

lemma flushWorkerStep_ok:
  assumes inv: "eng_inv x cinv view content g" and chan: "g_flushChan g = [task]"
    and x: "ctx_ok (gx_lsm x)" and srt: "slice_sort version_less (gx_sortAll x)" and fl: "flushable x (ft_memTable task)"
  obtains g1 content1 where "flushWorkerStep x now g = Some g1" "eng_inv x cinv view content1 g1" "answer x content1 g1 = answer x content g"
    "g_flushChan g1 = []" "g_immMemTable g1 = None" "g_memTable g1 = g_memTable g" "g_oracle g1 = g_oracle g" "g_vl g1 = g_vl g"
    "l_nextSeq (g_lsm g1) = l_nextSeq (g_lsm g)"
proof -
  have "g_immMemTable g = Some (ft_memTable task)" using inv chan by (auto simp: eng_inv_def flush_ok_def)
  then have wf: "sl_wf (ft_memTable task)" using inv by (simp add: eng_inv_def immTables_def)
  let ?m = "sl_entries (ft_memTable task)" let ?fs = "gx_sortAll x ?m"
  have ms: "mset ?fs = mset ?m" using sorted_all [OF srt] by simp
  show thesis
  proof (cases "?m = []")
    case True
    then have "flushWorkerStep x now g = Some (removeOldWal (ft_seq task) (g\<lparr>g_flushChan := [], g_immMemTable := None\<rparr>))"
      using executeFlush_run [OF chan wf] ms by simp
    then show thesis using flush_empty [OF inv chan True] by (rule that) (simp_all add: removeOldWal_def)
  next
    case False
    obtain s c1 where s: "createAtLevel (x_env (gx_lsm x)) (x_nonce (gx_lsm x) (ft_seq task)) (x_ratio (gx_lsm x)) now
        (sstFileName (x_dir (gx_lsm x)) (ft_seq task)) ?fs 0 (x_reg (gx_lsm x)) (l_cache (g_lsm g)) = (Inr s, c1)" "s \<notin> set (tablesOf (g_lsm g))"
      "lsm_inv (gx_lsm x) cinv view (content(s := ?fs)) (installFlushed task s ((g_lsm g)\<lparr>l_cache := c1\<rparr>))"
      by (rule flush_table [OF inv chan False x srt fl])
    have "?fs \<noteq> []" using False ms by auto
    then have "flushWorkerStep x now g = Some (incFlush (removeOldWal (ft_seq task) (g\<lparr>g_flushChan := [], g_immMemTable := None,
      g_lsm := installFlushed task s ((g_lsm g)\<lparr>l_cache := c1\<rparr>)\<rparr>)))" using executeFlush_run [OF chan wf, of x now] s(1) by (simp add: Let_def)
    then show thesis using flush_install [OF inv chan srt fl s(2,3)]
      by (rule that) (simp_all add: removeOldWal_def incFlush_def installFlushed_fields)
  qed
qed

end
