(* ===== verification/Engine_Ops.thy ===== *)
theory Engine_Ops
  imports Engine_Flush
begin

text \<open>
  The single-key operations \<open>PutEx\<close>, \<open>Delete\<close> and \<open>IncrBy\<close> under the invariant of the engine: each returns, and a
  successful one changes the answers for its key from its timestamp on and no others.
\<close>

definition entry_done :: "'c gctx \<Rightarrow> (sstable \<Rightarrow> entry list) \<Rightarrow> byte \<Rightarrow> bytes \<Rightarrow> bytes \<Rightarrow> i64 \<Rightarrow> nat \<Rightarrow> 'c engine \<Rightarrow> 'c engine \<Rightarrow> bool" where
  "entry_done x content op k v e seq g g1 \<longleftrightarrow> (\<forall>now k' ts. answer x content g1 now k' ts =
     (if of_nat seq \<le> ts \<and> k' = k then (if op = OpDelete \<or> expired now e then None else Some (v, e)) else answer x content g now k' ts))"

lemma flushBackpressure_diskFull [simp]: "g_diskFull (flushBackpressure x g) = g_diskFull g"
  by (auto simp: flushBackpressure_def triggerFlushLocked_def Let_def split: sum.split prod.split)

lemma markApplied_diskFull [simp]: "g_diskFull (markApplied seq g) = g_diskFull g"
  by (simp add: markApplied_def)

lemma assignSeq_diskFull: "g_diskFull (snd (assignSeq s g)) = g_diskFull g"
  by (simp add: assignSeq_def bumpSeq_def split: prod.split)

lemma quiet_room:
  assumes "quiet x content g g1" shows "room_left n g1 = room_left n g" "fids_left n g1 = fids_left n g" "seq_ok seq g1 = seq_ok seq g"
  using quiet_fields [OF assms] by (simp_all add: room_left_def fids_left_def seq_ok_def)

lemma apply_finish:
  assumes inv: "eng_inv x cinv view content g" and iv: "\<forall>f. length (gx_iv x f) = 16" and room: "room_left (Suc n) g" "fids_left (Suc (Suc n)) g"
    and len: "length k < 2 ^ 32" "length v < 2 ^ 32" and seq: "seq_ok seq g" "CurrentVersion (g_memTable g) < of_nat seq"
  obtains r g2 where "applyEntry x op k v e seq g = Some (r, g2)" "eng_inv x cinv view content (flushBackpressure x (markApplied seq g2))"
    "room_left n (flushBackpressure x (markApplied seq g2))" "g_diskFull g2 = g_diskFull g"
    "r \<noteq> None \<Longrightarrow> answer x content (flushBackpressure x (markApplied seq g2)) = answer x content g"
    "r = None \<Longrightarrow> entry_done x content op k v e seq g (flushBackpressure x (markApplied seq g2))"
proof -
  obtain r g2 where a: "applyEntry x op k v e seq g = Some (r, g2)" "eng_inv x cinv view content g2" "fids_left (Suc n) g2"
    "g_oracle g2 = g_oracle g" "g_lsm g2 = g_lsm g" "g_immMemTable g2 = g_immMemTable g" "g_flushChan g2 = g_flushChan g" "g_diskFull g2 = g_diskFull g"
    "r \<noteq> None \<Longrightarrow> answer x content g2 = answer x content g"
    "r = None \<Longrightarrow> entry_done x content op k v e seq g g2"
    unfolding entry_done_def by (rule applyEntry_ok [OF inv iv len room(2) seq, where op = op and e = e]) (rule that, assumption, simp_all add: entry_done_def)
  note m = markApplied_ok [OF a(2), where seq = seq]
  have "room_left (Suc n) (markApplied seq g2)" using room(1) a(3-5) by (simp add: m(3)) (simp add: room_left_def)
  note fb = flushBackpressure_ok [OF m(1) iv this]
  show thesis by (rule that [OF a(1) fb(1,3) a(8)]) (use a(9,10) in \<open>simp_all add: fb(2) m(2) entry_done_def\<close>)
qed

section \<open>Put and delete\<close>

definition entryReq :: "byte \<Rightarrow> bytes \<Rightarrow> bytes \<Rightarrow> i64 \<Rightarrow> bool \<Rightarrow> writeReq" where
  "entryReq op k v e ce = (emptyReq op k)\<lparr>r_val := v, r_expiresAt := e, r_checkExists := ce\<rparr>"

lemma entryReq_fields [simp]:
  "r_op (entryReq op k v e ce) = op" "r_key (entryReq op k v e ce) = k" "r_val (entryReq op k v e ce) = v"
  "r_expiresAt (entryReq op k v e ce) = e" "r_seq (entryReq op k v e ce) = 0" "r_batch (entryReq op k v e ce) = []"
  "r_skipWAL (entryReq op k v e ce) = False" "r_syncWAL (entryReq op k v e ce) = False" "r_checkExists (entryReq op k v e ce) = ce"
  by (simp_all add: entryReq_def emptyReq_def)

lemma dispatch_entry:
  assumes "op = OpPut \<or> op = OpDelete" "\<not> (g_diskFull g \<and> op = OpPut)"
  shows "dispatch x now (entryReq op k v e ce) g =
    (let (seq, g1) = assignSeq 0 g
     in do { (existed, g2) \<leftarrow> (if ce then existsWithoutLock x now k g1 else Some (True, g1));
             if existed then map_option (\<lambda>(err, g3). ((1, err), markApplied seq g3)) (applyEntry x op k v e seq g2)
             else Some ((0, None), markApplied seq g2) })"
  using assms by (cases "assignSeq 0 g") (auto simp: dispatch_def op_distinct Let_def applyEntryOpts_def cong: if_cong)

lemma dispatch_entry_full:
  "g_diskFull g \<Longrightarrow> dispatch x now (entryReq OpPut k v e ce) g = Some ((0, Some EngDiskFull), g)"
  by (simp add: dispatch_def op_distinct)

lemma submitEntry_ok:
  assumes inv: "eng_inv x cinv view content g" and iv: "\<forall>f. length (gx_iv x f) = 16" and room: "room_left (Suc (Suc n)) g"
    and len: "length k < 2 ^ 32" "length v < 2 ^ 32" and op: "op = OpPut \<or> op = OpDelete"
  obtains ret err g1 where "submit x now (entryReq op k v e ce) g = Some ((ret, err), g1)" "eng_inv x cinv view content g1" "room_left n g1"
    "g_diskFull g1 = g_diskFull g"
    "if err \<noteq> None then answer x content g1 = answer x content g
     else if ce \<and> current x content g now k = None then ret = 0 \<and> answer x content g1 = answer x content g
     else ret = 1 \<and> entry_done x content op k v e (Suc (o_nextTs (g_oracle g))) g g1"
proof (cases "g_diskFull g \<and> op = OpPut")
  case True
  have "submit x now (entryReq op k v e ce) g = Some ((0, Some EngDiskFull), flushBackpressure x g)"
    by (rule submit_plain) (use True dispatch_entry_full [of g x now k v e ce] in simp_all)
  moreover have "room_left (Suc n) g" by (rule room_left_mono [OF room]) simp
  note fb = flushBackpressure_ok [OF inv iv this]
  show thesis by (rule that [OF calculation fb(1,3)]) (simp_all add: fb(2))
next
  case False
  obtain seq g1 where a: "assignSeq 0 g = (seq, g1)" "eng_inv x cinv view content g1" "answer x content g1 = answer x content g"
    "seq_ok seq g1" "CurrentVersion (g_memTable g1) < of_nat seq" "room_left (Suc n) g1" "fids_left (Suc (Suc n)) g1"
    "seq = Suc (o_nextTs (g_oracle g))"
    using assignSeq_ok [OF inv room] by metis
  have df: "g_diskFull g1 = g_diskFull g" using assignSeq_diskFull [of 0 g] a(1) by simp
  obtain ex g2 where b: "(if ce then existsWithoutLock x now k g1 else Some (True, g1)) = Some (ex, g2)" "quiet x content g1 g2"
    "eng_inv x cinv view content g2" "ex = (ce \<longrightarrow> current x content g now k \<noteq> None)"
  proof (cases ce)
    case True
    obtain g2 where "existsWithoutLock x now k g1 = Some (current x content g1 now k \<noteq> None, g2)" "quiet x content g1 g2" "eng_inv x cinv view content g2"
      by (rule existsWithoutLock_ok [OF a(2)])
    then show thesis using that True a(3) by (simp add: current_def)
  qed (use that quiet_refl [OF a(2)] a(2) in simp)
  have q: "answer x content g2 = answer x content g" "g_diskFull g2 = g_diskFull g" using quiet_answer [OF b(2)] quiet_fields [OF b(2)] a(3) df by simp_all
  have rm: "room_left (Suc n) g2" "fids_left (Suc (Suc n)) g2" "seq_ok seq g2" "CurrentVersion (g_memTable g2) < of_nat seq"
    using a quiet_room [OF b(2)] quiet_fields [OF b(2)] by simp_all
  show thesis
  proof (cases ex)
    case True
    obtain r g3 where c: "applyEntry x op k v e seq g2 = Some (r, g3)" "eng_inv x cinv view content (flushBackpressure x (markApplied seq g3))"
      "room_left n (flushBackpressure x (markApplied seq g3))" "g_diskFull g3 = g_diskFull g2"
      "r \<noteq> None \<Longrightarrow> answer x content (flushBackpressure x (markApplied seq g3)) = answer x content g2"
      "r = None \<Longrightarrow> entry_done x content op k v e seq g2 (flushBackpressure x (markApplied seq g3))"
      using apply_finish [OF b(3) iv rm(1,2) len rm(3,4)] by blast
    have "submit x now (entryReq op k v e ce) g = Some ((1, r), flushBackpressure x (markApplied seq g3))"
      by (rule submit_plain) (use a(1) b(1) c(1) True in \<open>simp_all add: dispatch_entry [OF op False]\<close>)
    then show thesis by (rule that [OF _ c(2,3)]) (use c(4-6) q True b(4) a(8) in \<open>auto simp: entry_done_def\<close>)
  next
    case no: False
    note m = markApplied_ok [OF b(3), where seq = seq]
    have "room_left (Suc n) (markApplied seq g2)" using rm(1) by (simp add: m(3))
    note fb = flushBackpressure_ok [OF m(1) iv this]
    have "submit x now (entryReq op k v e ce) g = Some ((0, None), flushBackpressure x (markApplied seq g2))"
      by (rule submit_plain) (use a(1) b(1) no in \<open>simp_all add: dispatch_entry [OF op False]\<close>)
    then show thesis by (rule that [OF _ fb(1,3)]) (use fb(2) m(2) q no b(4) in auto)
  qed
qed

lemma incStats_ok:
  assumes "eng_inv x cinv view content g"
  shows "eng_inv x cinv view content (incPut g)" "answer x content (incPut g) = answer x content g" "room_left n (incPut g) = room_left n g"
    "eng_inv x cinv view content (incDel g)" "answer x content (incDel g) = answer x content g" "room_left n (incDel g) = room_left n g"
  using assms eng_inv_cong(1) [of "incPut g" g x cinv view content] eng_inv_cong(1) [of "incDel g" g x cinv view content]
    eng_inv_cong(3) [of "incPut g" g x content] eng_inv_cong(3) [of "incDel g" g x content]
  by (simp_all add: incPut_def incDel_def room_left_def fids_left_def)

lemma PutEx_ok:
  assumes inv: "eng_inv x cinv view content g" and iv: "\<forall>f. length (gx_iv x f) = 16" and room: "room_left (Suc (Suc n)) g"
    and len: "length k < 2 ^ 32" "length v < 2 ^ 32"
  obtains err g1 where "PutEx x now k v ttl g = Some (err, g1)" "eng_inv x cinv view content g1" "room_left n g1" "g_diskFull g1 = g_diskFull g"
    "err \<noteq> None \<Longrightarrow> answer x content g1 = answer x content g"
    "err = None \<Longrightarrow> entry_done x content OpPut k v (if 0 < sint ttl then now + ttl else 0) (Suc (o_nextTs (g_oracle g))) g g1"
proof -
  let ?e = "if 0 < sint ttl then now + ttl else 0"
  obtain ret err g1 where s: "submit x now (entryReq OpPut k v ?e False) g = Some ((ret, err), g1)" "eng_inv x cinv view content g1" "room_left n g1"
    "g_diskFull g1 = g_diskFull g"
    "if err \<noteq> None then answer x content g1 = answer x content g
     else if False \<and> current x content g now k = None then ret = 0 \<and> answer x content g1 = answer x content g
     else ret = 1 \<and> entry_done x content OpPut k v ?e (Suc (o_nextTs (g_oracle g))) g g1"
    using submitEntry_ok [OF inv iv room len, of OpPut] by blast
  have req: "(emptyReq OpPut k)\<lparr>r_val := v, r_expiresAt := ?e, r_skipWAL := False, r_syncWAL := False\<rparr> = entryReq OpPut k v ?e False"
    by (simp add: entryReq_def emptyReq_def)
  have p: "PutEx x now k v ttl g = Some (case err of Some e \<Rightarrow> (Some e, g1) | None \<Rightarrow> (None, incPut g1))"
    using s(1) by (simp add: PutEx_def PutExWithOptions_def PutExAt_def noOptions_def req)
  show thesis
  proof (cases err)
    case None
    show thesis by (rule that [of None "incPut g1"]) (use p s None incStats_ok [OF s(2)] in \<open>simp_all add: entry_done_def incPut_def\<close>)
  next
    case (Some e)
    show thesis by (rule that [of "Some e" g1]) (use p s Some in simp_all)
  qed
qed

lemma EngDelete_ok:
  assumes inv: "eng_inv x cinv view content g" and iv: "\<forall>f. length (gx_iv x f) = 16" and room: "room_left (Suc (Suc n)) g"
    and len: "length k < 2 ^ 32"
  obtains r g1 where "EngDelete x now k g = Some (r, g1)" "eng_inv x cinv view content g1" "room_left n g1" "g_diskFull g1 = g_diskFull g"
    "case r of Inl e \<Rightarrow> answer x content g1 = answer x content g
     | Inr existed \<Rightarrow> existed = (current x content g now k \<noteq> None) \<and>
         (if existed then entry_done x content OpDelete k [] 0 (Suc (o_nextTs (g_oracle g))) g g1 else answer x content g1 = answer x content g)"
proof -
  obtain ret err g1 where s: "submit x now (entryReq OpDelete k [] 0 True) g = Some ((ret, err), g1)" "eng_inv x cinv view content g1" "room_left n g1"
    "g_diskFull g1 = g_diskFull g"
    "if err \<noteq> None then answer x content g1 = answer x content g
     else if True \<and> current x content g now k = None then ret = 0 \<and> answer x content g1 = answer x content g
     else ret = 1 \<and> entry_done x content OpDelete k [] 0 (Suc (o_nextTs (g_oracle g))) g g1"
    by (rule submitEntry_ok [OF inv iv room len _ disjI2 [OF refl], where v = "[]"]) (simp, blast)
  have req: "(emptyReq OpDelete k)\<lparr>r_checkExists := True\<rparr> = entryReq OpDelete k [] 0 True" by (simp add: entryReq_def emptyReq_def)
  have p: "EngDelete x now k g = Some (case err of Some e \<Rightarrow> (Inl e, g1) | None \<Rightarrow> if ret = 0 then (Inr False, g1) else (Inr True, incDel g1))"
    using s(1) by (simp add: EngDelete_def req)
  show thesis
  proof (cases "err = None \<and> ret \<noteq> 0")
    case True
    show thesis by (rule that [of "Inr True" "incDel g1"])
        (use p s True incStats_ok [OF s(2)] in \<open>auto simp: entry_done_def incDel_def split: if_splits\<close>)
  next
    case False
    show thesis by (rule that [of "case err of None \<Rightarrow> Inr False | Some e \<Rightarrow> Inl e" g1])
        (use p s False in \<open>auto split: if_splits option.splits\<close>)
  qed
qed

section \<open>Increments\<close>

text \<open>The number an increment starts from: that of the live value, \<open>0\<close> for an empty or missing one.\<close>

definition counterOf :: "(bytes \<times> i64) option \<Rightarrow> i64 option" where
  "counterOf cur = (case cur of None \<Rightarrow> Some 0 | Some (v, _) \<Rightarrow> if v = [] then Some 0 else ParseInt v)"

text \<open>The expiry it keeps.\<close>

definition keptExpiry :: "i64 \<Rightarrow> (bytes \<times> i64) option \<Rightarrow> i64" where
  "keptExpiry now cur = (case cur of None \<Rightarrow> 0 | Some (_, exp) \<Rightarrow> let ttl = calcRemaining now exp in if 0 < sint ttl then now + ttl else 0)"

lemma processIncr_entry:
  "processIncr x now k d seq g =
     do { (ttl, g1) \<leftarrow> TTL x now k g;
          (current, g2) \<leftarrow> getForReadAt x now k seq g1;
          case (case current of
                  Inr v \<Rightarrow> (if v = [] then Inr 0 else case ParseInt v of None \<Rightarrow> Inl EngNotInteger | Some n \<Rightarrow> Inr n)
                | Inl e \<Rightarrow> if e = EngKeyNotFound then Inr 0 else Inl e) of
            Inl e \<Rightarrow> Some (Inl e, g2)
          | Inr cur \<Rightarrow> map_option (\<lambda>(err, g3). (case err of Some e \<Rightarrow> Inl e | None \<Rightarrow> Inr (cur + d), g3))
              (applyEntry x OpPut k (FormatInt (cur + d)) (if 0 < sint ttl then now + ttl else 0) seq g2) }"
proof -
  have tail: "(let newVal = cur + d; newBytes = FormatInt newVal; threshold = valueThreshold x g2; g3 = recordValueSize (length newBytes) g2
     in if int (length newBytes) < threshold then
          (case walWrite x OpPut k newBytes exp seq g3 of
             (Some e, g4) \<Rightarrow> Some (Inl e, g4)
           | (None, g4) \<Rightarrow> map_option (Pair (Inr newVal)) (memPut k (encodeInlineValue newBytes) exp seq g4))
        else
          (case vlogWrite x k newBytes exp g3 of
             (Inl e, g4) \<Rightarrow> Some (Inl e, g4)
           | (Inr vp, g4) \<Rightarrow>
               (let (_, g5) = walWrite x OpPut k (encodeWalValuePointer vp) exp seq g4
                in map_option (Pair (Inr newVal)) (memPut k (encodeValuePointer vp) exp seq g5)))) =
     map_option (\<lambda>(err, g3). (case err of Some e \<Rightarrow> Inl e | None \<Rightarrow> Inr (cur + d), g3)) (applyEntry x OpPut k (FormatInt (cur + d)) exp seq g2)"
    for cur exp g2
    by (auto simp: applyEntry_def op_distinct Let_def option.map_comp comp_def split: prod.split option.split sum.split)
  show ?thesis unfolding processIncr_def Let_def [of "if _ then _ else _"] tail by (rule refl)
qed

lemma fmtNat_length: "n < 10 ^ Suc m \<Longrightarrow> length (fmtNat n) \<le> Suc m"
proof (induction m arbitrary: n)
  case (Suc m)
  then have "n div 10 < 10 ^ Suc m" by (simp add: less_mult_imp_div_less)
  from Suc.IH [OF this] show ?case by (subst fmtNat.simps) simp
qed (simp add: fmtNat.simps)

lemma FormatInt_length: "length (FormatInt v) < 2 ^ 32"
proof -
  have "- (2 ^ 63) \<le> sint v" "sint v < 2 ^ 63" using sint_range_size [of v] by (simp_all add: word_size)
  then have "nat (sint v) < 10 ^ Suc 18" "nat (- sint v) < 10 ^ Suc 18" by auto
  from this [THEN fmtNat_length] show ?thesis by (simp add: FormatInt_def fmtInt_def)
qed

lemma getForReadAt_current:
  assumes inv: "eng_inv x cinv view content g" and seq: "seq_ok seq g" "CurrentVersion (g_memTable g) < of_nat seq"
  obtains g1 where "getForReadAt x now k seq g = Some (reply_of (current x content g now k), g1)" "quiet x content g g1" "eng_inv x cinv view content g1"
proof -
  obtain g1 where "getByAt x now k (of_nat seq) g = Some (reply_of (answer x content g now k (of_nat seq)), g1)" "quiet x content g g1"
    "eng_inv x cinv view content g1" by (rule getByAt_ok [OF inv])
  then show thesis using that answer_current [OF inv, of "of_nat seq"] seq by (simp add: getForReadAt_def seq_ok_def)
qed

lemma processIncr_ok:
  assumes inv: "eng_inv x cinv view content g" and iv: "\<forall>f. length (gx_iv x f) = 16" and room: "room_left (Suc n) g" "fids_left (Suc (Suc n)) g"
    and len: "length k < 2 ^ 32" and seq: "seq_ok seq g" "CurrentVersion (g_memTable g) < of_nat seq"
  obtains r g2 where "processIncr x now k d seq g = Some (r, g2)" "eng_inv x cinv view content (flushBackpressure x (markApplied seq g2))"
    "room_left n (flushBackpressure x (markApplied seq g2))" "g_diskFull g2 = g_diskFull g"
    "case counterOf (current x content g now k) of
       None \<Rightarrow> r = Inl EngNotInteger \<and> answer x content (flushBackpressure x (markApplied seq g2)) = answer x content g
     | Some c \<Rightarrow> case r of
         Inl _ \<Rightarrow> answer x content (flushBackpressure x (markApplied seq g2)) = answer x content g
       | Inr v \<Rightarrow> v = c + d \<and> entry_done x content OpPut k (FormatInt (c + d)) (keptExpiry now (current x content g now k)) seq g
           (flushBackpressure x (markApplied seq g2))"
proof -
  let ?cur = "current x content g now k"
  obtain g1 where t: "TTL x now k g = Some (case ?cur of None \<Rightarrow> - 2 | Some (_, exp) \<Rightarrow> calcRemaining now exp, g1)" "quiet x content g g1"
    "eng_inv x cinv view content g1" by (rule TTL_ok [OF inv])
  have s1: "seq_ok seq g1" "CurrentVersion (g_memTable g1) < of_nat seq" using seq quiet_room [OF t(2)] quiet_fields [OF t(2)] by simp_all
  have cur1: "current x content g1 now k = ?cur" using quiet_answer [OF t(2)] by (simp add: current_def)
  obtain g2 where g: "getForReadAt x now k seq g1 = Some (reply_of ?cur, g2)" "quiet x content g1 g2" "eng_inv x cinv view content g2"
    using getForReadAt_current [OF t(3) s1, of now k] cur1 by metis
  have q: "quiet x content g g2" by (rule quiet_trans [OF t(2) g(2)])
  have s2: "room_left (Suc n) g2" "fids_left (Suc (Suc n)) g2" "seq_ok seq g2" "CurrentVersion (g_memTable g2) < of_nat seq"
    using seq room quiet_room [OF q] quiet_fields [OF q] by simp_all
  show thesis
  proof (cases "counterOf ?cur")
    case None
    note m = markApplied_ok [OF g(3), where seq = seq]
    have "room_left (Suc n) (markApplied seq g2)" using s2(1) by (simp add: m(3))
    note fb = flushBackpressure_ok [OF m(1) iv this]
    have "processIncr x now k d seq g = Some (Inl EngNotInteger, g2)"
      using None t(1) g(1) by (auto simp: processIncr_entry counterOf_def reply_of_def split: option.splits if_splits)
    then show thesis by (rule that [OF _ fb(1,3)]) (use None fb(2) m(2) quiet_answer [OF q] quiet_fields [OF q] in simp_all)
  next
    case (Some c)
    obtain r g3 where c: "applyEntry x OpPut k (FormatInt (c + d)) (keptExpiry now ?cur) seq g2 = Some (r, g3)"
      "eng_inv x cinv view content (flushBackpressure x (markApplied seq g3))"
      "room_left n (flushBackpressure x (markApplied seq g3))" "g_diskFull g3 = g_diskFull g2"
      "r \<noteq> None \<Longrightarrow> answer x content (flushBackpressure x (markApplied seq g3)) = answer x content g2"
      "r = None \<Longrightarrow> entry_done x content OpPut k (FormatInt (c + d)) (keptExpiry now ?cur) seq g2 (flushBackpressure x (markApplied seq g3))"
      using apply_finish [OF g(3) iv s2(1,2) len FormatInt_length s2(3,4)] by blast
    have "processIncr x now k d seq g = Some (case r of Some e \<Rightarrow> Inl e | None \<Rightarrow> Inr (c + d), g3)"
      using Some t(1) g(1) c(1) by (auto simp: processIncr_entry counterOf_def keptExpiry_def reply_of_def Let_def split: option.splits if_splits)
    then show thesis by (rule that [OF _ c(2,3)])
        (use Some c(4-6) quiet_answer [OF q] quiet_fields [OF q] in \<open>auto simp: entry_done_def split: option.splits\<close>)
  qed
qed

lemma IncrBy_ok:
  assumes inv: "eng_inv x cinv view content g" and iv: "\<forall>f. length (gx_iv x f) = 16" and room: "room_left (Suc (Suc n)) g"
    and len: "length k < 2 ^ 32"
  obtains r g1 where "IncrBy x now k d g = Some (r, g1)" "eng_inv x cinv view content g1" "room_left n g1" "g_diskFull g1 = g_diskFull g"
    "case r of
       Inl _ \<Rightarrow> answer x content g1 = answer x content g
     | Inr v \<Rightarrow> \<exists>c. counterOf (current x content g now k) = Some c \<and> v = c + d \<and>
         entry_done x content OpPut k (FormatInt (c + d)) (keptExpiry now (current x content g now k)) (Suc (o_nextTs (g_oracle g))) g g1"
proof -
  let ?r = "(emptyReq opIncr k)\<lparr>r_delta := d\<rparr>"
  have rf: "r_op ?r = opIncr" "r_key ?r = k" "r_delta ?r = d" "r_seq ?r = 0" "\<not> r_syncWAL ?r" by (simp_all add: emptyReq_def)
  show thesis
  proof (cases "g_diskFull g")
    case True
    have "room_left (Suc n) g" by (rule room_left_mono [OF room]) simp
    note fb = flushBackpressure_ok [OF inv iv this]
    have "submit x now ?r g = Some ((0, Some EngDiskFull), flushBackpressure x g)"
      by (rule submit_plain [OF rf(5)]) (simp add: dispatch_def rf dispatchIncr_def True)
    then have "IncrBy x now k d g = Some (Inl EngDiskFull, flushBackpressure x g)" by (simp add: IncrBy_def)
    then show thesis by (rule that [OF _ fb(1,3)]) (simp_all add: fb(2))
  next
    case False
    obtain seq g1 where a: "assignSeq 0 g = (seq, g1)" "eng_inv x cinv view content g1" "answer x content g1 = answer x content g"
      "seq_ok seq g1" "CurrentVersion (g_memTable g1) < of_nat seq" "room_left (Suc n) g1" "fids_left (Suc (Suc n)) g1"
      "seq = Suc (o_nextTs (g_oracle g))"
      using assignSeq_ok [OF inv room] by metis
    have df: "g_diskFull g1 = g_diskFull g" using assignSeq_diskFull [of 0 g] a(1) by simp
    have cur: "current x content g1 = current x content g" using a(3) by (simp add: current_def fun_eq_iff)
    obtain r g2 where p: "processIncr x now k d seq g1 = Some (r, g2)" "eng_inv x cinv view content (flushBackpressure x (markApplied seq g2))"
      "room_left n (flushBackpressure x (markApplied seq g2))" "g_diskFull g2 = g_diskFull g1"
      "case counterOf (current x content g1 now k) of
         None \<Rightarrow> r = Inl EngNotInteger \<and> answer x content (flushBackpressure x (markApplied seq g2)) = answer x content g1
       | Some c \<Rightarrow> case r of
           Inl _ \<Rightarrow> answer x content (flushBackpressure x (markApplied seq g2)) = answer x content g1
         | Inr v \<Rightarrow> v = c + d \<and> entry_done x content OpPut k (FormatInt (c + d)) (keptExpiry now (current x content g1 now k)) seq g1
             (flushBackpressure x (markApplied seq g2))"
      by (rule processIncr_ok [OF a(2) iv a(6,7) len a(4,5)])
    let ?g = "flushBackpressure x (markApplied seq g2)"
    have "submit x now ?r g = Some (case r of Inl e \<Rightarrow> (0, Some e) | Inr v \<Rightarrow> (v, None), ?g)"
      by (rule submit_plain [OF rf(5)]) (simp add: dispatch_def rf dispatchIncr_def False a(1) p(1))
    then have i: "IncrBy x now k d g = Some (case r of Inl e \<Rightarrow> (Inl e, ?g) | Inr v \<Rightarrow> (Inr v, incPut ?g))"
      by (simp add: IncrBy_def split: sum.split)
    show thesis
    proof (cases r)
      case (Inl e)
      show thesis by (rule that [of "Inl e" ?g]) (use i p Inl a(3) df in \<open>auto split: option.splits\<close>)
    next
      case (Inr v)
      show thesis by (rule that [of "Inr v" "incPut ?g"])
          (use i p Inr a(3,8) df cur incStats_ok [OF p(2)] in \<open>auto simp: entry_done_def incPut_def split: option.splits\<close>)
    qed
  qed
qed

end
