(* ===== verification/Recovery.thy ===== *)
theory Recovery
  imports Engine_Ops
begin

text \<open>
  Opening and closing the engine (\<open>OpenEngineWithOpts\<close> and \<open>Close\<close> of \<open>engine.go\<close>): the manifest says which table files
  belong to which level, rotated logs that were not flushed are read back before the active one and merged into it, and the
  records of the logs are replayed into the memtable.
\<close>

section \<open>The data directory\<close>

text \<open>Files by their sequence numbers, in the order of the directory listing.\<close>

record dataDir =
  dd_manifest :: bytes
  dd_ssts :: "(u64 \<times> bytes) list"
  dd_oldWals :: "(u64 \<times> bytes) list"
  dd_wal :: bytes
  dd_vlog :: "(u32 \<times> bytes) list"
  dd_vlogDiscards :: "bytes option"
  dd_discards :: "bytes option"

definition emptyDir :: dataDir where
  "emptyDir = \<lparr>dd_manifest = [], dd_ssts = [], dd_oldWals = [], dd_wal = [], dd_vlog = [], dd_vlogDiscards = None, dd_discards = None\<rparr>"

text \<open>What opening depends on besides the directory: the clock, the options of the threshold, a new block cache, the order in
  which a map of tables is iterated, the IV of the rewritten log and whether the disk usage exceeds its limit.\<close>

record 'c openParams =
  op_now :: i64
  op_adaptive :: bool
  op_thresholdMax :: int
  op_cache :: "'c option"
  op_tableOrder :: "(u64 \<times> bytes) list \<Rightarrow> (u64 \<times> bytes) list"
  op_recoverIv :: bytes
  op_overLimit :: bool

definition defaultMaxSegmentSize :: nat where "defaultMaxSegmentSize = 128 * 1024 * 1024"

definition recThreshold :: "'c gctx \<Rightarrow> int" where
  "recThreshold x = (if gx_valueThreshold x \<le> 0 then defaultValueThreshold else gx_valueThreshold x)"

definition newThreshold :: "'c gctx \<Rightarrow> 'c openParams \<Rightarrow> AdaptiveThreshold option" where
  "newThreshold x p =
     (if op_adaptive p then
        (let minT = recThreshold x; maxT = (if op_thresholdMax p < minT then minT else op_thresholdMax p)
         in Some (NewAdaptive (3, 4) minT maxT))
      else None)"

text \<open>\<open>DISCARD\<close> has the format of the statistics of the value log.\<close>

definition loadDiscardStats :: "bytes option \<Rightarrow> discardStats" where
  "loadDiscardStats f = ds_Load f []"

definition saveDiscardStats :: "discardStats \<Rightarrow> bytes option \<Rightarrow> bytes option" where
  "saveDiscardStats ds old = ds_Save ds old"

section \<open>Tables\<close>

text \<open>The loop over the tables of the manifest; one that does not open is skipped.\<close>

fun openTables :: "'c ectx \<Rightarrow> (u64 \<Rightarrow> nat option) \<Rightarrow> (u64 \<times> bytes) list \<Rightarrow> sstable list list \<Rightarrow> 'c option \<Rightarrow> sstable list list \<times> 'c option" where
  "openTables lx levels [] acc c = (acc, c)"
| "openTables lx levels ((seq, d) # fs) acc c =
     (case openTable (x_env lx) (x_reg lx) (sstFileName (x_dir lx) seq) d c of
        (Inl _, c1) \<Rightarrow> openTables lx levels fs acc c1
      | (Inr sst, c1) \<Rightarrow>
          (let lvl = (case levels seq of None \<Rightarrow> 0 | Some l \<Rightarrow> if MaxLevels \<le> l then 0 else l)
           in openTables lx levels fs (acc[lvl := acc ! lvl @ [sst\<lparr>t_level := int lvl\<rparr>]]) c1))"

section \<open>Logs\<close>

text \<open>A log that is opened only to be read; one that does not open has no records.\<close>

definition readLog :: "'c gctx \<Rightarrow> bytes \<Rightarrow> bytes \<Rightarrow> wal_rec list" where
  "readLog x iv f =
     (case OpenWal (x_reg (gx_lsm x)) iv False f of Inl _ \<Rightarrow> [] | Inr w \<Rightarrow> fst (Recover (gx_aes x) w))"

text \<open>The records of the rotated logs and of the active one.\<close>

definition gatherRecords :: "'c gctx \<Rightarrow> bytes \<Rightarrow> (u64 \<times> bytes) list \<Rightarrow> bytes \<Rightarrow> wal_rec list" where
  "gatherRecords x iv uncommitted active =
     concat (map (\<lambda>(_, f). readLog x iv f) uncommitted) @ (if active = [] then [] else readLog x iv active)"

fun writeRecords :: "'c gctx \<Rightarrow> wal_rec list \<Rightarrow> wal \<Rightarrow> wal" where
  "writeRecords x [] w = w"
| "writeRecords x (r # rs) w =
     writeRecords x rs (snd (WriteVersionWithTimestamp (gx_aes x) True
       \<lparr>wt_op = wt_op r, wt_key = wt_key r, wt_val = wt_val r, wt_expiresAt = wt_expiresAt r, wt_version = wt_version r,
        wt_timestamp = gx_stamp x (w_currentOffset w)\<rparr> w))"

text \<open>\<open>wal.log.recover\<close>, which replaces the active log; \<open>None\<close> if it cannot be opened.\<close>

definition rewriteLog :: "'c gctx \<Rightarrow> bytes \<Rightarrow> wal_rec list \<Rightarrow> bytes option" where
  "rewriteLog x iv recs =
     (case OpenWal (x_reg (gx_lsm x)) iv False [] of
        Inl _ \<Rightarrow> None
      | Inr rw \<Rightarrow> Some (w_file (CloseWal (snd (SyncWal True (writeRecords x recs rw))))))"

section \<open>Replay\<close>

definition memPutRaw :: "bytes \<Rightarrow> bytes \<Rightarrow> i64 \<Rightarrow> u64 \<Rightarrow> 'c engine \<Rightarrow> 'c engine option" where
  "memPutRaw key val expiresAt version g =
     map_option (\<lambda>mt. g\<lparr>g_memTable := mt\<rparr>) (PutVersion (g_memTable g) key val expiresAt version)"

definition memDeleteRaw :: "bytes \<Rightarrow> u64 \<Rightarrow> 'c engine \<Rightarrow> 'c engine option" where
  "memDeleteRaw key version g = map_option (\<lambda>mt. g\<lparr>g_memTable := mt\<rparr>) (DeleteVersion (g_memTable g) key version)"

definition replayRecord :: "'c gctx \<Rightarrow> i64 \<Rightarrow> wal_rec \<Rightarrow> 'c engine \<Rightarrow> 'c engine option" where
  "replayRecord x now r g =
     (let key = wt_key r; val = wt_val r; exp = wt_expiresAt r; ver = wt_version r
      in if 0 < sint exp \<and> sint exp \<le> sint now then memDeleteRaw key ver g
         else if wt_op r = OpPut then
           (let g1 = trackExpiry key exp g
            in case decodeWalValuePointer val of
                 Some vp \<Rightarrow> memPutRaw key (encodeValuePointer vp) exp ver g1
               | None \<Rightarrow>
                   if int (length val) < recThreshold x then memPutRaw key (encodeInlineValue val) exp ver g1
                   else case vlogWrite x key val exp g1 of
                     (Inl _, g2) \<Rightarrow> memPutRaw key (encodeInlineValue val) exp ver g2
                   | (Inr vp, g2) \<Rightarrow> memPutRaw key (encodeValuePointer vp) exp ver g2)
         else if wt_op r = OpDelete then memDeleteRaw key ver g
         else Some g)"

fun replayAll :: "'c gctx \<Rightarrow> i64 \<Rightarrow> wal_rec list \<Rightarrow> 'c engine \<Rightarrow> 'c engine option" where
  "replayAll x now [] g = Some g"
| "replayAll x now (r # rs) g = replayRecord x now r g \<bind> replayAll x now rs"

definition maxOf :: "u64 \<Rightarrow> u64 list \<Rightarrow> u64" where
  "maxOf m vs = foldl (\<lambda>m v. if m < v then v else m) m vs"

section \<open>Opening\<close>

text \<open>The state before the replay: every file opened, the memtable empty.\<close>

definition openedEngine :: "'c gctx \<Rightarrow> 'c openParams \<Rightarrow> dataDir \<Rightarrow> sstable list list \<Rightarrow> 'c option \<Rightarrow> bytes option \<Rightarrow> vlog \<Rightarrow> wal \<Rightarrow>
    (u64 \<times> bytes) list \<Rightarrow> 'c engine" where
  "openedEngine x p dir tables c mf vl w oldWals =
     \<lparr>g_lsm = \<lparr>l_levels = tables, l_nextSeq = 0, l_cache = c, l_manifest = mf, l_discardStats = loadDiscardStats (dd_discards dir),
        l_vlogDiscards = Some (ds_Load (dd_vlogDiscards dir) []), l_dropped = []\<rparr>,
      g_memTable = NewSkipList (gx_seed x 0), g_immMemTable = None, g_wal = w, g_oldWals = oldWals, g_vl = vl, g_oracle = newOracle,
      g_threshold = newThreshold x p, g_expiryHeap = [], g_expiryAt = [], g_gcPending = [], g_diskFull = False, g_flushChan = [],
      g_stats = \<lparr>PutsTotal = 0, GetsTotal = 0, DeletesTotal = 0, FlushesTotal = 0, CompactionsDone = 0\<rparr>\<rparr>"

text \<open>The counters after the replay.\<close>

definition startCounters :: "u64 \<Rightarrow> bool \<Rightarrow> 'c engine \<Rightarrow> 'c engine" where
  "startCounters maxSeq overLimit g =
     (let o1 = (if 0 < maxSeq then Bump (unat maxSeq) (g_oracle g) else g_oracle g)
      in g\<lparr>g_lsm := (g_lsm g)\<lparr>l_nextSeq := maxSeq\<rparr>, g_oracle := o1,
           g_memTable := SeedVersion (g_memTable g) (of_nat (NextTs o1)), g_diskFull := overLimit\<rparr>)"

definition OpenEngineWithOpts :: "'c gctx \<Rightarrow> 'c openParams \<Rightarrow> dataDir \<Rightarrow> (engine_error + 'c engine) option" where
  "OpenEngineWithOpts x p dir =
     (let lx = gx_lsm x; reg = x_reg lx
      in case openWithMaxSize reg (gx_iv x) defaultMaxSegmentSize (dd_vlog dir) of
           Inl e \<Rightarrow> Some (Inl (EngVlog e))
         | Inr vl \<Rightarrow>
             (let (levels, mf) = readManifest (Some (dd_manifest dir));
                  maxSeq = maxOf 0 (map fst (dd_ssts dir) @ map fst (dd_oldWals dir));
                  known = filter (\<lambda>(seq, _). levels seq \<noteq> None) (dd_ssts dir);
                  uncommitted = sort_key fst (filter (\<lambda>(seq, _). levels seq = None) (dd_oldWals dir));
                  (tables, c) = openTables lx levels (op_tableOrder p known) (replicate MaxLevels []) (op_cache p);
                  gathered = gatherRecords x (op_recoverIv p) uncommitted (dd_wal dir);
                  merged = (if uncommitted = [] then None else rewriteLog x (op_recoverIv p) gathered);
                  (walFile, oldWals) = (case merged of None \<Rightarrow> (dd_wal dir, uncommitted) | Some f \<Rightarrow> (f, []))
              in case OpenWal reg (gx_walIv x 0) True walFile of
                   Inl e \<Rightarrow> Some (Inl (EngWal e))
                 | Inr w0 \<Rightarrow>
                     (let (recs, w) = Recover (gx_aes x) w0; rs = (if uncommitted = [] then recs else gathered)
                      in map_option (\<lambda>g. Inr (startCounters (maxOf maxSeq (map wt_version rs)) (op_overLimit p) g))
                           (replayAll x (op_now p) rs (openedEngine x p dir tables c mf vl w oldWals)))))"

section \<open>Closing\<close>

text \<open>The files of an engine: what a crash leaves of them is what has been written out of the buffers.\<close>

definition filesOf :: "'c engine \<Rightarrow> dataDir" where
  "filesOf g =
     \<lparr>dd_manifest = (case l_manifest (g_lsm g) of None \<Rightarrow> [] | Some f \<Rightarrow> f),
      dd_ssts = map (\<lambda>t. (sstSeqNum (t_filename t), t_data t)) (tablesOf (g_lsm g)),
      dd_oldWals = g_oldWals g, dd_wal = w_file (g_wal g),
      dd_vlog = map (\<lambda>(fid, s). (fid, s_file s)) (filter (\<lambda>(_, s). \<not> s_removed s) (vl_store (g_vl g))),
      dd_vlogDiscards = None, dd_discards = None\<rparr>"

text \<open>\<open>Close\<close> after the goroutines have ended, and the directory it leaves; the statistics are saved over the old files.\<close>

definition CloseEngine :: "bytes option \<Rightarrow> bytes option \<Rightarrow> 'c engine \<Rightarrow> dataDir \<times> 'c engine" where
  "CloseEngine oldDiscards oldVlogDiscards g =
     (let l = g_lsm g; g1 = g\<lparr>g_wal := CloseWal (g_wal g), g_vl := VClose (g_vl g), g_lsm := l\<lparr>l_levels := map (map tClose) (l_levels l)\<rparr>\<rparr>
      in ((filesOf g1)\<lparr>dd_discards := saveDiscardStats (l_discardStats l) oldDiscards,
            dd_vlogDiscards := (case l_vlogDiscards l of None \<Rightarrow> oldVlogDiscards | Some ds \<Rightarrow> ds_Save ds oldVlogDiscards)\<rparr>, g1))"

end
