(* ===== verification/Engine_Props.thy ===== *)
theory Engine_Props
  imports Recovery
begin

text \<open>
  The engine as a whole: from an empty data directory on, every run of client operations and flushes behaves like a map from
  keys to values with an expiry, and every request gets its reply.
\<close>

section \<open>An empty directory\<close>

text \<open>What the engine relies on: the codecs and the cache behave as documented, \<open>sort.Slice\<close> sorts, nonces and IVs have their
  lengths, and the block cache is new.\<close>

definition engine_env :: "'c gctx \<Rightarrow> 'c openParams \<Rightarrow> ('c \<Rightarrow> bool) \<Rightarrow> ('c \<Rightarrow> bytes \<Rightarrow> bytes option) \<Rightarrow> bool" where
  "engine_env x p cinv view \<longleftrightarrow>
     (let lx = gx_lsm x in block_cache (x_env lx) cinv view \<and> env_ok (x_env lx) \<and> codecs_bounded (x_env lx) \<and> reg_good (x_reg lx) \<and> ctx_ok lx) \<and>
     slice_sort version_less (gx_sortAll x) \<and> (\<forall>f. length (gx_iv x f) = 16) \<and> (\<forall>right. agrees cinv view right (op_cache p)) \<and>
     (\<forall>fs. mset (op_tableOrder p fs) = mset fs)"

lemma openVlog_empty:
  assumes "reg_ok reg" "\<forall>f. length (iv f) = 16"
  obtains vl where "openWithMaxSize reg iv defaultMaxSegmentSize [] = Inr vl" "vl_inv E vl [] {#}" "vl_nextFid vl = 1"
proof -
  obtain s where s: "openSegment reg (iv 1) 1 defaultMaxSegmentSize [] = Inr s"
    using openSegment_fresh [OF assms(1)] assms(2) by metis
  then obtain vl where vl: "openWithMaxSize reg iv defaultMaxSegmentSize [] = Inr vl" "vl_nextFid vl = 1"
    by (simp add: openWithMaxSize_def leftFile_def)
  then show thesis using that open_inv [OF vl(1) assms(1) _ assms(2), of E] by (simp add: defaultMaxSegmentSize_def)
qed

lemma recover_empty: "OpenWal reg iv sync [] = Inr w \<Longrightarrow> fst (Recover E w) = []"
proof -
  assume w: "OpenWal reg iv sync [] = Inr w"
  have r: "recoverLoop E enc n pos [] = ([], pos)" for enc n pos by (subst recoverLoop.simps) (simp add: walHeaderSize_def)
  have "drop (w_fileHdr w) (w_file (Flush w)) = []"
    using w by (cases reg) (auto simp: OpenWal_def Flush_def Let_def walEncHeaderSize_def split: prod.splits)
  then show ?thesis by (simp add: Recover_def Let_def r)
qed

lemma open_empty:
  assumes env: "engine_env x p cinv view"
  obtains g where "OpenEngineWithOpts x p emptyDir = Some (Inr g)" "eng_inv x cinv view (\<lambda>_. []) g" "room_left (2 ^ 31) g"
    "\<forall>now k. current x (\<lambda>_. []) g now k = None" "g_diskFull g = op_overLimit p"
proof -
  let ?lx = "gx_lsm x"
  have E: "block_cache (x_env ?lx) cinv view" "env_ok (x_env ?lx)" "codecs_bounded (x_env ?lx)" "reg_good (x_reg ?lx)" "\<forall>f. length (gx_iv x f) = 16"
    "\<forall>right. agrees cinv view right (op_cache p)" using env by (simp_all add: engine_env_def Let_def)
  obtain vl where vl: "openWithMaxSize (x_reg ?lx) (gx_iv x) defaultMaxSegmentSize [] = Inr vl" "vl_inv (gx_aes x) vl [] {#}" "vl_nextFid vl = 1"
    using openVlog_empty [OF _ E(5)] E(4) by (auto simp: reg_good_def)
  obtain w0 where w0: "OpenWal (x_reg ?lx) (gx_walIv x 0) True [] = Inr w0" using OpenWal_new by blast
  obtain w where w: "Recover (gx_aes x) w0 = ([], w)" using recover_empty [OF w0] by (metis prod.collapse)
  have mf: "readManifest (Some []) = (Map.empty, Some [])" by (simp add: readManifest_def Manifest.readRecords.simps)
  define g where "g = startCounters 0 (op_overLimit p) (openedEngine x p emptyDir (replicate MaxLevels []) (op_cache p) (Some []) vl w [])"
  have f: "dd_vlog emptyDir = []" "dd_manifest emptyDir = []" "dd_ssts emptyDir = []" "dd_oldWals emptyDir = []" "dd_wal emptyDir = []"
    by (simp_all add: emptyDir_def)
  have "mset (op_tableOrder p []) = mset []" using env unfolding engine_env_def by blast
  then have ord: "op_tableOrder p [] = []" by simp
  have op: "OpenEngineWithOpts x p emptyDir = Some (Inr g)"
    unfolding OpenEngineWithOpts_def Let_def f vl(1) mf using w0 w ord by (simp add: g_def maxOf_def gatherRecords_def)
  have g: "g_memTable g = SeedVersion (NewSkipList (gx_seed x 0)) 1" "g_immMemTable g = None" "g_flushChan g = []" "g_vl g = vl" "o_nextTs (g_oracle g) = 1"
    "l_levels (g_lsm g) = replicate MaxLevels []" "l_nextSeq (g_lsm g) = 0" "l_cache (g_lsm g) = op_cache p" "g_diskFull g = op_overLimit p"
    by (simp_all add: g_def startCounters_def openedEngine_def Let_def newOracle_def NextTs_def)
  have "level (g_lsm g) a = []" if "a < MaxLevels" for a using that by (simp add: level_def g)
  then have "searchOrder (g_lsm g) = []" by (simp add: searchOrder_def)
  then have l: "layers (\<lambda>_. []) g = [[]]" by (simp add: layers_def immTables_def tableLayers_def g)
  then have v: "versionsOf (\<lambda>_. []) g = []" by (simp add: versionsOf_def)
  have tb: "tablesOf (g_lsm g) = []" by (simp add: tablesOf_def g)
  have "stored (x_env ?lx) cinv view (x_reg ?lx) (x_dir ?lx) (\<lambda>_. []) {} 0 (op_cache p)" using E by (simp add: stored_def dir_tables_def)
  then have "lsm_inv ?lx cinv view (\<lambda>_. []) ((g_lsm g)\<lparr>l_nextSeq := flushBase g\<rparr>)"
    by (simp add: lsm_inv_def lsm_ok_def tablesOf_def g flushBase_def lvl_distinct_def lsm_order_def MaxLevels_def nth_Cons split: nat.split)
  then have "eng_inv x cinv view (\<lambda>_. []) g"
    using vl(2) by (auto simp: eng_inv_def l v tb g immTables_def flush_ok_def recency_def rawValues_def vals_ok_def consistent_def)
  moreover have "room_left (2 ^ 31) g" using vl(3) by (simp add: room_left_def fids_left_def g)
  moreover have "current x (\<lambda>_. []) g now k = None" for now k by (simp add: current_def answer_def v reads_def snapshot_entry_def best_of_def)
  ultimately show thesis using that op g(9) by blast
qed

section \<open>The specification\<close>

text \<open>A map from keys to values with an expiry, \<open>0\<close> for none.\<close>

type_synonym kvmap = "bytes \<Rightarrow> (bytes \<times> i64) option"

definition alive :: "i64 \<Rightarrow> (bytes \<times> i64) option \<Rightarrow> (bytes \<times> i64) option" where
  "alive now r = (case r of None \<Rightarrow> None | Some (v, exp) \<Rightarrow> if expired now exp then None else Some (v, exp))"

text \<open>Operations with their replies, and the steps of the flush worker.\<close>

datatype engLabel =
    LGet i64 bytes "engine_error + bytes"
  | LTTL i64 bytes i64
  | LPut i64 bytes bytes i64 "engine_error option"
  | LDelete i64 bytes "engine_error + bool"
  | LIncr i64 bytes i64 "engine_error + i64"
  | LBatch i64 "batchEntry list" "engine_error option"
  | LFlush i64

definition spec_batch :: "batchEntry list \<Rightarrow> kvmap \<Rightarrow> kvmap" where
  "spec_batch bs m k = (case find (\<lambda>b. be_key b = k) bs of
     None \<Rightarrow> m k | Some b \<Rightarrow> if be_deleted b then None else Some (be_value b, be_expiresAt b))"

text \<open>What a map says to an operation: the map afterwards if the reply is right, \<open>None\<close> if it is not.  A failed operation
  changes nothing.\<close>

fun spec_step :: "kvmap \<Rightarrow> engLabel \<Rightarrow> kvmap option" where
  "spec_step m (LGet now k r) = (if r = reply_of (alive now (m k)) then Some m else None)"
| "spec_step m (LTTL now k t) =
     (if t = (case alive now (m k) of None \<Rightarrow> - 2 | Some (_, exp) \<Rightarrow> calcRemaining now exp) then Some m else None)"
| "spec_step m (LPut now k v ttl err) =
     Some (if err = None then m(k \<mapsto> (v, if 0 < sint ttl then now + ttl else 0)) else m)"
| "spec_step m (LDelete now k r) =
     (case r of Inl _ \<Rightarrow> Some m
      | Inr b \<Rightarrow> if b = (alive now (m k) \<noteq> None) then Some (if b then m(k := None) else m) else None)"
| "spec_step m (LIncr now k d r) =
     (case r of Inl _ \<Rightarrow> Some m
      | Inr v \<Rightarrow> (case counterOf (alive now (m k)) of
           None \<Rightarrow> None
         | Some c \<Rightarrow> if v = c + d then Some (m(k \<mapsto> (FormatInt v, keptExpiry now (alive now (m k))))) else None))"
| "spec_step m (LBatch now bs err) = Some (if err = None then spec_batch bs m else m)"
| "spec_step m (LFlush now) = Some m"

fun spec_run :: "kvmap \<Rightarrow> engLabel list \<Rightarrow> kvmap option" where
  "spec_run m [] = Some m"
| "spec_run m (l # ls) = spec_step m l \<bind> (\<lambda>m1. spec_run m1 ls)"

section \<open>Runs\<close>

definition small_req :: "bytes \<Rightarrow> bytes \<Rightarrow> bool" where
  "small_req k v \<longleftrightarrow> length k < 2 ^ 32 \<and> length v < 2 ^ 32"

text \<open>Requests whose lengths fit the fields of the log, batches without conflicting entries for a key, and flushes of memtables
  that satisfy \<open>flushable\<close>; the binary search of a block can miss versions of a key that straddle a restart
  (\<open>straddle_lost\<close> of theory \<open>Block_Correct\<close>).\<close>

inductive eng_step :: "'c gctx \<Rightarrow> 'c engine \<Rightarrow> engLabel \<Rightarrow> 'c engine \<Rightarrow> bool" for x where
  es_get: "EngGet x now k g = Some (r, g1) \<Longrightarrow> eng_step x g (LGet now k r) g1"
| es_ttl: "TTL x now k g = Some (t, g1) \<Longrightarrow> eng_step x g (LTTL now k t) g1"
| es_put: "PutEx x now k v ttl g = Some (err, g1) \<Longrightarrow> small_req k v \<Longrightarrow> eng_step x g (LPut now k v ttl err) g1"
| es_delete: "EngDelete x now k g = Some (r, g1) \<Longrightarrow> small_req k [] \<Longrightarrow> eng_step x g (LDelete now k r) g1"
| es_incr: "IncrBy x now k d g = Some (r, g1) \<Longrightarrow> small_req k [] \<Longrightarrow> eng_step x g (LIncr now k d r) g1"
| es_batch: "BatchApply x now bs g = Some (err, g1) \<Longrightarrow> bs \<noteq> [] \<Longrightarrow> small_batch bs \<Longrightarrow> batch_agree bs \<Longrightarrow> eng_step x g (LBatch now bs err) g1"
| es_flush: "flushWorkerStep x now g = Some g1 \<Longrightarrow> \<forall>task \<in> set (g_flushChan g). flushable x (ft_memTable task) \<Longrightarrow> eng_step x g (LFlush now) g1"

inductive eng_run :: "'c gctx \<Rightarrow> 'c engine \<Rightarrow> engLabel list \<Rightarrow> 'c engine \<Rightarrow> bool" for x where
  er_nil: "eng_run x g [] g"
| er_cons: "eng_step x g l g1 \<Longrightarrow> eng_run x g1 ls g2 \<Longrightarrow> eng_run x g (l # ls) g2"

inductive_cases eng_run_Cons: "eng_run x g (l # ls) g2"

text \<open>The timestamps an operation may use up.\<close>

fun label_cost :: "engLabel \<Rightarrow> nat" where
  "label_cost (LPut _ _ _ _ _) = 2"
| "label_cost (LDelete _ _ _) = 2"
| "label_cost (LIncr _ _ _ _) = 2"
| "label_cost (LBatch _ bs _) = Suc (length bs)"
| "label_cost _ = 0"

definition shows_map :: "'c gctx \<Rightarrow> (sstable \<Rightarrow> entry list) \<Rightarrow> 'c engine \<Rightarrow> kvmap \<Rightarrow> bool" where
  "shows_map x content g m \<longleftrightarrow> (\<forall>now k. current x content g now k = alive now (m k))"

definition eng_state :: "'c gctx \<Rightarrow> ('c \<Rightarrow> bool) \<Rightarrow> ('c \<Rightarrow> bytes \<Rightarrow> bytes option) \<Rightarrow> nat \<Rightarrow> 'c engine \<Rightarrow> kvmap \<Rightarrow> bool" where
  "eng_state x cinv view n g m \<longleftrightarrow> (\<exists>content. eng_inv x cinv view content g \<and> shows_map x content g m) \<and> room_left n g"

lemma max_seq: "(of_nat seq :: u64) \<le> - 1"
  by simp

lemma eng_state_same:
  assumes "shows_map x content g m" "answer x content1 g1 = answer x content g" "eng_inv x cinv view content1 g1" "room_left n g1"
  shows "eng_state x cinv view n g1 m"
  using assms by (auto simp: eng_state_def shows_map_def current_def)

lemma eng_state_entry:
  assumes "shows_map x content g m" "entry_done x content op k v e seq g g1" "eng_inv x cinv view content g1" "room_left n g1"
  shows "eng_state x cinv view n g1 (m(k := if op = OpDelete then None else Some (v, e)))"
  using assms by (auto simp: eng_state_def shows_map_def current_def entry_done_def alive_def intro!: exI [of _ content])

lemma eng_state_batch:
  assumes "shows_map x content g m" "batch_done x content bs seq None g g1" "eng_inv x cinv view content g1" "room_left n g1"
  shows "eng_state x cinv view n g1 (spec_batch bs m)"
  using assms by (auto simp: eng_state_def shows_map_def current_def batch_done_def batchSays_def spec_batch_def alive_def
      intro!: exI [of _ content] split: option.split)

lemma batch_done_error: "batch_done x content bs seq (Some e) g g1 \<longleftrightarrow> answer x content g1 = answer x content g"
  by (simp add: batch_done_def)

lemma eng_state_quiet:
  assumes "shows_map x content g m" "quiet x content g g1" "eng_inv x cinv view content g1" "room_left n g"
  shows "eng_state x cinv view n g1 m"
  by (rule eng_state_same [OF assms(1) quiet_answer [OF assms(2)] assms(3)]) (simp add: quiet_room [OF assms(2)] assms(4))

section \<open>Simulation\<close>

lemma eng_step_sim:
  assumes env: "engine_env x p cinv view" and st: "eng_state x cinv view (label_cost l + n) g m" and step: "eng_step x g l g1"
  shows "\<exists>m1. spec_step m l = Some m1 \<and> eng_state x cinv view n g1 m1"
proof -
  obtain content where inv: "eng_inv x cinv view content g" and sm: "shows_map x content g m" and room: "room_left (label_cost l + n) g"
    using st by (auto simp: eng_state_def)
  have cur: "current x content g now k = alive now (m k)" for now k using sm by (simp add: shows_map_def)
  have iv: "\<forall>f. length (gx_iv x f) = 16" using env by (simp add: engine_env_def)
  from step show ?thesis
  proof cases
    case (es_get now k r)
    obtain g2 where "EngGet x now k g = Some (reply_of (current x content g now k), g2)" "quiet x content g g2" "eng_inv x cinv view content g2"
      by (rule EngGet_ok [OF inv])
    then show ?thesis using es_get eng_state_quiet [OF sm _ _ room] by (simp add: cur)
  next
    case (es_ttl now k t)
    obtain g2 where "TTL x now k g = Some (case current x content g now k of None \<Rightarrow> - 2 | Some (_, exp) \<Rightarrow> calcRemaining now exp, g2)"
      "quiet x content g g2" "eng_inv x cinv view content g2" by (rule TTL_ok [OF inv])
    then show ?thesis using es_ttl eng_state_quiet [OF sm _ _ room] by (simp add: cur)
  next
    case (es_put now k v ttl err)
    have rm: "room_left (Suc (Suc n)) g" using room es_put by simp
    obtain e g2 where "PutEx x now k v ttl g = Some (e, g2)" "eng_inv x cinv view content g2" "room_left n g2" "g_diskFull g2 = g_diskFull g"
      "e \<noteq> None \<Longrightarrow> answer x content g2 = answer x content g"
      "e = None \<Longrightarrow> entry_done x content OpPut k v (if 0 < sint ttl then now + ttl else 0) (Suc (o_nextTs (g_oracle g))) g g2"
      using PutEx_ok [OF inv iv rm, of k v] es_put(3) unfolding small_req_def by blast
    then show ?thesis using es_put(1,2) eng_state_same [OF sm, of content g2 cinv view n] eng_state_entry [OF sm, of OpPut k v _ _ g2 cinv view n]
      by (cases e) (simp_all add: op_distinct)
  next
    case (es_delete now k r)
    have rm: "room_left (Suc (Suc n)) g" using room es_delete by simp
    obtain r2 g2 where "EngDelete x now k g = Some (r2, g2)" "eng_inv x cinv view content g2" "room_left n g2" "g_diskFull g2 = g_diskFull g"
      "case r2 of Inl e \<Rightarrow> answer x content g2 = answer x content g
       | Inr existed \<Rightarrow> existed = (current x content g now k \<noteq> None) \<and>
         (if existed then entry_done x content OpDelete k [] 0 (Suc (o_nextTs (g_oracle g))) g g2 else answer x content g2 = answer x content g)"
      using EngDelete_ok [OF inv iv rm, of k] es_delete(3) unfolding small_req_def by blast
    then show ?thesis using es_delete(1,2) eng_state_same [OF sm, of content g2 cinv view n] eng_state_entry [OF sm, of OpDelete k "[]" 0 _ g2 cinv view n]
      by (cases r2) (auto simp: cur split: if_splits)
  next
    case (es_incr now k d r)
    have rm: "room_left (Suc (Suc n)) g" using room es_incr by simp
    obtain r2 g2 where "IncrBy x now k d g = Some (r2, g2)" "eng_inv x cinv view content g2" "room_left n g2" "g_diskFull g2 = g_diskFull g"
      "case r2 of
         Inl _ \<Rightarrow> answer x content g2 = answer x content g
       | Inr v \<Rightarrow> \<exists>c. counterOf (current x content g now k) = Some c \<and> v = c + d \<and>
           entry_done x content OpPut k (FormatInt (c + d)) (keptExpiry now (current x content g now k)) (Suc (o_nextTs (g_oracle g))) g g2"
      using IncrBy_ok [OF inv iv rm, of k] es_incr(3) unfolding small_req_def by blast
    then show ?thesis using es_incr(1,2) eng_state_same [OF sm, of content g2 cinv view n] eng_state_entry [OF sm, of OpPut k _ _ _ g2 cinv view n]
      by (cases r2) (auto simp: cur op_distinct)
  next
    case (es_batch now bs err)
    have rm: "room_left (length bs + n + 1) g" using room es_batch by (simp add: add.commute)
    obtain e g2 where "submitBatch x now bs g = Some (e, g2)" "eng_inv x cinv view content g2" "room_left n g2"
      "batch_done x content bs (Suc (o_nextTs (g_oracle g))) e g g2"
      using submitBatch_ok [OF inv iv rm es_batch(3-5)] by blast
    then show ?thesis using es_batch(1,2) eng_state_same [OF sm, of content g2 cinv view n] eng_state_batch [OF sm, of bs _ g2 cinv view n]
      by (cases e) (auto simp: BatchApply_def batch_done_error)
  next
    case (es_flush now)
    have x: "ctx_ok (gx_lsm x)" "slice_sort version_less (gx_sortAll x)" using env by (simp_all add: engine_env_def Let_def)
    consider "g_flushChan g = []" | task where "g_flushChan g = [task]" using inv by (auto simp: eng_inv_def flush_ok_def)
    then show ?thesis
    proof cases
      case 1
      then show ?thesis using es_flush st by (simp add: flushWorkerStep_def)
    next
      case (2 task)
      have fl: "flushable x (ft_memTable task)" using es_flush(3) 2 by simp
      obtain g2 content1 where f: "flushWorkerStep x now g = Some g2" "eng_inv x cinv view content1 g2" "answer x content1 g2 = answer x content g"
        "g_oracle g2 = g_oracle g" "g_vl g2 = g_vl g" "l_nextSeq (g_lsm g2) = l_nextSeq (g_lsm g)"
        using flushWorkerStep_ok [OF inv 2 x fl, where now = now] by blast
      have "room_left n g2" using room es_flush(1) f(4-6) by (simp add: room_left_def fids_left_def)
      then show ?thesis using es_flush(1,2) f(1) eng_state_same [OF sm f(3,2)] by simp
    qed
  qed
qed

lemma eng_run_sim:
  assumes env: "engine_env x p cinv view"
  shows "eng_run x g ls g1 \<Longrightarrow> eng_state x cinv view (sum_list (map label_cost ls) + n) g m \<Longrightarrow>
    \<exists>m1. spec_run m ls = Some m1 \<and> eng_state x cinv view n g1 m1"
proof (induction arbitrary: m rule: eng_run.induct)
  case (er_cons g l g1 ls g2)
  have "eng_state x cinv view (label_cost l + (sum_list (map label_cost ls) + n)) g m" using er_cons.prems by (simp add: add.assoc)
  from eng_step_sim [OF env this er_cons.hyps(1)] obtain m1 where
    "spec_step m l = Some m1" "eng_state x cinv view (sum_list (map label_cost ls) + n) g1 m1" by blast
  then show ?case using er_cons.IH by simp
qed simp


section \<open>A concrete engine\<close>

definition exEngine :: "shard list gctx" where
  "exEngine = \<lparr>gx_lsm = exCtx, gx_aes = (\<lambda>k b. b), gx_iv = (\<lambda>_. replicate 16 0), gx_walIv = (\<lambda>_. replicate 16 0), gx_seed = (\<lambda>_. 1),
     gx_stamp = (\<lambda>_. 0), gx_sync = (\<lambda>_. True), gx_valueThreshold = 64, gx_sortAll = insort_by version_less\<rparr>"

definition exOpen :: "shard list openParams" where
  "exOpen = \<lparr>op_now = 0, op_adaptive = True, op_thresholdMax = 100, op_cache = Some (NewLRUCache 4), op_tableOrder = (\<lambda>fs. fs),
     op_recoverIv = replicate 16 0, op_overLimit = False\<rparr>"

lemma exEngine_env: "engine_env exEngine exOpen lruInv (lruView (\<lambda>k. of_nat (length k)))"
  using lru_block_cache exEnv_ok exMisc(1) exCtx_ok(1) slice_sort_version_less new_cache_agrees
  by (simp add: engine_env_def exEngine_def exOpen_def exCtx_def Let_def)


end
