(* ===== verification/Engine_Live.thy ===== *)
theory Engine_Live
  imports Engine_Props
begin

text \<open>
  Every request is answered: a round of the writer ends with one reply per request, whatever the logs, the tables and the
  value log do, as long as the memtables are well formed; and it leaves them well formed.
\<close>

definition mem_wf :: "'c engine \<Rightarrow> bool" where
  "mem_wf g \<longleftrightarrow> sl_wf (g_memTable g) \<and> (\<forall>m. g_immMemTable g = Some m \<longrightarrow> sl_wf m) \<and> (\<forall>task \<in> set (g_flushChan g). sl_wf (ft_memTable task))"

text \<open>A computation returns, in an engine with well-formed memtables.\<close>

definition returns :: "('r \<times> 'c engine) option \<Rightarrow> bool" where
  "returns m \<longleftrightarrow> (\<exists>r g. m = Some (r, g) \<and> mem_wf g)"

definition returnsState :: "'c engine option \<Rightarrow> bool" where
  "returnsState m \<longleftrightarrow> (\<exists>g. m = Some g \<and> mem_wf g)"

lemma returns_Some: "mem_wf (snd p) \<Longrightarrow> returns (Some p)"
  by (cases p) (simp add: returns_def)

lemma returns_bind: "returns m \<Longrightarrow> (\<And>r g. mem_wf g \<Longrightarrow> returns (f (r, g))) \<Longrightarrow> returns (m \<bind> f)"
  by (auto simp: returns_def)

lemma returns_map: "returns m \<Longrightarrow> (\<And>r g. mem_wf g \<Longrightarrow> mem_wf (snd (f (r, g)))) \<Longrightarrow> returns (map_option f m)"
  by (auto simp: returns_def) (metis prod.collapse)

lemma returns_if: "(c \<Longrightarrow> returns a) \<Longrightarrow> (\<not> c \<Longrightarrow> returns b) \<Longrightarrow> returns (if c then a else b)"
  by simp

lemma returns_Pair: "returnsState m \<Longrightarrow> returns (map_option (Pair r) m)"
  by (auto simp: returns_def returnsState_def)

lemma returnsState_bind: "returnsState m \<Longrightarrow> (\<And>g. mem_wf g \<Longrightarrow> returnsState (f g)) \<Longrightarrow> returnsState (m \<bind> f)"
  by (auto simp: returnsState_def)

lemma mem_wf_cong:
  "g_memTable g1 = g_memTable g \<Longrightarrow> g_immMemTable g1 = g_immMemTable g \<Longrightarrow> g_flushChan g1 = g_flushChan g \<Longrightarrow> mem_wf g1 = mem_wf g"
  by (simp add: mem_wf_def)

lemma eng_inv_mem_wf:
  assumes "eng_inv x cinv view content g" shows "mem_wf g"
proof -
  have m: "\<forall>m \<in> set (g_memTable g # immTables g). sl_wf m" and f: "flush_ok g" using assms by (simp_all add: eng_inv_def)
  have "sl_wf m" if "g_immMemTable g = Some m" for m using m that by (simp add: immTables_def)
  then show ?thesis using m f by (auto simp: mem_wf_def flush_ok_def)
qed

section \<open>Reads\<close>

lemma firstHit_returns:
  assumes "mem_wf g" "\<And>m. sl_wf m \<Longrightarrow> mget m \<noteq> None"
  shows "returns (firstHit mget tget g)"
proof -
  have "sl_wf (g_memTable g)" using assms(1) by (simp add: mem_wf_def)
  from assms(2) [OF this] obtain a where a: "mget (g_memTable g) = Some a" by blast
  obtain b where b: "(case g_immMemTable g of None \<Rightarrow> Some (([], False, False, 0), 0) | Some imm \<Rightarrow> mget imm) = Some b"
  proof (cases "g_immMemTable g")
    case (Some m)
    then have "sl_wf m" using assms(1) by (simp add: mem_wf_def)
    from assms(2) [OF this] show thesis using that Some by auto
  qed (use that in simp)
  obtain r c where "searchTables tget (searchOrder (g_lsm g)) (l_cache (g_lsm g)) = (r, c)" by fastforce
  then show ?thesis using assms(1) a b by (cases a; cases b) (auto simp: firstHit_def returns_def mem_wf_def)
qed

lemma resolve_wf: "mem_wf g \<Longrightarrow> mem_wf (snd (resolve x v g))"
  by (auto simp: resolve_def mem_wf_def split: prod.split)

lemma getByAt_returns: "mem_wf g \<Longrightarrow> returns (getByAt x now k ts g)"
  unfolding getByAt_def
  by (rule returns_bind, rule firstHit_returns)
    (auto simp: sl_GetByVersion_refines intro!: returns_Some resolve_wf split: option.split)

lemma latestHit_returns: "mem_wf g \<Longrightarrow> returns (latestHit x now k g)"
  unfolding latestHit_def by (rule returns_map, rule firstHit_returns) (auto simp: sl_Get_latest)

lemma getWithoutLock_returns: "mem_wf g \<Longrightarrow> returns (getWithoutLock x now k g)"
  unfolding getWithoutLock_def by (rule returns_bind, erule latestHit_returns) (auto intro!: returns_Some resolve_wf split: option.split)

lemma existsWithoutLock_returns: "mem_wf g \<Longrightarrow> returns (existsWithoutLock x now k g)"
  unfolding existsWithoutLock_def by (rule returns_bind, erule latestHit_returns) (auto intro!: returns_Some split: option.split)

lemma TTL_returns: "mem_wf g \<Longrightarrow> returns (TTL x now k g)"
  unfolding TTL_def by (rule returns_bind, erule latestHit_returns) (auto intro!: returns_Some split: option.split)

lemma getForReadAt_returns: "mem_wf g \<Longrightarrow> returns (getForReadAt x now k seq g)"
  unfolding getForReadAt_def by (auto simp: Let_def BeginRead_def mem_wf_def intro!: returns_map getByAt_returns)

section \<open>Writes\<close>

lemma walWrite_wf: "mem_wf g \<Longrightarrow> mem_wf (snd (walWrite x op k v e seq g))"
  by (auto simp: walWrite_def mem_wf_def Let_def split: prod.split)

lemma vlogWrite_wf: "mem_wf g \<Longrightarrow> mem_wf (snd (vlogWrite x k v e g))"
  by (auto simp: vlogWrite_def mem_wf_def Let_def split: prod.split)

lemma recordValueSize_wf: "mem_wf g \<Longrightarrow> mem_wf (recordValueSize n g)"
  by (simp add: recordValueSize_def mem_wf_def)

lemma memPut_returns: "mem_wf g \<Longrightarrow> returnsState (memPut k v e seq g)"
proof -
  assume g: "mem_wf g"
  then have "sl_wf (g_memTable g)" by (simp add: mem_wf_def)
  then obtain m where "PutVersion (g_memTable g) k v e (of_nat seq) = Some m" "sl_wf m" using PutVersion_spec by blast
  then show ?thesis using g by (auto simp: memPut_def returnsState_def mem_wf_def)
qed

lemma memDelete_returns: "mem_wf g \<Longrightarrow> returnsState (memDelete k seq g)"
proof -
  assume g: "mem_wf g"
  then have "sl_wf (g_memTable g)" by (simp add: mem_wf_def)
  then obtain m where "DeleteVersion (g_memTable g) k (of_nat seq) = Some m" "sl_wf m" using DeleteVersion_spec by blast
  then show ?thesis using g by (auto simp: memDelete_def returnsState_def mem_wf_def)
qed

lemmas write_wf = walWrite_wf vlogWrite_wf recordValueSize_wf

lemma logStep_wf: "mem_wf g \<Longrightarrow> mem_wf (snd (logStep x th seq b g))"
proof -
  assume g: "mem_wf g"
  have w: "walWrite x op k v e seq g1 = (r, g2) \<Longrightarrow> mem_wf g1 \<Longrightarrow> mem_wf g2" for op k v e g1 r g2 using walWrite_wf [of g1 x op k v e seq] by simp
  have v: "vlogWrite x k v e g1 = (r, g2) \<Longrightarrow> mem_wf g1 \<Longrightarrow> mem_wf g2" for k v e g1 r g2 using vlogWrite_wf [of g1 x k v e] by simp
  show ?thesis using g
    by (auto simp: logStep_def Let_def intro: w v recordValueSize_wf walWrite_wf split: prod.split option.split sum.split)
qed

lemma logBatch_wf: "mem_wf g \<Longrightarrow> mem_wf (snd (logBatch x th seq bs g))"
proof (induction bs arbitrary: g)
  case (Cons b bs)
  obtain r g1 where r: "logStep x th seq b g = (r, g1)" by fastforce
  then have "mem_wf g1" using logStep_wf [OF Cons.prems, of x th seq b] by simp
  then have "mem_wf (snd (logBatch x th seq bs g1))" by (rule Cons.IH)
  then show ?case using r \<open>mem_wf g1\<close> unfolding logBatch_Cons by (auto split: sum.split prod.split)
qed simp

lemma applyResult_returns: "mem_wf g \<Longrightarrow> returnsState (applyResult seq r g)"
  by (cases r) (simp_all add: memPut_returns memDelete_returns)

lemma applyResults_returns: "mem_wf g \<Longrightarrow> returnsState (applyResults seq rs g)"
proof (induction rs arbitrary: g)
  case (Cons r rs)
  then show ?case by (simp add: returnsState_bind applyResult_returns)
qed (simp add: returnsState_def)

lemma applyBatch_returns: "mem_wf g \<Longrightarrow> returns (applyBatch x seq bs g)"
proof -
  assume g: "mem_wf g"
  obtain r g1 where r: "logBatch x (valueThreshold x g) seq bs g = (r, g1)" by fastforce
  then have "mem_wf g1" using logBatch_wf [OF g, of x "valueThreshold x g" seq bs] by simp
  then show ?thesis using r by (cases r) (auto simp: applyBatch_def mem_wf_def intro!: returns_Some returns_Pair applyResults_returns)
qed

lemma applyEntry_returns: "mem_wf g \<Longrightarrow> returns (applyEntry x op k v e seq g)"
proof -
  assume g: "mem_wf g"
  obtain r g1 where r: "logStep x (valueThreshold x g) seq (asBatch op k v e) g = (r, g1)" by fastforce
  then have "mem_wf g1" using logStep_wf [OF g, of x "valueThreshold x g" seq "asBatch op k v e"] by simp
  then show ?thesis using r by (cases r) (auto simp: applyEntry_logStep simp del: applyResults.simps intro!: returns_Some returns_Pair applyResults_returns)
qed

lemma applyEntryOpts_returns: "mem_wf g \<Longrightarrow> returns (applyEntryOpts x op k v e seq skip g)"
  by (auto simp: applyEntryOpts_def intro!: applyEntry_returns returns_Pair memDelete_returns memPut_returns recordValueSize_wf)

lemma processIncr_returns: "mem_wf g \<Longrightarrow> returns (processIncr x now k d seq g)"
  unfolding processIncr_entry
  by (rule returns_bind, erule TTL_returns)
    (auto intro!: returns_bind getForReadAt_returns returns_Some returns_map applyEntry_returns split: sum.split)

lemma gcRewrite_returns: "mem_wf g \<Longrightarrow> returns (gcRewrite x now r seq g)"
proof -
  assume g: "mem_wf g"
  have w: "walWrite x op k v e seq g1 = (r, g2) \<Longrightarrow> mem_wf g1 \<Longrightarrow> mem_wf g2" for op k v e g1 r g2 using walWrite_wf [of g1 x op k v e seq] by simp
  have v: "vlogWrite x k v e g1 = (r, g2) \<Longrightarrow> mem_wf g1 \<Longrightarrow> mem_wf g2" for k v e g1 r g2 using vlogWrite_wf [of g1 x k v e] by simp
  show ?thesis unfolding gcRewrite_def
    by (rule returns_bind, rule getWithoutLock_returns [OF g])
      (auto simp: Let_def intro!: returns_Some returns_Pair memPut_returns intro: w v split: sum.split prod.split)
qed

section \<open>Rotation, flush and clearing\<close>

lemma triggerFlush_wf:
  assumes g: "mem_wf g" and t: "triggerFlushLocked x g = (r, g1)"
  shows "mem_wf g1" "r = Inr task \<Longrightarrow> mem_wf (g1\<lparr>g_flushChan := g_flushChan g1 @ [task]\<rparr>)"
proof -
  obtain w where w: "OpenWal (x_reg (gx_lsm x)) (gx_walIv x (l_nextSeq (g_lsm g) + 1)) (w_syncOnWrite (g_wal g)) [] = Inr w" using OpenWal_new by blast
  show "mem_wf g1" using g t by (auto simp: triggerFlushLocked_def Let_def w mem_wf_def)
  show "mem_wf (g1\<lparr>g_flushChan := g_flushChan g1 @ [task]\<rparr>)" if "r = Inr task"
    using g t that by (auto simp: triggerFlushLocked_def Let_def w mem_wf_def)
qed

lemma flushBackpressure_wf: "mem_wf g \<Longrightarrow> mem_wf (flushBackpressure x g)"
proof -
  assume g: "mem_wf g"
  obtain r g1 where t: "triggerFlushLocked x g = (r, g1)" by fastforce
  note w = triggerFlush_wf [OF g t]
  show ?thesis using g w by (cases r) (simp_all add: flushBackpressure_def t)
qed

lemma flushWorkerStep_returns:
  assumes "mem_wf g" shows "returnsState (flushWorkerStep x now g)"
proof (cases "g_flushChan g")
  case (Cons task q)
  have g0: "mem_wf (g\<lparr>g_flushChan := q, g_immMemTable := None\<rparr>)" "sl_wf (ft_memTable task)" using assms Cons by (simp_all add: mem_wf_def)
  then show ?thesis using Cons
    by (auto simp: flushWorkerStep_def executeFlush_def AllVersions_def collect_all_entries returnsState_def mem_wf_def removeOldWal_def incFlush_def
        Let_def split: prod.split sum.split)
qed (use assms in \<open>simp add: flushWorkerStep_def returnsState_def\<close>)

lemma forceFlush_returns: "mem_wf g \<Longrightarrow> returns (forceFlush x now g)"
proof -
  assume g: "mem_wf g"
  have "returnsState (if g_immMemTable g = None then Some g else flushWorkerStep x now g)"
    using g flushWorkerStep_returns [OF g, of x now] by (simp add: returnsState_def)
  then obtain g1 where g1: "(if g_immMemTable g = None then Some g else flushWorkerStep x now g) = Some g1" "mem_wf g1" by (auto simp: returnsState_def)
  obtain r g2 where t: "triggerFlushLocked x g1 = (r, g2)" by fastforce
  note w = triggerFlush_wf [OF g1(2) t]
  show ?thesis unfolding forceFlush_def g1(1)
    using g1(2) w by (cases r) (auto simp: t intro!: returns_Some returns_Pair flushWorkerStep_returns)
qed

lemma clearInternal_wf: "mem_wf g \<Longrightarrow> mem_wf (snd (clearInternal x g))"
  by (auto simp: clearInternal_def mem_wf_def Let_def split: sum.split)

section \<open>Requests\<close>

lemma assignSeq_wf: "mem_wf g \<Longrightarrow> mem_wf (snd (assignSeq seq g))"
  by (simp add: assignSeq_def bumpSeq_def mem_wf_def split: prod.split)

lemma markApplied_wf: "mem_wf (markApplied seq g) = mem_wf g"
  by (simp add: markApplied_def mem_wf_def)

lemma dispatchIncr_returns: "mem_wf g \<Longrightarrow> returns (dispatchIncr x now r g)"
proof -
  assume g: "mem_wf g"
  obtain seq g1 where s: "assignSeq (r_seq r) g = (seq, g1)" by fastforce
  then have "mem_wf g1" using assignSeq_wf [OF g, of "r_seq r"] by simp
  then show ?thesis using g by (auto simp: dispatchIncr_def s markApplied_wf intro!: returns_Some returns_map processIncr_returns)
qed

lemma dispatch_returns:
  fixes g :: "'c engine"
  shows "mem_wf g \<Longrightarrow> returns (dispatch x now r g)"
proof -
  assume g: "mem_wf g"
  obtain seq g1 where s: "assignSeq (r_seq r) g = (seq, g1)" by fastforce
  then have g1: "mem_wf g1" using assignSeq_wf [OF g, of "r_seq r"] by simp
  have ex: "returns (if r_checkExists r then existsWithoutLock x now (r_key r) g1 else Some (True, g1))"
    using g1 by (simp add: existsWithoutLock_returns returns_Some)
  let ?reply = "\<lambda>(err, g2). ((0 :: i64, err :: engine_error option), markApplied seq g2)"
  have m: "returns m \<Longrightarrow> returns (map_option ?reply m)" for m :: "(engine_error option \<times> 'c engine) option"
    by (erule returns_map) (simp add: markApplied_wf)
  have cl: "returns (Some (?reply (clearInternal x g1)))"
    using clearInternal_wf [OF g1, of x] by (intro returns_Some) (auto simp: markApplied_wf split: prod.split)
  have full: "returns (Some ((0 :: i64, Some EngDiskFull), if r_seq r \<noteq> 0 then markApplied (r_seq r) g else g))"
    using g by (intro returns_Some) (simp add: markApplied_wf)
  have one: "returns (if existed then map_option (\<lambda>(err, g3). ((1 :: i64, err), markApplied seq g3))
      (applyEntryOpts x (r_op r) (r_key r) (r_val r) (r_expiresAt r) seq (r_skipWAL r) g2) else Some ((0, None), markApplied seq g2))"
    if "mem_wf g2" for existed g2
    using that by (auto simp: markApplied_wf intro!: returns_Some returns_map applyEntryOpts_returns)
  have entry: "returns (do { (existed, g2) \<leftarrow> (if r_checkExists r then existsWithoutLock x now (r_key r) g1 else Some (True, g1));
      if existed then map_option (\<lambda>(err, g3). ((1 :: i64, err), markApplied seq g3))
        (applyEntryOpts x (r_op r) (r_key r) (r_val r) (r_expiresAt r) seq (r_skipWAL r) g2)
      else Some ((0, None), markApplied seq g2) })"
    by (rule returns_bind [OF ex]) (use one in simp)
  have none: "returns (Some ((0 :: i64, None), markApplied seq g1))" using g1 by (intro returns_Some) (simp add: markApplied_wf)
  show ?thesis unfolding dispatch_def s Let_def prod.case
    by (rule returns_if [OF dispatchIncr_returns [OF g] returns_if [OF full returns_if [OF cl returns_if [OF m [OF forceFlush_returns [OF g1]]
          returns_if [OF m [OF applyBatch_returns [OF g1]] returns_if [OF m [OF gcRewrite_returns [OF g1]] returns_if [OF entry none]]]]]]])
qed

lemma dispatchAll_returns:
  "mem_wf g \<Longrightarrow> \<exists>results g1. dispatchAll x now batch g = Some (results, g1) \<and> length results = length batch \<and> mem_wf g1"
proof (induction batch arbitrary: g)
  case (Cons r rs)
  obtain res g1 where d: "dispatch x now r g = Some (res, g1)" "mem_wf g1" using dispatch_returns [OF Cons.prems, of x now r] by (auto simp: returns_def)
  obtain results g2 where "dispatchAll x now rs g1 = Some (results, g2)" "length results = length rs" "mem_wf g2" using Cons.IH [OF d(2)] by blast
  then show ?case using d(1) by simp
qed simp



end
