(* ===== verification/Spec2Isabelle.thy ===== *)
theory Spec2Isabelle
  imports Skiplist_Correct Bloom Encoding Oracle_Correct Txn_Correct Iterator Crypto Wal_Correct Cache Vlog_Correct LruCache SSTable_Props Manifest_Correct Tables Compaction_Props Glob Engine_Live
begin

text \<open>
  AkwaDB is a key-value store on a log-structured merge tree with multi-version concurrency control, at-rest encryption and a
  Redis protocol server.  This development models its storage engine, from the bytes of the files to the operations on keys.

  \<^bold>\<open>The parts and how they interact.\<close>  A write request is logged in the write-ahead log (\<open>wal/wal.go\<close>), long values go to the
  value log (\<open>vlog/vlog.go\<close>), and a version of the key joins the memtable (\<open>memtable/skiplist.go\<close>) under a timestamp of the oracle
  (\<open>oracle.go\<close>).  A full memtable is rotated together with its log and flushed into an SSTable (\<open>sstable/sstable.go\<close>, with
  \<open>bloom/bloom.go\<close>, \<open>cache/lru.go\<close> and \<open>internal/crypto\<close>); the manifest (\<open>engine_flush.go\<close>) records the tables of each level, and
  compaction (\<open>engine_compaction.go\<close>, over \<open>iterator/iterator.go\<close>) merges them.  Transactions (\<open>txn.go\<close>) run on the oracle.

  \<^bold>\<open>Shared theories.\<close>
  \<^item> \<open>Prelude\<close>: bytes, machine integers, big-endian fields, byte order.  \<open>Strconv\<close>: decimal numbers.  \<open>GoHeap\<close>:
    \<open>container/heap\<close> for an arbitrary order (locale \<open>go_heap\<close>).
  \<^item> \<open>Mvcc\<close>, \<open>Versions\<close>: entries with versions, the answer of a read at a timestamp, collections spread over tables; the locale
    \<open>version_table\<close> is the contract of a table of versions and is interpreted on the skip list.

  \<^bold>\<open>Components.\<close>  A theory named after a component holds its state and operations, one definition per function of the source;
  the theories with the suffixes \<open>_Correct\<close>, \<open>_Props\<close>, \<open>_Read\<close>, \<open>_Build\<close>, \<open>_Layout\<close> hold its lemmas and properties.
  \<^item> \<open>Skiplist\<close>: nodes in an explicit store.  Every operation ends and refines an operation on a sorted list of entries.
  \<^item> \<open>Bloom\<close>, \<open>Encoding\<close>, \<open>Glob\<close>, \<open>Threshold\<close>: the filter has no false negatives; storage keys are injective and ordered as
    intended, scores round-trip; the glob matcher decides what a pattern denotes; the threshold stays within its limits.
  \<^item> \<open>Oracle\<close>, \<open>Txn\<close>: conflict detection is exact although the history is trimmed, snapshots are complete, and transactions are
    serializable over every interleaving of their steps.
  \<^item> \<open>Iterator\<close>: the merging iterators, by the locale \<open>source_merge\<close> interpreted for both of them.
  \<^item> \<open>Crypto\<close>, \<open>Wal\<close>, \<open>Vlog\<close>: counter mode at offsets and the key registry; recovery of a log or segment after a torn write;
    values read back at their offsets; removal of a segment waits for its readers; group commit equals sequential writes.
  \<^item> \<open>Cache\<close>, \<open>LruCache\<close>: the sharded LRU cache refines a bounded list and keeps the interface \<open>block_cache\<close> of table reads.
  \<^item> \<open>Block\<close>, \<open>SSTable\<close>, \<open>Tables\<close>: created and reopened tables answer lookups, full reads, seeks and iterations as their
    entries do, through any block cache that keeps the interface.
  \<^item> \<open>Manifest\<close>: replay after a torn record.  \<open>Compaction\<close>, \<open>Lsm_Correct\<close>, \<open>Levels\<close>: compaction ends, keeps the invariant of the
    levels and changes no answer to a reader at or above the oldest active timestamp.
  \<^item> \<open>Engine\<close>: the record \<open>engine\<close> is the struct \<open>Engine\<close> of \<open>engine.go\<close>; point reads of \<open>engine_read.go\<close>, requests of
    \<open>engine_write.go\<close>, rotation and flush of \<open>engine_flush.go\<close>, stored values of \<open>engine_vlog.go\<close>.  \<open>Engine_Api\<close>: a round of the
    writer, the operations that submit requests, the expiry sweep and the collection of value log segments.  \<open>Recovery\<close>:
    opening and closing.
  \<^item> \<open>Engine_Values\<close>, \<open>Engine_Read\<close>, \<open>Engine_Write\<close>, \<open>Engine_Api_Correct\<close>, \<open>Engine_Flush\<close>, \<open>Engine_Ops\<close>: the invariant of the
    engine and that reads, writes, rotation and flush keep it.  \<open>Engine_Props\<close>: opened on an empty directory, every run of
    operations and flushes has the replies a map with expiries allows, a failed operation changing nothing.  \<open>Engine_Live\<close>: a round of the writer answers every request.

  \<^bold>\<open>Parameters.\<close>  AES, GCM, SHA-256, xxhash, maphash, the compressors, \<open>sort.Slice\<close>, the iteration order of Go maps, clocks,
  random seeds and IVs, and whether a sync succeeds are arguments; what is needed of them is a named hypothesis and the
  witnesses instantiate them.

  \<^bold>\<open>Bounds and fuel.\<close>  Walks over linked nodes run on fuel of one unit per node of the store and one more; under the structural
  invariant it is enough, which is proved with every operation.  Runs of the engine use at most \<open>2 ^ 31\<close> timestamps, so that
  neither the timestamps nor the numbers of files and segments overflow; keys and values are below \<open>2 ^ 32\<close> bytes, the entries of
  a batch for one key agree, and a flushed memtable is below \<open>2 ^ 27\<close> bytes with keys of at most 65535 bytes and the versions of
  each key in one restart interval, because the lookup of a block can miss versions otherwise.  Timestamps of the oracle are natural numbers.  Increments wrap at 64
  bits, as in the code.

  \<^bold>\<open>Not modelled.\<close>
  \<^item> The parallel writers, locks, the queue timeout, throttling by level 0 and the shutdown branches: requests are applied one
    after the other.  File system calls succeed; a crash keeps a prefix of a file.
  \<^item> Recovery of a non-empty directory is defined but only the empty one is the subject of a property; the parts it is made of
    (logs, value log, manifest, tables) have properties of their own.  The engine properties do not run compaction, clearing,
    the expiry sweep or value log collection; \<open>gcDiscardTs\<close> is a parameter of compaction.
  \<^item> Scans, snapshots and collections (\<open>engine_read.go\<close>, \<open>engine_collections.go\<close>) beyond their key encodings and glob matching;
    checkpoints beyond the forced flush, ingestion, archiving and restoring (\<open>checkpoint.go\<close>, \<open>ingest.go\<close>, \<open>archive.go\<close>,
    \<open>archive_s3.go\<close>, \<open>internal/pitr\<close>): mostly file copying and network I/O.
  \<^item> The server, replication, the Raft cluster, configuration and command line (\<open>server\<close>, \<open>cluster\<close>, \<open>config\<close>, \<open>cmd\<close>): network I/O
    around the engine.  The arena, the TinyLFU cache (a wrapper of a library), the directory lock and \<open>fsutil\<close>: memory reuse and
    system calls.
\<close>

end
